(* ===== verification/Prelude.thy ===== *)
theory Prelude
  imports Main "HOL-Library.Word"
begin

text \<open>
  Shared vocabulary of the development: the C integer types as machine words, C's \<open>&&\<close> on
  calls that change state, byte strings, and the generic lemmas on lists and words that the
  component theories use.
\<close>

unbundle bit_operations_syntax

section \<open>Types\<close>

text \<open>
  \<open>uint8_t\<close>, \<open>uint16_t\<close>, \<open>uint32_t\<close> and \<open>uint64_t\<close> are words of their width. \<open>int32_t\<close> is a
  32-bit word read with \<open>sint\<close>; the casts between \<open>int32_t\<close> and \<open>uint32_t\<close> of the source keep the
  bits, so both are the same type here. \<open>float\<close> and \<open>double\<close> are the bit patterns the code moves
  through its unions: no component computes with them. Sizes (\<open>size_t\<close>) are natural numbers; every
  place where the target's 32-bit \<open>size_t\<close> could wrap is written out or bounded by a theorem.
\<close>

type_synonym byte = "8 word"
type_synonym u16 = "16 word"
type_synonym u32 = "32 word"
type_synonym i32 = "32 word"
type_synonym u64 = "64 word"
type_synonym f32_bits = "32 word"
type_synonym f64_bits = "64 word"

section \<open>Rule collections\<close>

named_theorems fifo_simps \<open>what the queue operations do to the queued bytes\<close>
named_theorems sink_simps \<open>what the bounded writers append\<close>
named_theorems frame_rules \<open>fields an operation leaves alone\<close>

section \<open>C calls in a conjunction\<close>

text \<open>
  \<open>f(&s) && g(&s) && \<dots>\<close>: the calls run from left to right on the shared state and stop at the
  first that returns 0. The state they leave behind is the state after the last call made.
\<close>

fun c_all :: "('s \<Rightarrow> bool \<times> 's) list \<Rightarrow> 's \<Rightarrow> bool \<times> 's" where
  "c_all [] s = (True, s)"
| "c_all (f # fs) s = (case f s of (ok, s') \<Rightarrow> if ok then c_all fs s' else (False, s'))"

lemma c_all_append:
  "c_all (fs @ gs) s = (case c_all fs s of (ok, s') \<Rightarrow> if ok then c_all gs s' else (False, s'))"
  by (induction fs arbitrary: s) (auto split: prod.splits)

section \<open>Text as bytes\<close>

text \<open>A C string literal is the list of its bytes without the terminating zero.\<close>

definition str_bytes :: "string \<Rightarrow> byte list" where
  "str_bytes s = map of_char s"

lemma length_str_bytes [simp]: "length (str_bytes s) = length s"
  by (simp add: str_bytes_def)

lemma str_bytes_Nil [simp]: "str_bytes [] = []"
  by (simp add: str_bytes_def)

lemma str_bytes_Cons [simp]: "str_bytes (c # s) = of_char c # str_bytes s"
  by (simp add: str_bytes_def)

text \<open>The C string at the start of a \<open>char\<close> array: the bytes before the first zero.\<close>

definition c_str :: "byte list \<Rightarrow> byte list" where
  "c_str buf = takeWhile (\<lambda>b. b \<noteq> 0) buf"

lemma c_str_terminated: "0 \<notin> set bs \<Longrightarrow> c_str (bs @ 0 # rest) = bs"
  by (induction bs) (auto simp: c_str_def)

lemma length_c_str_le: "length (c_str (xs @ 0 # rest)) \<le> length xs"
  by (induction xs) (auto simp: c_str_def)

lemma c_str_id: "0 \<notin> set bs \<Longrightarrow> c_str bs = bs"
  by (induction bs) (auto simp: c_str_def)

lemma c_str_no_zero: "0 \<notin> set (c_str buf)"
  by (auto simp: c_str_def dest: set_takeWhileD)

section \<open>Lists\<close>

text \<open>\<open>memcpy(dst + i, src, n)\<close> with \<open>src\<close> the \<open>n\<close> bytes.\<close>

definition memcpy_at :: "byte list \<Rightarrow> nat \<Rightarrow> byte list \<Rightarrow> byte list" where
  "memcpy_at dst i src = take i dst @ src @ drop (i + length src) dst"

lemma memcpy_at_prefix:
  "take (length xs) dst = xs \<Longrightarrow> length xs \<le> length dst \<Longrightarrow>
   take (length xs + length ys) (memcpy_at dst (length xs) ys) = xs @ ys"
  by (simp add: memcpy_at_def)

lemma memcpy_at_start: "take (length xs) (memcpy_at dst 0 xs) = xs" "length xs \<le> length dst \<Longrightarrow> length (memcpy_at dst 0 xs) = length dst"
  by (simp_all add: memcpy_at_def)

lemma length_memcpy_at: "i + length src \<le> length dst \<Longrightarrow> length (memcpy_at dst i src) = length dst"
  by (simp add: memcpy_at_def)

lemma take_snoc_nth: "i < length xs \<Longrightarrow> take (Suc i) xs = take i xs @ [xs ! i]"
  by (rule take_Suc_conv_app_nth)

lemma take_list_update_snoc: "i < length xs \<Longrightarrow> take (Suc i) (xs[i := x]) = take i xs @ [x]"
  by (simp add: take_Suc_conv_app_nth)

lemma map_nth_shift: "map (\<lambda>i. f (i + k)) [a..<b] = map f [a + k..<b + k]"
proof (induction b)
  case (Suc b)
  then show ?case by (cases "a \<le> b") auto
qed simp

lemma upt_split: "i \<le> j \<Longrightarrow> j \<le> k \<Longrightarrow> [i..<k] = [i..<j] @ [j..<k]"
  by (metis le_add_diff_inverse upt_add_eq_append)

section \<open>Arithmetic\<close>

lemma mod_add_cancel_lt:
  fixes t :: nat
  assumes eq: "(t + i) mod c = (t + n) mod c" and "i < c" "n < c"
  shows "i = n"
proof (cases "i \<le> n")
  case True
  then have "c dvd (t + n) - (t + i)"
    using eq mod_eq_dvd_iff_nat [of "t + i" "t + n" c] by simp
  with True assms show ?thesis by (auto dest: dvd_imp_le)
next
  case False
  then have "c dvd (t + i) - (t + n)"
    using eq mod_eq_dvd_iff_nat [of "t + n" "t + i" c] by simp
  with False assms show ?thesis by (auto dest: dvd_imp_le)
qed

section \<open>Words\<close>

lemma unat_of_nat_id: "n < 2 ^ LENGTH('a::len) \<Longrightarrow> unat (of_nat n :: 'a word) = n"
  by (simp add: unat_of_nat)

lemma sint_of_nat_small:
  "n < 2 ^ 31 \<Longrightarrow> sint (of_nat n :: 32 word) = int n"
  by (simp add: signed_of_nat signed_take_bit_int_eq_self)

lemma sint_nonneg_unat: "0 \<le> sint (w :: 32 word) \<Longrightarrow> nat (sint w) = unat w"
proof -
  assume a: "0 \<le> sint w"
  then have nb: "\<not> bit (uint w) 31"
    by (simp add: sint_uint)
  have "take_bit 31 (uint w) = take_bit (Suc 31) (uint w)"
    using nb by (simp only: take_bit_Suc_from_most) simp
  also have "\<dots> = uint w"
    by (rule bintr_uint) simp
  finally have "take_bit 31 (uint w) = uint w" .
  with nb have "sint w = uint w"
    by (simp add: sint_uint signed_take_bit_eq_if_positive)
  then show ?thesis by simp
qed

lemma unat_lt_8: "unat (b :: byte) < 256"
  using unsigned_less [of b] by simp

lemma unat_lt_16: "unat (w :: u16) < 65536"
  using unsigned_less [of w] by simp

lemma unat_lt_32: "unat (w :: u32) < 4294967296"
  using unsigned_less [of w] by simp

lemma unat_lt_64: "unat (w :: u64) < 18446744073709551616"
  using unsigned_less [of w] by simp

text \<open>Little-endian 16-bit fields, as the link frames carry them.\<close>

definition u16_lo :: "u16 \<Rightarrow> byte" where
  "u16_lo w = ucast (w AND 0xff)"

definition u16_hi :: "u16 \<Rightarrow> byte" where
  "u16_hi w = ucast (drop_bit 8 w AND 0xff)"

definition u16_le :: "byte \<Rightarrow> byte \<Rightarrow> u16" where
  "u16_le lo hi = ucast lo OR push_bit 8 (ucast hi)"

lemma u16_le_lo_hi [simp]: "u16_le (u16_lo w) (u16_hi w) = w"
proof (rule bit_word_eqI)
  fix n assume n: "n < LENGTH(16)"
  have "bit (0xff :: u16) m = (m < 8)" if "m < 16" for m
    using that by (simp add: bit_numeral_rec less_Suc_eq numeral_eq_Suc) (auto simp: less_Suc_eq numeral_eq_Suc)
  then show "bit (u16_le (u16_lo w) (u16_hi w)) n = bit w n"
    using n by (auto simp: u16_le_def u16_lo_def u16_hi_def bit_or_iff bit_and_iff bit_ucast_iff
        bit_push_bit_iff bit_drop_bit_eq)
qed

section \<open>Self-delimiting codes\<close>

text \<open>
  Reading a byte stream item by item: \<open>dec\<close> returns the item at the front of the stream and the
  number of bytes it takes, or nothing when the front is not a complete item.
\<close>

function decode_stream :: "(byte list \<Rightarrow> ('v \<times> nat) option) \<Rightarrow> byte list \<Rightarrow> 'v list \<times> byte list" where
  "decode_stream dec bs =
     (case dec bs of
        None \<Rightarrow> ([], bs)
      | Some (v, n) \<Rightarrow>
          if n = 0 \<or> length bs < n then ([], bs)
          else case decode_stream dec (drop n bs) of (vs, rest) \<Rightarrow> (v # vs, rest))"
  by pat_completeness auto
termination
  by (relation "measure (\<lambda>(dec, bs). length bs)") auto

declare decode_stream.simps [simp del]

text \<open>
  The contract of a self-delimiting code on the values that satisfy \<open>ok\<close>: the decoder recovers a
  value from the front of any stream, and an encoding is never empty.
\<close>

locale prefix_code =
  fixes ok :: "'v \<Rightarrow> bool"
    and enc :: "'v \<Rightarrow> byte list"
    and dec :: "byte list \<Rightarrow> ('v \<times> nat) option"
  assumes dec_enc: "ok v \<Longrightarrow> dec (enc v @ rest) = Some (v, length (enc v))"
    and enc_ne: "ok v \<Longrightarrow> enc v \<noteq> []"
begin

lemma decode_stream_Cons:
  "ok v \<Longrightarrow> decode_stream dec (enc v @ rest) =
     (v # fst (decode_stream dec rest), snd (decode_stream dec rest))"
  by (subst decode_stream.simps) (simp add: dec_enc enc_ne split: prod.splits)

text \<open>A reader of a concatenation of encodings recovers exactly the encoded values, in order.\<close>

lemma decode_stream_concat:
  "list_all ok vs \<Longrightarrow> decode_stream dec (concat (map enc vs) @ rest) =
     (vs @ fst (decode_stream dec rest), snd (decode_stream dec rest))"
  by (induction vs) (simp_all add: decode_stream_Cons)

lemma decode_stream_all:
  assumes "list_all ok vs" "dec [] = None"
  shows "decode_stream dec (concat (map enc vs)) = (vs, [])"
proof -
  have "decode_stream dec [] = ([], [])"
    by (subst decode_stream.simps) (simp add: assms(2))
  then show ?thesis
    using decode_stream_concat [OF assms(1), of "[]"] by simp
qed

text \<open>So no two different sequences of values have the same encoding.\<close>

lemma enc_uniquely_decodable:
  assumes "list_all ok vs" "list_all ok ws" "dec [] = None"
    and "concat (map enc vs) = concat (map enc ws)"
  shows "vs = ws"
proof -
  have "(vs, []) = decode_stream dec (concat (map enc vs))"
    by (rule decode_stream_all [OF assms(1,3), symmetric])
  also have "\<dots> = (ws, [])"
    unfolding assms(4) by (rule decode_stream_all [OF assms(2,3)])
  finally show ?thesis by simp
qed

end

end
