(* ===== verification/Compat.thy ===== *)
theory Compat
  imports Prelude
begin

text \<open>
  The freestanding replacements of firmware/platform_compat.c for the routines the compiler emits
  calls to: \<open>memmove\<close> on one flat memory, where the ranges may overlap, and the 64-bit division of
  the 32-bit target. Memory is a list of bytes and a pointer an index into it.
\<close>

section \<open>Moving bytes\<close>

text \<open>\<open>while (n-- > 0u) *d++ = *s++;\<close>\<close>

fun copy_up :: "byte list \<Rightarrow> nat \<Rightarrow> nat \<Rightarrow> nat \<Rightarrow> byte list" where
  "copy_up mem d s 0 = mem"
| "copy_up mem d s (Suc n) = copy_up (mem[d := mem ! s]) (d + 1) (s + 1) n"

text \<open>\<open>while (n-- > 0u) *--d = *--s;\<close>\<close>

fun copy_down :: "byte list \<Rightarrow> nat \<Rightarrow> nat \<Rightarrow> nat \<Rightarrow> byte list" where
  "copy_down mem d s 0 = mem"
| "copy_down mem d s (Suc n) = copy_down (mem[d - 1 := mem ! (s - 1)]) (d - 1) (s - 1) n"

definition memmove :: "byte list \<Rightarrow> nat \<Rightarrow> nat \<Rightarrow> nat \<Rightarrow> nat \<times> byte list" where
  "memmove mem dest src n =
     (if dest = src \<or> n = 0 then (dest, mem)
      else if dest < src then (dest, copy_up mem dest src n)
      else (dest, copy_down mem (dest + n) (src + n) n))"

lemma length_copy [simp]: "length (copy_up mem d s n) = length mem" "length (copy_down mem d s n) = length mem"
  by (induction n arbitrary: mem d s) simp_all

lemma nth_copy_up:
  assumes "d < s" "s + n \<le> length mem" "i < length mem"
  shows "copy_up mem d s n ! i = (if d \<le> i \<and> i < d + n then mem ! (s + (i - d)) else mem ! i)"
  using assms
proof (induction n arbitrary: mem d s)
  case (Suc n)
  then have "copy_up (mem[d := mem ! s]) (d + 1) (s + 1) n ! i =
      (if d + 1 \<le> i \<and> i < d + 1 + n then mem[d := mem ! s] ! (s + 1 + (i - (d + 1))) else mem[d := mem ! s] ! i)"
    by (intro Suc.IH) auto
  moreover have "s + 1 + (i - (d + 1)) = s + (i - d)" if "d + 1 \<le> i" using that by simp
  ultimately show ?case
    using Suc.prems by (cases "i = d") (auto simp: nth_list_update Suc_le_eq)
qed auto

lemma nth_copy_down:
  assumes "s < d" "d + n \<le> length mem" "i < length mem"
  shows "copy_down mem (d + n) (s + n) n ! i = (if d \<le> i \<and> i < d + n then mem ! (s + (i - d)) else mem ! i)"
  using assms
proof (induction n arbitrary: mem)
  case (Suc n)
  then have "copy_down (mem[d + n := mem ! (s + n)]) (d + n) (s + n) n ! i =
      (if d \<le> i \<and> i < d + n then mem[d + n := mem ! (s + n)] ! (s + (i - d)) else mem[d + n := mem ! (s + n)] ! i)"
    by (intro Suc.IH) auto
  with Suc.prems show ?case
    by (cases "i = d + n") (auto simp: nth_list_update)
qed auto

lemma nth_memcpy_at:
  assumes "d + length src \<le> length mem" "i < length mem"
  shows "memcpy_at mem d src ! i = (if d \<le> i \<and> i < d + length src then src ! (i - d) else mem ! i)"
  using assms by (auto simp: memcpy_at_def nth_append min_def)

section \<open>Division of 64-bit numbers\<close>

text \<open>The \<open>for\<close> loop over the bits; \<open>bit\<close> counts the bits still to be brought down.\<close>

fun udivmod64_loop :: "nat \<Rightarrow> u64 \<Rightarrow> u64 \<Rightarrow> u64 \<Rightarrow> u64 \<Rightarrow> u64 \<times> u64" where
  "udivmod64_loop 0 dividend divisor rem quot = (quot, rem)"
| "udivmod64_loop (Suc b) dividend divisor rem quot =
     (let rem = push_bit 1 rem OR (drop_bit b dividend AND 1) in
      if divisor \<le> rem then udivmod64_loop b dividend divisor (rem - divisor) (quot OR push_bit b 1)
      else udivmod64_loop b dividend divisor rem quot)"

text \<open>The quotient, and the remainder the caller may ask for.\<close>

definition udivmod64 :: "u64 \<Rightarrow> u64 \<Rightarrow> u64 \<times> u64" where
  "udivmod64 dividend divisor =
     (if divisor = 0 then (- 1, dividend) else udivmod64_loop 64 dividend divisor 0 0)"

definition udivdi3 :: "u64 \<Rightarrow> u64 \<Rightarrow> u64" where
  "udivdi3 dividend divisor = fst (udivmod64 dividend divisor)"

definition umoddi3 :: "u64 \<Rightarrow> u64 \<Rightarrow> u64" where
  "umoddi3 dividend divisor = snd (udivmod64 dividend divisor)"

lemma nat_or_disjoint: "(k * 2 ^ Suc b :: nat) OR 2 ^ b = k * 2 ^ Suc b + 2 ^ b"
proof -
  have "(k * 2 ^ Suc b) OR 2 ^ b = push_bit b (2 * k OR 1)"
    using push_bit_or [of b "2 * k" 1] by (simp add: push_bit_eq_mult mult_ac del: One_nat_def)
  also have "2 * k OR 1 = 2 * k + (1::nat)" using or_one_eq [of "2 * k"] by simp
  finally show ?thesis by (simp add: push_bit_eq_mult algebra_simps)
qed

lemma bring_down:
  fixes a rem :: u64
  assumes "2 * unat rem + 1 < 2 ^ 64"
  shows "unat (push_bit 1 rem OR (drop_bit b a AND 1)) = 2 * unat rem + unat a div 2 ^ b mod 2"
proof -
  have "unat (push_bit 1 rem) = 2 * unat rem"
    using assms by (simp add: push_bit_eq_mult unat_word_ariths mult.commute)
  moreover have "unat (drop_bit b a AND 1) = unat (drop_bit b a) AND 1"
    by (simp only: unsigned_and_eq unsigned_1)
  then have "unat (drop_bit b a AND 1) = unat a div 2 ^ b mod 2"
    unfolding unsigned_drop_bit_eq unfolding and_one_eq drop_bit_eq_div
    using unsigned_less [of a, where 'a = nat] by (simp add: take_bit_nat_eq_self)
  ultimately have "unat (push_bit 1 rem OR (drop_bit b a AND 1)) = (2 * unat rem) OR (unat a div 2 ^ b mod 2)"
    by (simp add: unsigned_or_eq)
  also have "\<dots> = 2 * unat rem + unat a div 2 ^ b mod 2"
    using or_one_eq [of "2 * unat rem"] by (simp add: mod2_eq_if)
  finally show ?thesis .
qed


lemma long_division_step:
  fixes d e x :: nat
  assumes "0 < d" "e < 2"
  shows "(2 * x + e) div d = 2 * (x div d) + (if d \<le> 2 * (x mod d) + e then 1 else 0)" (is ?q)
    "(2 * x + e) mod d = 2 * (x mod d) + e - (if d \<le> 2 * (x mod d) + e then d else 0)" (is ?m)
proof -
  let ?r = "2 * (x mod d) + e"
  have "2 * (x div d * d + x mod d) + e = ?r + 2 * (x div d) * d"
    by (simp only: distrib_left mult.assoc add_ac)
  then have "2 * x + e = ?r + 2 * (x div d) * d" by (simp only: div_mult_mod_eq)
  then have "(2 * x + e) div d = 2 * (x div d) + ?r div d" "(2 * x + e) mod d = ?r mod d"
    using assms(1) by (simp_all only: div_mult_self1 mod_mult_self1 less_irrefl not_False_eq_True)
  moreover have "?r < 2 * d" using mod_less_divisor [OF assms(1), of x] assms(2) by linarith
  then have "?r div d = (if d \<le> ?r then 1 else 0)" "?r mod d = ?r - (if d \<le> ?r then d else 0)"
    by (simp_all add: div_nat_eqI mod_if [of ?r] )
  ultimately show ?q ?m by simp_all
qed

text \<open>With \<open>b\<close> bits left, quotient and remainder are those of the bits brought down so far.\<close>

lemma udivmod64_loop_correct:
  fixes a d :: u64
  assumes "b \<le> 64" "d \<noteq> 0" "unat rem = unat a div 2 ^ b mod unat d" "unat quot = unat a div 2 ^ b div unat d * 2 ^ b"
  shows "udivmod64_loop b a d rem quot = (a div d, a mod d)"
  using assms
proof (induction b arbitrary: rem quot)
  case 0
  then show ?case by (simp add: word_unat_eq_iff unat_div unat_mod)
next
  case (Suc b)
  let ?x = "unat a div 2 ^ Suc b" and ?y = "unat a div 2 ^ b" and ?d = "unat d"
  let ?r = "push_bit 1 rem OR (drop_bit b a AND 1)"
  have d: "0 < ?d" using Suc.prems(2) by (simp add: unat_gt_0)
  have y: "?y = 2 * ?x + ?y mod 2"
    using mult_div_mod_eq [of 2 ?y] by (simp add: power_Suc2 div_mult2_eq del: power_Suc)
  have "unat a < 2 ^ 64" using unsigned_less [of a] by simp
  also have "(2::nat) ^ 64 \<le> 2 ^ Suc b * 2 ^ 63" using Suc.prems(1) by simp
  finally have "?x < 2 ^ 63" by (simp add: less_mult_imp_div_less mult.commute)
  then have "2 * m + 1 < 2 ^ 64" if "m \<le> ?x" for m using that by simp
  then have "2 * unat rem + 1 < 2 ^ 64" unfolding Suc.prems(3) using mod_less_eq_dividend by blast
  then have r: "unat ?r = 2 * (?x mod ?d) + ?y mod 2"
    using bring_down [of rem b a] by (simp only: Suc.prems(3))
  note long = long_division_step [OF d, of "?y mod 2" ?x, folded y]
  have p: "unat (2 ^ b :: u64) = 2 ^ b"
    using Suc.prems(1) power_strict_increasing [of b 64 "2 :: nat"] unat_of_nat [of "2 ^ b", where 'a = 64]
    by (simp add: take_bit_nat_eq_self)
  show ?case
  proof (cases "d \<le> ?r")
    case True
    have "unat (quot OR push_bit b 1) = ?y div ?d * 2 ^ b"
      using Suc.prems(1,4) nat_or_disjoint [of "?x div ?d" b] True long(1) r
      by (simp add: unsigned_or_eq word_le_nat_alt p algebra_simps)
    moreover have "unat (?r - d) = ?y mod ?d"
      using True long(2) r by (simp add: unat_sub word_le_nat_alt)
    ultimately show ?thesis using Suc.IH [of "?r - d" "quot OR push_bit b 1"] Suc.prems(1,2) True by (simp add: Let_def)
  next
    case False
    then show ?thesis
      using Suc.IH [of ?r quot] Suc.prems long r by (simp add: Let_def word_le_nat_alt)
  qed
qed

section \<open>Properties\<close>

text \<open>\<open>memmove\<close> copies correctly however the two ranges overlap: it returns the destination and leaves
  there the bytes the source range held before the call, and every byte outside the destination is
  unchanged.\<close>

theorem memmove_overlap:
  assumes "dest + n \<le> length mem" "src + n \<le> length mem"
  shows "memmove mem dest src n = (dest, memcpy_at mem dest (take n (drop src mem)))"
proof -
  have len: "length (take n (drop src mem)) = n" using assms(2) by simp
  have "snd (memmove mem dest src n) = memcpy_at mem dest (take n (drop src mem))"
  proof (rule nth_equalityI)
    show "length (snd (memmove mem dest src n)) = length (memcpy_at mem dest (take n (drop src mem)))"
      using assms len by (simp add: memmove_def length_memcpy_at)
    fix i assume "i < length (snd (memmove mem dest src n))"
    then have i: "i < length mem" by (simp add: memmove_def split: if_splits)
    show "snd (memmove mem dest src n) ! i = memcpy_at mem dest (take n (drop src mem)) ! i"
      using assms len i
      by (auto simp: nth_memcpy_at memmove_def nth_copy_up nth_copy_down)
  qed
  moreover have "fst (memmove mem dest src n) = dest" by (simp add: memmove_def)
  ultimately show ?thesis by (simp add: prod_eq_iff)
qed

theorem memmove_overlap_witness:
  "memmove [1, 2, 3, 4, 5] 1 0 4 = (1, [1, 1, 2, 3, 4]) \<and> memmove [1, 2, 3, 4, 5] 0 1 4 = (0, [2, 3, 4, 5, 5])"
  using memmove_overlap [of 1 4 "[1, 2, 3, 4, 5]" 0] memmove_overlap [of 0 4 "[1, 2, 3, 4, 5]" 1]
  by (simp add: memcpy_at_def)

text \<open>C38: the shift-and-subtract division computes quotient and remainder of all 64-bit operands, with no
  overflow of the partial remainder even for divisors above \<open>2^63\<close>; dividing by zero gives the
  largest number and the dividend.\<close>

theorem udivmod64_correct:
  "udivdi3 dividend divisor = (if divisor = 0 then 0xffffffffffffffff else dividend div divisor) \<and>
   umoddi3 dividend divisor = (if divisor = 0 then dividend else dividend mod divisor)"
proof (cases "divisor = 0")
  case False
  have "unat (0 :: u64) = unat dividend div 2 ^ 64 mod unat divisor"
    "unat (0 :: u64) = unat dividend div 2 ^ 64 div unat divisor * 2 ^ 64"
    using unsigned_less [of dividend, where 'a = nat] by simp_all
  from udivmod64_loop_correct [OF order_refl False this] False show ?thesis
    by (simp add: udivdi3_def umoddi3_def udivmod64_def)
qed (simp add: udivdi3_def umoddi3_def udivmod64_def)

end
