(* ===== verification/LinkCodec.thy ===== *)
theory LinkCodec
  imports Prelude
begin

text \<open>
  The UART link v2 frame codec of core/src/mc_link.c: CRC16/CCITT-FALSE, the streaming COBS
  encoder, the COBS decoder, and the frame encoder and decoder built from them. The reference for
  the streaming encoder is the block-wise definition \<open>cobs_ref\<close> of COBS.
\<close>

unbundle bit_operations_syntax

section \<open>Constants and frames\<close>

abbreviation MC_LINK_VERSION :: byte where "MC_LINK_VERSION \<equiv> 2"
abbreviation MC_LINK_DELIMITER :: byte where "MC_LINK_DELIMITER \<equiv> 0"
abbreviation MC_LINK_BODY_HEADER_LEN :: nat where "MC_LINK_BODY_HEADER_LEN \<equiv> 9"
abbreviation MC_LINK_CRC_LEN :: nat where "MC_LINK_CRC_LEN \<equiv> 2"
abbreviation MC_LINK_MAX_ENCODED_LEN :: nat where "MC_LINK_MAX_ENCODED_LEN \<equiv> 512"
abbreviation MC_LINK_MAX_FRAME_LEN :: nat where "MC_LINK_MAX_FRAME_LEN \<equiv> 512"
abbreviation MC_LINK_MAX_PAYLOAD :: nat where "MC_LINK_MAX_PAYLOAD \<equiv> 497"
abbreviation MC_LINK_MAX_BODY_LEN :: nat where "MC_LINK_MAX_BODY_LEN \<equiv> 508"
abbreviation MC_LINK_MAX_ENCODED_WITHOUT_DELIMITER :: nat where
  "MC_LINK_MAX_ENCODED_WITHOUT_DELIMITER \<equiv> 511"

record mc_link_frame =
  fr_type :: byte
  fr_flags :: byte
  fr_seq :: u16
  fr_ack :: u16
  fr_len :: u16
  fr_payload :: "byte list"

section \<open>CRC16\<close>

text \<open>One pass of the inner loop, one byte of the outer loop, the whole loop.\<close>

definition crc16_bit :: "u16 \<Rightarrow> u16" where
  "crc16_bit crc =
     (if crc AND 0x8000 \<noteq> 0 then push_bit 1 crc XOR 0x1021 else push_bit 1 crc)"

definition crc16_byte :: "u16 \<Rightarrow> byte \<Rightarrow> u16" where
  "crc16_byte crc b = (crc16_bit ^^ 8) (crc XOR push_bit 8 (ucast b))"

definition crc16_update :: "u16 \<Rightarrow> byte list \<Rightarrow> u16" where
  "crc16_update crc src = foldl crc16_byte crc src"

definition mc_link_crc16 :: "byte list \<Rightarrow> u16" where
  "mc_link_crc16 src = crc16_update 0xffff src"

fun bytes_contain :: "byte \<Rightarrow> byte list \<Rightarrow> bool" where
  "bytes_contain needle [] = False"
| "bytes_contain needle (b # src) = (if b = needle then True else bytes_contain needle src)"

section \<open>The streaming COBS encoder\<close>

record cobs_stream_encoder =
  enc_dst :: "byte list"
  enc_dst_cap :: nat
  enc_write_index :: nat
  enc_code_index :: nat
  enc_code :: byte
  enc_block_open :: bool
  enc_trailing_zero_pending :: bool

definition cobs_stream_open_block :: "cobs_stream_encoder \<Rightarrow> bool \<times> cobs_stream_encoder" where
  "cobs_stream_open_block e =
     (if enc_dst_cap e \<le> enc_write_index e then (False, e)
      else (True, e\<lparr>enc_code_index := enc_write_index e, enc_write_index := enc_write_index e + 1,
                    enc_code := 1, enc_block_open := True, enc_trailing_zero_pending := False\<rparr>))"

definition cobs_stream_init :: "byte list \<Rightarrow> nat \<Rightarrow> cobs_stream_encoder option" where
  "cobs_stream_init dst dst_cap =
     (if dst_cap = 0 then None
      else Some \<lparr>enc_dst = dst, enc_dst_cap = dst_cap, enc_write_index = 0, enc_code_index = 0,
                 enc_code = 1, enc_block_open = False, enc_trailing_zero_pending = False\<rparr>)"

definition cobs_stream_write_byte :: "byte \<Rightarrow> cobs_stream_encoder \<Rightarrow> bool \<times> cobs_stream_encoder" where
  "cobs_stream_write_byte byte e0 =
     (case (if enc_block_open e0 then (True, e0) else cobs_stream_open_block e0) of
        (ok, e) \<Rightarrow>
          if \<not> ok then (False, e)
          else if byte = 0 then
            (True, e\<lparr>enc_dst := (enc_dst e)[enc_code_index e := enc_code e],
                     enc_block_open := False, enc_trailing_zero_pending := True\<rparr>)
          else if enc_dst_cap e \<le> enc_write_index e then (False, e)
          else let e = e\<lparr>enc_dst := (enc_dst e)[enc_write_index e := byte],
                         enc_write_index := enc_write_index e + 1, enc_code := enc_code e + 1\<rparr>
               in if enc_code e = 0xff then
                    (True, e\<lparr>enc_dst := (enc_dst e)[enc_code_index e := enc_code e],
                             enc_block_open := False, enc_trailing_zero_pending := False\<rparr>)
                  else (True, e))"

fun cobs_stream_write :: "byte list \<Rightarrow> cobs_stream_encoder \<Rightarrow> bool \<times> cobs_stream_encoder" where
  "cobs_stream_write [] e = (True, e)"
| "cobs_stream_write (b # src) e =
     (case cobs_stream_write_byte b e of
        (ok, e') \<Rightarrow> if ok then cobs_stream_write src e' else (False, e'))"

text \<open>On success the encoded length stored to \<open>dst_len\<close> is the encoder's \<open>write_index\<close>.\<close>

definition cobs_stream_finish :: "cobs_stream_encoder \<Rightarrow> bool \<times> cobs_stream_encoder" where
  "cobs_stream_finish e =
     (if enc_block_open e then
        (True, e\<lparr>enc_dst := (enc_dst e)[enc_code_index e := enc_code e]\<rparr>)
      else if enc_write_index e = 0 \<or> enc_trailing_zero_pending e then
        (case cobs_stream_open_block e of
           (ok, e') \<Rightarrow>
             if ok then (True, e'\<lparr>enc_dst := (enc_dst e')[enc_code_index e' := enc_code e']\<rparr>)
             else (False, e'))
      else (True, e))"

section \<open>The COBS decoder\<close>

text \<open>
  \<open>src\<close> is the input from \<open>read_index\<close> on, \<open>out\<close> the bytes stored so far (\<open>write_index\<close> of them)
  into a destination of \<open>dst_cap\<close> bytes.
\<close>

function cobs_decode_loop :: "byte list \<Rightarrow> byte list \<Rightarrow> nat \<Rightarrow> byte list option" where
  "cobs_decode_loop [] out dst_cap = Some out"
| "cobs_decode_loop (code # src) out dst_cap =
     (if code = 0 then None
      else let copy_len = unat (code - 1) in
        if length src < copy_len then None
        else if dst_cap < length out + copy_len then None
        else let out' = out @ take copy_len src; src' = drop copy_len src in
          if code \<noteq> 0xff \<and> src' \<noteq> [] then
            (if length out' = dst_cap then None else cobs_decode_loop src' (out' @ [0]) dst_cap)
          else cobs_decode_loop src' out' dst_cap)"
  by pat_completeness auto
termination
  by (relation "measure (\<lambda>(src, out, dst_cap). length src)") auto

declare cobs_decode_loop.simps(2) [simp del]

definition cobs_decode :: "byte list \<Rightarrow> nat \<Rightarrow> byte list option" where
  "cobs_decode src dst_cap = cobs_decode_loop src [] dst_cap"

section \<open>Frames\<close>

definition link_header :: "byte \<Rightarrow> u16 \<Rightarrow> u16 \<Rightarrow> nat \<Rightarrow> byte list" where
  "link_header type seq ack payload_len =
     [MC_LINK_VERSION, type, 0, u16_lo seq, u16_hi seq, u16_lo ack, u16_hi ack,
      u16_lo (of_nat payload_len), u16_hi (of_nat payload_len)]"

text \<open>
  \<open>out\<close> is the caller's buffer of \<open>out_cap\<close> bytes. \<open>None\<close> is the return value 0 (with \<open>*out_len\<close>
  set to 0); \<open>Some (n, out')\<close> is the return value 1 with \<open>*out_len = n\<close>.
\<close>

definition mc_link_encode ::
    "byte \<Rightarrow> u16 \<Rightarrow> u16 \<Rightarrow> byte list \<Rightarrow> byte list \<Rightarrow> nat \<Rightarrow> (nat \<times> byte list) option" where
  "mc_link_encode type seq ack payload out out_cap =
     (if MC_LINK_MAX_PAYLOAD < length payload then None
      else if out_cap = 0 then None
      else let header = link_header type seq ack (length payload);
               crc0 = crc16_update 0xffff header;
               crc = (if 0 < length payload then crc16_update crc0 payload else crc0);
               crc_bytes = [u16_lo crc, u16_hi crc]
           in case cobs_stream_init out (out_cap - 1) of
                None \<Rightarrow> None
              | Some encoder \<Rightarrow>
                  (case c_all [cobs_stream_write header, cobs_stream_write payload,
                               cobs_stream_write crc_bytes, cobs_stream_finish] encoder of
                     (ok, e) \<Rightarrow>
                       let encoded_len = enc_write_index e in
                       if \<not> ok then None
                       else if MC_LINK_MAX_ENCODED_WITHOUT_DELIMITER < encoded_len \<or>
                               out_cap < encoded_len + 1 then None
                       else Some (encoded_len + 1, (enc_dst e)[encoded_len := MC_LINK_DELIMITER])))"

text \<open>The checks on the decoded body, from the length test on.\<close>

definition decode_frame_body :: "byte list \<Rightarrow> mc_link_frame option" where
  "decode_frame_body body =
     (if length body < MC_LINK_BODY_HEADER_LEN + MC_LINK_CRC_LEN then None
      else if body ! 0 \<noteq> MC_LINK_VERSION then None
      else let payload_len = unat (u16_le (body ! 7) (body ! 8)) in
        if MC_LINK_MAX_PAYLOAD < payload_len then None
        else if length body \<noteq> MC_LINK_BODY_HEADER_LEN + payload_len + MC_LINK_CRC_LEN then None
        else let expected_crc = u16_le (body ! (MC_LINK_BODY_HEADER_LEN + payload_len))
                                       (body ! (MC_LINK_BODY_HEADER_LEN + payload_len + 1));
                 actual_crc = mc_link_crc16 (take (MC_LINK_BODY_HEADER_LEN + payload_len) body)
             in if actual_crc \<noteq> expected_crc then None
                else Some \<lparr>fr_type = body ! 1, fr_flags = body ! 2,
                           fr_seq = u16_le (body ! 3) (body ! 4),
                           fr_ack = u16_le (body ! 5) (body ! 6),
                           fr_len = of_nat payload_len,
                           fr_payload = take payload_len (drop MC_LINK_BODY_HEADER_LEN body)\<rparr>)"

definition decode_frame_with_scratch :: "byte list \<Rightarrow> nat \<Rightarrow> mc_link_frame option" where
  "decode_frame_with_scratch src body_cap =
     (if src = [] then None
      else if MC_LINK_MAX_ENCODED_LEN < length src \<or> src ! (length src - 1) \<noteq> MC_LINK_DELIMITER then None
      else let encoded_len = length src - 1 in
        if encoded_len = 0 \<or> MC_LINK_MAX_ENCODED_WITHOUT_DELIMITER < encoded_len then None
        else if bytes_contain MC_LINK_DELIMITER (take encoded_len src) then None
        else case cobs_decode (take encoded_len src) body_cap of
               None \<Rightarrow> None
             | Some body \<Rightarrow> decode_frame_body body)"

definition mc_link_decode_frame :: "byte list \<Rightarrow> mc_link_frame option" where
  "mc_link_decode_frame src = decode_frame_with_scratch src MC_LINK_MAX_BODY_LEN"

section \<open>Reference definition of COBS\<close>

text \<open>
  Block by block: at most 254 bytes up to the next zero, preceded by their number plus one. A
  block of 254 bytes stands for no zero; a shorter block stands for its bytes and one zero,
  except at the end of the message.
\<close>

definition cobs_block :: "byte list \<Rightarrow> byte list" where
  "cobs_block bs = takeWhile (\<lambda>b. b \<noteq> 0) (take 254 bs)"

function cobs_ref :: "byte list \<Rightarrow> byte list" where
  "cobs_ref bs =
     (let blk = cobs_block bs; rest = drop (length blk) bs; code = of_nat (length blk + 1) in
      if rest = [] then code # blk
      else if length blk = 254 then code # blk @ cobs_ref rest
      else code # blk @ cobs_ref (tl rest))"
  by pat_completeness auto
termination
  by (relation "measure length") auto

declare cobs_ref.simps [simp del]

lemma cobs_message_cases [case_names last zero full]:
  obtains "0 \<notin> set bs" "length bs \<le> 254"
  | blk rest where "bs = blk @ 0 # rest" "0 \<notin> set blk" "length blk < 254"
  | blk rest where "bs = blk @ rest" "0 \<notin> set blk" "length blk = 254" "rest \<noteq> []"
proof (cases "0 \<in> set (take 254 bs)")
  case True
  then obtain blk r where "take 254 bs = blk @ 0 # r" "0 \<notin> set blk"
    by (meson split_list_first)
  moreover from this have "length blk < 254"
    by (metis length_append length_Cons add_Suc_right le_imp_less_Suc length_take min.cobounded2
        le_add1 order_le_less_trans not_less_eq)
  moreover have "bs = take 254 bs @ drop 254 bs" by simp
  ultimately show ?thesis by (metis append_assoc append_Cons that(2))
next
  case False
  show ?thesis
  proof (cases "length bs \<le> 254")
    case True
    with False that(1) show ?thesis by simp
  next
    case long: False
    with False show ?thesis
      by (intro that(3) [of "take 254 bs" "drop 254 bs"]) auto
  qed
qed

lemma cobs_message_induct [case_names last zero full]:
  assumes "\<And>bs. 0 \<notin> set bs \<Longrightarrow> length bs \<le> 254 \<Longrightarrow> P bs"
    and "\<And>blk rest. 0 \<notin> set blk \<Longrightarrow> length blk < 254 \<Longrightarrow> P rest \<Longrightarrow> P (blk @ 0 # rest)"
    and "\<And>blk rest. 0 \<notin> set blk \<Longrightarrow> length blk = 254 \<Longrightarrow> rest \<noteq> [] \<Longrightarrow> P rest \<Longrightarrow> P (blk @ rest)"
  shows "P bs"
proof (induction bs rule: length_induct)
  case (1 bs)
  show ?case
  proof (cases bs rule: cobs_message_cases)
    case last
    then show ?thesis by (rule assms(1))
  next
    case (zero blk rest)
    with 1 show ?thesis by (auto intro: assms(2))
  next
    case (full blk rest)
    with 1 show ?thesis by (auto intro: assms(3))
  qed
qed

lemma cobs_block_prefix:
  assumes "0 \<notin> set blk"
  shows "length blk < 254 \<Longrightarrow> cobs_block (blk @ 0 # rest) = blk"
    "length blk \<le> 254 \<Longrightarrow> cobs_block blk = blk"
    "length blk = 254 \<Longrightarrow> cobs_block (blk @ rest) = blk"
proof -
  have tw: "takeWhile (\<lambda>b. b \<noteq> 0) blk = blk"
    using assms by (auto simp: takeWhile_eq_all_conv)
  show "length blk < 254 \<Longrightarrow> cobs_block (blk @ 0 # rest) = blk"
  proof -
    assume "length blk < 254"
    then have "take 254 (blk @ 0 # rest) = blk @ 0 # take (253 - length blk) rest"
      by (simp add: take_Cons')
    then show ?thesis using tw assms by (auto simp: cobs_block_def takeWhile_append)
  qed
  show "length blk \<le> 254 \<Longrightarrow> cobs_block blk = blk"
    using tw by (simp add: cobs_block_def)
  show "length blk = 254 \<Longrightarrow> cobs_block (blk @ rest) = blk"
    using tw by (simp add: cobs_block_def)
qed

lemma cobs_ref_last:
  "0 \<notin> set bs \<Longrightarrow> length bs \<le> 254 \<Longrightarrow> cobs_ref bs = of_nat (length bs + 1) # bs"
  by (subst cobs_ref.simps) (simp add: cobs_block_prefix Let_def)

lemma cobs_ref_zero:
  "0 \<notin> set blk \<Longrightarrow> length blk < 254 \<Longrightarrow>
   cobs_ref (blk @ 0 # rest) = of_nat (length blk + 1) # blk @ cobs_ref rest"
  by (subst cobs_ref.simps) (simp add: cobs_block_prefix Let_def)

lemma cobs_ref_full:
  "0 \<notin> set blk \<Longrightarrow> length blk = 254 \<Longrightarrow> rest \<noteq> [] \<Longrightarrow>
   cobs_ref (blk @ rest) = 0xff # blk @ cobs_ref rest"
  by (subst cobs_ref.simps) (simp add: cobs_block_prefix Let_def)

lemmas cobs_ref_eqs = cobs_ref_last cobs_ref_zero cobs_ref_full

lemma unat_cobs_code: "n < 255 \<Longrightarrow> unat (of_nat (n + 1) :: byte) = n + 1"
  by (rule unat_of_nat_id) simp

lemma cobs_code_ne_0: "n < 255 \<Longrightarrow> (of_nat (n + 1) :: byte) \<noteq> 0"
  using unat_cobs_code [of n] by auto

lemma cobs_copy_len: "n < 255 \<Longrightarrow> unat ((of_nat (n + 1) :: byte) - 1) = n"
  by (simp add: unat_of_nat_id)

lemma cobs_code_ff: "n < 255 \<Longrightarrow> (of_nat (n + 1) :: byte) = 0xff \<longleftrightarrow> n = 254"
  using unat_cobs_code [of n] by (auto simp: word_unat_eq_iff)

lemma cobs_ref_ne: "cobs_ref bs \<noteq> []"
  by (subst cobs_ref.simps) (simp add: Let_def)

lemma cobs_ref_no_zero: "0 \<notin> set (cobs_ref bs)"
proof (induction bs rule: cobs_message_induct)
  case (last bs)
  then show ?case using cobs_code_ne_0 [of "length bs"] by (simp add: cobs_ref_eqs)
next
  case (zero blk rest)
  then show ?case using cobs_code_ne_0 [of "length blk"] by (simp add: cobs_ref_eqs)
next
  case (full blk rest)
  then show ?case by (simp add: cobs_ref_eqs)
qed

text \<open>The overhead: one byte, and one more for every 254 bytes of message.\<close>

lemma cobs_ref_length: "length (cobs_ref bs) \<le> length bs + 1 + length bs div 254"
proof (induction bs rule: cobs_message_induct)
  case (last bs)
  then show ?case by (simp add: cobs_ref_eqs)
next
  case (zero blk rest)
  have "length rest div 254 \<le> (length blk + Suc (length rest)) div 254"
    by (rule div_le_mono) simp
  with zero show ?case by (simp add: cobs_ref_eqs)
next
  case (full blk rest)
  then show ?case by (simp add: cobs_ref_eqs)
qed

text \<open>Decoding a COBS message gives the message back.\<close>

lemma cobs_decode_loop_block:
  assumes "n = length blk" "n < 255" "length out + n \<le> cap"
  shows "cobs_decode_loop (of_nat (n + 1) # blk @ src) out cap =
    (if n \<noteq> 254 \<and> src \<noteq> [] then
       (if length out + n = cap then None else cobs_decode_loop src (out @ blk @ [0]) cap)
     else cobs_decode_loop src (out @ blk) cap)"
  using assms cobs_code_ne_0 [of n] cobs_copy_len [of n] cobs_code_ff [of n]
  by (simp add: cobs_decode_loop.simps(2) Let_def del: of_nat_add of_nat_Suc)

lemma cobs_decode_loop_ref:
  "length out + length bs \<le> cap \<Longrightarrow> cobs_decode_loop (cobs_ref bs) out cap = Some (out @ bs)"
proof (induction bs arbitrary: out rule: cobs_message_induct)
  case (last bs)
  then show ?case
    using cobs_decode_loop_block [of "length bs" bs out cap "[]"]
    by (simp add: cobs_ref_eqs del: of_nat_add of_nat_Suc)
next
  case (zero blk rest)
  then show ?case
    using cobs_decode_loop_block [of "length blk" blk out cap "cobs_ref rest"]
    by (simp add: cobs_ref_eqs cobs_ref_ne del: of_nat_add of_nat_Suc)
next
  case (full blk rest)
  then show ?case
    using cobs_decode_loop_block [of 254 blk out cap "cobs_ref rest"]
    by (simp add: cobs_ref_eqs)
qed

lemma cobs_decode_ref: "length bs \<le> cap \<Longrightarrow> cobs_decode (cobs_ref bs) cap = Some bs"
  by (simp add: cobs_decode_def cobs_decode_loop_ref)

section \<open>The streaming encoder computes the reference\<close>

text \<open>
  The encoder's progress: the finished output, the bytes of the open block, and whether the last
  byte written was a zero. \<open>abs_finish\<close> is the output if the message ends here.
\<close>

type_synonym cobs_progress = "byte list \<times> byte list option \<times> bool"

fun abs_write :: "cobs_progress \<Rightarrow> byte \<Rightarrow> cobs_progress" where
  "abs_write (out, blk, tz) b =
     (let blk = (case blk of None \<Rightarrow> [] | Some blk \<Rightarrow> blk) in
      if b = 0 then (out @ of_nat (length blk + 1) # blk, None, True)
      else if length blk = 253 then (out @ 0xff # blk @ [b], None, False)
      else (out, Some (blk @ [b]), False))"

fun abs_finish :: "cobs_progress \<Rightarrow> byte list" where
  "abs_finish (out, Some blk, tz) = out @ of_nat (length blk + 1) # blk"
| "abs_finish (out, None, tz) = (if out = [] \<or> tz then out @ [1] else out)"

fun progress_ok :: "cobs_progress \<Rightarrow> bool" where
  "progress_ok (out, Some blk, tz) \<longleftrightarrow> 0 \<notin> set blk \<and> length blk < 254"
| "progress_ok (out, None, tz) \<longleftrightarrow> (out = [] \<longrightarrow> \<not> tz)"

fun progress_len :: "cobs_progress \<Rightarrow> nat" where
  "progress_len (out, Some blk, tz) = length out + 1 + length blk"
| "progress_len (out, None, tz) = length out"

lemma abs_write_ok: "progress_ok p \<Longrightarrow> progress_ok (abs_write p b)"
  by (cases p rule: progress_ok.cases) (auto simp: Let_def split: option.splits)

lemma abs_run_finish:
  "progress_ok p \<Longrightarrow> abs_finish (foldl abs_write p bs) =
    (case p of (out, Some blk, tz) \<Rightarrow> out @ cobs_ref (blk @ bs)
     | (out, None, tz) \<Rightarrow> if bs = [] \<and> \<not> tz \<and> out \<noteq> [] then out else out @ cobs_ref bs)"
proof (induction bs arbitrary: p)
  case Nil
  then show ?case
    by (cases p rule: progress_ok.cases) (auto simp: cobs_ref_last)
next
  case (Cons b bs)
  obtain out blk tz where p: "p = (out, blk, tz)" by (cases p)
  define B where "B = (case blk of None \<Rightarrow> [] | Some blk \<Rightarrow> blk)"
  have B: "0 \<notin> set B" "length B < 254"
    using Cons.prems p by (auto simp: B_def split: option.splits)
  have aw: "abs_write p b = (if b = 0 then (out @ of_nat (length B + 1) # B, None, True)
      else if length B = 253 then (out @ 0xff # B @ [b], None, False) else (out, Some (B @ [b]), False))"
    by (simp add: p B_def Let_def)
  note IH = Cons.IH [OF abs_write_ok [OF Cons.prems, of b]]
  have goal: "abs_finish (foldl abs_write (abs_write p b) bs) = out @ cobs_ref (B @ b # bs)"
  proof (cases "b \<noteq> 0 \<and> length B = 253")
    case True
    then have "cobs_ref (B @ b # bs) = 0xff # (B @ [b]) @ (if bs = [] then [] else cobs_ref bs)"
      using B cobs_ref_full [of "B @ [b]" bs] cobs_ref_last [of "B @ [b]"] by simp
    with IH True show ?thesis unfolding aw by simp
  next
    case False
    then show ?thesis
      using IH B unfolding aw by (cases "b = 0") (simp_all add: cobs_ref_zero)
  qed
  show ?case using goal by (cases blk) (simp_all add: p B_def)
qed

lemma abs_run_init: "abs_finish (foldl abs_write ([], None, False) bs) = cobs_ref bs"
  using abs_run_finish [of "([], None, False)" bs] by simp

lemma progress_len_mono: "progress_ok p \<Longrightarrow> progress_len p \<le> progress_len (abs_write p b)"
  by (cases p rule: progress_ok.cases) (auto simp: Let_def)

lemma progress_len_run_mono:
  "progress_ok p \<Longrightarrow> progress_len p \<le> progress_len (foldl abs_write p bs)"
proof (induction bs arbitrary: p)
  case (Cons b bs)
  then show ?case
    using progress_len_mono [of p b] abs_write_ok [of p b] by (force dest: Cons.IH)
qed simp

lemma progress_len_finish: "progress_len p \<le> length (abs_finish p)"
  by (cases p rule: progress_ok.cases) auto

text \<open>How the encoder's buffer and counters represent the progress.\<close>

fun enc_repr :: "cobs_stream_encoder \<Rightarrow> cobs_progress \<Rightarrow> bool" where
  "enc_repr e (out, blk, tz) \<longleftrightarrow>
     enc_dst_cap e \<le> length (enc_dst e) \<and> enc_write_index e \<le> enc_dst_cap e \<and>
     enc_write_index e = progress_len (out, blk, tz) \<and>
     (case blk of
        None \<Rightarrow> \<not> enc_block_open e \<and> take (enc_write_index e) (enc_dst e) = out \<and>
                enc_trailing_zero_pending e = tz
      | Some b \<Rightarrow> enc_block_open e \<and> enc_code_index e = length out \<and>
                  enc_code e = of_nat (length b + 1) \<and>
                  (\<exists>c. take (enc_write_index e) (enc_dst e) = out @ c # b))"

lemma enc_open_repr:
  assumes "enc_repr e (out, None, tz)" "enc_write_index e < enc_dst_cap e"
  shows "cobs_stream_open_block e = (True, snd (cobs_stream_open_block e))"
    "enc_repr (snd (cobs_stream_open_block e)) (out, Some [], False)"
    "enc_dst_cap (snd (cobs_stream_open_block e)) = enc_dst_cap e"
  using assms by (auto simp: cobs_stream_open_block_def take_Suc_conv_app_nth)

lemma enc_close_block:
  assumes "take n dst = out @ c # b"
  shows "take n (dst[length out := d]) = out @ d # b"
  by (simp add: take_update_swap assms)

text \<open>Writing a byte into an open block.\<close>

lemma enc_write_open:
  assumes r: "enc_repr e (out, Some blk, tz)" and ok: "progress_ok (out, Some blk, tz)"
  shows "fst (cobs_stream_write_byte b e) =
      (progress_len (abs_write (out, Some blk, tz) b) \<le> enc_dst_cap e)"
    "fst (cobs_stream_write_byte b e) \<Longrightarrow>
      enc_repr (snd (cobs_stream_write_byte b e)) (abs_write (out, Some blk, tz) b) \<and>
      enc_dst_cap (snd (cobs_stream_write_byte b e)) = enc_dst_cap e"
proof -
  let ?w = "enc_write_index e"
  from r obtain c where w: "?w = length out + Suc (length blk)" "?w \<le> enc_dst_cap e"
      "enc_dst_cap e \<le> length (enc_dst e)" "enc_code_index e = length out" "enc_block_open e"
      "enc_code e = of_nat (length blk + 1)"
    and t: "take ?w (enc_dst e) = out @ c # blk"
    by auto
  have code: "(enc_code e + 1 = 0xff) = (length blk = 253)"
    using ok cobs_code_ff [of "length blk + 1"] w(6) by (simp add: add.commute)
  have t': "take (Suc ?w) ((enc_dst e)[?w := b]) = out @ c # blk @ [b]" if "?w < enc_dst_cap e"
    using that w t by (simp add: take_list_update_snoc)
  show "fst (cobs_stream_write_byte b e) = (progress_len (abs_write (out, Some blk, tz) b) \<le> enc_dst_cap e)"
    using w code by (auto simp: cobs_stream_write_byte_def Let_def)
  show "enc_repr (snd (cobs_stream_write_byte b e)) (abs_write (out, Some blk, tz) b) \<and>
      enc_dst_cap (snd (cobs_stream_write_byte b e)) = enc_dst_cap e"
    if ok': "fst (cobs_stream_write_byte b e)"
  proof (cases "b = 0")
    case True
    then show ?thesis
      using w t enc_close_block [OF t] by (auto simp: cobs_stream_write_byte_def)
  next
    case False
    with ok' w have lt: "?w < enc_dst_cap e"
      by (auto simp: cobs_stream_write_byte_def Let_def split: if_splits)
    show ?thesis
    proof (cases "length blk = 253")
      case True
      then show ?thesis
        using False w lt code t' [OF lt] enc_close_block [OF t' [OF lt], where d = "0xff"]
        by (simp add: cobs_stream_write_byte_def Let_def)
    next
      case False
      then show ?thesis
        using \<open>b \<noteq> 0\<close> w lt code t' [OF lt]
        by (simp add: cobs_stream_write_byte_def Let_def)
    qed
  qed
qed

lemma enc_write_closed_open:
  assumes "\<not> enc_block_open e" "cobs_stream_open_block e = (True, e')"
  shows "cobs_stream_write_byte b e = cobs_stream_write_byte b e'"
  using assms
  by (auto simp: cobs_stream_write_byte_def cobs_stream_open_block_def split: if_splits)

lemma abs_write_None: "abs_write (out, None, tz) b = abs_write (out, Some [], tz') b"
  by simp

text \<open>One byte: the call succeeds exactly when the output still fits, and keeps the representation.\<close>

lemma cobs_stream_write_byte_repr:
  assumes r: "enc_repr e p" and ok: "progress_ok p"
  shows "fst (cobs_stream_write_byte b e) = (progress_len (abs_write p b) \<le> enc_dst_cap e)"
    "fst (cobs_stream_write_byte b e) \<Longrightarrow>
      enc_repr (snd (cobs_stream_write_byte b e)) (abs_write p b) \<and>
      enc_dst_cap (snd (cobs_stream_write_byte b e)) = enc_dst_cap e"
proof -
  obtain out blk tz where p: "p = (out, blk, tz)" by (cases p)
  have both: "fst (cobs_stream_write_byte b e) = (progress_len (abs_write p b) \<le> enc_dst_cap e) \<and>
    (fst (cobs_stream_write_byte b e) \<longrightarrow>
      enc_repr (snd (cobs_stream_write_byte b e)) (abs_write p b) \<and>
      enc_dst_cap (snd (cobs_stream_write_byte b e)) = enc_dst_cap e)"
  proof (cases blk)
    case (Some bl)
    then show ?thesis
      using enc_write_open [OF r [unfolded p Some] ok [unfolded p Some], of b] unfolding p Some by blast
  next
    case None
    show ?thesis
    proof (cases "enc_write_index e < enc_dst_cap e")
      case True
      note op = enc_open_repr [OF r [unfolded p None] True]
      let ?e = "snd (cobs_stream_open_block e)"
      have "cobs_stream_write_byte b e = cobs_stream_write_byte b ?e"
        using r None p op(1) by (intro enc_write_closed_open) auto
      then show ?thesis
        using enc_write_open [OF op(2), of b] op(3) abs_write_None [of out tz b False]
        unfolding p None by (simp del: abs_write.simps enc_repr.simps)
    next
      case False
      then show ?thesis
        using r None p by (auto simp: cobs_stream_write_byte_def cobs_stream_open_block_def Let_def)
    qed
  qed
  then show "fst (cobs_stream_write_byte b e) = (progress_len (abs_write p b) \<le> enc_dst_cap e)"
    "fst (cobs_stream_write_byte b e) \<Longrightarrow>
      enc_repr (snd (cobs_stream_write_byte b e)) (abs_write p b) \<and>
      enc_dst_cap (snd (cobs_stream_write_byte b e)) = enc_dst_cap e"
    by blast+
qed

lemma progress_ok_run: "progress_ok p \<Longrightarrow> progress_ok (foldl abs_write p bs)"
  by (induction bs arbitrary: p) (auto simp: abs_write_ok simp del: abs_write.simps)

lemma cobs_stream_write_repr:
  assumes "enc_repr e p" "progress_ok p"
  shows "fst (cobs_stream_write bs e) = (progress_len (foldl abs_write p bs) \<le> enc_dst_cap e) \<and>
    (fst (cobs_stream_write bs e) \<longrightarrow>
      enc_repr (snd (cobs_stream_write bs e)) (foldl abs_write p bs) \<and>
      enc_dst_cap (snd (cobs_stream_write bs e)) = enc_dst_cap e)"
  using assms
proof (induction bs arbitrary: e p)
  case Nil
  then show ?case by (cases p) auto
next
  case (Cons b bs)
  note w = cobs_stream_write_byte_repr [OF Cons.prems, of b]
  note ok = abs_write_ok [OF Cons.prems(2), of b]
  show ?case
  proof (cases "fst (cobs_stream_write_byte b e)")
    case True
    with Cons.IH [OF _ ok] w(2) show ?thesis
      by (auto split: prod.splits simp del: abs_write.simps)
  next
    case False
    with w(1) progress_len_run_mono [OF ok, of bs] show ?thesis
      by (auto split: prod.splits simp del: abs_write.simps)
  qed
qed

lemma cobs_stream_finish_repr:
  assumes "enc_repr e p" "progress_ok p"
  shows "fst (cobs_stream_finish e) = (length (abs_finish p) \<le> enc_dst_cap e) \<and>
    (fst (cobs_stream_finish e) \<longrightarrow>
      take (enc_write_index (snd (cobs_stream_finish e))) (enc_dst (snd (cobs_stream_finish e))) = abs_finish p \<and>
      enc_write_index (snd (cobs_stream_finish e)) = length (abs_finish p) \<and>
      enc_dst_cap e \<le> length (enc_dst (snd (cobs_stream_finish e))))"
proof (cases p rule: abs_finish.cases)
  case (1 out blk tz)
  with assms obtain c where t: "take (enc_write_index e) (enc_dst e) = out @ c # blk" by auto
  show ?thesis
    using assms 1 enc_close_block [OF t] by (simp add: cobs_stream_finish_def)
next
  case (2 out tz)
  have "enc_dst_cap e \<le> length (enc_dst e)" using assms 2 by simp
  then have "enc_write_index e < enc_dst_cap e \<Longrightarrow>
      take (Suc (enc_write_index e)) ((enc_dst e)[enc_write_index e := 1]) =
      take (enc_write_index e) (enc_dst e) @ [1]"
    by (intro take_list_update_snoc) linarith
  with 2 show ?thesis
    using assms by (auto simp: cobs_stream_finish_def cobs_stream_open_block_def)
qed

lemma cobs_stream_write_append:
  "cobs_stream_write (xs @ ys) e =
    (case cobs_stream_write xs e of (ok, e') \<Rightarrow> if ok then cobs_stream_write ys e' else (False, e'))"
  by (induction xs arbitrary: e) (auto split: prod.splits)

text \<open>The whole encoder: it succeeds exactly when the COBS encoding fits the buffer.\<close>

lemma cobs_stream_run:
  assumes "cobs_stream_init dst cap = Some e" "cap \<le> length dst"
  shows "fst (c_all [cobs_stream_write bs, cobs_stream_finish] e) = (length (cobs_ref bs) \<le> cap) \<and>
    (fst (c_all [cobs_stream_write bs, cobs_stream_finish] e) \<longrightarrow>
      (let e' = snd (c_all [cobs_stream_write bs, cobs_stream_finish] e) in
       take (length (cobs_ref bs)) (enc_dst e') = cobs_ref bs \<and>
       enc_write_index e' = length (cobs_ref bs) \<and> cap \<le> length (enc_dst e')))"
proof -
  let ?p = "foldl abs_write ([], None, False) bs"
  have e: "enc_repr e ([], None, False)" "enc_dst_cap e = cap"
    using assms by (auto simp: cobs_stream_init_def split: if_splits)
  have ok: "progress_ok ([], None, False)" by simp
  note w = cobs_stream_write_repr [OF e(1) ok, of bs]
  show ?thesis
  proof (cases "fst (cobs_stream_write bs e)")
    case True
    with w have r: "enc_repr (snd (cobs_stream_write bs e)) ?p"
        "enc_dst_cap (snd (cobs_stream_write bs e)) = cap"
      by (simp_all add: e(2))
    from cobs_stream_finish_repr [OF r(1) progress_ok_run [OF ok]] True r(2) show ?thesis
      by (auto simp: abs_run_init Let_def split: prod.splits)
  next
    case False
    with w e(2) have "cap < progress_len ?p" by simp
    with progress_len_finish [of ?p] have "cap < length (cobs_ref bs)"
      by (simp add: abs_run_init)
    with False show ?thesis by (auto split: prod.splits)
  qed
qed

section \<open>Encoded frames\<close>

definition link_body :: "byte \<Rightarrow> u16 \<Rightarrow> u16 \<Rightarrow> byte list \<Rightarrow> byte list" where
  "link_body type seq ack payload =
     (let hp = link_header type seq ack (length payload) @ payload; crc = mc_link_crc16 hp
      in hp @ [u16_lo crc, u16_hi crc])"

definition link_frame_bytes :: "byte \<Rightarrow> u16 \<Rightarrow> u16 \<Rightarrow> byte list \<Rightarrow> byte list" where
  "link_frame_bytes type seq ack payload = cobs_ref (link_body type seq ack payload) @ [MC_LINK_DELIMITER]"

lemma length_link_header [simp]: "length (link_header type seq ack n) = 9"
  by (simp add: link_header_def)

lemma length_link_body [simp]: "length (link_body type seq ack payload) = 11 + length payload"
  by (simp add: link_body_def Let_def)

lemma crc16_update_append: "crc16_update crc (xs @ ys) = crc16_update (crc16_update crc xs) ys"
  by (simp add: crc16_update_def)

lemma cobs_stream_write_3:
  "c_all [cobs_stream_write xs, cobs_stream_write ys, cobs_stream_write zs, f] e =
   c_all [cobs_stream_write (xs @ ys @ zs), f] e"
  by (auto simp: cobs_stream_write_append split: prod.splits)

lemma link_frame_length:
  "length payload \<le> MC_LINK_MAX_PAYLOAD \<Longrightarrow>
   length (link_frame_bytes type seq ack payload) \<le> MC_LINK_MAX_FRAME_LEN"
proof -
  assume "length payload \<le> 497"
  then have "(11 + length payload) div 254 \<le> 508 div 254"
    by (intro div_le_mono) simp
  with cobs_ref_length [of "link_body type seq ack payload"] \<open>length payload \<le> 497\<close>
  show ?thesis by (simp add: link_frame_bytes_def)
qed

lemma link_frame_length_ge: "2 \<le> length (link_frame_bytes type seq ack payload)"
  using cobs_ref_ne [of "link_body type seq ack payload"]
  by (cases "cobs_ref (link_body type seq ack payload)") (simp_all add: link_frame_bytes_def)

lemma cobs_stream_write_byte_length:
  "length (enc_dst (snd (cobs_stream_write_byte b e))) = length (enc_dst e)"
  by (simp add: cobs_stream_write_byte_def cobs_stream_open_block_def Let_def)

lemma cobs_stream_write_length: "length (enc_dst (snd (cobs_stream_write bs e))) = length (enc_dst e)"
proof (induction bs arbitrary: e)
  case (Cons b bs)
  obtain ok e' where w: "cobs_stream_write_byte b e = (ok, e')" by fastforce
  with cobs_stream_write_byte_length [of b e] have "length (enc_dst e') = length (enc_dst e)" by simp
  with Cons w show ?case by simp
qed simp

lemma cobs_stream_finish_length: "length (enc_dst (snd (cobs_stream_finish e))) = length (enc_dst e)"
  by (simp add: cobs_stream_finish_def cobs_stream_open_block_def)

lemma cobs_stream_run_length:
  "length (enc_dst (snd (c_all [cobs_stream_write bs, cobs_stream_finish] e))) = length (enc_dst e)"
proof -
  obtain ok e' where w: "cobs_stream_write bs e = (ok, e')" by fastforce
  with cobs_stream_write_length [of bs e] have "length (enc_dst e') = length (enc_dst e)" by simp
  with w cobs_stream_finish_length [of e'] show ?thesis
    by (cases "cobs_stream_finish e'") simp
qed

text \<open>The three writes of the frame encoder are one write of the frame body.\<close>

lemma mc_link_encode_unfold:
  assumes "length payload \<le> MC_LINK_MAX_PAYLOAD" "cobs_stream_init out (out_cap - 1) = Some e"
  shows "mc_link_encode type seq ack payload out out_cap =
    (case c_all [cobs_stream_write (link_body type seq ack payload), cobs_stream_finish] e of
       (ok, r) \<Rightarrow>
         if \<not> ok then None
         else if 511 < enc_write_index r \<or> out_cap < enc_write_index r + 1 then None
         else Some (enc_write_index r + 1, (enc_dst r)[enc_write_index r := 0]))"
proof -
  let ?h = "link_header type seq ack (length payload)"
  let ?crc = "mc_link_crc16 (?h @ payload)"
  have crc: "(if 0 < length payload then crc16_update (crc16_update 0xffff ?h) payload
      else crc16_update 0xffff ?h) = ?crc"
    by (simp add: mc_link_crc16_def crc16_update_append) (simp add: crc16_update_def)
  have body: "?h @ payload @ [u16_lo ?crc, u16_hi ?crc] = link_body type seq ack payload"
    by (simp add: link_body_def Let_def)
  have cap: "out_cap \<noteq> 0"
    using assms(2) by (auto simp: cobs_stream_init_def split: if_splits)
  show ?thesis
    unfolding mc_link_encode_def Let_def crc assms(2) cobs_stream_write_3 body
    using assms(1) cap by (simp split: prod.splits)
qed

text \<open>The encoder's result: the frame bytes at the front of the buffer, whenever they fit.\<close>

lemma mc_link_encode_result:
  assumes len: "out_cap \<le> length out"
  shows "case mc_link_encode type seq ack payload out out_cap of
      None \<Rightarrow> MC_LINK_MAX_PAYLOAD < length payload \<or> out_cap < length (link_frame_bytes type seq ack payload)
    | Some (n, out') \<Rightarrow>
        length payload \<le> MC_LINK_MAX_PAYLOAD \<and> length (link_frame_bytes type seq ack payload) \<le> out_cap \<and>
        n = length (link_frame_bytes type seq ack payload) \<and>
        take n out' = link_frame_bytes type seq ack payload"
proof (cases "497 < length payload \<or> out_cap \<le> 1")
  case True
  then have "mc_link_encode type seq ack payload out out_cap = None"
    by (auto simp: mc_link_encode_def cobs_stream_init_def Let_def)
  with True link_frame_length_ge [of type seq ack payload] show ?thesis by auto
next
  case False
  then obtain e where e: "cobs_stream_init out (out_cap - 1) = Some e" and dst: "enc_dst e = out"
    by (auto simp: cobs_stream_init_def)
  let ?body = "link_body type seq ack payload"
  obtain ok r where r: "c_all [cobs_stream_write ?body, cobs_stream_finish] e = (ok, r)"
    by fastforce
  have run: "ok = (length (cobs_ref ?body) \<le> out_cap - 1)"
    "ok \<Longrightarrow> take (length (cobs_ref ?body)) (enc_dst r) = cobs_ref ?body"
    "ok \<Longrightarrow> enc_write_index r = length (cobs_ref ?body)"
    using cobs_stream_run [OF e, of ?body] len unfolding r by (simp_all add: Let_def)
  have lr: "length (enc_dst r) = length out"
    using cobs_stream_run_length [of ?body e] unfolding r dst by simp
  have le: "length (cobs_ref ?body) \<le> 511"
    using link_frame_length [of payload type seq ack] False by (simp add: link_frame_bytes_def)
  have enc: "mc_link_encode type seq ack payload out out_cap =
      (if ok then Some (length (cobs_ref ?body) + 1, (enc_dst r)[length (cobs_ref ?body) := 0]) else None)"
    using mc_link_encode_unfold [of payload out out_cap e type seq ack] e r run le False by auto
  have "take (Suc (length (cobs_ref ?body))) ((enc_dst r)[length (cobs_ref ?body) := 0]) = cobs_ref ?body @ [0]" if ok
  proof -
    have "length (cobs_ref ?body) < length (enc_dst r)"
      using that run(1) lr len False by arith
    from take_list_update_snoc [OF this] run(2) [OF that] show ?thesis by simp
  qed
  then show ?thesis
    using run(1) False by (auto simp: enc link_frame_bytes_def)
qed

lemma mc_link_encode_512:
  assumes "length payload \<le> MC_LINK_MAX_PAYLOAD" "length out = MC_LINK_MAX_FRAME_LEN"
  obtains out' where
    "mc_link_encode type seq ack payload out MC_LINK_MAX_FRAME_LEN =
       Some (length (link_frame_bytes type seq ack payload), out')"
    "take (length (link_frame_bytes type seq ack payload)) out' = link_frame_bytes type seq ack payload"
  using mc_link_encode_result [of 512 out payload type seq ack] link_frame_length [OF assms(1), of type seq ack]
    assms by (auto split: option.splits)

lemma mc_link_encode_too_long:
  "MC_LINK_MAX_PAYLOAD < length payload \<Longrightarrow> mc_link_encode type seq ack payload out out_cap = None"
  by (simp add: mc_link_encode_def)

section \<open>Decoding an encoded frame\<close>

lemma bytes_contain_iff [simp]: "bytes_contain b xs \<longleftrightarrow> b \<in> set xs"
  by (induction xs) auto

definition link_frame :: "byte \<Rightarrow> u16 \<Rightarrow> u16 \<Rightarrow> byte list \<Rightarrow> mc_link_frame" where
  "link_frame type seq ack payload =
     \<lparr>fr_type = type, fr_flags = 0, fr_seq = seq, fr_ack = ack, fr_len = of_nat (length payload),
      fr_payload = payload\<rparr>"

lemma link_body_parts:
  "i < 9 \<Longrightarrow> link_body type seq ack payload ! i = link_header type seq ack (length payload) ! i"
  "take (9 + length payload) (link_body type seq ack payload) = link_header type seq ack (length payload) @ payload"
  "take (length payload) (drop 9 (link_body type seq ack payload)) = payload"
  "u16_le (link_body type seq ack payload ! (9 + length payload))
     (link_body type seq ack payload ! (9 + length payload + 1)) =
   mc_link_crc16 (link_header type seq ack (length payload) @ payload)"
  by (simp_all add: link_body_def Let_def nth_append)

lemma decode_frame_body_link_body:
  assumes "length payload \<le> MC_LINK_MAX_PAYLOAD"
  shows "decode_frame_body (link_body type seq ack payload) = Some (link_frame type seq ack payload)"
proof -
  have "unat (of_nat (length payload) :: u16) = length payload"
    using assms by (intro unat_of_nat_id) simp
  then have "unat (u16_le (link_body type seq ack payload ! 7) (link_body type seq ack payload ! 8)) = length payload"
    by (simp add: link_body_parts link_header_def)
  then show ?thesis
    using assms unfolding decode_frame_body_def Let_def link_body_parts(2-4)
    by (simp add: link_body_parts(1) link_body_parts(3,4) [simplified]) (simp add: link_body_parts link_header_def link_frame_def)
qed

lemma mc_link_decode_link_frame_bytes:
  assumes "length payload \<le> MC_LINK_MAX_PAYLOAD"
  shows "mc_link_decode_frame (link_frame_bytes type seq ack payload) = Some (link_frame type seq ack payload)"
  using assms link_frame_length [OF assms, of type seq ack] cobs_ref_ne [of "link_body type seq ack payload"]
    cobs_ref_no_zero [of "link_body type seq ack payload"]
  by (simp add: mc_link_decode_frame_def decode_frame_with_scratch_def link_frame_bytes_def Let_def
      nth_append cobs_decode_ref decode_frame_body_link_body)

section \<open>What the CRC detects\<close>

lemma crc16_bit_alt: "crc16_bit c = (if bit c 15 then push_bit 1 c XOR 0x1021 else push_bit 1 c)"
proof -
  have "(c AND 2 ^ 15) = 0 \<longleftrightarrow> \<not> bit c 15"
    by (rule and_exp_eq_0_iff_not_bit)
  then show ?thesis by (simp add: crc16_bit_def)
qed

lemma bit_shl1: "bit (push_bit 1 (c :: u16)) n = (0 < n \<and> n < 16 \<and> bit c (n - 1))"
  by (subst bit_push_bit_iff) auto

lemma bit_crc16_bit_0: "bit (crc16_bit c) 0 = bit c 15"
proof -
  have "bit (0x1021 :: u16) 0" by simp
  then show ?thesis
    by (cases "bit c 15") (simp_all only: crc16_bit_alt bit_xor_iff bit_shl1 if_True if_False, simp_all)
qed

lemma xor_cancel: "(a :: 'a::len word) XOR c = b XOR c \<longleftrightarrow> a = b"
  by (metis xor.assoc xor.right_neutral xor_self_eq)

lemma crc16_bit_inj: "inj crc16_bit"
proof (rule injI)
  fix x y assume eq: "crc16_bit x = crc16_bit y"
  then have b15: "bit x 15 = bit y 15"
    using bit_crc16_bit_0 by metis
  with eq have sh: "push_bit 1 x = push_bit 1 y"
    by (auto simp: crc16_bit_alt xor_cancel split: if_splits)
  show "x = y"
  proof (rule bit_word_eqI)
    fix n assume n: "n < LENGTH(16)"
    show "bit x n = bit y n"
    proof (cases "n = 15")
      case False
      with n have "bit (push_bit 1 x) (Suc n) = bit x n" "bit (push_bit 1 y) (Suc n) = bit y n"
        by (simp_all only: bit_shl1) auto
      with sh show ?thesis by simp
    qed (simp add: b15)
  qed
qed

lemma crc16_byte_inj_crc: "crc16_byte c b = crc16_byte d b \<Longrightarrow> c = d"
  using inj_fn [OF crc16_bit_inj, of 8] by (simp only: crc16_byte_def inj_eq xor_cancel)

lemma crc16_byte_inj_byte: "crc16_byte c a = crc16_byte c b \<Longrightarrow> a = b"
proof -
  assume "crc16_byte c a = crc16_byte c b"
  then have "push_bit 8 (ucast a) XOR c = (push_bit 8 (ucast b) XOR c :: u16)"
    using inj_fn [OF crc16_bit_inj, of 8] by (simp only: crc16_byte_def inj_eq xor.commute)
  then have p: "push_bit 8 (ucast a) = (push_bit 8 (ucast b) :: u16)"
    by (simp only: xor_cancel)
  show ?thesis
  proof (rule bit_word_eqI)
    fix n assume "n < LENGTH(8)"
    then have "bit (push_bit 8 (ucast a) :: u16) (8 + n) = bit a n"
      "bit (push_bit 8 (ucast b) :: u16) (8 + n) = bit b n"
      by (simp_all add: bit_push_bit_iff bit_ucast_iff)
    with p show "bit a n = bit b n" by simp
  qed
qed

lemma crc16_update_inj: "crc16_update c xs = crc16_update d xs \<Longrightarrow> c = d"
  by (induction xs arbitrary: c d) (auto simp: crc16_update_def dest: crc16_byte_inj_crc)

text \<open>Changing one byte of a message changes its CRC.\<close>

lemma crc16_update_one_byte:
  assumes "i < length xs" "crc16_update c (xs[i := x]) = crc16_update c xs"
  shows "x = xs ! i"
proof -
  let ?d = "crc16_update c (take i xs)"
  have "crc16_update c (xs[i := x]) = crc16_update (crc16_byte ?d x) (drop (Suc i) xs)"
    using assms(1) by (simp add: upd_conv_take_nth_drop crc16_update_append) (simp add: crc16_update_def)
  moreover have "crc16_update c xs = crc16_update (crc16_byte ?d (xs ! i)) (drop (Suc i) xs)"
    using assms(1) by (subst id_take_nth_drop [of i xs])
      (simp_all add: crc16_update_append, simp add: crc16_update_def)
  ultimately show ?thesis
    using assms(2) by (auto dest: crc16_update_inj crc16_byte_inj_byte)
qed

lemma u16_le_inj: "u16_le a b = u16_le c d \<longleftrightarrow> a = c \<and> b = d"
proof
  assume eq: "u16_le a b = u16_le c d"
  have bits: "bit (u16_le p q) n = (if n < 8 then bit p n else n < 16 \<and> bit q (n - 8))" for p q n
    by (auto simp: u16_le_def bit_or_iff bit_ucast_iff bit_push_bit_iff dest: bit_imp_le_length)
  have "bit a n = bit c n" "bit b n = bit d n" if "n < 8" for n
    using eq that bits [of a b n] bits [of c d n] bits [of a b "n + 8"] bits [of c d "n + 8"] by auto
  then show "a = c \<and> b = d"
    by (auto intro: bit_word_eqI)
qed simp

lemma decode_frame_body_accepts:
  assumes "decode_frame_body body = Some fr"
  shows "length body = 11 + unat (u16_le (body ! 7) (body ! 8))"
    "u16_le (body ! (length body - 2)) (body ! (length body - 1)) =
     mc_link_crc16 (take (length body - 2) body)"
  using assms by (auto simp: decode_frame_body_def Let_def split: if_splits)

lemma decode_frame_body_one_byte:
  assumes dec: "decode_frame_body body = Some fr" and i: "i < length body" and x: "x \<noteq> body ! i"
  shows "decode_frame_body (body[i := x]) = None"
proof (rule ccontr)
  let ?b = "body[i := x]"
  assume "decode_frame_body ?b \<noteq> None"
  then obtain fr' where dec': "decode_frame_body ?b = Some fr'" by blast
  note a = decode_frame_body_accepts [OF dec] and a' = decode_frame_body_accepts [OF dec']
  let ?n = "length body - 2"
  from a(1) have n: "9 \<le> ?n" "length body = ?n + 2" by simp_all
  have len: "u16_le (?b ! 7) (?b ! 8) = u16_le (body ! 7) (body ! 8)"
    using a(1) a'(1) by (simp add: word_unat_eq_iff)
  have i78: "i \<noteq> 7 \<and> i \<noteq> 8"
    using len x i unfolding u16_le_inj by (auto simp: nth_list_update split: if_splits)
  show False
  proof (cases "i < ?n")
    case True
    then have "crc16_update 0xffff ((take ?n body)[i := x]) = crc16_update 0xffff (take ?n body)"
      using a(2) a'(2) n by (simp add: mc_link_crc16_def take_update_swap)
    with True x i show False
      using crc16_update_one_byte [of i "take ?n body" "0xffff" x] by simp
  next
    case False
    then have "u16_le (?b ! ?n) (?b ! (length body - 1)) = u16_le (body ! ?n) (body ! (length body - 1))"
      using a(2) a'(2) by simp
    with False i x n show False
      unfolding u16_le_inj by (auto simp: nth_list_update split: if_splits)
  qed
qed

section \<open>The link codec as a self-delimiting code\<close>

text \<open>
  Reading a serial stream frame by frame: the decoder is run on the bytes up to and including the
  first delimiter. This is how the bridge and the firmware's parser cut the stream.
\<close>

fun first_delimited :: "byte list \<Rightarrow> byte list option" where
  "first_delimited [] = None"
| "first_delimited (b # bs) =
     (if b = MC_LINK_DELIMITER then Some [b] else map_option ((#) b) (first_delimited bs))"

definition link_stream_decode :: "byte list \<Rightarrow> (mc_link_frame \<times> nat) option" where
  "link_stream_decode bs =
     (case first_delimited bs of
        None \<Rightarrow> None
      | Some f \<Rightarrow> map_option (\<lambda>fr. (fr, length f)) (mc_link_decode_frame f))"

lemma first_delimited_append: "0 \<notin> set xs \<Longrightarrow> first_delimited (xs @ 0 # rest) = Some (xs @ [0])"
  by (induction xs) auto

lemma first_delimited_frame:
  "first_delimited (link_frame_bytes type seq ack payload @ rest) = Some (link_frame_bytes type seq ack payload)"
  using first_delimited_append [OF cobs_ref_no_zero] by (simp add: link_frame_bytes_def)

definition encodable_frame :: "mc_link_frame \<Rightarrow> bool" where
  "encodable_frame fr \<longleftrightarrow> fr_flags fr = 0 \<and> fr_len fr = of_nat (length (fr_payload fr)) \<and>
     length (fr_payload fr) \<le> MC_LINK_MAX_PAYLOAD"

definition frame_bytes :: "mc_link_frame \<Rightarrow> byte list" where
  "frame_bytes fr = link_frame_bytes (fr_type fr) (fr_seq fr) (fr_ack fr) (fr_payload fr)"

interpretation link_code: prefix_code encodable_frame frame_bytes link_stream_decode
proof
  fix fr rest assume "encodable_frame fr"
  then show "link_stream_decode (frame_bytes fr @ rest) = Some (fr, length (frame_bytes fr))"
    by (simp add: link_stream_decode_def frame_bytes_def first_delimited_frame encodable_frame_def
        mc_link_decode_link_frame_bytes link_frame_def)
next
  fix fr show "frame_bytes fr \<noteq> []"
    by (simp add: frame_bytes_def link_frame_bytes_def)
qed

lemma link_stream_decode_Nil [simp]: "link_stream_decode [] = None"
  by (simp add: link_stream_decode_def)

lemma encodable_link_frame [simp]:
  "length payload \<le> MC_LINK_MAX_PAYLOAD \<Longrightarrow> encodable_frame (link_frame type seq ack payload)"
  by (simp add: encodable_frame_def link_frame_def)

lemma frame_bytes_link_frame [simp]:
  "frame_bytes (link_frame type seq ack payload) = link_frame_bytes type seq ack payload"
  by (simp add: frame_bytes_def link_frame_def)

section \<open>Properties\<close>

text \<open>C19: into a buffer of the maximal frame size, every frame with a payload of at most 497 bytes is
  encoded, and the decoder returns exactly the type, sequence number, acknowledgement and payload
  that were encoded.\<close>

theorem link_frame_round_trip:
  assumes "length payload \<le> MC_LINK_MAX_PAYLOAD" "length out = MC_LINK_MAX_FRAME_LEN"
  shows "\<exists>n out'. mc_link_encode type seq ack payload out MC_LINK_MAX_FRAME_LEN = Some (n, out') \<and>
    mc_link_decode_frame (take n out') =
      Some \<lparr>fr_type = type, fr_flags = 0, fr_seq = seq, fr_ack = ack,
            fr_len = of_nat (length payload), fr_payload = payload\<rparr>"
proof -
  obtain out' where "mc_link_encode type seq ack payload out 512 = Some (length (link_frame_bytes type seq ack payload), out')"
    "take (length (link_frame_bytes type seq ack payload)) out' = link_frame_bytes type seq ack payload"
    using mc_link_encode_512 [OF assms] by metis
  with mc_link_decode_link_frame_bytes [OF assms(1), of type seq ack] show ?thesis
    by (auto simp: link_frame_def)
qed

theorem link_frame_round_trip_witness:
  "\<exists>n out'. mc_link_encode 3 7 0 [0, 1, 0] (replicate 512 0) MC_LINK_MAX_FRAME_LEN = Some (n, out') \<and>
    mc_link_decode_frame (take n out') =
      Some \<lparr>fr_type = 3, fr_flags = 0, fr_seq = 7, fr_ack = 0, fr_len = 3, fr_payload = [0, 1, 0]\<rparr>"
  using link_frame_round_trip [of "[0, 1, 0]" "replicate 512 0" 3 7 0] by simp

text \<open>The frame encoder never writes past the buffer and fails only when it must: it returns 0
  exactly when the payload is longer than 497 bytes or the frame does not fit \<open>out_cap\<close>; otherwise
  the frame is at most 512 bytes long and its only zero byte is the delimiter at its end.\<close>

theorem link_encode_exact:
  assumes "out_cap \<le> length out"
  shows "case mc_link_encode type seq ack payload out out_cap of
      None \<Rightarrow> MC_LINK_MAX_PAYLOAD < length payload \<or>
        out_cap < length (cobs_ref (link_body type seq ack payload)) + 1
    | Some (n, out') \<Rightarrow> n \<le> out_cap \<and> n \<le> MC_LINK_MAX_FRAME_LEN \<and>
        take n out' = cobs_ref (link_body type seq ack payload) @ [MC_LINK_DELIMITER] \<and>
        MC_LINK_DELIMITER \<notin> set (take (n - 1) out')"
proof -
  have "take (n - 1) out' = cobs_ref b" if "take n out' = cobs_ref b @ [0]" "n = length (cobs_ref b) + 1" for n out' b
    using arg_cong [OF that(1), of "take (n - 1)"] that(2) by simp
  then show ?thesis
    using mc_link_encode_result [OF assms, of payload type seq ack] link_frame_length [of payload type seq ack]
      cobs_ref_no_zero [of "link_body type seq ack payload"]
    by (auto simp: link_frame_bytes_def split: option.splits)
qed

theorem link_encode_exact_witness:
  "case mc_link_encode 11 5 6 [1, 0, 2] (replicate 20 0) 20 of
      None \<Rightarrow> MC_LINK_MAX_PAYLOAD < length [1, 0, 2 :: byte] \<or>
        20 < length (cobs_ref (link_body 11 5 6 [1, 0, 2])) + 1
    | Some (n, out') \<Rightarrow> n \<le> 20 \<and> n \<le> MC_LINK_MAX_FRAME_LEN \<and>
        take n out' = cobs_ref (link_body 11 5 6 [1, 0, 2]) @ [MC_LINK_DELIMITER] \<and>
        MC_LINK_DELIMITER \<notin> set (take (n - 1) out')"
  by (rule link_encode_exact) simp

text \<open>C21: the streaming COBS encoder, fed a message in any number of pieces, produces the block-wise
  COBS encoding of the whole message when it fits the destination and fails otherwise, and the
  COBS decoder inverts it.\<close>

theorem cobs_stream_reference:
  assumes "cobs_stream_init dst dst_cap = Some e" "dst_cap \<le> length dst" "length (concat pieces) \<le> cap"
  shows "case c_all (map cobs_stream_write pieces @ [cobs_stream_finish]) e of (ok, e') \<Rightarrow>
    (ok \<longleftrightarrow> length (cobs_ref (concat pieces)) \<le> dst_cap) \<and>
    (ok \<longrightarrow> take (enc_write_index e') (enc_dst e') = cobs_ref (concat pieces) \<and>
      cobs_decode (take (enc_write_index e') (enc_dst e')) cap = Some (concat pieces))"
proof -
  have "c_all (map cobs_stream_write pieces @ [f]) e = c_all [cobs_stream_write (concat pieces), f] e" for f e
    by (induction pieces arbitrary: e) (simp_all add: cobs_stream_write_append split: prod.splits)
  then show ?thesis
    using cobs_stream_run [OF assms(1,2), of "concat pieces"] cobs_decode_ref [OF assms(3)]
    by (auto simp: Let_def split: prod.splits simp del: c_all.simps)
qed

theorem cobs_stream_reference_witness:
  "case c_all (map cobs_stream_write [[5], [], [0, 6]] @ [cobs_stream_finish])
      \<lparr>enc_dst = replicate 6 0, enc_dst_cap = 6, enc_write_index = 0, enc_code_index = 0,
       enc_code = 1, enc_block_open = False, enc_trailing_zero_pending = False\<rparr> of (ok, e') \<Rightarrow>
    ok \<and> take (enc_write_index e') (enc_dst e') = [2, 5, 2, 6] \<and>
      cobs_decode (take (enc_write_index e') (enc_dst e')) 3 = Some [5, 0, 6]"
proof -
  have r: "cobs_ref [5, 0, 6] = [2, 5, 2, 6]"
    using cobs_ref_zero [of "[5]" "[6]"] cobs_ref_last [of "[6]"] by simp
  show ?thesis
    using cobs_stream_reference [of "replicate 6 0" 6 _ "[[5], [], [0, 6]]" 3]
    by (simp only: cobs_stream_init_def) (auto simp: r simp del: c_all.simps)
qed

text \<open>C20: no frame body that the decoder accepts stays acceptable when a single byte of it is
  corrupted, wherever the byte is: in the header, the length field, the payload or the CRC.\<close>

theorem link_crc_detects_byte:
  assumes "decode_frame_body body = Some fr" "i < length body" "x \<noteq> body ! i"
  shows "decode_frame_body (body[i := x]) = None"
  using assms by (rule decode_frame_body_one_byte)

theorem link_crc_detects_byte_witness:
  "decode_frame_body ((link_body 3 1 0 [9, 9])[9 := 8]) = None"
proof (rule link_crc_detects_byte)
  show "decode_frame_body (link_body 3 1 0 [9, 9]) = Some (link_frame 3 1 0 [9, 9])"
    by (rule decode_frame_body_link_body) simp
  show "9 < length (link_body 3 1 0 [9, 9])" by simp
  show "8 \<noteq> link_body 3 1 0 [9, 9] ! 9"
    by (simp add: link_body_def link_header_def Let_def)
qed

text \<open>A reader that cuts the serial stream at the delimiters and decodes each piece recovers every
  frame of a run of encoded frames, in order, with nothing left over.\<close>

theorem link_stream_recovers_frames:
  assumes "list_all encodable_frame frs"
  shows "decode_stream link_stream_decode (concat (map frame_bytes frs)) = (frs, [])"
  by (rule link_code.decode_stream_all [OF assms link_stream_decode_Nil])

theorem link_stream_recovers_frames_witness:
  "decode_stream link_stream_decode
     (concat (map frame_bytes [link_frame 11 1 0 [0], link_frame 8 2 0 []])) =
   ([link_frame 11 1 0 [0], link_frame 8 2 0 []], [])"
  by (rule link_stream_recovers_frames) simp

end
