(* ===== verification/LinkParser.thy ===== *)
theory LinkParser
  imports LinkCodec
begin

text \<open>
  The incremental frame parser of core/src/mc_link.c. The parser keeps the bytes of the current
  frame in a fixed array of 512 bytes. A store past that array is the outcome \<open>None\<close> of the model,
  so that the absence of overruns is a theorem. The specification is a machine that reads one byte
  at a time; the parser is shown to deliver the same frames for every way the serial stream is cut
  into chunks of at most 512 bytes.
\<close>

section \<open>The parser\<close>

datatype mc_link_parse_result =
    MC_LINK_PARSE_NEED_MORE | MC_LINK_PARSE_FRAME mc_link_frame | MC_LINK_PARSE_ERROR

record mc_link_parser =
  ps_buf :: "byte list"
  ps_len :: nat
  ps_crc_error_count :: u32
  ps_length_error_count :: u32
  ps_resync_count :: u32
  ps_discarding :: bool

definition mc_link_parser_init :: mc_link_parser where
  "mc_link_parser_init =
     \<lparr>ps_buf = replicate MC_LINK_MAX_FRAME_LEN 0, ps_len = 0, ps_crc_error_count = 0,
      ps_length_error_count = 0, ps_resync_count = 0, ps_discarding = False\<rparr>"

text \<open>\<open>memmove\<close> of the bytes behind the first \<open>count\<close>; the bytes after them stay as they are.\<close>

definition parser_drop :: "mc_link_parser \<Rightarrow> nat \<Rightarrow> mc_link_parser" where
  "parser_drop p count =
     (if ps_len p \<le> count then p\<lparr>ps_len := 0\<rparr>
      else p\<lparr>ps_buf := take (ps_len p - count) (drop count (ps_buf p)) @ drop (ps_len p - count) (ps_buf p),
             ps_len := ps_len p - count\<rparr>)"

fun delimiter_index :: "byte list \<Rightarrow> nat option" where
  "delimiter_index [] = None"
| "delimiter_index (b # bs) =
     (if b = MC_LINK_DELIMITER then Some 0 else map_option Suc (delimiter_index bs))"

definition parser_overflow :: "mc_link_parser \<Rightarrow> mc_link_parser" where
  "parser_overflow p =
     p\<lparr>ps_length_error_count := ps_length_error_count p + 1, ps_resync_count := ps_resync_count p + 1,
       ps_len := 0, ps_discarding := True\<rparr>"

definition parser_try_one :: "mc_link_parser \<Rightarrow> mc_link_parse_result \<times> mc_link_parser" where
  "parser_try_one p =
     (case delimiter_index (take (ps_len p) (ps_buf p)) of
        Some i \<Rightarrow>
          (let frame_len = i + 1 in
           case decode_frame_with_scratch (take frame_len (ps_buf p)) MC_LINK_MAX_BODY_LEN of
             Some frame \<Rightarrow> (MC_LINK_PARSE_FRAME frame, parser_drop p frame_len)
           | None \<Rightarrow>
               let p = p\<lparr>ps_resync_count := ps_resync_count p + 1\<rparr>;
                   p = (if i = 0 \<or> MC_LINK_MAX_FRAME_LEN < frame_len
                        then p\<lparr>ps_length_error_count := ps_length_error_count p + 1\<rparr>
                        else p\<lparr>ps_crc_error_count := ps_crc_error_count p + 1\<rparr>)
               in (MC_LINK_PARSE_NEED_MORE, parser_drop p frame_len))
      | None \<Rightarrow>
          (MC_LINK_PARSE_NEED_MORE,
           if ps_len p = MC_LINK_MAX_FRAME_LEN then parser_overflow p else p))"

lemma parser_drop_len: "ps_len (parser_drop p n) = ps_len p - n"
  by (simp add: parser_drop_def)

lemma parser_overflow_len [simp]: "ps_len (parser_overflow p) = 0"
  by (simp add: parser_overflow_def)

lemma parser_try_one_len: "ps_len (snd (parser_try_one p)) \<le> ps_len p"
  by (auto simp: parser_try_one_def parser_drop_len Let_def split: option.splits)

text \<open>The loop at the start of \<open>mc_link_parser_feed\<close>: parse what is buffered until a frame comes out
  or nothing is consumed.\<close>

function parser_settle :: "mc_link_parser \<Rightarrow> mc_link_parse_result \<times> mc_link_parser" where
  "parser_settle p =
     (case parser_try_one p of
        (MC_LINK_PARSE_FRAME frame, p') \<Rightarrow> (MC_LINK_PARSE_FRAME frame, p')
      | (result, p') \<Rightarrow>
          if ps_len p' = ps_len p then (MC_LINK_PARSE_NEED_MORE, p') else parser_settle p')"
  by pat_completeness auto
termination
  by (relation "measure ps_len")
    (use parser_try_one_len in \<open>auto simp: order.strict_iff_order dest: sym [where s = "parser_try_one _"]\<close>,
      (metis snd_conv)+)

declare parser_settle.simps [simp del]

text \<open>\<open>parser->buf[parser->len++] = byte\<close>.\<close>

definition parser_put :: "byte \<Rightarrow> mc_link_parser \<Rightarrow> mc_link_parser option" where
  "parser_put b p =
     (if ps_len p < length (ps_buf p)
      then Some (p\<lparr>ps_buf := (ps_buf p)[ps_len p := b], ps_len := ps_len p + 1\<rparr>) else None)"

text \<open>After a frame, the unread rest of the chunk is kept behind the buffered bytes.\<close>

definition parser_keep_rest :: "byte list \<Rightarrow> mc_link_parser \<Rightarrow> mc_link_parser option" where
  "parser_keep_rest rest p =
     (if rest = [] then Some p
      else let remaining = length rest; capacity = MC_LINK_MAX_FRAME_LEN - ps_len p in
        if capacity < remaining then Some (parser_overflow p)
        else if length (ps_buf p) < ps_len p + remaining then None
        else let p' = p\<lparr>ps_buf := take (ps_len p) (ps_buf p) @ rest @ drop (ps_len p + remaining) (ps_buf p),
                        ps_len := ps_len p + remaining\<rparr>
             in if remaining = capacity \<and> \<not> bytes_contain MC_LINK_DELIMITER rest
                then Some (parser_overflow p') else Some p')"

fun parser_feed_loop :: "byte list \<Rightarrow> mc_link_parser \<Rightarrow> (mc_link_parse_result \<times> mc_link_parser) option" where
  "parser_feed_loop [] p = Some (parser_try_one p)"
| "parser_feed_loop (b # src) p =
     (if ps_discarding p
      then parser_feed_loop src (if b = MC_LINK_DELIMITER then p\<lparr>ps_discarding := False\<rparr> else p)
      else case parser_put b p of
        None \<Rightarrow> None
      | Some p \<Rightarrow>
          if b = MC_LINK_DELIMITER then
            (case parser_try_one p of
               (MC_LINK_PARSE_FRAME frame, p') \<Rightarrow>
                 map_option (Pair (MC_LINK_PARSE_FRAME frame)) (parser_keep_rest src p')
             | (result, p') \<Rightarrow> parser_feed_loop src p')
          else if ps_len p = MC_LINK_MAX_FRAME_LEN then parser_feed_loop src (parser_overflow p)
          else parser_feed_loop src p)"

definition mc_link_parser_feed ::
    "mc_link_parser \<Rightarrow> byte list \<Rightarrow> (mc_link_parse_result \<times> mc_link_parser) option" where
  "mc_link_parser_feed p src =
     (if ps_discarding p then parser_feed_loop src (p\<lparr>ps_len := 0\<rparr>)
      else case parser_settle p of
             (MC_LINK_PARSE_FRAME frame, p') \<Rightarrow> Some (MC_LINK_PARSE_FRAME frame, p')
           | (result, p') \<Rightarrow> parser_feed_loop src p')"

section \<open>The specification: one byte at a time\<close>

text \<open>
  The state is the bytes since the last delimiter and whether an oversized frame is being skipped.
\<close>

type_synonym parse_state = "byte list \<times> bool"

fun parse_byte :: "parse_state \<Rightarrow> byte \<Rightarrow> mc_link_frame list \<times> parse_state" where
  "parse_byte (acc, skipping) b =
     (if skipping then ([], ([], b \<noteq> MC_LINK_DELIMITER))
      else if b = MC_LINK_DELIMITER then
        (case mc_link_decode_frame (acc @ [b]) of None \<Rightarrow> [] | Some frame \<Rightarrow> [frame], ([], False))
      else if length acc + 1 = MC_LINK_MAX_FRAME_LEN then ([], ([], True))
      else ([], (acc @ [b], False)))"

fun parse_bytes :: "parse_state \<Rightarrow> byte list \<Rightarrow> mc_link_frame list \<times> parse_state" where
  "parse_bytes st [] = ([], st)"
| "parse_bytes st (b # bs) =
     (case parse_byte st b of (frames, st') \<Rightarrow>
        (case parse_bytes st' bs of (frames', st'') \<Rightarrow> (frames @ frames', st'')))"

lemma parse_bytes_append:
  "parse_bytes st (xs @ ys) =
     (fst (parse_bytes st xs) @ fst (parse_bytes (snd (parse_bytes st xs)) ys),
      snd (parse_bytes (snd (parse_bytes st xs)) ys))"
  by (induction xs arbitrary: st) (auto simp: case_prod_unfold)

lemma parse_bytes_partial:
  "0 \<notin> set xs \<Longrightarrow> length acc + length xs < MC_LINK_MAX_FRAME_LEN \<Longrightarrow>
   parse_bytes (acc, False) xs = ([], (acc @ xs, False))"
  by (induction xs arbitrary: acc) auto

lemma parse_bytes_piece:
  assumes "0 \<notin> set xs" "length acc + length xs < MC_LINK_MAX_FRAME_LEN"
  shows "parse_bytes (acc, False) (xs @ 0 # ys) =
    (case mc_link_decode_frame (acc @ xs @ [0]) of
       None \<Rightarrow> parse_bytes ([], False) ys
     | Some frame \<Rightarrow> (frame # fst (parse_bytes ([], False) ys), snd (parse_bytes ([], False) ys)))"
  using assms by (simp add: parse_bytes_append parse_bytes_partial case_prod_unfold split: option.splits)

lemma parse_bytes_oversized:
  assumes "0 \<notin> set xs" "length acc + length xs = MC_LINK_MAX_FRAME_LEN" "length acc < MC_LINK_MAX_FRAME_LEN"
  shows "parse_bytes (acc, False) xs = ([], ([], True))"
proof -
  from assms obtain ys y where xs: "xs = ys @ [y]"
    by (cases xs rule: rev_cases) auto
  with assms show ?thesis
    by (simp add: parse_bytes_append parse_bytes_partial)
qed

lemma parse_bytes_frames:
  "list_all encodable_frame frs \<Longrightarrow>
   parse_bytes ([], False) (concat (map frame_bytes frs) @ rest) =
     (frs @ fst (parse_bytes ([], False) rest), snd (parse_bytes ([], False) rest))"
proof (induction frs)
  case (Cons fr frs)
  then have fr: "encodable_frame fr" and frs: "list_all encodable_frame frs" by simp_all
  let ?c = "cobs_ref (link_body (fr_type fr) (fr_seq fr) (fr_ack fr) (fr_payload fr))"
  have len: "length (fr_payload fr) \<le> MC_LINK_MAX_PAYLOAD"
    using fr by (simp add: encodable_frame_def)
  have dec: "mc_link_decode_frame (?c @ [0]) = Some fr"
    using mc_link_decode_link_frame_bytes [OF len, of "fr_type fr" "fr_seq fr" "fr_ack fr"] fr
    by (simp add: link_frame_bytes_def link_frame_def encodable_frame_def)
  have "length ?c < MC_LINK_MAX_FRAME_LEN"
    using link_frame_length [OF len, of "fr_type fr" "fr_seq fr" "fr_ack fr"]
    by (simp add: link_frame_bytes_def)
  with dec Cons.IH [OF frs] show ?case
    by (simp add: frame_bytes_def link_frame_bytes_def parse_bytes_piece cobs_ref_no_zero)
qed simp

section \<open>Well-formed parsers\<close>

definition parser_ok :: "mc_link_parser \<Rightarrow> bool" where
  "parser_ok p \<longleftrightarrow> length (ps_buf p) = MC_LINK_MAX_FRAME_LEN \<and> ps_len p \<le> MC_LINK_MAX_FRAME_LEN"

definition ps_contents :: "mc_link_parser \<Rightarrow> byte list" where
  "ps_contents p = take (ps_len p) (ps_buf p)"

text \<open>The state between two chunks: the buffered bytes are the start of one unfinished frame.\<close>

definition parser_drained :: "mc_link_parser \<Rightarrow> bool" where
  "parser_drained p \<longleftrightarrow> parser_ok p \<and> 0 \<notin> set (ps_contents p) \<and> ps_len p < MC_LINK_MAX_FRAME_LEN"

definition parser_state :: "mc_link_parser \<Rightarrow> parse_state" where
  "parser_state p = (if ps_discarding p then ([], True) else (ps_contents p, False))"

text \<open>What the buffered bytes still have to deliver.\<close>

definition parser_pending :: "mc_link_parser \<Rightarrow> mc_link_frame list \<times> parse_state" where
  "parser_pending p =
     (if ps_discarding p then ([], ([], True)) else parse_bytes ([], False) (ps_contents p))"

lemma length_ps_contents: "parser_ok p \<Longrightarrow> length (ps_contents p) = ps_len p"
  by (simp add: ps_contents_def parser_ok_def)

lemma drained_pending: "parser_drained p \<Longrightarrow> parser_pending p = ([], parser_state p)"
  by (simp add: parser_drained_def parser_pending_def parser_state_def parse_bytes_partial length_ps_contents)

lemma parser_drop_contents:
  "parser_ok p \<Longrightarrow> ps_contents (parser_drop p n) = drop n (ps_contents p)"
  by (auto simp: parser_drop_def ps_contents_def parser_ok_def drop_take min_def)

lemma parser_drop_ok: "parser_ok p \<Longrightarrow> parser_ok (parser_drop p n)"
  by (auto simp: parser_drop_def parser_ok_def)

lemma parser_drop_discarding [simp]: "ps_discarding (parser_drop p n) = ps_discarding p"
  by (simp add: parser_drop_def)

lemma parser_overflow_simps [simp]:
  "ps_contents (parser_overflow p) = []" "ps_discarding (parser_overflow p)"
  "parser_ok (parser_overflow p) = (length (ps_buf p) = MC_LINK_MAX_FRAME_LEN)"
  by (simp_all add: parser_overflow_def ps_contents_def parser_ok_def)

lemma parser_overflow_drained: "parser_ok p \<Longrightarrow> parser_drained (parser_overflow p)"
  by (simp add: parser_drained_def parser_ok_def parser_overflow_def ps_contents_def)

lemma delimiter_index_None: "delimiter_index bs = None \<longleftrightarrow> 0 \<notin> set bs"
  by (induction bs) auto

lemma delimiter_index_append: "0 \<notin> set xs \<Longrightarrow> delimiter_index (xs @ 0 # ys) = Some (length xs)"
  by (induction xs) auto

lemma try_one_nothing:
  assumes "parser_drained p" shows "parser_try_one p = (MC_LINK_PARSE_NEED_MORE, p)"
proof -
  from assms have "delimiter_index (take (ps_len p) (ps_buf p)) = None" "ps_len p \<noteq> MC_LINK_MAX_FRAME_LEN"
    by (simp_all add: parser_drained_def ps_contents_def delimiter_index_None)
  then show ?thesis by (simp add: parser_try_one_def)
qed

lemma try_one_oversized:
  assumes "parser_ok p" "0 \<notin> set (ps_contents p)" "ps_len p = MC_LINK_MAX_FRAME_LEN"
  shows "parser_try_one p = (MC_LINK_PARSE_NEED_MORE, parser_overflow p)"
proof -
  from assms have "delimiter_index (take (ps_len p) (ps_buf p)) = None"
    by (simp add: ps_contents_def delimiter_index_None)
  with assms(3) show ?thesis by (simp add: parser_try_one_def)
qed

lemma try_one_piece:
  assumes ok: "parser_ok p" and c: "ps_contents p = xs @ 0 # ys" "0 \<notin> set xs"
  obtains p' where "parser_try_one p =
      (case mc_link_decode_frame (xs @ [0]) of
         None \<Rightarrow> MC_LINK_PARSE_NEED_MORE | Some frame \<Rightarrow> MC_LINK_PARSE_FRAME frame, p')"
    "parser_ok p'" "ps_contents p' = ys" "ps_discarding p' = ps_discarding p" "ps_len p' < ps_len p"
proof
  have len: "Suc (length xs) \<le> ps_len p"
    using arg_cong [OF c(1), of length] length_ps_contents [OF ok] by simp
  have pre: "take (Suc (length xs)) (ps_buf p) = xs @ [0]"
  proof -
    have "take (Suc (length xs)) (ps_buf p) = take (Suc (length xs)) (ps_contents p)"
      using len by (simp add: ps_contents_def)
    then show ?thesis by (simp add: c)
  qed
  have idx: "delimiter_index (take (ps_len p) (ps_buf p)) = Some (length xs)"
    using c delimiter_index_append [of xs ys] by (simp add: ps_contents_def)
  have upd: "parser_ok (p\<lparr>ps_resync_count := a, ps_length_error_count := b\<rparr>)"
    "parser_ok (p\<lparr>ps_resync_count := a, ps_crc_error_count := b\<rparr>)"
    "ps_contents (p\<lparr>ps_resync_count := a, ps_length_error_count := b\<rparr>) = ps_contents p"
    "ps_contents (p\<lparr>ps_resync_count := a, ps_crc_error_count := b\<rparr>) = ps_contents p" for a b
    using ok by (simp_all add: parser_ok_def ps_contents_def)
  let ?p = "snd (parser_try_one p)"
  show "parser_try_one p =
      (case mc_link_decode_frame (xs @ [0]) of
         None \<Rightarrow> MC_LINK_PARSE_NEED_MORE | Some frame \<Rightarrow> MC_LINK_PARSE_FRAME frame, ?p)"
    by (simp add: parser_try_one_def idx pre mc_link_decode_frame_def Let_def split: option.splits)
  show "parser_ok ?p" "ps_contents ?p = ys" "ps_discarding ?p = ps_discarding p" "ps_len ?p < ps_len p"
    using len ok upd
    by (simp_all add: parser_try_one_def idx pre Let_def parser_drop_ok parser_drop_contents c
        parser_drop_len split: option.splits)
qed

lemma parser_contents_cases [case_names drained oversized piece]:
  assumes "parser_ok p"
  obtains "parser_drained p"
  | "0 \<notin> set (ps_contents p)" "ps_len p = MC_LINK_MAX_FRAME_LEN"
  | xs ys where "ps_contents p = xs @ 0 # ys" "0 \<notin> set xs"
  using assms split_list_first [of 0 "ps_contents p"]
  by (cases "0 \<in> set (ps_contents p)"; cases "ps_len p = MC_LINK_MAX_FRAME_LEN")
    (auto simp: parser_drained_def parser_ok_def)

section \<open>The parser refines the specification\<close>

text \<open>
  Everything a result of the parser has to satisfy when \<open>spec\<close> is what the specification makes of
  the bytes involved: a returned frame is the first of the specified frames and the rest is still
  pending in the buffer; asking for more means that there is no frame and the parser is between
  two chunks.
\<close>

fun result_refines ::
    "mc_link_frame list \<times> parse_state \<Rightarrow> mc_link_parse_result \<times> mc_link_parser \<Rightarrow> bool" where
  "result_refines spec (MC_LINK_PARSE_FRAME frame, p) =
     (parser_ok p \<and> spec = (frame # fst (parser_pending p), snd (parser_pending p)))"
| "result_refines spec (MC_LINK_PARSE_NEED_MORE, p) = (parser_drained p \<and> spec = ([], parser_state p))"
| "result_refines spec (MC_LINK_PARSE_ERROR, p) = False"

lemma parser_settle_drained: "parser_drained p \<Longrightarrow> parser_settle p = (MC_LINK_PARSE_NEED_MORE, p)"
  by (subst parser_settle.simps) (simp add: try_one_nothing)

lemma parser_settle_oversized:
  assumes "parser_ok p" "0 \<notin> set (ps_contents p)" "ps_len p = MC_LINK_MAX_FRAME_LEN"
  shows "parser_settle p = (MC_LINK_PARSE_NEED_MORE, parser_overflow p)"
  using assms by (subst parser_settle.simps)
    (simp add: try_one_oversized parser_settle_drained parser_overflow_drained)

lemma parser_settle_refines:
  assumes "parser_ok p" "\<not> ps_discarding p"
  shows "result_refines (parser_pending p) (parser_settle p)"
  using assms
proof (induction p rule: parser_settle.induct)
  case (1 p)
  from \<open>parser_ok p\<close> show ?case
  proof (cases p rule: parser_contents_cases)
    case drained
    then show ?thesis by (simp add: parser_settle_drained drained_pending)
  next
    case oversized
    with 1 show ?thesis
      by (simp add: parser_settle_oversized parser_overflow_drained parser_pending_def parser_state_def
          parse_bytes_oversized length_ps_contents)
  next
    case (piece xs ys)
    from try_one_piece [OF \<open>parser_ok p\<close> piece] obtain p' where
      t: "parser_try_one p = (case mc_link_decode_frame (xs @ [0]) of
           None \<Rightarrow> MC_LINK_PARSE_NEED_MORE | Some frame \<Rightarrow> MC_LINK_PARSE_FRAME frame, p')"
      and p': "parser_ok p'" "ps_contents p' = ys" "ps_discarding p' = ps_discarding p" "ps_len p' < ps_len p"
      by metis
    have "length xs < MC_LINK_MAX_FRAME_LEN"
      using arg_cong [OF piece(1), of length] length_ps_contents [OF \<open>parser_ok p\<close>] \<open>parser_ok p\<close>
      by (simp add: parser_ok_def)
    then have pend: "parser_pending p = (case mc_link_decode_frame (xs @ [0]) of
        None \<Rightarrow> parser_pending p'
      | Some frame \<Rightarrow> (frame # fst (parser_pending p'), snd (parser_pending p')))"
      using p' 1 piece by (simp add: parser_pending_def parse_bytes_piece split: option.splits)
    show ?thesis
    proof (cases "mc_link_decode_frame (xs @ [0])")
      case None
      then have "parser_settle p = parser_settle p'"
        using t p' by (subst parser_settle.simps) simp
      moreover have "result_refines (parser_pending p') (parser_settle p')"
        using 1 None t p' by (intro 1(1)) auto
      ultimately show ?thesis using None pend by simp
    next
      case (Some frame)
      then have "parser_settle p = (MC_LINK_PARSE_FRAME frame, p')"
        using t by (subst parser_settle.simps) simp
      with Some pend p' show ?thesis by simp
    qed
  qed
qed

lemma parser_put_drained:
  assumes "parser_drained p"
  obtains p' where "parser_put b p = Some p'" "parser_ok p'" "ps_contents p' = ps_contents p @ [b]"
    "ps_discarding p' = ps_discarding p" "ps_len p' = ps_len p + 1"
proof
  let ?p = "p\<lparr>ps_buf := (ps_buf p)[ps_len p := b], ps_len := ps_len p + 1\<rparr>"
  have len: "ps_len p < length (ps_buf p)"
    using assms by (simp add: parser_drained_def parser_ok_def)
  then show "parser_put b p = Some ?p" by (simp add: parser_put_def)
  show "parser_ok ?p" using assms by (simp add: parser_drained_def parser_ok_def)
  show "ps_contents ?p = ps_contents p @ [b]"
    using len by (simp add: ps_contents_def take_list_update_snoc)
qed simp_all

lemma parser_keep_rest_ok:
  assumes "parser_ok p" "ps_contents p = []" "\<not> ps_discarding p"
  obtains p' where "parser_keep_rest rest p = Some p'" "parser_ok p'"
    "length rest < MC_LINK_MAX_FRAME_LEN \<Longrightarrow> parser_pending p' = parse_bytes ([], False) rest"
proof (cases "rest = []")
  case True
  with assms show ?thesis
    by (intro that [of p]) (simp_all add: parser_keep_rest_def parser_pending_def)
next
  case False
  let ?p = "p\<lparr>ps_buf := rest @ drop (length rest) (ps_buf p), ps_len := length rest\<rparr>"
  have len: "ps_len p = 0" "length (ps_buf p) = MC_LINK_MAX_FRAME_LEN"
    using assms(1,2) length_ps_contents by (fastforce simp: parser_ok_def)+
  show ?thesis
  proof (cases "length rest < MC_LINK_MAX_FRAME_LEN")
    case True
    with False assms len show ?thesis
      by (intro that [of ?p])
        (auto simp: parser_keep_rest_def Let_def parser_ok_def parser_pending_def ps_contents_def)
  next
    case long: False
    let ?q = "if length rest = MC_LINK_MAX_FRAME_LEN then if 0 \<in> set rest then ?p else parser_overflow ?p
      else parser_overflow p"
    from long False assms len show ?thesis
      by (intro that [of ?q]) (auto simp: parser_keep_rest_def Let_def parser_ok_def parser_overflow_def)
  qed
qed

text \<open>
  The loop over the chunk never stores out of bounds, whatever the length of the chunk, and it
  refines the specification when the chunk is no longer than the buffer.
\<close>

lemma parser_feed_loop_refines:
  assumes "parser_drained p" "ps_discarding p \<longrightarrow> ps_len p = 0"
  shows "\<exists>r p'. parser_feed_loop src p = Some (r, p') \<and> parser_ok p' \<and>
    (length src \<le> MC_LINK_MAX_FRAME_LEN \<longrightarrow> result_refines (parse_bytes (parser_state p) src) (r, p'))"
  using assms
proof (induction src arbitrary: p)
  case Nil
  then show ?case by (simp add: try_one_nothing parser_drained_def)
next
  case (Cons b src)
  show ?case
  proof (cases "ps_discarding p")
    case True
    let ?p = "if b = 0 then p\<lparr>ps_discarding := False\<rparr> else p"
    have "parser_drained ?p" "ps_discarding ?p \<longrightarrow> ps_len ?p = 0"
      "parser_state ?p = ([], b \<noteq> 0)"
      using Cons.prems True by (auto simp: parser_drained_def parser_ok_def ps_contents_def parser_state_def)
    with Cons.IH [of ?p] True show ?thesis
      by (auto simp: parser_state_def [of p] case_prod_unfold)
  next
    case False
    obtain p' where put: "parser_put b p = Some p'" and p': "parser_ok p'"
      "ps_contents p' = ps_contents p @ [b]" "ps_discarding p' = ps_discarding p" "ps_len p' = ps_len p + 1"
      using parser_put_drained [OF Cons.prems(1)] by blast
    have acc: "0 \<notin> set (ps_contents p)" "length (ps_contents p) = ps_len p" "ps_len p < MC_LINK_MAX_FRAME_LEN"
      using Cons.prems(1) by (simp_all add: parser_drained_def length_ps_contents)
    have st: "parser_state p = (ps_contents p, False)"
      using False by (simp add: parser_state_def)
    show ?thesis
    proof (cases "b = 0")
      case True
      obtain p'' where t: "parser_try_one p' = (case mc_link_decode_frame (ps_contents p @ [0]) of
             None \<Rightarrow> MC_LINK_PARSE_NEED_MORE | Some frame \<Rightarrow> MC_LINK_PARSE_FRAME frame, p'')"
        and p'': "parser_ok p''" "ps_contents p'' = []" "\<not> ps_discarding p''" "ps_len p'' < ps_len p'"
        using try_one_piece [OF p'(1), of "ps_contents p" "[]"] p' True acc False by metis
      have dr: "parser_drained p''" "parser_state p'' = ([], False)"
        using p'' p' acc by (simp_all add: parser_drained_def parser_state_def)
      show ?thesis
      proof (cases "mc_link_decode_frame (ps_contents p @ [0])")
        case None
        with Cons.IH [OF dr(1)] p'' dr True False put t st show ?thesis
          by (auto simp: case_prod_unfold)
      next
        case (Some frame)
        obtain q where "parser_keep_rest src p'' = Some q" "parser_ok q"
          "length src < MC_LINK_MAX_FRAME_LEN \<Longrightarrow> parser_pending q = parse_bytes ([], False) src"
          using parser_keep_rest_ok [OF p''(1-3)] by blast
        with Some True False put t st show ?thesis
          by (auto simp: case_prod_unfold)
      qed
    next
      case nz: False
      show ?thesis
      proof (cases "ps_len p' = MC_LINK_MAX_FRAME_LEN")
        case True
        have "parser_state (parser_overflow p') = ([], True)" by (simp add: parser_state_def)
        with Cons.IH [OF parser_overflow_drained [OF p'(1)]] True nz False put st acc p' show ?thesis
          by (auto simp: case_prod_unfold)
      next
        case ne: False
        have "parser_drained p'"
          using ne p' acc nz by (simp add: parser_drained_def parser_ok_def)
        moreover have "parser_state p' = (ps_contents p @ [b], False)"
          using p' False by (simp add: parser_state_def)
        ultimately show ?thesis
          using Cons.IH [of p'] ne nz False put st acc p' by (auto simp: case_prod_unfold)
      qed
    qed
  qed
qed

lemma parser_feed_refines:
  assumes "parser_drained p" "length src \<le> MC_LINK_MAX_FRAME_LEN"
  shows "\<exists>r. mc_link_parser_feed p src = Some r \<and> result_refines (parse_bytes (parser_state p) src) r"
proof (cases "ps_discarding p")
  case True
  have "parser_drained (p\<lparr>ps_len := 0\<rparr>)" "parser_state (p\<lparr>ps_len := 0\<rparr>) = parser_state p"
    using assms True by (simp_all add: parser_drained_def parser_ok_def ps_contents_def parser_state_def)
  with parser_feed_loop_refines [of "p\<lparr>ps_len := 0\<rparr>" src] assms True show ?thesis
    by (auto simp: mc_link_parser_feed_def)
next
  case False
  with parser_feed_loop_refines [OF assms(1), of src] assms show ?thesis
    by (auto simp: mc_link_parser_feed_def parser_settle_drained)
qed

text \<open>The follow-up call \<open>mc_link_parser_feed(parser, 0, 0, frame)\<close> takes the next pending frame.\<close>

lemma parser_feed_pending:
  assumes "parser_ok p"
  shows "\<exists>r. mc_link_parser_feed p [] = Some r \<and> result_refines (parser_pending p) r"
proof (cases "ps_discarding p")
  case True
  then have "parser_drained (p\<lparr>ps_len := 0\<rparr>)" "parser_pending p = ([], parser_state (p\<lparr>ps_len := 0\<rparr>))"
    using assms by (simp_all add: parser_drained_def parser_ok_def ps_contents_def parser_state_def parser_pending_def)
  with True show ?thesis by (simp add: mc_link_parser_feed_def try_one_nothing)
next
  case False
  obtain r p' where s: "parser_settle p = (r, p')" by fastforce
  with parser_settle_refines [OF assms False] False show ?thesis
    by (cases r) (auto simp: mc_link_parser_feed_def try_one_nothing)
qed

lemma try_one_frame_len:
  assumes "parser_try_one p = (MC_LINK_PARSE_FRAME frame, p')"
  shows "ps_len p' < ps_len p"
  using assms
  by (cases "ps_len p") (auto simp: parser_try_one_def parser_drop_len Let_def split: option.splits)

lemma settle_frame_len:
  assumes "parser_settle p = (MC_LINK_PARSE_FRAME frame, p')"
  shows "ps_len p' < ps_len p"
  using assms
proof (induction p rule: parser_settle.induct)
  case (1 p)
  obtain r q where t: "parser_try_one p = (r, q)" by fastforce
  have "ps_len q \<le> ps_len p" using parser_try_one_len [of p] t by simp
  with 1(1,2) [of r q] 1(3) [unfolded parser_settle.simps [of p]] t show ?case
    by (cases r) (auto simp: try_one_frame_len split: if_splits)
qed

lemma settle_len: "ps_len (snd (parser_settle p)) \<le> ps_len p"
proof (induction p rule: parser_settle.induct)
  case (1 p)
  obtain r q where t: "parser_try_one p = (r, q)" by fastforce
  have "ps_len q \<le> ps_len p" using parser_try_one_len [of p] t by simp
  with 1 t show ?case
    by (subst parser_settle.simps) (cases r, auto)
qed

lemma parser_feed_frame_len:
  assumes "mc_link_parser_feed p [] = Some (MC_LINK_PARSE_FRAME frame, p')"
  shows "ps_len p' < ps_len p"
proof -
  obtain r q where s: "parser_settle p = (r, q)" by fastforce
  then show ?thesis
    using assms settle_frame_len [of p frame p'] settle_len [of p]
    by (cases r) (auto simp: mc_link_parser_feed_def split: if_splits dest!: try_one_frame_len)
qed

text \<open>Skipping starts with an empty buffer.\<close>

lemma try_one_discarding:
  assumes "ps_discarding p \<longrightarrow> ps_len p = 0"
  shows "ps_discarding (snd (parser_try_one p)) \<longrightarrow> ps_len (snd (parser_try_one p)) = 0"
  using assms by (auto simp: parser_try_one_def parser_drop_len Let_def split: option.splits)

lemma parser_settle_discarding:
  assumes "ps_discarding p \<longrightarrow> ps_len p = 0"
  shows "ps_discarding (snd (parser_settle p)) \<longrightarrow> ps_len (snd (parser_settle p)) = 0"
  using assms
proof (induction p rule: parser_settle.induct)
  case (1 p)
  obtain r q where t: "parser_try_one p = (r, q)" by fastforce
  with 1 try_one_discarding [OF 1(3)] show ?case
    by (subst (1 2) parser_settle.simps) (cases r, auto)
qed

section \<open>Reading a chunked stream\<close>

text \<open>
  The way \<open>mc_link_session_receive_bytes\<close> uses the parser: the chunk is passed once, then the parser
  is called without input until it asks for more.
\<close>

function parser_drain :: "mc_link_parser \<Rightarrow> (mc_link_frame list \<times> mc_link_parser) option" where
  "parser_drain p =
     (case mc_link_parser_feed p [] of
        None \<Rightarrow> None
      | Some (MC_LINK_PARSE_FRAME frame, p') \<Rightarrow> map_option (apfst ((#) frame)) (parser_drain p')
      | Some (result, p') \<Rightarrow> Some ([], p'))"
  by pat_completeness auto
termination
  by (relation "measure ps_len") (auto dest: parser_feed_frame_len)

declare parser_drain.simps [simp del]

definition parser_chunk :: "mc_link_parser \<Rightarrow> byte list \<Rightarrow> (mc_link_frame list \<times> mc_link_parser) option" where
  "parser_chunk p chunk =
     (case mc_link_parser_feed p chunk of
        None \<Rightarrow> None
      | Some (MC_LINK_PARSE_FRAME frame, p') \<Rightarrow> map_option (apfst ((#) frame)) (parser_drain p')
      | Some (result, p') \<Rightarrow> Some ([], p'))"

fun parser_chunks :: "mc_link_parser \<Rightarrow> byte list list \<Rightarrow> (mc_link_frame list \<times> mc_link_parser) option" where
  "parser_chunks p [] = Some ([], p)"
| "parser_chunks p (chunk # chunks) =
     (case parser_chunk p chunk of
        None \<Rightarrow> None
      | Some (frames, p') \<Rightarrow> map_option (apfst ((@) frames)) (parser_chunks p' chunks))"

lemma parser_drain_refines:
  assumes "parser_ok p"
  shows "\<exists>p'. parser_drain p = Some (fst (parser_pending p), p') \<and> parser_drained p' \<and>
    parser_state p' = snd (parser_pending p)"
  using assms
proof (induction p rule: parser_drain.induct)
  case (1 p)
  obtain r q where f: "mc_link_parser_feed p [] = Some (r, q)" "result_refines (parser_pending p) (r, q)"
    using parser_feed_pending [OF 1(2)] by auto
  show ?case
  proof (cases r)
    case (MC_LINK_PARSE_FRAME frame)
    with f 1 show ?thesis
      by (subst parser_drain.simps) fastforce
  qed (use f in \<open>auto simp: parser_drain.simps [of p]\<close>)
qed

lemma parser_chunk_refines:
  assumes "parser_drained p" "length chunk \<le> MC_LINK_MAX_FRAME_LEN"
  shows "\<exists>p'. parser_chunk p chunk = Some (fst (parse_bytes (parser_state p) chunk), p') \<and>
    parser_drained p' \<and> parser_state p' = snd (parse_bytes (parser_state p) chunk)"
proof -
  obtain r q where f: "mc_link_parser_feed p chunk = Some (r, q)"
    "result_refines (parse_bytes (parser_state p) chunk) (r, q)"
    using parser_feed_refines [OF assms] by auto
  then show ?thesis
    using parser_drain_refines [of q] by (cases r) (auto simp: parser_chunk_def)
qed

lemma parser_chunks_refine:
  assumes "parser_drained p" "\<forall>chunk \<in> set chunks. length chunk \<le> MC_LINK_MAX_FRAME_LEN"
  shows "\<exists>p'. parser_chunks p chunks = Some (fst (parse_bytes (parser_state p) (concat chunks)), p') \<and>
    parser_drained p' \<and> parser_state p' = snd (parse_bytes (parser_state p) (concat chunks))"
  using assms
proof (induction chunks arbitrary: p)
  case (Cons c cs)
  obtain q where q: "parser_chunk p c = Some (fst (parse_bytes (parser_state p) c), q)"
    "parser_drained q" "parser_state q = snd (parse_bytes (parser_state p) c)"
    using parser_chunk_refines [of p c] Cons.prems by auto
  with Cons.IH [OF q(2)] Cons.prems(2) show ?case
    by (auto simp: parse_bytes_append)
qed simp

lemma parser_init_drained: "parser_drained mc_link_parser_init"
  by (simp add: parser_drained_def parser_ok_def mc_link_parser_init_def ps_contents_def)

lemma parser_init_state: "parser_state mc_link_parser_init = ([], False)"
  by (simp add: parser_state_def mc_link_parser_init_def ps_contents_def)

text \<open>For a chunk of any length, a call of the parser returns and keeps the parser well-formed.\<close>

lemma parser_feed_ok:
  assumes ok: "parser_ok p"
  shows "\<exists>r p'. mc_link_parser_feed p src = Some (r, p') \<and> parser_ok p'"
proof -
  have loop: "\<exists>r p'. parser_feed_loop src q = Some (r, p') \<and> parser_ok p'"
    if "parser_drained q" "ps_discarding q \<longrightarrow> ps_len q = 0" for q
    using parser_feed_loop_refines [OF that, of src] by blast
  show ?thesis
  proof (cases "ps_discarding p")
    case True
    then show ?thesis
      using loop [of "p\<lparr>ps_len := 0\<rparr>"] ok
      by (simp add: mc_link_parser_feed_def parser_drained_def parser_ok_def ps_contents_def)
  next
    case False
    obtain r q where s: "parser_settle p = (r, q)" by fastforce
    have "ps_discarding q \<longrightarrow> ps_len q = 0" if "r = MC_LINK_PARSE_NEED_MORE"
      using parser_settle_discarding [of p] False s by simp
    with s parser_settle_refines [OF ok False] False loop [of q] show ?thesis
      by (cases r) (auto simp: mc_link_parser_feed_def)
  qed
qed

section \<open>Properties\<close>

text \<open>C18: the parser never stores outside its 512-byte buffer: from a parser whose length is within
  the buffer, a call with any bytes, of any number, returns, and leaves the length within the
  buffer.\<close>

theorem parser_feed_in_bounds:
  assumes "length (ps_buf p) = MC_LINK_MAX_FRAME_LEN" "ps_len p \<le> MC_LINK_MAX_FRAME_LEN"
  shows "\<exists>r p'. mc_link_parser_feed p src = Some (r, p') \<and>
    length (ps_buf p') = MC_LINK_MAX_FRAME_LEN \<and> ps_len p' \<le> MC_LINK_MAX_FRAME_LEN"
  using parser_feed_ok [of p src] assms by (auto simp: parser_ok_def)

theorem parser_feed_in_bounds_witness:
  "\<exists>r p'. mc_link_parser_feed mc_link_parser_init (replicate 2000 7) = Some (r, p') \<and>
    length (ps_buf p') = MC_LINK_MAX_FRAME_LEN \<and> ps_len p' \<le> MC_LINK_MAX_FRAME_LEN"
  by (rule parser_feed_in_bounds) (simp_all add: mc_link_parser_init_def)

text \<open>C4: reading a serial stream through the parser, in chunks of at most 512 bytes and draining the
  parser after each, delivers exactly the frames of the byte-at-a-time specification on the whole
  stream, so that the result does not depend on how the stream is cut into chunks.\<close>

theorem parser_chunking_independent:
  assumes "\<forall>chunk \<in> set chunks. length chunk \<le> MC_LINK_MAX_FRAME_LEN"
  shows "map_option fst (parser_chunks mc_link_parser_init chunks) =
    Some (fst (parse_bytes ([], False) (concat chunks)))"
  using parser_chunks_refine [OF parser_init_drained assms] by (auto simp: parser_init_state)

theorem parser_chunking_independent_witness:
  "map_option fst (parser_chunks mc_link_parser_init [[1, 2], [], [0, 3]]) =
     Some (fst (parse_bytes ([], False) [1, 2, 0, 3]))"
  using parser_chunking_independent [of "[[1, 2], [], [0, 3]]"] by simp



end
