(* ===== verification/Ringbuf.thy ===== *)
theory Ringbuf
  imports Prelude
begin

text \<open>
  The byte ring buffer of core/src/mc_ringbuf.c: a fixed array with a write position, a read
  position and a length. The locale \<open>byte_fifo\<close> is the contract its users rely on (a bounded
  queue of bytes); the interpretation at the end proves it for the array implementation.
\<close>

section \<open>The buffer and its operations\<close>

record mc_ringbuf =
  rb_data :: "byte list"
  rb_cap :: nat
  rb_head :: nat
  rb_tail :: nat
  rb_len :: nat

definition mc_ringbuf_init :: "byte list \<Rightarrow> nat \<Rightarrow> mc_ringbuf" where
  "mc_ringbuf_init storage c =
     \<lparr>rb_data = storage, rb_cap = c, rb_head = 0, rb_tail = 0, rb_len = 0\<rparr>"

definition mc_ringbuf_len :: "mc_ringbuf \<Rightarrow> nat" where
  "mc_ringbuf_len rb = rb_len rb"

definition mc_ringbuf_free :: "mc_ringbuf \<Rightarrow> nat" where
  "mc_ringbuf_free rb = rb_cap rb - rb_len rb"

definition mc_ringbuf_push :: "mc_ringbuf \<Rightarrow> byte \<Rightarrow> bool \<times> mc_ringbuf" where
  "mc_ringbuf_push rb b =
     (if rb_len rb = rb_cap rb then (False, rb)
      else (True, rb\<lparr>rb_data := (rb_data rb)[rb_head rb := b],
                     rb_head := (rb_head rb + 1) mod rb_cap rb,
                     rb_len := rb_len rb + 1\<rparr>))"

definition mc_ringbuf_pop :: "mc_ringbuf \<Rightarrow> byte option \<times> mc_ringbuf" where
  "mc_ringbuf_pop rb =
     (if rb_len rb = 0 then (None, rb)
      else (Some (rb_data rb ! rb_tail rb),
            rb\<lparr>rb_tail := (rb_tail rb + 1) mod rb_cap rb, rb_len := rb_len rb - 1\<rparr>))"

text \<open>\<open>src\<close> holds the \<open>len\<close> bytes the caller passes; the result is the number written.\<close>

fun mc_ringbuf_write :: "mc_ringbuf \<Rightarrow> byte list \<Rightarrow> nat \<times> mc_ringbuf" where
  "mc_ringbuf_write rb [] = (0, rb)"
| "mc_ringbuf_write rb (b # src) =
     (case mc_ringbuf_push rb b of
        (ok, rb') \<Rightarrow>
          if ok then (case mc_ringbuf_write rb' src of (written, rb'') \<Rightarrow> (Suc written, rb''))
          else (0, rb'))"

text \<open>The bytes stored to \<open>dst\<close> (their number is the return value).\<close>

fun mc_ringbuf_read :: "mc_ringbuf \<Rightarrow> nat \<Rightarrow> byte list \<times> mc_ringbuf" where
  "mc_ringbuf_read rb 0 = ([], rb)"
| "mc_ringbuf_read rb (Suc max_len) =
     (case mc_ringbuf_pop rb of
        (None, rb') \<Rightarrow> ([], rb')
      | (Some b, rb') \<Rightarrow>
          (case mc_ringbuf_read rb' max_len of (bs, rb'') \<Rightarrow> (b # bs, rb'')))"

definition mc_ringbuf_peek :: "mc_ringbuf \<Rightarrow> nat \<Rightarrow> byte option" where
  "mc_ringbuf_peek rb offset =
     (if rb_len rb \<le> offset then None
      else Some (rb_data rb ! ((rb_tail rb + offset) mod rb_cap rb)))"

definition mc_ringbuf_drop :: "mc_ringbuf \<Rightarrow> nat \<Rightarrow> mc_ringbuf" where
  "mc_ringbuf_drop rb count =
     (let count = (if rb_len rb < count then rb_len rb else count)
      in rb\<lparr>rb_tail := (rb_tail rb + count) mod rb_cap rb, rb_len := rb_len rb - count\<rparr>)"

section \<open>Well-formed buffers and the queue they hold\<close>

definition rb_ok :: "mc_ringbuf \<Rightarrow> bool" where
  "rb_ok rb \<longleftrightarrow> 0 < rb_cap rb \<and> length (rb_data rb) = rb_cap rb \<and> rb_tail rb < rb_cap rb \<and>
     rb_len rb \<le> rb_cap rb \<and> rb_head rb = (rb_tail rb + rb_len rb) mod rb_cap rb"

text \<open>The queued bytes, oldest first.\<close>

definition rb_contents :: "mc_ringbuf \<Rightarrow> byte list" where
  "rb_contents rb =
     map (\<lambda>i. rb_data rb ! ((rb_tail rb + i) mod rb_cap rb)) [0..<rb_len rb]"

lemma length_rb_contents [simp]: "length (rb_contents rb) = rb_len rb"
  by (simp add: rb_contents_def)

lemma rb_contents_empty: "rb_len rb = 0 \<Longrightarrow> rb_contents rb = []"
  by (simp add: rb_contents_def)

lemma nth_rb_contents:
  "i < rb_len rb \<Longrightarrow> rb_contents rb ! i = rb_data rb ! ((rb_tail rb + i) mod rb_cap rb)"
  by (simp add: rb_contents_def)

lemma rb_okD:
  assumes "rb_ok rb"
  shows "0 < rb_cap rb" "length (rb_data rb) = rb_cap rb" "rb_tail rb < rb_cap rb"
    "rb_len rb \<le> rb_cap rb" "rb_head rb = (rb_tail rb + rb_len rb) mod rb_cap rb"
    "rb_head rb < rb_cap rb"
  using assms by (auto simp: rb_ok_def)

text \<open>One push: the new byte lands behind the last queued one and no queued byte is touched.\<close>

lemma rb_push_room:
  assumes ok: "rb_ok rb" and room: "rb_len rb < rb_cap rb"
  shows "rb_contents (rb\<lparr>rb_data := (rb_data rb)[rb_head rb := b],
             rb_head := (rb_head rb + 1) mod rb_cap rb, rb_len := rb_len rb + 1\<rparr>) = rb_contents rb @ [b]"
    (is "rb_contents ?r = _")
proof (rule nth_equalityI)
  show "length (rb_contents ?r) = length (rb_contents rb @ [b])" by simp
next
  fix i assume "i < length (rb_contents ?r)"
  then have i: "i < Suc (rb_len rb)" by simp
  have nth: "rb_contents ?r ! i = (rb_data rb)[rb_head rb := b] ! ((rb_tail rb + i) mod rb_cap rb)"
    using i by (simp add: nth_rb_contents)
  show "rb_contents ?r ! i = (rb_contents rb @ [b]) ! i"
  proof (cases "i = rb_len rb")
    case True
    with nth rb_okD [OF ok] show ?thesis by (simp add: nth_append)
  next
    case False
    with i have lt: "i < rb_len rb" by simp
    have "(rb_tail rb + i) mod rb_cap rb \<noteq> rb_head rb"
      using mod_add_cancel_lt [of "rb_tail rb" i "rb_cap rb" "rb_len rb"] rb_okD(5) [OF ok] lt room
      by auto
    with nth lt show ?thesis by (simp add: nth_append nth_rb_contents)
  qed
qed

lemma rb_push_ok:
  assumes ok: "rb_ok rb" and room: "rb_len rb < rb_cap rb"
  shows "rb_ok (rb\<lparr>rb_data := (rb_data rb)[rb_head rb := b],
             rb_head := (rb_head rb + 1) mod rb_cap rb, rb_len := rb_len rb + 1\<rparr>)"
  using rb_okD [OF ok] room by (simp add: rb_ok_def mod_Suc_eq)

text \<open>Taking \<open>k\<close> bytes off the front advances the read position.\<close>

lemma rb_advance_contents:
  assumes "k \<le> rb_len rb"
  shows "rb_contents (rb\<lparr>rb_tail := (rb_tail rb + k) mod rb_cap rb, rb_len := rb_len rb - k\<rparr>)
    = drop k (rb_contents rb)"
  using assms
  by (intro nth_equalityI) (auto simp: nth_rb_contents add.assoc mod_add_left_eq)

lemma rb_advance_ok:
  assumes "rb_ok rb" "k \<le> rb_len rb"
  shows "rb_ok (rb\<lparr>rb_tail := (rb_tail rb + k) mod rb_cap rb, rb_len := rb_len rb - k\<rparr>)"
proof -
  obtain j where "rb_len rb = k + j"
    using assms(2) le_Suc_ex by blast
  then show ?thesis
    using rb_okD [OF assms(1)] by (simp add: rb_ok_def mod_add_left_eq add.assoc)
qed

section \<open>The contract of a bounded byte queue\<close>

text \<open>
  What the server, the world generator and the link session rely on: \<open>push\<close> appends one byte or
  refuses when the queue is full, \<open>pop\<close> takes the oldest byte, and \<open>write\<close>, \<open>read\<close>, \<open>peek\<close>
  and \<open>drop\<close> are the bulk operations over them.
\<close>

locale byte_fifo =
  fixes invar :: "'q \<Rightarrow> bool"
    and contents :: "'q \<Rightarrow> byte list"
    and capacity :: "'q \<Rightarrow> nat"
    and push :: "'q \<Rightarrow> byte \<Rightarrow> bool \<times> 'q"
    and pop :: "'q \<Rightarrow> byte option \<times> 'q"
    and bwrite :: "'q \<Rightarrow> byte list \<Rightarrow> nat \<times> 'q"
    and bread :: "'q \<Rightarrow> nat \<Rightarrow> byte list \<times> 'q"
  assumes bounded: "invar q \<Longrightarrow> length (contents q) \<le> capacity q"
    and push_ok: "invar q \<Longrightarrow> fst (push q b) = (length (contents q) < capacity q)"
    and push_contents: "invar q \<Longrightarrow> contents (snd (push q b)) =
          (if length (contents q) < capacity q then contents q @ [b] else contents q)"
    and push_invar: "invar q \<Longrightarrow> invar (snd (push q b))"
    and push_capacity: "invar q \<Longrightarrow> capacity (snd (push q b)) = capacity q"
    and pop_result: "invar q \<Longrightarrow>
          fst (pop q) = (case contents q of [] \<Rightarrow> None | b # _ \<Rightarrow> Some b)"
    and pop_contents: "invar q \<Longrightarrow> contents (snd (pop q)) = tl (contents q)"
    and pop_invar: "invar q \<Longrightarrow> invar (snd (pop q))"
    and pop_capacity: "invar q \<Longrightarrow> capacity (snd (pop q)) = capacity q"
    and write_Nil: "bwrite q [] = (0, q)"
    and write_Cons: "bwrite q (b # bs) =
          (if fst (push q b)
           then (Suc (fst (bwrite (snd (push q b)) bs)), snd (bwrite (snd (push q b)) bs))
           else (0, snd (push q b)))"
    and read_0: "bread q 0 = ([], q)"
    and read_Suc: "bread q (Suc n) =
          (case fst (pop q) of None \<Rightarrow> ([], snd (pop q))
           | Some b \<Rightarrow> (b # fst (bread (snd (pop q)) n), snd (bread (snd (pop q)) n)))"
begin

lemma write_invar: "invar q \<Longrightarrow> invar (snd (bwrite q bs))"
  by (induction bs arbitrary: q) (auto simp: write_Nil write_Cons push_invar)

lemma write_capacity: "invar q \<Longrightarrow> capacity (snd (bwrite q bs)) = capacity q"
  by (induction bs arbitrary: q) (auto simp: write_Nil write_Cons push_invar push_capacity)

text \<open>A write stores the longest prefix that fits and returns its length.\<close>

lemma write_contents:
  "invar q \<Longrightarrow>
   contents (snd (bwrite q bs)) = contents q @ take (capacity q - length (contents q)) bs"
proof (induction bs arbitrary: q)
  case (Cons b bs)
  then show ?case
    by (auto simp: write_Cons push_ok push_contents push_invar push_capacity take_Cons'
        dest: bounded)
qed (simp add: write_Nil)

lemma write_count:
  "invar q \<Longrightarrow> fst (bwrite q bs) = min (length bs) (capacity q - length (contents q))"
proof (induction bs arbitrary: q)
  case (Cons b bs)
  then show ?case
    by (auto simp: write_Cons push_ok push_contents push_invar push_capacity dest: bounded)
qed (simp add: write_Nil)

lemma read_contents: "invar q \<Longrightarrow> fst (bread q n) = take n (contents q)"
proof (induction n arbitrary: q)
  case (Suc n)
  then show ?case
    by (cases "contents q") (auto simp: read_Suc pop_result pop_contents pop_invar)
qed (simp add: read_0)

lemma read_remaining: "invar q \<Longrightarrow> contents (snd (bread q n)) = drop n (contents q)"
proof (induction n arbitrary: q)
  case (Suc n)
  then show ?case
    by (cases "contents q") (auto simp: read_Suc pop_result pop_contents pop_invar)
qed (simp add: read_0)

lemma read_invar: "invar q \<Longrightarrow> invar (snd (bread q n))"
  by (induction n arbitrary: q) (auto simp: read_0 read_Suc pop_invar split: option.splits)

lemma read_capacity: "invar q \<Longrightarrow> capacity (snd (bread q n)) = capacity q"
  by (induction n arbitrary: q)
    (auto simp: read_0 read_Suc pop_invar pop_capacity split: option.splits)

lemma write_then_read:
  assumes "invar q" "contents q = []" "length bs \<le> capacity q"
  shows "fst (bread (snd (bwrite q bs)) (length bs)) = bs"
  using assms by (simp add: read_contents write_invar write_contents)

end

section \<open>The array implementation meets the contract\<close>

interpretation rb: byte_fifo rb_ok rb_contents rb_cap mc_ringbuf_push mc_ringbuf_pop
  mc_ringbuf_write mc_ringbuf_read
proof (unfold_locales, goal_cases)
  case (1 q) then show ?case by (simp add: rb_okD)
next
  case (2 q b) then show ?case by (auto simp: mc_ringbuf_push_def dest: rb_okD)
next
  case (3 q b) then show ?case
    using rb_push_room [of q b] by (auto simp: mc_ringbuf_push_def dest: rb_okD)
next
  case (4 q b) then show ?case
    using rb_push_ok [of q b] by (auto simp: mc_ringbuf_push_def dest: rb_okD)
next
  case (5 q b) then show ?case by (simp add: mc_ringbuf_push_def)
next
  case (6 q) then show ?case
    by (cases "rb_len q") (auto simp: mc_ringbuf_pop_def rb_contents_def upt_conv_Cons
        dest: rb_okD simp del: upt_Suc)
next
  case (7 q) then show ?case
    using rb_advance_contents [of 1 q]
    by (cases "rb_len q = 0") (simp_all add: mc_ringbuf_pop_def drop_Suc rb_contents_empty)
next
  case (8 q) then show ?case
    using rb_advance_ok [of q 1] by (auto simp: mc_ringbuf_pop_def)
next
  case (9 q) then show ?case by (simp add: mc_ringbuf_pop_def)
next
  case (10 q) show ?case by simp
next
  case (11 q b bs) show ?case by (simp split: prod.splits)
next
  case (12 q) show ?case by simp
next
  case (13 q n) show ?case by (simp split: prod.splits option.splits)
qed

lemma rb_init_ok: "0 < c \<Longrightarrow> length st = c \<Longrightarrow> rb_ok (mc_ringbuf_init st c)"
  by (simp add: rb_ok_def mc_ringbuf_init_def)

lemma rb_init_contents [fifo_simps]: "rb_contents (mc_ringbuf_init st c) = []"
  by (simp add: rb_contents_def mc_ringbuf_init_def)

lemma rb_init_cap [fifo_simps]: "rb_cap (mc_ringbuf_init st c) = c"
  by (simp add: mc_ringbuf_init_def)

lemma rb_free_eq [fifo_simps]: "mc_ringbuf_free rb = rb_cap rb - length (rb_contents rb)"
  by (simp add: mc_ringbuf_free_def)

lemma rb_len_eq [fifo_simps]: "mc_ringbuf_len rb = length (rb_contents rb)"
  by (simp add: mc_ringbuf_len_def)

lemma rb_peek [fifo_simps]:
  "mc_ringbuf_peek rb i = (if i < length (rb_contents rb) then Some (rb_contents rb ! i) else None)"
  by (simp add: mc_ringbuf_peek_def nth_rb_contents)

lemma rb_drop_contents [fifo_simps]: "rb_contents (mc_ringbuf_drop rb k) = drop k (rb_contents rb)"
  using rb_advance_contents [of "min k (rb_len rb)" rb]
  by (auto simp: mc_ringbuf_drop_def Let_def min_def)

lemma rb_drop_ok: "rb_ok rb \<Longrightarrow> rb_ok (mc_ringbuf_drop rb k)"
  using rb_advance_ok [of rb "min k (rb_len rb)"]
  by (auto simp: mc_ringbuf_drop_def Let_def min_def)

lemma rb_drop_cap [fifo_simps]: "rb_cap (mc_ringbuf_drop rb k) = rb_cap rb"
  by (simp add: mc_ringbuf_drop_def Let_def)

lemmas rb_ops [fifo_simps] =
  rb.push_ok rb.push_contents rb.push_invar rb.push_capacity
  rb.pop_result rb.pop_contents rb.pop_invar rb.pop_capacity
  rb.write_contents rb.write_count rb.write_invar rb.write_capacity
  rb.read_contents rb.read_remaining rb.read_invar rb.read_capacity
  rb_drop_ok

section \<open>The array refines an abstract bounded queue\<close>

text \<open>
  The calls a client can make and what they return, and the same calls on the specification: a
  list of at most \<open>cap\<close> bytes.
\<close>

datatype rb_call =
    RbPush byte | RbPop | RbWrite "byte list" | RbRead nat | RbPeek nat | RbDrop nat | RbLen | RbFree

datatype rb_return = RetFlag bool | RetByte "byte option" | RetCount nat | RetBytes "byte list" | RetVoid

fun rb_run_call :: "rb_call \<Rightarrow> mc_ringbuf \<Rightarrow> rb_return \<times> mc_ringbuf" where
  "rb_run_call (RbPush b) rb = (case mc_ringbuf_push rb b of (ok, rb') \<Rightarrow> (RetFlag ok, rb'))"
| "rb_run_call RbPop rb = (case mc_ringbuf_pop rb of (b, rb') \<Rightarrow> (RetByte b, rb'))"
| "rb_run_call (RbWrite bs) rb = (case mc_ringbuf_write rb bs of (n, rb') \<Rightarrow> (RetCount n, rb'))"
| "rb_run_call (RbRead n) rb = (case mc_ringbuf_read rb n of (bs, rb') \<Rightarrow> (RetBytes bs, rb'))"
| "rb_run_call (RbPeek i) rb = (RetByte (mc_ringbuf_peek rb i), rb)"
| "rb_run_call (RbDrop n) rb = (RetVoid, mc_ringbuf_drop rb n)"
| "rb_run_call RbLen rb = (RetCount (mc_ringbuf_len rb), rb)"
| "rb_run_call RbFree rb = (RetCount (mc_ringbuf_free rb), rb)"

fun queue_call :: "nat \<Rightarrow> rb_call \<Rightarrow> byte list \<Rightarrow> rb_return \<times> byte list" where
  "queue_call c (RbPush b) q = (if length q < c then (RetFlag True, q @ [b]) else (RetFlag False, q))"
| "queue_call c RbPop q = (case q of [] \<Rightarrow> (RetByte None, []) | b # q' \<Rightarrow> (RetByte (Some b), q'))"
| "queue_call c (RbWrite bs) q =
     (RetCount (min (length bs) (c - length q)), q @ take (c - length q) bs)"
| "queue_call c (RbRead n) q = (RetBytes (take n q), drop n q)"
| "queue_call c (RbPeek i) q = (RetByte (if i < length q then Some (q ! i) else None), q)"
| "queue_call c (RbDrop n) q = (RetVoid, drop n q)"
| "queue_call c RbLen q = (RetCount (length q), q)"
| "queue_call c RbFree q = (RetCount (c - length q), q)"

fun run_calls :: "('c \<Rightarrow> 's \<Rightarrow> 'r \<times> 's) \<Rightarrow> 'c list \<Rightarrow> 's \<Rightarrow> 'r list \<times> 's" where
  "run_calls f [] s = ([], s)"
| "run_calls f (c # cs) s =
     (case f c s of (r, s') \<Rightarrow> (case run_calls f cs s' of (rs, s'') \<Rightarrow> (r # rs, s'')))"

lemma rb_call_refines:
  assumes "rb_ok rb"
  shows "fst (rb_run_call c rb) = fst (queue_call (rb_cap rb) c (rb_contents rb)) \<and>
    rb_contents (snd (rb_run_call c rb)) = snd (queue_call (rb_cap rb) c (rb_contents rb)) \<and>
    rb_ok (snd (rb_run_call c rb)) \<and> rb_cap (snd (rb_run_call c rb)) = rb_cap rb"
  using assms
  by (cases c) (auto simp del: length_rb_contents simp: fifo_simps case_prod_unfold split: list.splits)

lemma rb_calls_refine:
  assumes "rb_ok rb"
  shows "fst (run_calls rb_run_call cs rb) = fst (run_calls (queue_call (rb_cap rb)) cs (rb_contents rb)) \<and>
    rb_contents (snd (run_calls rb_run_call cs rb)) =
      snd (run_calls (queue_call (rb_cap rb)) cs (rb_contents rb)) \<and>
    rb_ok (snd (run_calls rb_run_call cs rb))"
  using assms
proof (induction cs arbitrary: rb)
  case (Cons c cs)
  note step = rb_call_refines [OF Cons.prems, of c]
  show ?case
    using Cons.IH [of "snd (rb_run_call c rb)"] step by (simp add: case_prod_unfold)
qed simp

text \<open>C9: A ring buffer over storage of its capacity behaves as a bounded byte queue: every sequence of
  push, pop, write, read, peek, drop, length and free calls returns what the same sequence returns
  on a list that holds at most \<open>cap\<close> bytes, starting empty, and the bytes queued at the end agree.
\<close>

theorem ringbuf_refines_queue:
  assumes "0 < cap" "length storage = cap"
  shows "fst (run_calls rb_run_call calls (mc_ringbuf_init storage cap)) =
      fst (run_calls (queue_call cap) calls []) \<and>
    rb_contents (snd (run_calls rb_run_call calls (mc_ringbuf_init storage cap))) =
      snd (run_calls (queue_call cap) calls [])"
  using rb_calls_refine [OF rb_init_ok [OF assms], of calls]
  by (simp add: rb_init_contents rb_init_cap)

theorem ringbuf_refines_queue_witness:
  "fst (run_calls rb_run_call [RbWrite [1, 2, 3, 4], RbPop, RbPush 5, RbRead 9]
      (mc_ringbuf_init [0, 0, 0] 3)) = [RetCount 3, RetByte (Some 1), RetFlag True, RetBytes [2, 3, 5]]"
  using ringbuf_refines_queue [of 3 "[0, 0, 0]" "[RbWrite [1, 2, 3, 4], RbPop, RbPush 5, RbRead 9]"]
  by simp

end
