(* ===== verification/LinkSession.thy ===== *)
theory LinkSession
  imports LinkParser Ringbuf
begin

text \<open>
  The firmware's end of the serial link, firmware/mc_link_session.c: it answers the bridge's control
  frames, delivers the data frames it receives in sequence into the server's receive ring, wraps the
  server's output into data frames, and hands out the queued bytes to the UART. The receive ring is
  shared with the server; here it is a field of the session, which the server may change between two
  calls. Debug logging is left out.
\<close>

section \<open>State\<close>

abbreviation MC_LINK_INITIAL_CREDIT :: u16 where "MC_LINK_INITIAL_CREDIT \<equiv> 512"
abbreviation MC_LINK_DEFAULT_PAYLOAD :: u16 where "MC_LINK_DEFAULT_PAYLOAD \<equiv> 497"
abbreviation MC_LINK_FIRMWARE_SUPPORTED_RATE_MASK :: u16 where
  "MC_LINK_FIRMWARE_SUPPORTED_RATE_MASK \<equiv> 0x3ff"
abbreviation MC_LINK_SESSION_TX_CAP :: nat where "MC_LINK_SESSION_TX_CAP \<equiv> 2048"
abbreviation MC_LINK_SESSION_TX_NONE :: byte where "MC_LINK_SESSION_TX_NONE \<equiv> 0"
abbreviation MC_LINK_SESSION_TX_DATA :: byte where "MC_LINK_SESSION_TX_DATA \<equiv> 1"
abbreviation MC_LINK_SESSION_TX_CONTROL :: byte where "MC_LINK_SESSION_TX_CONTROL \<equiv> 2"

abbreviation MC_LINK_HELLO :: byte where "MC_LINK_HELLO \<equiv> 1"
abbreviation MC_LINK_READY :: byte where "MC_LINK_READY \<equiv> 2"
abbreviation MC_LINK_DATA_C2M :: byte where "MC_LINK_DATA_C2M \<equiv> 3"
abbreviation MC_LINK_ACK_C2M :: byte where "MC_LINK_ACK_C2M \<equiv> 4"
abbreviation MC_LINK_DATA_M2C :: byte where "MC_LINK_DATA_M2C \<equiv> 5"
abbreviation MC_LINK_RATE_PROBE :: byte where "MC_LINK_RATE_PROBE \<equiv> 6"
abbreviation MC_LINK_RATE_PROBE_ACK :: byte where "MC_LINK_RATE_PROBE_ACK \<equiv> 7"
abbreviation MC_LINK_RESET :: byte where "MC_LINK_RESET \<equiv> 8"
abbreviation MC_LINK_RESET_ACK :: byte where "MC_LINK_RESET_ACK \<equiv> 9"
abbreviation MC_LINK_ERROR :: byte where "MC_LINK_ERROR \<equiv> 10"
abbreviation MC_LINK_PING :: byte where "MC_LINK_PING \<equiv> 11"
abbreviation MC_LINK_PONG :: byte where "MC_LINK_PONG \<equiv> 12"

abbreviation MC_LINK_ERR_BAD_LENGTH :: byte where "MC_LINK_ERR_BAD_LENGTH \<equiv> 2"
abbreviation MC_LINK_ERR_UNEXPECTED_TYPE :: byte where "MC_LINK_ERR_UNEXPECTED_TYPE \<equiv> 4"
abbreviation MC_LINK_ERR_SEQUENCE :: byte where "MC_LINK_ERR_SEQUENCE \<equiv> 5"
abbreviation MC_LINK_ERR_RX_OVERFLOW :: byte where "MC_LINK_ERR_RX_OVERFLOW \<equiv> 6"
abbreviation MC_LINK_ERR_PROTOCOL_STATE :: byte where "MC_LINK_ERR_PROTOCOL_STATE \<equiv> 7"

record mc_link_session =
  s_parser :: mc_link_parser
  s_rx :: "mc_ringbuf option"
  s_tx :: mc_ringbuf
  s_control_tx :: mc_ringbuf
  s_rx_seq_expected :: u16
  s_tx_seq_next :: u16
  s_negotiated_payload :: u16
  s_credit_cap :: u16
  s_supported_rate_mask :: u16
  s_active_rate_profile :: byte
  s_ready :: bool
  s_reset_requested :: bool
  s_active_tx_queue :: byte
  s_active_tx_remaining :: nat
  s_data_c2m_frames :: u32
  s_data_m2c_frames :: u32
  s_error_count :: u32
  s_c2m_ack_frames :: u32
  s_c2m_duplicate_frames :: u32

section \<open>Queueing frames\<close>

definition put_u16_le :: "u16 \<Rightarrow> byte list" where
  "put_u16_le v = [u16_lo v, u16_hi v]"

definition get_u16_le :: "byte list \<Rightarrow> nat \<Rightarrow> u16" where
  "get_u16_le src i = u16_le (src ! i) (src ! (i + 1))"

definition queue_frame ::
    "mc_link_session \<Rightarrow> mc_ringbuf \<Rightarrow> byte \<Rightarrow> u16 \<Rightarrow> u16 \<Rightarrow> byte list \<Rightarrow> bool \<times> mc_link_session \<times> mc_ringbuf" where
  "queue_frame s tx type seq ack payload =
     (case mc_link_encode type seq ack payload (replicate MC_LINK_MAX_FRAME_LEN 0) MC_LINK_MAX_FRAME_LEN of
        None \<Rightarrow> (False, s\<lparr>s_error_count := s_error_count s + 1\<rparr>, tx)
      | Some (frame_len, frame) \<Rightarrow>
          if mc_ringbuf_free tx < frame_len
          then (False, s\<lparr>s_error_count := s_error_count s + 1\<rparr>, tx)
          else case mc_ringbuf_write tx (take frame_len frame) of
                 (written, tx') \<Rightarrow> (written = frame_len, s, tx'))"

definition queue_control_frame ::
    "mc_link_session \<Rightarrow> byte \<Rightarrow> u16 \<Rightarrow> u16 \<Rightarrow> byte list \<Rightarrow> bool \<times> mc_link_session" where
  "queue_control_frame s type seq ack payload =
     (case queue_frame s (s_control_tx s) type seq ack payload of
        (ok, s', tx') \<Rightarrow> (ok, s'\<lparr>s_control_tx := tx'\<rparr>))"

definition queue_data_frame ::
    "mc_link_session \<Rightarrow> byte \<Rightarrow> u16 \<Rightarrow> u16 \<Rightarrow> byte list \<Rightarrow> bool \<times> mc_link_session" where
  "queue_data_frame s type seq ack payload =
     (case queue_frame s (s_tx s) type seq ack payload of
        (ok, s', tx') \<Rightarrow> (ok, s'\<lparr>s_tx := tx'\<rparr>))"

definition queue_ready :: "mc_link_session \<Rightarrow> bool \<times> mc_link_session" where
  "queue_ready s =
     queue_control_frame s MC_LINK_READY 0 0
       (put_u16_le (s_negotiated_payload s) @ put_u16_le (s_credit_cap s) @ put_u16_le (s_credit_cap s) @
        put_u16_le (s_supported_rate_mask s) @ [s_active_rate_profile s] @ put_u16_le 0)"

definition rx_free_credit :: "mc_link_session \<Rightarrow> u16" where
  "rx_free_credit s =
     (case s_rx s of
        None \<Rightarrow> 0
      | Some rx \<Rightarrow> if 0xffff < mc_ringbuf_free rx then 0xffff else of_nat (mc_ringbuf_free rx))"

definition queue_ack_c2m :: "mc_link_session \<Rightarrow> u16 \<Rightarrow> bool \<times> mc_link_session" where
  "queue_ack_c2m s ack =
     (case queue_control_frame s MC_LINK_ACK_C2M 0 ack (put_u16_le (rx_free_credit s)) of
        (ok, s') \<Rightarrow>
          if \<not> ok then (False, s') else (True, s'\<lparr>s_c2m_ack_frames := s_c2m_ack_frames s' + 1\<rparr>))"

definition queue_error :: "mc_link_session \<Rightarrow> byte \<Rightarrow> byte \<Rightarrow> bool \<times> mc_link_session" where
  "queue_error s code detail =
     queue_control_frame (s\<lparr>s_error_count := s_error_count s + 1\<rparr>) MC_LINK_ERROR 0 0 [code, detail]"

fun peek_ringbuf_from :: "mc_ringbuf \<Rightarrow> nat \<Rightarrow> nat \<Rightarrow> byte list option" where
  "peek_ringbuf_from rb i 0 = Some []"
| "peek_ringbuf_from rb i (Suc n) =
     (case mc_ringbuf_peek rb i of
        None \<Rightarrow> None
      | Some b \<Rightarrow> map_option ((#) b) (peek_ringbuf_from rb (i + 1) n))"

definition peek_ringbuf :: "mc_ringbuf \<Rightarrow> nat \<Rightarrow> byte list option" where
  "peek_ringbuf rb len = peek_ringbuf_from rb 0 len"

section \<open>Resets\<close>

definition clear_active_tx :: "mc_link_session \<Rightarrow> mc_link_session" where
  "clear_active_tx s = s\<lparr>s_active_tx_queue := MC_LINK_SESSION_TX_NONE, s_active_tx_remaining := 0\<rparr>"

definition reset_capabilities :: "mc_link_session \<Rightarrow> mc_link_session" where
  "reset_capabilities s =
     s\<lparr>s_negotiated_payload := MC_LINK_DEFAULT_PAYLOAD, s_credit_cap := MC_LINK_INITIAL_CREDIT,
       s_supported_rate_mask := MC_LINK_FIRMWARE_SUPPORTED_RATE_MASK, s_active_rate_profile := 0\<rparr>"

fun next_frame_len_from :: "mc_ringbuf \<Rightarrow> nat \<Rightarrow> nat \<Rightarrow> nat option" where
  "next_frame_len_from tx i 0 = None"
| "next_frame_len_from tx i (Suc n) =
     (case mc_ringbuf_peek tx i of
        None \<Rightarrow> None
      | Some b \<Rightarrow> if b = MC_LINK_DELIMITER then Some (i + 1) else next_frame_len_from tx (i + 1) n)"

definition next_frame_len :: "mc_ringbuf \<Rightarrow> nat option" where
  "next_frame_len tx = next_frame_len_from tx 0 (mc_ringbuf_len tx)"

definition truncate_ringbuf :: "mc_ringbuf \<Rightarrow> nat \<Rightarrow> mc_ringbuf" where
  "truncate_ringbuf rb keep_len =
     (if mc_ringbuf_len rb \<le> keep_len then rb
      else rb\<lparr>rb_head := (rb_tail rb + keep_len) mod rb_cap rb, rb_len := keep_len\<rparr>)"

text \<open>Re-initialising a transmit ring over its own storage.\<close>

definition reinit_tx :: "mc_ringbuf \<Rightarrow> mc_ringbuf" where
  "reinit_tx tx = mc_ringbuf_init (rb_data tx) MC_LINK_SESSION_TX_CAP"

definition mc_link_session_init :: "mc_ringbuf option \<Rightarrow> mc_link_session" where
  "mc_link_session_init rx =
     (reset_capabilities
       \<lparr>s_parser = mc_link_parser_init, s_rx = rx,
        s_tx = mc_ringbuf_init (replicate MC_LINK_SESSION_TX_CAP 0) MC_LINK_SESSION_TX_CAP,
        s_control_tx = mc_ringbuf_init (replicate MC_LINK_SESSION_TX_CAP 0) MC_LINK_SESSION_TX_CAP,
        s_rx_seq_expected = 0, s_tx_seq_next = 0, s_negotiated_payload = 0, s_credit_cap = 0,
        s_supported_rate_mask = 0, s_active_rate_profile = 0, s_ready = False,
        s_reset_requested = False, s_active_tx_queue = 0, s_active_tx_remaining = 0,
        s_data_c2m_frames = 0, s_data_m2c_frames = 0, s_error_count = 0, s_c2m_ack_frames = 0,
        s_c2m_duplicate_frames = 0\<rparr>)\<lparr>s_ready := True\<rparr>"

definition reset_link_state_preserving_control_tx :: "mc_link_session \<Rightarrow> mc_link_session" where
  "reset_link_state_preserving_control_tx s =
     s\<lparr>s_rx_seq_expected := 0, s_tx_seq_next := 0, s_ready := True, s_parser := mc_link_parser_init,
       s_tx := (if s_active_tx_queue s = MC_LINK_SESSION_TX_DATA
                then truncate_ringbuf (s_tx s) (s_active_tx_remaining s) else reinit_tx (s_tx s)),
       s_rx := map_option (\<lambda>rx. mc_ringbuf_drop rx (mc_ringbuf_len rx)) (s_rx s)\<rparr>"

definition reset_link_state :: "mc_link_session \<Rightarrow> mc_link_session" where
  "reset_link_state s =
     (let s = reset_link_state_preserving_control_tx s in
      if s_active_tx_queue s = MC_LINK_SESSION_TX_CONTROL
      then s\<lparr>s_control_tx := truncate_ringbuf (s_control_tx s) (s_active_tx_remaining s)\<rparr>
      else let s = s\<lparr>s_control_tx := reinit_tx (s_control_tx s)\<rparr> in
           if s_active_tx_queue s \<noteq> MC_LINK_SESSION_TX_DATA then clear_active_tx s else s)"

section \<open>Handling received frames\<close>

definition handle_hello :: "mc_link_session \<Rightarrow> mc_link_frame \<Rightarrow> bool \<times> mc_link_session" where
  "handle_hello s frame =
     (if fr_len frame \<noteq> 6 then queue_error s MC_LINK_ERR_BAD_LENGTH 0
      else let requested_payload = get_u16_le (fr_payload frame) 0;
               requested_credit = get_u16_le (fr_payload frame) 2;
               requested_rate_mask = get_u16_le (fr_payload frame) 4
           in if requested_payload = 0 \<or> requested_credit = 0 then queue_error s MC_LINK_ERR_BAD_LENGTH 0
              else queue_ready ((reset_link_state s)
                     \<lparr>s_negotiated_payload := min requested_payload MC_LINK_DEFAULT_PAYLOAD,
                      s_credit_cap := min requested_credit MC_LINK_INITIAL_CREDIT,
                      s_supported_rate_mask := (requested_rate_mask AND MC_LINK_FIRMWARE_SUPPORTED_RATE_MASK) OR 1,
                      s_active_rate_profile := 0\<rparr>))"

definition handle_reset :: "mc_link_session \<Rightarrow> mc_link_frame \<Rightarrow> bool \<times> mc_link_session" where
  "handle_reset s frame =
     (case queue_control_frame ((reset_link_state s)\<lparr>s_reset_requested := True\<rparr>)
             MC_LINK_RESET_ACK (fr_seq frame) (fr_ack frame) [] of
        (ok, s') \<Rightarrow> if \<not> ok then (False, s') else queue_ready s')"

definition handle_data_c2m :: "mc_link_session \<Rightarrow> mc_link_frame \<Rightarrow> bool \<times> mc_link_session" where
  "handle_data_c2m s frame =
     (if \<not> s_ready s then queue_error s MC_LINK_ERR_PROTOCOL_STATE (fr_type frame)
      else if fr_seq frame = s_rx_seq_expected s - 1
      then queue_ack_c2m (s\<lparr>s_c2m_duplicate_frames := s_c2m_duplicate_frames s + 1\<rparr>) (s_rx_seq_expected s)
      else if fr_seq frame \<noteq> s_rx_seq_expected s
      then (False, snd (queue_error s MC_LINK_ERR_SEQUENCE (ucast (fr_seq frame))))
      else if fr_len frame = 0 \<or> s_negotiated_payload s < fr_len frame
      then queue_error s MC_LINK_ERR_BAD_LENGTH (ucast (fr_len frame))
      else case s_rx s of
             None \<Rightarrow> (False, snd (queue_error s MC_LINK_ERR_RX_OVERFLOW (ucast (fr_len frame))))
           | Some rx \<Rightarrow>
               if mc_ringbuf_free rx < unat (fr_len frame)
               then (False, snd (queue_error s MC_LINK_ERR_RX_OVERFLOW (ucast (fr_len frame))))
               else case mc_ringbuf_write rx (take (unat (fr_len frame)) (fr_payload frame)) of
                      (written, rx') \<Rightarrow>
                        let s = s\<lparr>s_rx := Some rx'\<rparr> in
                        if written \<noteq> unat (fr_len frame)
                        then (False, snd (queue_error s MC_LINK_ERR_RX_OVERFLOW (ucast (fr_len frame))))
                        else let s = s\<lparr>s_rx_seq_expected := s_rx_seq_expected s + 1,
                                       s_data_c2m_frames := s_data_c2m_frames s + 1\<rparr>
                             in queue_ack_c2m s (s_rx_seq_expected s))"

definition handle_frame :: "mc_link_session \<Rightarrow> mc_link_frame \<Rightarrow> bool \<times> mc_link_session" where
  "handle_frame s frame =
     (let payload = take (unat (fr_len frame)) (fr_payload frame) in
      if fr_type frame = MC_LINK_HELLO then handle_hello s frame
      else if fr_type frame = MC_LINK_RESET then handle_reset s frame
      else if fr_type frame = MC_LINK_DATA_C2M then handle_data_c2m s frame
      else if fr_type frame = MC_LINK_RATE_PROBE
      then queue_control_frame s MC_LINK_RATE_PROBE_ACK (fr_seq frame) (fr_ack frame) payload
      else if fr_type frame = MC_LINK_PING
      then queue_control_frame s MC_LINK_PONG (fr_seq frame) (fr_ack frame) payload
      else queue_error s MC_LINK_ERR_UNEXPECTED_TYPE (fr_type frame))"

text \<open>The handlers leave the parser alone or re-initialise it.\<close>

lemma queue_frame_parser [frame_rules]: "s_parser (fst (snd (queue_frame s tx t seq ack pl))) = s_parser s"
  by (auto simp: queue_frame_def split: option.splits prod.splits)

lemma queue_control_frame_parser [frame_rules]: "s_parser (snd (queue_control_frame s t seq ack pl)) = s_parser s"
  by (simp add: queue_control_frame_def case_prod_unfold frame_rules)

lemma queue_ready_parser [frame_rules]: "s_parser (snd (queue_ready s)) = s_parser s"
  by (simp add: queue_ready_def frame_rules)

lemma queue_error_parser [frame_rules]: "s_parser (snd (queue_error s c d)) = s_parser s"
  by (simp add: queue_error_def frame_rules)

lemma queue_ack_c2m_parser [frame_rules]: "s_parser (snd (queue_ack_c2m s ack)) = s_parser s"
  by (simp add: queue_ack_c2m_def case_prod_unfold frame_rules)

lemma reset_link_state_parser [frame_rules]: "s_parser (reset_link_state s) = mc_link_parser_init"
  by (simp add: reset_link_state_def reset_link_state_preserving_control_tx_def clear_active_tx_def Let_def)

lemma handle_data_c2m_parser [frame_rules]: "s_parser (snd (handle_data_c2m s frame)) = s_parser s"
  by (simp add: handle_data_c2m_def Let_def frame_rules case_prod_unfold split: option.splits)

lemma handle_frame_parser:
  "s_parser (snd (handle_frame s frame)) = s_parser s \<or>
   s_parser (snd (handle_frame s frame)) = mc_link_parser_init"
  by (simp add: handle_frame_def handle_hello_def handle_reset_def Let_def frame_rules case_prod_unfold)

lemma handle_frame_parser_len: "ps_len (s_parser (snd (handle_frame s frame))) \<le> ps_len (s_parser s)"
  using handle_frame_parser [of s frame] by (auto simp: mc_link_parser_init_def)

section \<open>Calls of the main loop\<close>

text \<open>The \<open>while\<close> loop of \<open>mc_link_session_receive_bytes\<close>, entered with a parsed frame.\<close>

function receive_frames :: "mc_link_session \<Rightarrow> mc_link_frame \<Rightarrow> (bool \<times> mc_link_session) option" where
  "receive_frames s frame =
     (case handle_frame s frame of
        (False, s') \<Rightarrow> Some (False, s')
      | (True, s') \<Rightarrow>
          (case mc_link_parser_feed (s_parser s') [] of
             None \<Rightarrow> None
           | Some (MC_LINK_PARSE_FRAME frame', p) \<Rightarrow> receive_frames (s'\<lparr>s_parser := p\<rparr>) frame'
           | Some (result, p) \<Rightarrow> Some (result \<noteq> MC_LINK_PARSE_ERROR, s'\<lparr>s_parser := p\<rparr>)))"
  by pat_completeness auto
termination
proof (relation "measure (\<lambda>(s, frame). ps_len (s_parser s))")
  fix s frame ok s' r p result frame'
  assume a: "(ok, s') = handle_frame s frame" "ok = True" "mc_link_parser_feed (s_parser s') [] = Some r"
    "(result, p) = r" "result = MC_LINK_PARSE_FRAME frame'"
  then have "ps_len p < ps_len (s_parser s')" by (auto dest: parser_feed_frame_len)
  also have "\<dots> \<le> ps_len (s_parser s)"
    using handle_frame_parser_len [of s frame] a(1) [symmetric] by simp
  finally show "((s'\<lparr>s_parser := p\<rparr>, frame'), s, frame) \<in> measure (\<lambda>(s, frame). ps_len (s_parser s))"
    by simp
qed simp

declare receive_frames.simps [simp del]

definition mc_link_session_receive_bytes ::
    "mc_link_session \<Rightarrow> byte list \<Rightarrow> (bool \<times> mc_link_session) option" where
  "mc_link_session_receive_bytes s src =
     (case mc_link_parser_feed (s_parser s) src of
        None \<Rightarrow> None
      | Some (MC_LINK_PARSE_FRAME frame, p) \<Rightarrow> receive_frames (s\<lparr>s_parser := p\<rparr>) frame
      | Some (result, p) \<Rightarrow> Some (result \<noteq> MC_LINK_PARSE_ERROR, s\<lparr>s_parser := p\<rparr>))"

definition mc_link_session_credit_consumed :: "mc_link_session \<Rightarrow> nat \<Rightarrow> mc_link_session" where
  "mc_link_session_credit_consumed s consumed_len = snd (queue_ack_c2m s 0)"

definition mc_link_session_reset_after_error ::
    "mc_link_session \<Rightarrow> byte \<Rightarrow> byte \<Rightarrow> bool \<times> mc_link_session" where
  "mc_link_session_reset_after_error s code detail =
     (case queue_error s code detail of
        (ok, s') \<Rightarrow>
          if \<not> ok then (False, s') else queue_ready (reset_link_state_preserving_control_tx s'))"

definition mc_link_session_queue_server_tx ::
    "mc_link_session \<Rightarrow> mc_ringbuf \<Rightarrow> bool \<times> mc_link_session \<times> mc_ringbuf" where
  "mc_link_session_queue_server_tx s server_tx =
     (if \<not> s_ready s then (False, s, server_tx)
      else let max_payload = unat (s_negotiated_payload s);
               max_payload = (if max_payload = 0 \<or> MC_LINK_MAX_PAYLOAD < max_payload
                              then MC_LINK_MAX_PAYLOAD else max_payload);
               n = mc_ringbuf_len server_tx;
               n = (if max_payload < n then max_payload else n)
           in if n = 0 then (True, s, server_tx)
              else case peek_ringbuf server_tx n of
                None \<Rightarrow> (False, s, server_tx)
              | Some payload \<Rightarrow>
                  (case queue_data_frame s MC_LINK_DATA_M2C (s_tx_seq_next s) (s_rx_seq_expected s) payload of
                     (ok, s') \<Rightarrow>
                       if \<not> ok then (False, s', server_tx)
                       else (True, s'\<lparr>s_tx_seq_next := s_tx_seq_next s' + 1,
                                      s_data_m2c_frames := s_data_m2c_frames s' + 1\<rparr>,
                             mc_ringbuf_drop server_tx n)))"

text \<open>The end of \<open>mc_link_session_read_tx\<close>: take bytes of the frame that is being sent. \<open>put\<close> stores
  the ring that \<open>active_tx\<close> points to back into the session.\<close>

definition read_active_tx ::
    "mc_ringbuf \<Rightarrow> (mc_ringbuf \<Rightarrow> mc_link_session) \<Rightarrow> nat \<Rightarrow> byte list \<times> mc_link_session" where
  "read_active_tx active_tx put max_len =
     (let s = put active_tx in
      if s_active_tx_remaining s = 0 \<or> mc_ringbuf_len active_tx = 0 then ([], clear_active_tx s)
      else let to_read = s_active_tx_remaining s;
               to_read = (if max_len < to_read then max_len else to_read)
           in if mc_ringbuf_len active_tx < to_read then ([], clear_active_tx s)
              else case mc_ringbuf_read active_tx to_read of
                (bs, tx') \<Rightarrow>
                  let s = (put tx')\<lparr>s_active_tx_remaining := s_active_tx_remaining s - length bs\<rparr>
                  in (bs, if s_active_tx_remaining s = 0 then clear_active_tx s else s))"

definition select_active_tx :: "mc_link_session \<Rightarrow> mc_link_session option" where
  "select_active_tx s =
     (if s_active_tx_queue s \<noteq> MC_LINK_SESSION_TX_NONE then Some s
      else case next_frame_len (s_control_tx s) of
        Some frame_len \<Rightarrow>
          Some (s\<lparr>s_active_tx_queue := MC_LINK_SESSION_TX_CONTROL, s_active_tx_remaining := frame_len\<rparr>)
      | None \<Rightarrow>
          (case next_frame_len (s_tx s) of
             Some frame_len \<Rightarrow>
               Some (s\<lparr>s_active_tx_queue := MC_LINK_SESSION_TX_DATA, s_active_tx_remaining := frame_len\<rparr>)
           | None \<Rightarrow> None))"

definition mc_link_session_read_tx :: "mc_link_session \<Rightarrow> nat \<Rightarrow> byte list \<times> mc_link_session" where
  "mc_link_session_read_tx s max_len =
     (if max_len = 0 then ([], s)
      else case select_active_tx s of
        None \<Rightarrow> ([], s)
      | Some s \<Rightarrow>
          if s_active_tx_queue s = MC_LINK_SESSION_TX_CONTROL
          then read_active_tx (s_control_tx s) (\<lambda>tx. s\<lparr>s_control_tx := tx\<rparr>) max_len
          else if s_active_tx_queue s = MC_LINK_SESSION_TX_DATA
          then read_active_tx (s_tx s) (\<lambda>tx. s\<lparr>s_tx := tx\<rparr>) max_len
          else ([], clear_active_tx s))"

definition mc_link_session_take_reset_requested :: "mc_link_session \<Rightarrow> bool \<times> mc_link_session" where
  "mc_link_session_take_reset_requested s = (s_reset_requested s, s\<lparr>s_reset_requested := False\<rparr>)"

definition mc_link_session_drop_queued_data :: "mc_link_session \<Rightarrow> mc_link_session" where
  "mc_link_session_drop_queued_data s =
     (if s_active_tx_queue s = MC_LINK_SESSION_TX_DATA
      then s\<lparr>s_tx := truncate_ringbuf (s_tx s) (s_active_tx_remaining s)\<rparr>
      else let s = s\<lparr>s_tx := reinit_tx (s_tx s)\<rparr> in
           if s_active_tx_queue s \<noteq> MC_LINK_SESSION_TX_CONTROL then clear_active_tx s else s)"

section \<open>Whole frames\<close>

text \<open>
  What the device may say to the bridge: the payload each type of frame has. A \<open>READY\<close> frame announces
  capabilities that the bridge accepts: a payload limit and a credit within the limits of the protocol, all of the
  credit at once, the start-up rate among the supported rates, and no flags.
\<close>

definition ready_payload_ok :: "byte list \<Rightarrow> bool" where
  "ready_payload_ok bs \<longleftrightarrow> length bs = 11 \<and>
     0 < get_u16_le bs 0 \<and> get_u16_le bs 0 \<le> MC_LINK_DEFAULT_PAYLOAD \<and>
     0 < get_u16_le bs 2 \<and> get_u16_le bs 2 \<le> MC_LINK_INITIAL_CREDIT \<and> get_u16_le bs 4 = get_u16_le bs 2 \<and>
     bit (get_u16_le bs 6) 0 \<and>
     get_u16_le bs 6 AND MC_LINK_FIRMWARE_SUPPORTED_RATE_MASK = get_u16_le bs 6 \<and>
     bs ! 8 = 0 \<and> get_u16_le bs 9 = 0"

definition device_payload :: "byte \<Rightarrow> byte list \<Rightarrow> bool" where
  "device_payload type payload \<longleftrightarrow>
     (if type = MC_LINK_READY then ready_payload_ok payload
      else if type = MC_LINK_DATA_M2C then payload \<noteq> []
      else if type = MC_LINK_ACK_C2M \<or> type = MC_LINK_ERROR then length payload = 2
      else if type = MC_LINK_RESET_ACK then payload = []
      else type = MC_LINK_RATE_PROBE_ACK \<or> type = MC_LINK_PONG)"

definition device_frame :: "mc_link_frame \<Rightarrow> bool" where
  "device_frame fr \<longleftrightarrow> encodable_frame fr \<and> device_payload (fr_type fr) (fr_payload fr)"

text \<open>Bytes that are whole frames of the device, each of a type that satisfies \<open>P\<close>.\<close>

definition frames_of :: "(byte \<Rightarrow> bool) \<Rightarrow> byte list \<Rightarrow> bool" where
  "frames_of P bs \<longleftrightarrow> (\<exists>frs. list_all (\<lambda>fr. device_frame fr \<and> P (fr_type fr)) frs \<and> bs = concat (map frame_bytes frs))"

abbreviation frames_only :: "byte list \<Rightarrow> bool" where "frames_only \<equiv> frames_of (\<lambda>_. True)"

abbreviation is_data :: "byte \<Rightarrow> bool" where "is_data t \<equiv> t = MC_LINK_DATA_M2C"
abbreviation is_control :: "byte \<Rightarrow> bool" where "is_control t \<equiv> t \<noteq> MC_LINK_DATA_M2C"

lemma frames_only_def: "frames_only bs \<longleftrightarrow> (\<exists>frs. list_all device_frame frs \<and> bs = concat (map frame_bytes frs))"
  by (simp add: frames_of_def)

lemma device_frames_encodable: "list_all device_frame frs \<Longrightarrow> list_all encodable_frame frs"
  by (auto simp: list_all_iff device_frame_def)

lemma frames_of_only [intro]: "frames_of P bs \<Longrightarrow> frames_only bs"
  unfolding frames_of_def by (auto simp: list_all_iff)

lemma frames_of_Nil [simp, intro]: "frames_of P []"
  by (auto simp: frames_of_def intro: exI [of _ "[]"])

lemma frames_of_append [intro]: "frames_of P xs \<Longrightarrow> frames_of P ys \<Longrightarrow> frames_of P (xs @ ys)"
proof -
  assume "frames_of P xs" "frames_of P ys"
  then obtain frs frs' where "list_all (\<lambda>fr. device_frame fr \<and> P (fr_type fr)) (frs @ frs')"
    "xs = concat (map frame_bytes frs)" "ys = concat (map frame_bytes frs')" by (auto simp: frames_of_def)
  then show ?thesis unfolding frames_of_def by (intro exI [of _ "frs @ frs'"]) simp
qed

lemma frames_of_frame [intro]:
  "length payload \<le> MC_LINK_MAX_PAYLOAD \<Longrightarrow> device_payload t payload \<Longrightarrow> P t \<Longrightarrow>
     frames_of P (link_frame_bytes t seq ack payload)"
  unfolding frames_of_def
  by (rule exI [of _ "[link_frame t seq ack payload]"]) (simp add: device_frame_def, simp add: link_frame_def)

lemma frames_of_first:
  assumes "frames_of P bs" "delimiter_index bs = Some i"
  shows "frames_of P (take (Suc i) bs) \<and> frames_of P (drop (Suc i) bs) \<and> Suc i \<le> length bs"
proof -
  obtain frs where frs: "list_all (\<lambda>fr. device_frame fr \<and> P (fr_type fr)) frs" "bs = concat (map frame_bytes frs)"
    using assms(1) by (auto simp: frames_of_def)
  then obtain fr frs' where cons: "frs = fr # frs'"
    using assms(2) by (cases frs) auto
  let ?c = "cobs_ref (link_body (fr_type fr) (fr_seq fr) (fr_ack fr) (fr_payload fr))"
  have bs: "bs = ?c @ 0 # concat (map frame_bytes frs')"
    using frs(2) cons by (simp add: frame_bytes_def link_frame_bytes_def)
  then have i: "i = length ?c"
    using assms(2) by (simp add: delimiter_index_append cobs_ref_no_zero)
  have "frames_of P (concat (map frame_bytes frs'))" "frames_of P (frame_bytes fr)"
    using frs cons by (auto simp: frames_of_def intro: exI [of _ "[fr]"])
  with bs i show ?thesis by (simp add: frame_bytes_def link_frame_bytes_def)
qed

lemma next_frame_len_from:
  "i + n = length (rb_contents tx) \<Longrightarrow>
   next_frame_len_from tx i n = map_option (\<lambda>k. i + k + 1) (delimiter_index (drop i (rb_contents tx)))"
proof (induction n arbitrary: i)
  case (Suc n)
  then have "drop i (rb_contents tx) = rb_contents tx ! i # drop (Suc i) (rb_contents tx)"
    by (intro Cons_nth_drop_Suc [symmetric]) simp
  with Suc show ?case
    by (simp add: rb_peek option.map_comp o_def del: length_rb_contents)
qed (simp del: length_rb_contents)

lemma next_frame_len: "next_frame_len tx = map_option Suc (delimiter_index (rb_contents tx))"
  using next_frame_len_from [of 0 "mc_ringbuf_len tx" tx] by (simp add: next_frame_len_def mc_ringbuf_len_def)

lemma truncate_contents: "rb_contents (truncate_ringbuf rb k) = take k (rb_contents rb)"
  by (auto simp: truncate_ringbuf_def mc_ringbuf_len_def rb_contents_def take_map min_def)

lemma truncate_ok: "rb_ok rb \<Longrightarrow> rb_ok (truncate_ringbuf rb k)"
  by (auto simp: truncate_ringbuf_def mc_ringbuf_len_def rb_ok_def)

lemma truncate_cap [simp]: "rb_cap (truncate_ringbuf rb k) = rb_cap rb"
  by (simp add: truncate_ringbuf_def)

lemma peek_ringbuf_from_eq:
  "i + n \<le> length (rb_contents rb) \<Longrightarrow> peek_ringbuf_from rb i n = Some (take n (drop i (rb_contents rb)))"
proof (induction n arbitrary: i)
  case (Suc n)
  then have "drop i (rb_contents rb) = rb_contents rb ! i # drop (Suc i) (rb_contents rb)"
    by (intro Cons_nth_drop_Suc [symmetric]) simp
  with Suc show ?case by (simp add: rb_peek del: length_rb_contents)
qed simp

lemma peek_ringbuf_length: "peek_ringbuf rb n = Some bs \<Longrightarrow> length bs = n"
proof -
  have "peek_ringbuf_from rb i n = Some bs \<Longrightarrow> length bs = n" for i
    by (induction n arbitrary: i bs) (auto split: option.splits)
  then show "peek_ringbuf rb n = Some bs \<Longrightarrow> length bs = n" by (simp add: peek_ringbuf_def)
qed

lemma peek_ringbuf_eq: "n \<le> length (rb_contents rb) \<Longrightarrow> peek_ringbuf rb n = Some (take n (rb_contents rb))"
  using peek_ringbuf_from_eq [of 0 n rb] by (simp add: peek_ringbuf_def)

section \<open>The invariant of a session\<close>

definition tx_ring_ok :: "mc_ringbuf \<Rightarrow> bool" where
  "tx_ring_ok rb \<longleftrightarrow> rb_ok rb \<and> rb_cap rb = MC_LINK_SESSION_TX_CAP"

text \<open>The bytes still to be sent of the frame whose transmission has begun, and what waits behind it.\<close>

definition in_flight :: "mc_link_session \<Rightarrow> byte list" where
  "in_flight s =
     (if s_active_tx_queue s = MC_LINK_SESSION_TX_CONTROL
      then take (s_active_tx_remaining s) (rb_contents (s_control_tx s))
      else if s_active_tx_queue s = MC_LINK_SESSION_TX_DATA
      then take (s_active_tx_remaining s) (rb_contents (s_tx s)) else [])"

definition control_waiting :: "mc_link_session \<Rightarrow> byte list" where
  "control_waiting s =
     (if s_active_tx_queue s = MC_LINK_SESSION_TX_CONTROL
      then drop (s_active_tx_remaining s) (rb_contents (s_control_tx s)) else rb_contents (s_control_tx s))"

definition data_waiting :: "mc_link_session \<Rightarrow> byte list" where
  "data_waiting s =
     (if s_active_tx_queue s = MC_LINK_SESSION_TX_DATA
      then drop (s_active_tx_remaining s) (rb_contents (s_tx s)) else rb_contents (s_tx s))"

definition active_ok :: "mc_link_session \<Rightarrow> bool" where
  "active_ok s \<longleftrightarrow>
     (if s_active_tx_queue s = MC_LINK_SESSION_TX_CONTROL
      then 0 < s_active_tx_remaining s \<and> s_active_tx_remaining s \<le> length (rb_contents (s_control_tx s))
      else if s_active_tx_queue s = MC_LINK_SESSION_TX_DATA
      then 0 < s_active_tx_remaining s \<and> s_active_tx_remaining s \<le> length (rb_contents (s_tx s))
      else s_active_tx_queue s = MC_LINK_SESSION_TX_NONE \<and> s_active_tx_remaining s = 0)"

definition capabilities_ok :: "mc_link_session \<Rightarrow> bool" where
  "capabilities_ok s \<longleftrightarrow>
     0 < s_negotiated_payload s \<and> s_negotiated_payload s \<le> MC_LINK_DEFAULT_PAYLOAD \<and>
     0 < s_credit_cap s \<and> s_credit_cap s \<le> MC_LINK_INITIAL_CREDIT \<and>
     bit (s_supported_rate_mask s) 0 \<and>
     s_supported_rate_mask s AND MC_LINK_FIRMWARE_SUPPORTED_RATE_MASK = s_supported_rate_mask s \<and>
     s_active_rate_profile s = 0"

definition session_ok :: "mc_link_session \<Rightarrow> bool" where
  "session_ok s \<longleftrightarrow> s_ready s \<and> parser_ok (s_parser s) \<and> pred_option rb_ok (s_rx s) \<and>
     tx_ring_ok (s_tx s) \<and> tx_ring_ok (s_control_tx s) \<and> active_ok s \<and>
     frames_of is_control (control_waiting s) \<and> frames_of is_data (data_waiting s) \<and> capabilities_ok s"

lemmas session_defs = session_ok_def active_ok_def control_waiting_def data_waiting_def in_flight_def
  capabilities_ok_def

text \<open>A call that sends nothing: the invariant holds again and the frame on the wire is untouched.\<close>

definition keeps_tx :: "mc_link_session \<Rightarrow> mc_link_session \<Rightarrow> bool" where
  "keeps_tx s s' \<longleftrightarrow> session_ok s' \<and> in_flight s' = in_flight s"

lemma keeps_tx_trans: "keeps_tx s s' \<Longrightarrow> keeps_tx s' s'' \<Longrightarrow> keeps_tx s s''"
  by (simp add: keeps_tx_def)

lemma keeps_tx_then:
  "keeps_tx s s' \<Longrightarrow> (session_ok s' \<Longrightarrow> keeps_tx s' s'') \<Longrightarrow> keeps_tx s s''"
  by (simp add: keeps_tx_def)

lemma keeps_tx_refl: "session_ok s \<Longrightarrow> keeps_tx s s"
  by (simp add: keeps_tx_def)

lemma keeps_tx_ok: "keeps_tx s s' \<Longrightarrow> session_ok s'"
  by (simp add: keeps_tx_def)

text \<open>Queueing appends one whole frame or changes nothing but the error count.\<close>

lemma queue_frame_long:
  "MC_LINK_MAX_PAYLOAD < length payload \<Longrightarrow>
   queue_frame s tx t seq ack payload = (False, s\<lparr>s_error_count := s_error_count s + 1\<rparr>, tx)"
  by (simp add: queue_frame_def mc_link_encode_too_long)

lemma queue_frame_fits:
  assumes "length payload \<le> MC_LINK_MAX_PAYLOAD" "rb_ok tx"
  shows "queue_frame s tx t seq ack payload =
    (if rb_cap tx < length (rb_contents tx) + length (link_frame_bytes t seq ack payload)
     then (False, s\<lparr>s_error_count := s_error_count s + 1\<rparr>, tx)
     else (True, s, snd (mc_ringbuf_write tx (link_frame_bytes t seq ack payload))))"
proof -
  let ?f = "link_frame_bytes t seq ack payload"
  obtain out' where e: "mc_link_encode t seq ack payload (replicate 512 0) 512 = Some (length ?f, out')"
    "take (length ?f) out' = ?f"
    using mc_link_encode_512 [OF assms(1), of "replicate 512 0"] by (metis length_replicate)
  have b: "length (rb_contents tx) \<le> rb_cap tx" by (rule rb.bounded [OF assms(2)])
  then show ?thesis
    using rb.write_count [OF assms(2), of ?f]
    by (auto simp: queue_frame_def e rb_free_eq case_prod_unfold simp del: length_rb_contents)
qed

lemma queue_frame_cases [case_names refused queued]:
  assumes "rb_ok tx"
  obtains "queue_frame s tx t seq ack payload = (False, s\<lparr>s_error_count := s_error_count s + 1\<rparr>, tx)"
  | tx' where "queue_frame s tx t seq ack payload = (True, s, tx')" "rb_ok tx'" "rb_cap tx' = rb_cap tx"
      "rb_contents tx' = rb_contents tx @ link_frame_bytes t seq ack payload"
      "length payload \<le> MC_LINK_MAX_PAYLOAD"
proof (cases "length payload \<le> MC_LINK_MAX_PAYLOAD")
  case True
  let ?f = "link_frame_bytes t seq ack payload"
  show ?thesis
  proof (cases "rb_cap tx < length (rb_contents tx) + length ?f")
    case False
    with True assms show ?thesis
      by (intro that(2) [of "snd (mc_ringbuf_write tx ?f)"])
        (simp_all add: queue_frame_fits fifo_simps del: length_rb_contents)
  next
    case full: True
    show ?thesis
      by (rule that(1)) (simp only: queue_frame_fits [OF True assms] full if_True)
  qed
next
  case False
  then show ?thesis
    by (intro that(1) queue_frame_long) simp
qed

text \<open>What is queued behind the frame on the wire, after appending to one of the rings.\<close>

lemma keeps_tx_append_control:
  assumes "session_ok s" "rb_ok tx'" "rb_cap tx' = rb_cap (s_control_tx s)"
    "rb_contents tx' = rb_contents (s_control_tx s) @ bs" "frames_of is_control bs"
  shows "keeps_tx s (s\<lparr>s_control_tx := tx'\<rparr>)"
  using assms by (auto simp: keeps_tx_def session_defs tx_ring_ok_def simp del: length_rb_contents split: if_splits)

lemma keeps_tx_append_data:
  assumes "session_ok s" "rb_ok tx'" "rb_cap tx' = rb_cap (s_tx s)"
    "rb_contents tx' = rb_contents (s_tx s) @ bs" "frames_of is_data bs"
  shows "keeps_tx s (s\<lparr>s_tx := tx'\<rparr>)"
  using assms by (auto simp: keeps_tx_def session_defs tx_ring_ok_def simp del: length_rb_contents split: if_splits)

text \<open>Changes of the counters, the sequence numbers and the other fields the invariant does not read.\<close>

lemma keeps_tx_counters:
  assumes "session_ok s"
  shows "keeps_tx s (s\<lparr>s_error_count := a\<rparr>)" "keeps_tx s (s\<lparr>s_c2m_ack_frames := a\<rparr>)"
    "keeps_tx s (s\<lparr>s_c2m_duplicate_frames := a\<rparr>)" "keeps_tx s (s\<lparr>s_reset_requested := b\<rparr>)"
    "keeps_tx s (s\<lparr>s_rx_seq_expected := c, s_data_c2m_frames := a\<rparr>)"
    "keeps_tx s (s\<lparr>s_tx_seq_next := c, s_data_m2c_frames := a\<rparr>)"
    "rb_ok rx \<Longrightarrow> keeps_tx s (s\<lparr>s_rx := Some rx\<rparr>)"
    "parser_ok p \<Longrightarrow> keeps_tx s (s\<lparr>s_parser := p\<rparr>)"
  using assms by (simp_all add: keeps_tx_def session_defs cong: if_cong split del: if_split)

lemma session_okD:
  assumes "session_ok s"
  shows "rb_ok (s_tx s)" "rb_ok (s_control_tx s)" "rb_cap (s_tx s) = MC_LINK_SESSION_TX_CAP"
    "rb_cap (s_control_tx s) = MC_LINK_SESSION_TX_CAP" "s_ready s" "parser_ok (s_parser s)"
    "pred_option rb_ok (s_rx s)"
  using assms by (simp_all add: session_ok_def tx_ring_ok_def)

lemma queue_control_frame_keeps:
  assumes "session_ok s" "is_control t" "device_payload t payload"
  shows "keeps_tx s (snd (queue_control_frame s t seq ack payload))"
  by (rule queue_frame_cases [OF session_okD(2) [OF assms(1)], of s t seq ack payload])
    (simp_all add: queue_control_frame_def assms keeps_tx_counters keeps_tx_append_control frames_of_frame)

lemma queue_data_frame_keeps:
  assumes "session_ok s" "payload \<noteq> []" shows "keeps_tx s (snd (queue_data_frame s MC_LINK_DATA_M2C seq ack payload))"
  by (rule queue_frame_cases [OF session_okD(1) [OF assms(1)], of s MC_LINK_DATA_M2C seq ack payload])
    (simp_all add: queue_data_frame_def assms keeps_tx_counters keeps_tx_append_data frames_of_frame device_payload_def)

lemma ready_payload:
  "capabilities_ok s \<Longrightarrow> ready_payload_ok (put_u16_le (s_negotiated_payload s) @ put_u16_le (s_credit_cap s) @
     put_u16_le (s_credit_cap s) @ put_u16_le (s_supported_rate_mask s) @ [s_active_rate_profile s] @ put_u16_le 0)"
  by (simp add: ready_payload_ok_def capabilities_ok_def get_u16_le_def put_u16_le_def)

lemma queue_ready_keeps: "session_ok s \<Longrightarrow> keeps_tx s (snd (queue_ready s))"
  unfolding queue_ready_def
  by (rule queue_control_frame_keeps, assumption, simp)
    (use ready_payload [of s] in \<open>simp add: device_payload_def session_ok_def\<close>)

lemma queue_error_keeps: "session_ok s \<Longrightarrow> keeps_tx s (snd (queue_error s c d))"
  unfolding queue_error_def
  by (rule keeps_tx_then [OF keeps_tx_counters(1) queue_control_frame_keeps]) (simp_all add: device_payload_def)

lemma queue_ack_c2m_keeps:
  assumes "session_ok s" shows "keeps_tx s (snd (queue_ack_c2m s ack))"
  using queue_control_frame_keeps [OF assms, of MC_LINK_ACK_C2M "put_u16_le (rx_free_credit s)" 0 ack]
  by (simp add: queue_ack_c2m_def case_prod_unfold keeps_tx_then [OF _ keeps_tx_counters(2)] device_payload_def put_u16_le_def)

lemma reinit_tx [simp]:
  "rb_contents (reinit_tx tx) = []" "tx_ring_ok tx \<Longrightarrow> tx_ring_ok (reinit_tx tx)"
  by (auto simp: reinit_tx_def fifo_simps tx_ring_ok_def rb_init_ok dest: rb_okD)

lemma truncate_tx_ok [simp]: "tx_ring_ok tx \<Longrightarrow> tx_ring_ok (truncate_ringbuf tx k)"
  by (simp add: tx_ring_ok_def truncate_ok)

lemma drop_rx_ok [simp]:
  "pred_option rb_ok rx \<Longrightarrow> pred_option rb_ok (map_option (\<lambda>rx. mc_ringbuf_drop rx (f rx)) rx)"
  by (cases rx) (simp_all add: rb_drop_ok)

lemma parser_init_ok [simp]: "parser_ok mc_link_parser_init"
  using parser_init_drained by (simp add: parser_drained_def)

text \<open>A reset empties the queues but never cuts the frame whose transmission has begun.\<close>

lemma reset_preserving_keeps:
  assumes "session_ok s" shows "keeps_tx s (reset_link_state_preserving_control_tx s)"
  using assms
  by (auto simp: keeps_tx_def reset_link_state_preserving_control_tx_def session_defs truncate_contents
      simp del: length_rb_contents split: if_splits)

lemma reset_link_state_keeps:
  assumes "session_ok s" shows "keeps_tx s (reset_link_state s)"
proof -
  let ?r = "reset_link_state_preserving_control_tx s"
  have "keeps_tx ?r (reset_link_state s)"
    using keeps_tx_ok [OF reset_preserving_keeps [OF assms]]
    by (auto simp: keeps_tx_def reset_link_state_def Let_def clear_active_tx_def session_defs truncate_contents
        simp del: length_rb_contents split: if_splits)
  with reset_preserving_keeps [OF assms] show ?thesis by (rule keeps_tx_trans)
qed

lemma hello_capabilities:
  fixes requested :: u16
  shows "bit (requested AND 0x3ff OR 1) 0" "(requested AND 0x3ff OR 1) AND 0x3ff = requested AND 0x3ff OR 1"
  by (simp_all add: bit_or_iff and.assoc bit.conj_disj_distrib2)

lemma keeps_tx_negotiated:
  assumes "session_ok s" "p \<noteq> 0" "c \<noteq> 0"
  shows "keeps_tx s (s\<lparr>s_negotiated_payload := min p MC_LINK_DEFAULT_PAYLOAD,
    s_credit_cap := min c MC_LINK_INITIAL_CREDIT,
    s_supported_rate_mask := (requested AND MC_LINK_FIRMWARE_SUPPORTED_RATE_MASK) OR 1,
    s_active_rate_profile := 0\<rparr>)"
  using assms hello_capabilities [of requested] word_gt_0 [of p] word_gt_0 [of c]
  by (auto simp: keeps_tx_def session_defs min_def)

lemma handle_hello_keeps: "session_ok s \<Longrightarrow> keeps_tx s (snd (handle_hello s frame))"
  unfolding handle_hello_def Let_def
  by (auto intro!: queue_error_keeps
      keeps_tx_then [OF keeps_tx_then [OF reset_link_state_keeps keeps_tx_negotiated] queue_ready_keeps])

lemma handle_reset_keeps:
  assumes "session_ok s" shows "keeps_tx s (snd (handle_reset s frame))"
proof -
  let ?s = "(reset_link_state s)\<lparr>s_reset_requested := True\<rparr>"
  let ?q = "queue_control_frame ?s MC_LINK_RESET_ACK (fr_seq frame) (fr_ack frame) []"
  have 1: "keeps_tx s (snd ?q)"
    by (rule keeps_tx_then [OF keeps_tx_then [OF reset_link_state_keeps [OF assms] keeps_tx_counters(4)]
          queue_control_frame_keeps]) (simp_all add: device_payload_def)
  then have "keeps_tx s (snd (queue_ready (snd ?q)))"
    by (rule keeps_tx_then [OF _ queue_ready_keeps])
  with 1 show ?thesis by (simp add: handle_reset_def case_prod_unfold)
qed

lemma handle_data_c2m_keeps:
  assumes ok: "session_ok s" shows "keeps_tx s (snd (handle_data_c2m s frame))"
proof -
  have dup: "keeps_tx s (snd (queue_ack_c2m (s\<lparr>s_c2m_duplicate_frames := n\<rparr>) a))" for n a
    by (rule keeps_tx_then [OF keeps_tx_counters(3) [OF ok] queue_ack_c2m_keeps])
  have rx: "keeps_tx s (s\<lparr>s_rx := Some (snd (mc_ringbuf_write rx bs))\<rparr>)" if "s_rx s = Some rx" for rx bs
    using session_okD(7) [OF ok] that ok by (simp add: keeps_tx_counters(7) rb.write_invar)
  have err: "keeps_tx s (snd (queue_error (s\<lparr>s_rx := Some (snd (mc_ringbuf_write rx bs))\<rparr>) c d))"
    if "s_rx s = Some rx" for rx bs c d
    by (rule keeps_tx_then [OF rx [OF that] queue_error_keeps])
  have acc: "keeps_tx s (snd (queue_ack_c2m (s\<lparr>s_rx := Some (snd (mc_ringbuf_write rx bs)),
      s_rx_seq_expected := e, s_data_c2m_frames := n\<rparr>) a))" if "s_rx s = Some rx" for rx bs e n a
    by (rule keeps_tx_then [OF keeps_tx_then [OF rx [OF that] keeps_tx_counters(5)] queue_ack_c2m_keeps,
          simplified])
  show ?thesis
    using ok dup err acc
    by (simp add: handle_data_c2m_def Let_def case_prod_unfold queue_error_keeps split: option.splits)
qed

lemma handle_frame_keeps: "session_ok s \<Longrightarrow> keeps_tx s (snd (handle_frame s frame))"
  by (simp add: handle_frame_def Let_def handle_hello_keeps handle_reset_keeps handle_data_c2m_keeps
      queue_control_frame_keeps queue_error_keeps device_payload_def)

lemma receive_frames_keeps:
  assumes "session_ok s"
  shows "\<exists>ok s'. receive_frames s frame = Some (ok, s') \<and> keeps_tx s s'"
  using assms
proof (induction s frame rule: receive_frames.induct)
  case (1 s frame)
  obtain ok s' where h: "handle_frame s frame = (ok, s')" by fastforce
  then have k: "keeps_tx s s'" using handle_frame_keeps [OF 1(2), of frame] by simp
  obtain r p where f: "mc_link_parser_feed (s_parser s') [] = Some (r, p)" "parser_ok p"
    using parser_feed_ok [OF session_okD(6) [OF keeps_tx_ok [OF k]]] by blast
  have k': "keeps_tx s (s'\<lparr>s_parser := p\<rparr>)"
    by (rule keeps_tx_then [OF k keeps_tx_counters(8) [OF _ f(2)]])
  show ?case
  proof (cases "ok \<and> (\<exists>frame'. r = MC_LINK_PARSE_FRAME frame')")
    case True
    then obtain frame' where r: "ok" "r = MC_LINK_PARSE_FRAME frame'" by blast
    with 1(1) [OF h [symmetric] _ f(1)] keeps_tx_ok [OF k'] have
      "\<exists>ok s''. receive_frames (s'\<lparr>s_parser := p\<rparr>) frame' = Some (ok, s'') \<and> keeps_tx (s'\<lparr>s_parser := p\<rparr>) s''"
      by simp
    with r h f k' show ?thesis
      by (subst receive_frames.simps) (auto intro: keeps_tx_trans)
  next
    case False
    with h f k k' show ?thesis
      by (subst receive_frames.simps) (cases ok; cases r; auto)
  qed
qed

lemma receive_bytes_keeps:
  assumes "session_ok s"
  shows "\<exists>ok s'. mc_link_session_receive_bytes s src = Some (ok, s') \<and> keeps_tx s s'"
proof -
  obtain r p where f: "mc_link_parser_feed (s_parser s) src = Some (r, p)" "parser_ok p"
    using parser_feed_ok [OF session_okD(6) [OF assms]] by blast
  have k: "keeps_tx s (s\<lparr>s_parser := p\<rparr>)" using assms f(2) by (rule keeps_tx_counters(8))
  show ?thesis
    using f k receive_frames_keeps [OF keeps_tx_ok [OF k]] keeps_tx_trans
    by (cases r) (fastforce simp: mc_link_session_receive_bytes_def)+
qed

lemma reset_after_error_keeps:
  assumes "session_ok s" shows "keeps_tx s (snd (mc_link_session_reset_after_error s code detail))"
  by (simp add: mc_link_session_reset_after_error_def case_prod_unfold queue_error_keeps assms
      keeps_tx_then [OF keeps_tx_then [OF queue_error_keeps [OF assms] reset_preserving_keeps] queue_ready_keeps])

lemma queue_server_tx_keeps:
  assumes "session_ok s" shows "keeps_tx s (fst (snd (mc_link_session_queue_server_tx s server_tx)))"
proof -
  have "keeps_tx s ((snd (queue_data_frame s MC_LINK_DATA_M2C seq ack pl))\<lparr>s_tx_seq_next := a, s_data_m2c_frames := b\<rparr>)"
    if "pl \<noteq> []" for seq ack pl a b
    by (rule keeps_tx_then [OF queue_data_frame_keeps [OF assms that] keeps_tx_counters(6)])
  moreover have "pl \<noteq> []" if "peek_ringbuf server_tx n = Some pl" "n \<noteq> 0" for n pl
    using peek_ringbuf_length [OF that(1)] that(2) by auto
  ultimately show ?thesis
    using assms by (auto simp: mc_link_session_queue_server_tx_def Let_def case_prod_unfold keeps_tx_refl
        queue_data_frame_keeps split: option.splits)
qed

lemma drop_queued_data_keeps:
  assumes "session_ok s" shows "keeps_tx s (mc_link_session_drop_queued_data s)"
  using assms
  by (auto simp: keeps_tx_def mc_link_session_drop_queued_data_def Let_def clear_active_tx_def session_defs
      truncate_contents simp del: length_rb_contents split: if_splits)

lemma select_active_tx_ok:
  assumes "session_ok s" "select_active_tx s = Some s'"
  shows "session_ok s' \<and> s_active_tx_queue s' \<noteq> MC_LINK_SESSION_TX_NONE \<and>
    (\<exists>whole. frames_only whole \<and> in_flight s' = in_flight s @ whole)"
proof (cases "s_active_tx_queue s = MC_LINK_SESSION_TX_NONE")
  case True
  then have fo: "frames_of is_control (rb_contents (s_control_tx s))" "frames_of is_data (rb_contents (s_tx s))"
    using assms(1) by (simp_all add: session_defs)
  show ?thesis
    using assms True frames_of_first [OF fo(1)] frames_of_first [OF fo(2)] fo
    by (auto simp: select_active_tx_def next_frame_len session_defs simp del: length_rb_contents
        split: option.splits)
next
  case False
  with assms show ?thesis by (auto simp: select_active_tx_def intro: exI [of _ "[]"])
qed

lemma read_active_tx_result:
  assumes "rb_ok tx" "s_active_tx_remaining (put tx) = r" "0 < r" "r \<le> length (rb_contents tx)"
  obtains tx' where "rb_ok tx'" "rb_cap tx' = rb_cap tx" "rb_contents tx' = drop (min n r) (rb_contents tx)"
    "read_active_tx tx put n = (take (min n r) (rb_contents tx),
       if r \<le> n then clear_active_tx ((put tx')\<lparr>s_active_tx_remaining := 0\<rparr>)
       else (put tx')\<lparr>s_active_tx_remaining := r - n\<rparr>)"
proof
  let ?tx = "snd (mc_ringbuf_read tx (min n r))"
  show "rb_ok ?tx" "rb_cap ?tx = rb_cap tx" "rb_contents ?tx = drop (min n r) (rb_contents tx)"
    using assms(1) by (simp_all add: rb.read_invar rb.read_capacity rb.read_remaining)
  have len: "\<not> rb_len tx < r" "rb_len tx \<noteq> 0" "\<not> rb_len tx < n" if "n < r"
    using assms(3,4) that by simp_all
  show "read_active_tx tx put n = (take (min n r) (rb_contents tx),
       if r \<le> n then clear_active_tx ((put ?tx)\<lparr>s_active_tx_remaining := 0\<rparr>)
       else (put ?tx)\<lparr>s_active_tx_remaining := r - n\<rparr>)"
  proof (cases "r \<le> n")
    case True
    with assms show ?thesis
      by (simp add: read_active_tx_def Let_def mc_ringbuf_len_def case_prod_unfold rb.read_contents)
  next
    case False
    with assms len show ?thesis
      by (simp add: read_active_tx_def Let_def mc_ringbuf_len_def case_prod_unfold rb.read_contents)
  qed
qed

lemma read_active_control:
  assumes ok: "session_ok s" and q: "s_active_tx_queue s = MC_LINK_SESSION_TX_CONTROL"
    and rd: "read_active_tx (s_control_tx s) (\<lambda>tx. s\<lparr>s_control_tx := tx\<rparr>) n = (bs, s')"
  shows "session_ok s' \<and> bs @ in_flight s' = in_flight s"
proof -
  let ?r = "s_active_tx_remaining s" and ?c = "rb_contents (s_control_tx s)"
  have r: "0 < ?r" "?r \<le> length ?c" using ok q by (simp_all add: session_defs)
  obtain tx' where tx': "rb_ok tx'" "rb_cap tx' = rb_cap (s_control_tx s)" "rb_contents tx' = drop (min n ?r) ?c"
    and res: "(bs, s') = (take (min n ?r) ?c,
       if ?r \<le> n then clear_active_tx (s\<lparr>s_control_tx := tx', s_active_tx_remaining := 0\<rparr>)
       else s\<lparr>s_control_tx := tx', s_active_tx_remaining := ?r - n\<rparr>)"
    using read_active_tx_result [OF session_okD(2) [OF ok], of "\<lambda>tx. s\<lparr>s_control_tx := tx\<rparr>" ?r n] r
    unfolding rd by auto
  show ?thesis
  proof (cases "?r \<le> n")
    case True
    with ok q tx' res r show ?thesis
      by (simp add: session_defs clear_active_tx_def tx_ring_ok_def min_def)
  next
    case False
    moreover have "take n ?c @ take (?r - n) (drop n ?c) = take ?r ?c"
      using False take_add [of n "?r - n" ?c] by simp
    ultimately show ?thesis
      using ok q tx' res r by (simp add: session_defs tx_ring_ok_def min_def diff_le_mono)
  qed
qed

lemma read_active_data:
  assumes ok: "session_ok s" and q: "s_active_tx_queue s = MC_LINK_SESSION_TX_DATA"
    and rd: "read_active_tx (s_tx s) (\<lambda>tx. s\<lparr>s_tx := tx\<rparr>) n = (bs, s')"
  shows "session_ok s' \<and> bs @ in_flight s' = in_flight s"
proof -
  let ?r = "s_active_tx_remaining s" and ?c = "rb_contents (s_tx s)"
  have r: "0 < ?r" "?r \<le> length ?c" using ok q by (simp_all add: session_defs)
  obtain tx' where tx': "rb_ok tx'" "rb_cap tx' = rb_cap (s_tx s)" "rb_contents tx' = drop (min n ?r) ?c"
    and res: "(bs, s') = (take (min n ?r) ?c,
       if ?r \<le> n then clear_active_tx (s\<lparr>s_tx := tx', s_active_tx_remaining := 0\<rparr>)
       else s\<lparr>s_tx := tx', s_active_tx_remaining := ?r - n\<rparr>)"
    using read_active_tx_result [OF session_okD(1) [OF ok], of "\<lambda>tx. s\<lparr>s_tx := tx\<rparr>" ?r n] r
    unfolding rd by auto
  show ?thesis
  proof (cases "?r \<le> n")
    case True
    with ok q tx' res r show ?thesis
      by (simp add: session_defs clear_active_tx_def tx_ring_ok_def min_def)
  next
    case False
    moreover have "take n ?c @ take (?r - n) (drop n ?c) = take ?r ?c"
      using False take_add [of n "?r - n" ?c] by simp
    ultimately show ?thesis
      using ok q tx' res r by (simp add: session_defs tx_ring_ok_def min_def diff_le_mono)
  qed
qed

text \<open>Reading takes bytes off the frame on the wire, or starts the next whole frame.\<close>

lemma read_tx_ok:
  assumes ok: "session_ok s" and rd: "mc_link_session_read_tx s n = (bs, s')"
  shows "session_ok s' \<and> (\<exists>whole. frames_only whole \<and> bs @ in_flight s' = in_flight s @ whole)"
proof (cases "n = 0 \<or> select_active_tx s = None")
  case True
  with ok rd have "bs = []" "s' = s"
    by (auto simp: mc_link_session_read_tx_def split: if_splits)
  with ok show ?thesis by (auto intro: exI [of _ "[]"])
next
  case False
  then obtain t where t: "select_active_tx s = Some t" by blast
  note sel = select_active_tx_ok [OF ok t]
  then have q: "s_active_tx_queue t = MC_LINK_SESSION_TX_CONTROL \<or> s_active_tx_queue t = MC_LINK_SESSION_TX_DATA"
    by (auto simp: session_ok_def active_ok_def split: if_splits)
  have "session_ok s' \<and> bs @ in_flight s' = in_flight t"
    using q rd False t sel read_active_control [of t n bs s'] read_active_data [of t n bs s']
    by (auto simp: mc_link_session_read_tx_def)
  with sel show ?thesis by auto
qed

section \<open>Runs of a session\<close>

text \<open>
  One call of the main loop with the bytes it hands to the UART, or a change of the receive ring by
  the server.
\<close>

inductive session_step :: "mc_link_session \<Rightarrow> byte list \<Rightarrow> mc_link_session \<Rightarrow> bool" where
  receive: "mc_link_session_receive_bytes s src = Some (ok, s') \<Longrightarrow> session_step s [] s'"
| credit: "session_step s [] (mc_link_session_credit_consumed s n)"
| reset_after_error: "session_step s [] (snd (mc_link_session_reset_after_error s code detail))"
| queue_server_tx: "session_step s [] (fst (snd (mc_link_session_queue_server_tx s server_tx)))"
| read_tx: "mc_link_session_read_tx s n = (bs, s') \<Longrightarrow> session_step s bs s'"
| take_reset: "session_step s [] (snd (mc_link_session_take_reset_requested s))"
| drop_data: "session_step s [] (mc_link_session_drop_queued_data s)"
| server: "s_rx s = Some rx \<Longrightarrow> rb_ok rx' \<Longrightarrow> session_step s [] (s\<lparr>s_rx := Some rx'\<rparr>)"

text \<open>The sessions that can be reached from power-on, with everything sent so far.\<close>

inductive session_reaches :: "byte list \<Rightarrow> mc_link_session \<Rightarrow> bool" where
  start: "pred_option rb_ok rx \<Longrightarrow> session_reaches [] (mc_link_session_init rx)"
| step: "session_reaches sent s \<Longrightarrow> session_step s bs s' \<Longrightarrow> session_reaches (sent @ bs) s'"

lemma init_session_ok: "pred_option rb_ok rx \<Longrightarrow> session_ok (mc_link_session_init rx) \<and> in_flight (mc_link_session_init rx) = []"
  by (simp add: mc_link_session_init_def reset_capabilities_def session_defs tx_ring_ok_def rb_init_ok fifo_simps)

lemma session_step_ok:
  assumes "session_step s bs s'" "session_ok s"
  shows "session_ok s' \<and> (\<exists>whole. frames_only whole \<and> bs @ in_flight s' = in_flight s @ whole)"
proof -
  have silent: "session_ok t \<and> (\<exists>whole. frames_only whole \<and> [] @ in_flight t = in_flight s @ whole)"
    if "keeps_tx s t" for t
    using that by (auto simp: keeps_tx_def intro: exI [of _ "[]"])
  from assms show ?thesis
  proof cases
    case (receive src ok)
    with receive_bytes_keeps [OF assms(2), of src] show ?thesis by (auto dest: silent)
  next
    case (read_tx n)
    with assms(2) show ?thesis by (simp add: read_tx_ok)
  next
    case (server rx rx')
    with silent [OF keeps_tx_counters(7) [OF assms(2)]] show ?thesis by simp
  qed (auto intro!: silent simp: assms(2) mc_link_session_credit_consumed_def queue_ack_c2m_keeps
      reset_after_error_keeps queue_server_tx_keeps mc_link_session_take_reset_requested_def
      keeps_tx_counters drop_queued_data_keeps simp del: append_Nil)
qed

lemma session_reaches_ok:
  "session_reaches sent s \<Longrightarrow> session_ok s \<and> frames_only (sent @ in_flight s)"
proof (induction rule: session_reaches.induct)
  case (start rx)
  then show ?case by (simp add: init_session_ok)
next
  case (step sent s bs s')
  from session_step_ok [OF step.hyps(2)] step.IH obtain whole where
    "session_ok s'" "frames_only whole" "bs @ in_flight s' = in_flight s @ whole" by blast
  with step.IH frames_of_append [of _ "sent @ in_flight s" whole] show ?case by simp
qed

section \<open>What a data frame does\<close>

lemma queue_ack_c2m_frame [frame_rules]:
  "s_rx (snd (queue_ack_c2m s ack)) = s_rx s"
  "s_rx_seq_expected (snd (queue_ack_c2m s ack)) = s_rx_seq_expected s"
  "s_negotiated_payload (snd (queue_ack_c2m s ack)) = s_negotiated_payload s"
  by (simp_all add: queue_ack_c2m_def queue_control_frame_def queue_frame_def case_prod_unfold
      split: option.splits)

lemma queue_error_frame [frame_rules]:
  "s_rx (snd (queue_error s c d)) = s_rx s"
  "s_rx_seq_expected (snd (queue_error s c d)) = s_rx_seq_expected s"
  "s_negotiated_payload (snd (queue_error s c d)) = s_negotiated_payload s"
  by (simp_all add: queue_error_def queue_control_frame_def queue_frame_def case_prod_unfold
      split: option.splits)

text \<open>When a data frame is taken: it is the next in sequence, of a negotiated size, and there is room.\<close>

definition c2m_accepts :: "mc_link_session \<Rightarrow> mc_ringbuf \<Rightarrow> mc_link_frame \<Rightarrow> bool" where
  "c2m_accepts s rx frame \<longleftrightarrow> fr_seq frame = s_rx_seq_expected s \<and> fr_payload frame \<noteq> [] \<and>
     length (fr_payload frame) \<le> unat (s_negotiated_payload s) \<and>
     length (rb_contents rx) + length (fr_payload frame) \<le> rb_cap rx"

lemma handle_data_c2m_result:
  assumes ok: "session_ok s" and rx: "s_rx s = Some rx" and enc: "encodable_frame frame"
  shows "\<exists>rx'. s_rx (snd (handle_data_c2m s frame)) = Some rx' \<and> rb_ok rx' \<and> rb_cap rx' = rb_cap rx \<and>
    rb_contents rx' = rb_contents rx @ (if c2m_accepts s rx frame then fr_payload frame else []) \<and>
    s_rx_seq_expected (snd (handle_data_c2m s frame)) =
      s_rx_seq_expected s + (if c2m_accepts s rx frame then 1 else 0) \<and>
    s_negotiated_payload (snd (handle_data_c2m s frame)) = s_negotiated_payload s"
proof -
  have rdy: "s_ready s" and rxok: "rb_ok rx" using session_okD [OF ok] rx by simp_all
  have len: "unat (fr_len frame) = length (fr_payload frame)"
    using enc by (simp add: encodable_frame_def unat_of_nat_id)
  have len0: "fr_len frame = 0 \<longleftrightarrow> fr_payload frame = []"
    using len by (simp add: unat_eq_zero [symmetric])
  have neg: "s_negotiated_payload s < fr_len frame \<longleftrightarrow> unat (s_negotiated_payload s) < length (fr_payload frame)"
    by (simp add: word_less_nat_alt len)
  have b: "length (rb_contents rx) \<le> rb_cap rx" by (rule rb.bounded [OF rxok])
  have free: "mc_ringbuf_free rx < length (fr_payload frame) \<longleftrightarrow>
      rb_cap rx < length (rb_contents rx) + length (fr_payload frame)"
    using b by (auto simp: rb_free_eq simp del: length_rb_contents)
  have ne: "s_rx_seq_expected s \<noteq> s_rx_seq_expected s - 1" by simp
  show ?thesis
    using rdy rxok rx b ne
    by (auto simp: handle_data_c2m_def Let_def len len0 neg free c2m_accepts_def frame_rules
        rb.write_count rb.write_contents rb.write_invar rb.write_capacity case_prod_unfold
        simp del: length_rb_contents)
qed

text \<open>
  A sender that transmits each message with its sequence number, any number of times, before it goes
  on to the next one.
\<close>

fun sender_frames :: "u16 \<Rightarrow> (nat \<times> byte list) list \<Rightarrow> mc_link_frame list" where
  "sender_frames seq [] = []"
| "sender_frames seq ((resent, payload) # messages) =
     replicate (Suc resent) (link_frame MC_LINK_DATA_C2M seq 0 payload) @ sender_frames (seq + 1) messages"

definition handle_frames :: "mc_link_frame list \<Rightarrow> mc_link_session \<Rightarrow> mc_link_session" where
  "handle_frames frames s = fold (\<lambda>frame s. snd (handle_frame s frame)) frames s"

lemma handle_frame_data: "handle_frame s (link_frame MC_LINK_DATA_C2M seq ack pl) =
    handle_data_c2m s (link_frame MC_LINK_DATA_C2M seq ack pl)"
  by (simp add: handle_frame_def link_frame_def)

lemma handle_frames_duplicates:
  assumes "session_ok s" "s_rx s = Some rx" "rb_ok rx" "seq + 1 = s_rx_seq_expected s" "length pl \<le> MC_LINK_MAX_PAYLOAD"
  shows "\<exists>rx'. s_rx (handle_frames (replicate n (link_frame MC_LINK_DATA_C2M seq 0 pl)) s) = Some rx' \<and>
    rb_contents rx' = rb_contents rx \<and> rb_ok rx' \<and> rb_cap rx' = rb_cap rx \<and>
    s_rx_seq_expected (handle_frames (replicate n (link_frame MC_LINK_DATA_C2M seq 0 pl)) s) = s_rx_seq_expected s \<and>
    s_negotiated_payload (handle_frames (replicate n (link_frame MC_LINK_DATA_C2M seq 0 pl)) s) = s_negotiated_payload s \<and>
    session_ok (handle_frames (replicate n (link_frame MC_LINK_DATA_C2M seq 0 pl)) s)"
  using assms
proof (induction n arbitrary: s rx)
  case (Suc n)
  let ?f = "link_frame MC_LINK_DATA_C2M seq 0 pl"
  let ?s = "snd (handle_frame s ?f)"
  have na: "\<not> c2m_accepts s rx ?f"
    using Suc.prems(4) by (auto simp: c2m_accepts_def link_frame_def)
  obtain rx' where "s_rx ?s = Some rx'" "rb_ok rx'" "rb_cap rx' = rb_cap rx" "rb_contents rx' = rb_contents rx"
    "s_rx_seq_expected ?s = s_rx_seq_expected s" "s_negotiated_payload ?s = s_negotiated_payload s"
    using handle_data_c2m_result [OF Suc.prems(1,2), of ?f] Suc.prems(5) na by (auto simp: handle_frame_data)
  with Suc.IH [of ?s rx'] keeps_tx_ok [OF handle_frame_keeps [OF Suc.prems(1), of ?f]] Suc.prems
  show ?case by (simp add: handle_frames_def)
qed (auto simp: handle_frames_def)

lemma handle_frames_append: "handle_frames (xs @ ys) s = handle_frames ys (handle_frames xs s)"
  by (simp add: handle_frames_def)

text \<open>A message, sent once and then repeated any number of times, is taken once.\<close>

lemma handle_frames_message:
  assumes "session_ok s" "s_rx s = Some rx" "m \<noteq> []" "length m \<le> unat (s_negotiated_payload s)"
    "length (rb_contents rx) + length m \<le> rb_cap rx"
    and t: "t = handle_frames (replicate (Suc k) (link_frame MC_LINK_DATA_C2M (s_rx_seq_expected s) 0 m)) s"
  obtains rx' where "s_rx t = Some rx'" "rb_contents rx' = rb_contents rx @ m" "rb_ok rx'" "rb_cap rx' = rb_cap rx"
    "s_rx_seq_expected t = s_rx_seq_expected s + 1" "s_negotiated_payload t = s_negotiated_payload s" "session_ok t"
proof -
  let ?f = "link_frame MC_LINK_DATA_C2M (s_rx_seq_expected s) 0 m"
  let ?s = "snd (handle_frame s ?f)"
  have "unat (s_negotiated_payload s) \<le> MC_LINK_MAX_PAYLOAD"
    using assms(1) by (simp add: session_ok_def capabilities_ok_def word_le_nat_alt)
  with assms(4) have m_max: "length m \<le> MC_LINK_MAX_PAYLOAD" by simp
  have acc: "c2m_accepts s rx ?f"
    using assms(3-5) by (simp add: c2m_accepts_def link_frame_def)
  obtain rx1 where 1: "s_rx ?s = Some rx1" "rb_ok rx1" "rb_cap rx1 = rb_cap rx"
    "rb_contents rx1 = rb_contents rx @ m" "s_rx_seq_expected ?s = s_rx_seq_expected s + 1"
    "s_negotiated_payload ?s = s_negotiated_payload s"
    using handle_data_c2m_result [OF assms(1,2), of ?f] m_max acc
    by (auto simp: handle_frame_data, simp add: link_frame_def)
  have "t = handle_frames (replicate k ?f) ?s" by (simp add: t handle_frames_def)
  then show ?thesis
    using handle_frames_duplicates [OF keeps_tx_ok [OF handle_frame_keeps [OF assms(1)]] 1(1,2) _ m_max, of _ k] 1
    by (metis that)
qed

lemma handle_frames_exactly_once:
  assumes "session_ok s" "s_rx s = Some rx"
    "\<forall>(k, m) \<in> set messages. m \<noteq> [] \<and> length m \<le> unat (s_negotiated_payload s)"
    "length (rb_contents rx) + length (concat (map snd messages)) \<le> rb_cap rx"
  shows "\<exists>rx'. s_rx (handle_frames (sender_frames (s_rx_seq_expected s) messages) s) = Some rx' \<and>
    rb_contents rx' = rb_contents rx @ concat (map snd messages)"
  using assms
proof (induction messages arbitrary: s rx)
  case (Cons km messages)
  obtain k m where km: "km = (k, m)" by fastforce
  define t where "t = handle_frames (replicate (Suc k) (link_frame MC_LINK_DATA_C2M (s_rx_seq_expected s) 0 m)) s"
  obtain rx' where t: "s_rx t = Some rx'" "rb_contents rx' = rb_contents rx @ m" "rb_cap rx' = rb_cap rx"
    "s_rx_seq_expected t = s_rx_seq_expected s + 1" "s_negotiated_payload t = s_negotiated_payload s" "session_ok t"
    using Cons.prems(3,4) by (auto intro: handle_frames_message [OF Cons.prems(1,2) _ _ _ t_def] simp: km simp del: length_rb_contents)
  have "\<exists>rx2. s_rx (handle_frames (sender_frames (s_rx_seq_expected t) messages) t) = Some rx2 \<and>
      rb_contents rx2 = rb_contents rx' @ concat (map snd messages)"
    using Cons.prems(3,4) t(2-6) by (intro Cons.IH [OF t(6,1)]) (simp_all add: km del: length_rb_contents)
  then show ?case
    using t(2,4) by (simp only: km sender_frames.simps handle_frames_append t_def) simp
qed (simp add: handle_frames_def)

text \<open>Moving server output to the link.\<close>

lemma queue_server_tx_effect:
  assumes ok: "session_ok s" and "rb_ok server_tx"
    and "n = min (length (rb_contents server_tx)) (unat (s_negotiated_payload s))"
    and "frame = link_frame_bytes MC_LINK_DATA_M2C (s_tx_seq_next s) (s_rx_seq_expected s)
          (take n (rb_contents server_tx))"
  shows "case mc_link_session_queue_server_tx s server_tx of (ok, s', server_tx') \<Rightarrow>
    (ok \<longleftrightarrow> n = 0 \<or> length (rb_contents (s_tx s)) + length frame \<le> MC_LINK_SESSION_TX_CAP) \<and>
    (if ok \<and> 0 < n
     then rb_contents server_tx' = drop n (rb_contents server_tx) \<and>
       rb_contents (s_tx s') = rb_contents (s_tx s) @ frame \<and> s_tx_seq_next s' = s_tx_seq_next s + 1
     else server_tx' = server_tx \<and> s_tx s' = s_tx s \<and> s_tx_seq_next s' = s_tx_seq_next s)"
proof -
  have neg: "0 < unat (s_negotiated_payload s)" "unat (s_negotiated_payload s) \<le> MC_LINK_MAX_PAYLOAD"
    using ok by (simp_all add: session_ok_def capabilities_ok_def word_le_nat_alt word_less_nat_alt)
  have peek: "peek_ringbuf server_tx n = Some (take n (rb_contents server_tx))"
    using assms(3) by (intro peek_ringbuf_eq) simp
  have len: "length (take n (rb_contents server_tx)) \<le> MC_LINK_MAX_PAYLOAD" using assms(3) neg by simp
  have n: "mc_link_session_queue_server_tx s server_tx =
     (if n = 0 then (True, s, server_tx)
      else case queue_data_frame s MC_LINK_DATA_M2C (s_tx_seq_next s) (s_rx_seq_expected s)
               (take n (rb_contents server_tx)) of
         (ok, s') \<Rightarrow> if \<not> ok then (False, s', server_tx)
           else (True, s'\<lparr>s_tx_seq_next := s_tx_seq_next s' + 1, s_data_m2c_frames := s_data_m2c_frames s' + 1\<rparr>,
                 mc_ringbuf_drop server_tx n))"
  proof -
    let ?p = "unat (s_negotiated_payload s)"
    have m: "(if ?p = 0 \<or> MC_LINK_MAX_PAYLOAD < ?p then MC_LINK_MAX_PAYLOAD else ?p) = ?p" using neg by simp
    have k: "(if ?p < rb_len server_tx then ?p else rb_len server_tx) = n" using assms(3) by simp
    show ?thesis
      unfolding mc_link_session_queue_server_tx_def Let_def mc_ringbuf_len_def m k
      using session_okD(5) [OF ok] peek by simp
  qed
  show ?thesis
    using session_okD(1,3) [OF ok]
    by (auto simp: n queue_data_frame_def queue_frame_fits [OF len] assms(4) [symmetric] rb_drop_contents
        rb.write_contents simp del: length_rb_contents split: if_splits)
qed

section \<open>Properties\<close>

text \<open>Whatever calls the main loop makes and whatever the bridge sends, the bytes handed to the
  UART, together with the unsent rest of the frame being sent, are a sequence of whole well-formed
  frames: control frames are never spliced into a data frame, and resets and dropped data never cut
  a frame whose transmission has begun.\<close>

theorem session_sends_whole_frames:
  assumes "session_reaches sent s"
  shows "\<exists>frames. list_all encodable_frame frames \<and> sent @ in_flight s = concat (map frame_bytes frames)"
  using session_reaches_ok [OF assms] device_frames_encodable by (auto simp: frames_only_def)

theorem session_sends_whole_frames_witness:
  "let rx = mc_ringbuf_init [0, 0, 0, 0] 4;
       server_tx = snd (mc_ringbuf_write rx [1, 2, 3]);
       s = fst (snd (mc_link_session_queue_server_tx (mc_link_session_init (Some rx)) server_tx));
       (bs, s') = mc_link_session_read_tx s 5
   in \<exists>frames. list_all encodable_frame frames \<and> bs @ in_flight s' = concat (map frame_bytes frames)"
proof -
  have start: "session_reaches [] (mc_link_session_init (Some (mc_ringbuf_init [0, 0, 0, 0] 4)))"
    by (intro session_reaches.start) (simp add: rb_init_ok)
  have "\<exists>frames. list_all encodable_frame frames \<and> bs @ in_flight s' = concat (map frame_bytes frames)"
    if "mc_link_session_read_tx (fst (snd (mc_link_session_queue_server_tx
          (mc_link_session_init (Some (mc_ringbuf_init [0, 0, 0, 0] 4))) server_tx))) 5 = (bs, s')"
    for server_tx bs s'
    using session_sends_whole_frames [OF session_reaches.step [OF session_reaches.step [OF start
            session_step.queue_server_tx] session_step.read_tx [OF that]]] by simp
  then show ?thesis by (auto simp: Let_def split: prod.splits)
qed



text \<open>C3: a receiving session delivers in order and exactly once: when the sender transmits each message
  one or more times under its 16-bit sequence number, which wraps around, before going on to the
  next, the receive ring gains exactly the messages, one after the other, even if acknowledgements
  cannot be queued.\<close>

theorem session_delivers_exactly_once:
  assumes "session_reaches sent s" "s_rx s = Some rx"
    and "\<forall>(resent, m) \<in> set messages. m \<noteq> [] \<and> length m \<le> unat (s_negotiated_payload s)"
    and "length (rb_contents rx) + length (concat (map snd messages)) \<le> rb_cap rx"
  shows "\<exists>rx'. s_rx (handle_frames (sender_frames (s_rx_seq_expected s) messages) s) = Some rx' \<and>
    rb_contents rx' = rb_contents rx @ concat (map snd messages)"
proof -
  have ok: "session_ok s" using session_reaches_ok [OF assms(1)] by simp
  show ?thesis by (rule handle_frames_exactly_once [OF ok assms(2-4)])
qed

theorem session_delivers_exactly_once_witness:
  "\<exists>rx'. s_rx (handle_frames (sender_frames 0 [(2, [7, 8]), (0, [9])])
      (mc_link_session_init (Some (mc_ringbuf_init [0, 0, 0, 0] 4)))) = Some rx' \<and> rb_contents rx' = [7, 8, 9]"
proof -
  let ?s = "mc_link_session_init (Some (mc_ringbuf_init [0, 0, 0, 0] 4))"
  have r: "session_reaches [] ?s"
    by (rule session_reaches.start) (simp add: rb_init_ok)
  have f: "s_rx ?s = Some (mc_ringbuf_init [0, 0, 0, 0] 4)" "s_negotiated_payload ?s = 497" "s_rx_seq_expected ?s = 0"
    by (simp_all add: mc_link_session_init_def reset_capabilities_def)
  show ?thesis
    using session_delivers_exactly_once [OF r f(1), of "[(2, [7, 8]), (0, [9])]"]
    by (simp add: f fifo_simps del: length_rb_contents)
qed

text \<open>A data frame changes the receive ring exactly when it is the next in sequence, not empty, no
  longer than the negotiated payload and fits the ring; then its payload is appended and the expected
  sequence number advances by one. In every other case neither changes.\<close>

theorem session_data_frame_effect:
  assumes "session_reaches sent s" "s_rx s = Some rx" "encodable_frame frame" "fr_type frame = MC_LINK_DATA_C2M"
  shows "\<exists>rx'. s_rx (snd (handle_frame s frame)) = Some rx' \<and>
    (if fr_seq frame = s_rx_seq_expected s \<and> fr_payload frame \<noteq> [] \<and>
        length (fr_payload frame) \<le> unat (s_negotiated_payload s) \<and>
        length (rb_contents rx) + length (fr_payload frame) \<le> rb_cap rx
     then rb_contents rx' = rb_contents rx @ fr_payload frame \<and>
       s_rx_seq_expected (snd (handle_frame s frame)) = s_rx_seq_expected s + 1
     else rb_contents rx' = rb_contents rx \<and>
       s_rx_seq_expected (snd (handle_frame s frame)) = s_rx_seq_expected s)"
proof -
  have "handle_frame s frame = handle_data_c2m s frame"
    using assms(4) by (simp add: handle_frame_def)
  with handle_data_c2m_result [OF conjunct1 [OF session_reaches_ok [OF assms(1)]] assms(2,3)] show ?thesis
    by (auto simp: c2m_accepts_def)
qed

theorem session_data_frame_effect_witness:
  "\<exists>rx'. s_rx (snd (handle_frame (mc_link_session_init (Some (mc_ringbuf_init [0, 0, 0] 3)))
       (link_frame MC_LINK_DATA_C2M 0 0 [5, 6]))) = Some rx' \<and> rb_contents rx' = [5, 6]"
proof -
  let ?s = "mc_link_session_init (Some (mc_ringbuf_init [0, 0, 0] 3))"
  have r: "session_reaches [] ?s"
    by (rule session_reaches.start) (simp add: rb_init_ok)
  have f: "s_rx ?s = Some (mc_ringbuf_init [0, 0, 0] 3)" "s_negotiated_payload ?s = 497" "s_rx_seq_expected ?s = 0"
    by (simp_all add: mc_link_session_init_def reset_capabilities_def)
  show ?thesis
    using session_data_frame_effect [OF r f(1), of "link_frame MC_LINK_DATA_C2M 0 0 [5, 6]"]
    by (auto simp add: f link_frame_def encodable_frame_def fifo_simps simp del: length_rb_contents)
qed

text \<open>C26: moving server output to the link is atomic: the call either takes a prefix of the server's
  bytes, as long as the negotiated payload allows, and queues it as one data frame with the next
  sequence number behind the queued frames, or it takes nothing; it refuses only when the frame does
  not fit the transmit ring. So no byte of the server is lost, repeated or reordered.\<close>

theorem session_server_tx_atomic:
  assumes "session_reaches sent s" "rb_ok server_tx"
    and "n = min (length (rb_contents server_tx)) (unat (s_negotiated_payload s))"
    and "frame = link_frame_bytes MC_LINK_DATA_M2C (s_tx_seq_next s) (s_rx_seq_expected s)
          (take n (rb_contents server_tx))"
  shows "case mc_link_session_queue_server_tx s server_tx of (ok, s', server_tx') \<Rightarrow>
    (ok \<longleftrightarrow> n = 0 \<or> length (rb_contents (s_tx s)) + length frame \<le> MC_LINK_SESSION_TX_CAP) \<and>
    (if ok \<and> 0 < n
     then rb_contents server_tx' = drop n (rb_contents server_tx) \<and>
       rb_contents (s_tx s') = rb_contents (s_tx s) @ frame \<and> s_tx_seq_next s' = s_tx_seq_next s + 1
     else server_tx' = server_tx \<and> s_tx s' = s_tx s \<and> s_tx_seq_next s' = s_tx_seq_next s)"
  using queue_server_tx_effect [OF conjunct1 [OF session_reaches_ok [OF assms(1)]] assms(2-4)] .

theorem session_server_tx_atomic_witness:
  "case mc_link_session_queue_server_tx (mc_link_session_init None)
      (snd (mc_ringbuf_write (mc_ringbuf_init [0, 0, 0] 3) [4, 5])) of (ok, s', server_tx') \<Rightarrow>
    ok \<and> rb_contents server_tx' = [] \<and> rb_contents (s_tx s') = link_frame_bytes MC_LINK_DATA_M2C 0 0 [4, 5]"
proof -
  let ?s = "mc_link_session_init None" and ?rb = "mc_ringbuf_init [0, 0, 0 :: byte] 3"
  have r: "session_reaches [] ?s" by (rule session_reaches.start) simp
  have f: "s_negotiated_payload ?s = 497" "s_rx_seq_expected ?s = 0" "s_tx_seq_next ?s = 0" "rb_contents (s_tx ?s) = []"
    by (simp_all add: mc_link_session_init_def reset_capabilities_def fifo_simps)
  have rb: "rb_ok ?rb" by (rule rb_init_ok) simp_all
  have c: "rb_contents (snd (mc_ringbuf_write ?rb [4, 5])) = [4, 5]"
    using rb.write_contents [OF rb, of "[4, 5]"]
    by (simp add: rb_init_contents rb_init_cap del: mc_ringbuf_write.simps)
  show ?thesis
    using session_server_tx_atomic [OF r rb.write_invar [OF rb], of 2 "[4, 5]"
        "link_frame_bytes MC_LINK_DATA_M2C 0 0 [4, 5]"] link_frame_length [of "[4, 5]" MC_LINK_DATA_M2C 0 0]
    unfolding c f by (auto split: prod.splits)
qed

text \<open>In every reachable session the capabilities announced to the bridge are sane: the payload is
  between 1 and 497 bytes, the credit between 1 and 512, rate profile 0 is always offered, no rate
  beyond the firmware's is, and no input can make the receive path overrun its parser buffer.\<close>

theorem session_capabilities_bounded:
  assumes "session_reaches sent s"
  shows "1 \<le> unat (s_negotiated_payload s) \<and> unat (s_negotiated_payload s) \<le> 497 \<and>
    1 \<le> unat (s_credit_cap s) \<and> unat (s_credit_cap s) \<le> 512 \<and>
    bit (s_supported_rate_mask s) 0 \<and> s_supported_rate_mask s AND 0x3ff = s_supported_rate_mask s \<and>
    mc_link_session_receive_bytes s src \<noteq> None"
proof -
  have ok: "session_ok s" using session_reaches_ok [OF assms] by simp
  then show ?thesis
    using receive_bytes_keeps [OF ok, of src]
    by (auto simp: session_ok_def capabilities_ok_def word_le_nat_alt word_less_nat_alt)
qed

theorem session_capabilities_bounded_witness:
  "1 \<le> unat (s_negotiated_payload (mc_link_session_init None)) \<and>
    mc_link_session_receive_bytes (mc_link_session_init None) (replicate 700 1) \<noteq> None"
  using session_capabilities_bounded [OF session_reaches.start [of None], of "replicate 700 1"] by simp

end
