(* ===== verification/LinkNumbers.thy ===== *)
theory LinkNumbers
  imports LinkSession
begin

text \<open>
  The sequence numbers of the data frames that a link session sends. The bridge does not acknowledge these frames;
  it requires their numbers to be consecutive and gives up when they are not. The session keeps to that, begins again
  with 0 at each reset of the link, whatever frames it answers and however the UART cuts its frames; dropping queued
  data does not.
\<close>

section \<open>What carries the numbers\<close>

definition m2c_seqs :: "mc_link_frame list \<Rightarrow> u16 list" where
  "m2c_seqs frames = map fr_seq (filter (\<lambda>fr. fr_type fr = MC_LINK_DATA_M2C) frames)"

lemma m2c_seqs_simps [simp]:
  "m2c_seqs [] = []" "m2c_seqs (xs @ ys) = m2c_seqs xs @ m2c_seqs ys"
  "m2c_seqs [link_frame MC_LINK_DATA_M2C seq ack pl] = [seq]"
  by (simp_all add: m2c_seqs_def link_frame_def)

lemma m2c_seqs_control: "list_all (\<lambda>fr. is_control (fr_type fr)) frs \<Longrightarrow> m2c_seqs frs = []"
  by (simp add: m2c_seqs_def list_all_iff filter_empty_conv)

text \<open>The part of a session that its data frames come from.\<close>

definition tx_view :: "mc_link_session \<Rightarrow> mc_ringbuf \<times> byte \<times> nat \<times> u16" where
  "tx_view s = (s_tx s, s_active_tx_queue s, s_active_tx_remaining s, s_tx_seq_next s)"

lemma data_waiting_view: "tx_view s' = tx_view s \<Longrightarrow> data_waiting s' = data_waiting s"
  by (simp add: tx_view_def data_waiting_def)

lemma tx_view_frame [simp]:
  "tx_view (s\<lparr>s_parser := p\<rparr>) = tx_view s" "tx_view (s\<lparr>s_rx := rx\<rparr>) = tx_view s"
  "tx_view (s\<lparr>s_control_tx := tx\<rparr>) = tx_view s" "tx_view (s\<lparr>s_reset_requested := b\<rparr>) = tx_view s"
  "tx_view (s\<lparr>s_error_count := n\<rparr>) = tx_view s" "tx_view (s\<lparr>s_c2m_ack_frames := n\<rparr>) = tx_view s"
  "tx_view (s\<lparr>s_c2m_duplicate_frames := n\<rparr>) = tx_view s" "tx_view (s\<lparr>s_data_c2m_frames := n\<rparr>) = tx_view s"
  "tx_view (s\<lparr>s_rx_seq_expected := q\<rparr>) = tx_view s"
  by (simp_all add: tx_view_def)

lemma queue_control_frame_tx [simp]: "tx_view (snd (queue_control_frame s t seq ack pl)) = tx_view s"
  by (simp add: queue_control_frame_def queue_frame_def tx_view_def case_prod_unfold split: option.splits)

lemma queue_ready_tx [simp]: "tx_view (snd (queue_ready s)) = tx_view s"
  by (simp add: queue_ready_def)

lemma queue_error_tx [simp]: "tx_view (snd (queue_error s c d)) = tx_view s"
  by (simp add: queue_error_def)

lemma queue_ack_c2m_tx [simp]: "tx_view (snd (queue_ack_c2m s ack)) = tx_view s"
  by (simp add: queue_ack_c2m_def case_prod_unfold)

lemma handle_data_c2m_tx [simp]: "tx_view (snd (handle_data_c2m s frame)) = tx_view s"
  by (simp add: handle_data_c2m_def Let_def case_prod_unfold split: option.splits)

text \<open>The frames that reset the link: a \<open>RESET\<close>, and a \<open>HELLO\<close> that is not malformed.\<close>

definition resets_link :: "mc_link_frame \<Rightarrow> bool" where
  "resets_link frame \<longleftrightarrow> fr_type frame = MC_LINK_RESET \<or>
     fr_type frame = MC_LINK_HELLO \<and> fr_len frame = 6 \<and>
     get_u16_le (fr_payload frame) 0 \<noteq> 0 \<and> get_u16_le (fr_payload frame) 2 \<noteq> 0"

lemma handle_frame_tx: "\<not> resets_link frame \<Longrightarrow> tx_view (snd (handle_frame s frame)) = tx_view s"
  by (auto simp: handle_frame_def handle_hello_def resets_link_def Let_def)

section \<open>Steps that do not reset the link\<close>

inductive link_step :: "mc_link_session \<Rightarrow> byte list \<Rightarrow> mc_link_session \<Rightarrow> bool" where
  frame: "\<not> resets_link frame \<Longrightarrow> link_step s [] (snd (handle_frame s frame))"
| parse: "mc_link_parser_feed (s_parser s) src = Some (r, p) \<Longrightarrow> link_step s [] (s\<lparr>s_parser := p\<rparr>)"
| credit: "link_step s [] (mc_link_session_credit_consumed s n)"
| queue_server_tx: "rb_ok server_tx \<Longrightarrow> link_step s [] (fst (snd (mc_link_session_queue_server_tx s server_tx)))"
| read_tx: "mc_link_session_read_tx s n = (bs, s') \<Longrightarrow> link_step s bs s'"
| take_reset: "link_step s [] (snd (mc_link_session_take_reset_requested s))"
| server: "s_rx s = Some rx \<Longrightarrow> rb_ok rx' \<Longrightarrow> link_step s [] (s\<lparr>s_rx := Some rx'\<rparr>)"

inductive link_runs :: "mc_link_session \<Rightarrow> byte list \<Rightarrow> mc_link_session \<Rightarrow> bool" for s0 where
  start: "link_runs s0 [] s0"
| step: "link_runs s0 sent s \<Longrightarrow> link_step s bs s' \<Longrightarrow> link_runs s0 (sent @ bs) s'"

text \<open>The frames on the wire since the start and those that wait are numbered from 0.\<close>

definition numbered :: "byte list \<Rightarrow> byte list \<Rightarrow> mc_link_session \<Rightarrow> bool" where
  "numbered before sent s \<longleftrightarrow>
     session_ok s \<and>
     (\<exists>wire waiting n. list_all device_frame wire \<and> list_all device_frame waiting \<and>
        sent @ in_flight s = before @ concat (map frame_bytes wire) \<and>
        data_waiting s = concat (map frame_bytes waiting) \<and>
        m2c_seqs (wire @ waiting) = map of_nat [0..<n] \<and> s_tx_seq_next s = of_nat n)"

text \<open>A step that leaves the data frames alone.\<close>

lemma numbered_keeps:
  assumes "numbered before sent s" "keeps_tx s s'" "tx_view s' = tx_view s"
  shows "numbered before sent s'"
proof -
  have "s_tx_seq_next s' = s_tx_seq_next s" using assms(3) by (simp add: tx_view_def)
  with assms data_waiting_view [OF assms(3)] show ?thesis by (simp add: numbered_def keeps_tx_def)
qed

text \<open>A frame goes on the wire: the first of the control frames or the first of the data frames that wait.\<close>

lemma select_active_tx_data:
  assumes ok: "session_ok s" and sel: "select_active_tx s = Some t"
  shows "s_tx_seq_next t = s_tx_seq_next s \<and>
    ((\<exists>whole. frames_of is_control whole \<and> in_flight t = in_flight s @ whole \<and> data_waiting t = data_waiting s) \<or>
     (\<exists>whole. in_flight t = in_flight s @ whole \<and> data_waiting s = whole @ data_waiting t \<and>
        frames_of is_data whole \<and> frames_of is_data (data_waiting t)))"
proof (cases "s_active_tx_queue s = MC_LINK_SESSION_TX_NONE")
  case True
  then have fo: "frames_of is_control (rb_contents (s_control_tx s))" "frames_of is_data (rb_contents (s_tx s))"
    using ok by (simp_all add: session_defs)
  show ?thesis
  proof (cases "next_frame_len (s_control_tx s)")
    case (Some k)
    then have "t = s\<lparr>s_active_tx_queue := MC_LINK_SESSION_TX_CONTROL, s_active_tx_remaining := k\<rparr>"
      using sel True by (simp add: select_active_tx_def)
    moreover have "frames_of is_control (take k (rb_contents (s_control_tx s)))"
      using frames_of_first [OF fo(1)] Some by (auto simp: next_frame_len)
    ultimately show ?thesis using True by (simp add: in_flight_def data_waiting_def)
  next
    case None
    then obtain k where k: "next_frame_len (s_tx s) = Some k"
      "t = s\<lparr>s_active_tx_queue := MC_LINK_SESSION_TX_DATA, s_active_tx_remaining := k\<rparr>"
      using sel True by (auto simp: select_active_tx_def split: option.splits)
    then have "frames_of is_data (take k (rb_contents (s_tx s)))" "frames_of is_data (drop k (rb_contents (s_tx s)))"
      using frames_of_first [OF fo(2)] by (auto simp: next_frame_len)
    with k True show ?thesis by (simp add: in_flight_def data_waiting_def)
  qed
next
  case False
  with sel show ?thesis by (auto simp: select_active_tx_def intro!: exI [of _ "[]"])
qed

text \<open>Reading takes bytes of the frame on the wire and leaves what waits.\<close>

lemma read_active_waiting:
  assumes ok: "session_ok t"
    and q: "s_active_tx_queue t = MC_LINK_SESSION_TX_CONTROL \<and> read_active_tx (s_control_tx t) (\<lambda>tx. t\<lparr>s_control_tx := tx\<rparr>) n = (bs, s') \<or>
      s_active_tx_queue t = MC_LINK_SESSION_TX_DATA \<and> read_active_tx (s_tx t) (\<lambda>tx. t\<lparr>s_tx := tx\<rparr>) n = (bs, s')"
  shows "data_waiting s' = data_waiting t \<and> s_tx_seq_next s' = s_tx_seq_next t"
  using q
proof (elim disjE conjE)
  let ?r = "s_active_tx_remaining t" and ?c = "rb_contents (s_control_tx t)"
  assume a: "s_active_tx_queue t = MC_LINK_SESSION_TX_CONTROL"
    "read_active_tx (s_control_tx t) (\<lambda>tx. t\<lparr>s_control_tx := tx\<rparr>) n = (bs, s')"
  then have r: "0 < ?r" "?r \<le> length ?c" using ok by (simp_all add: session_defs)
  obtain tx' where "(bs, s') = (take (min n ?r) ?c,
       if ?r \<le> n then clear_active_tx (t\<lparr>s_control_tx := tx', s_active_tx_remaining := 0\<rparr>)
       else t\<lparr>s_control_tx := tx', s_active_tx_remaining := ?r - n\<rparr>)"
    using read_active_tx_result [OF session_okD(2) [OF ok], of "\<lambda>tx. t\<lparr>s_control_tx := tx\<rparr>" ?r n] r unfolding a(2) by auto
  with a(1) show ?thesis by (simp add: data_waiting_def clear_active_tx_def)
next
  let ?r = "s_active_tx_remaining t" and ?c = "rb_contents (s_tx t)"
  assume a: "s_active_tx_queue t = MC_LINK_SESSION_TX_DATA"
    "read_active_tx (s_tx t) (\<lambda>tx. t\<lparr>s_tx := tx\<rparr>) n = (bs, s')"
  then have r: "0 < ?r" "?r \<le> length ?c" using ok by (simp_all add: session_defs)
  obtain tx' where tx': "rb_contents tx' = drop (min n ?r) ?c" and "(bs, s') = (take (min n ?r) ?c,
       if ?r \<le> n then clear_active_tx (t\<lparr>s_tx := tx', s_active_tx_remaining := 0\<rparr>)
       else t\<lparr>s_tx := tx', s_active_tx_remaining := ?r - n\<rparr>)"
    using read_active_tx_result [OF session_okD(1) [OF ok], of "\<lambda>tx. t\<lparr>s_tx := tx\<rparr>" ?r n] r unfolding a(2) by auto
  then show ?thesis using a(1) tx' by (simp add: data_waiting_def clear_active_tx_def min_def)
qed

lemma frames_ofE:
  assumes "frames_of P bs" obtains frs where "list_all device_frame frs" "list_all (\<lambda>fr. P (fr_type fr)) frs"
    "bs = concat (map frame_bytes frs)"
  using assms by (auto simp: frames_of_def list_all_iff)

lemma frames_unique:
  assumes "list_all device_frame xs" "list_all device_frame ys" "concat (map frame_bytes xs) = concat (map frame_bytes ys)"
  shows "xs = ys"
  by (rule link_code.enc_uniquely_decodable) (use assms device_frames_encodable in auto)

lemma numbered_select:
  assumes "numbered before sent s" "select_active_tx s = Some t" shows "numbered before sent t"
proof -
  obtain wire waiting n where w: "session_ok s" "list_all device_frame wire" "list_all device_frame waiting"
    "sent @ in_flight s = before @ concat (map frame_bytes wire)" "data_waiting s = concat (map frame_bytes waiting)"
    "m2c_seqs (wire @ waiting) = map of_nat [0..<n]" "s_tx_seq_next s = of_nat n"
    using assms(1) by (auto simp: numbered_def)
  have t: "session_ok t" using select_active_tx_ok [OF w(1) assms(2)] by simp
  from select_active_tx_data [OF w(1) assms(2)] show ?thesis
  proof (elim conjE disjE exE)
    fix whole
    assume a: "s_tx_seq_next t = s_tx_seq_next s" "frames_of is_control whole" "in_flight t = in_flight s @ whole"
      "data_waiting t = data_waiting s"
    obtain frs where frs: "list_all device_frame frs" "list_all (\<lambda>fr. is_control (fr_type fr)) frs"
      "whole = concat (map frame_bytes frs)" using a(2) by (rule frames_ofE)
    have "sent @ in_flight t = before @ concat (map frame_bytes (wire @ frs))"
      using w(4) a(3) frs(3) by (metis append.assoc concat_append map_append)
    moreover have "m2c_seqs ((wire @ frs) @ waiting) = map of_nat [0..<n]" using w(6) m2c_seqs_control [OF frs(2)] by simp
    ultimately show ?thesis
      unfolding numbered_def using t w a frs(1) by (intro conjI exI [of _ "wire @ frs"] exI [of _ waiting] exI [of _ n]) auto
  next
    fix whole
    assume a: "s_tx_seq_next t = s_tx_seq_next s" "in_flight t = in_flight s @ whole"
      "data_waiting s = whole @ data_waiting t" "frames_of is_data whole" "frames_of is_data (data_waiting t)"
    obtain xs where xs: "list_all device_frame xs" "whole = concat (map frame_bytes xs)" using a(4) by (rule frames_ofE)
    obtain ys where ys: "list_all device_frame ys" "data_waiting t = concat (map frame_bytes ys)" using a(5) by (rule frames_ofE)
    have "waiting = xs @ ys" using frames_unique [OF w(3), of "xs @ ys"] w(5) a(3) xs ys by simp
    moreover have "sent @ in_flight t = before @ concat (map frame_bytes (wire @ xs))"
      using w(4) a(2) xs(2) by (metis append.assoc concat_append map_append)
    ultimately show ?thesis
      unfolding numbered_def using t w a(1) xs(1) ys by (intro conjI exI [of _ "wire @ xs"] exI [of _ ys] exI [of _ n]) auto
  qed
qed

lemma numbered_read:
  assumes "numbered before sent s" "mc_link_session_read_tx s n = (bs, s')" shows "numbered before (sent @ bs) s'"
proof (cases "n = 0 \<or> select_active_tx s = None")
  case True
  with assms show ?thesis by (auto simp: mc_link_session_read_tx_def split: if_splits)
next
  case False
  then obtain t where t: "select_active_tx s = Some t" by blast
  have nt: "numbered before sent t" by (rule numbered_select [OF assms(1) t])
  then have ok: "session_ok t" by (simp add: numbered_def)
  have q: "s_active_tx_queue t = MC_LINK_SESSION_TX_CONTROL \<and> read_active_tx (s_control_tx t) (\<lambda>tx. t\<lparr>s_control_tx := tx\<rparr>) n = (bs, s') \<or>
      s_active_tx_queue t = MC_LINK_SESSION_TX_DATA \<and> read_active_tx (s_tx t) (\<lambda>tx. t\<lparr>s_tx := tx\<rparr>) n = (bs, s')"
    using select_active_tx_ok [OF _ t] assms False t ok
    by (auto simp: mc_link_session_read_tx_def session_ok_def active_ok_def numbered_def split: if_splits)
  then have "session_ok s'" "bs @ in_flight s' = in_flight t"
    using read_active_control [OF ok] read_active_data [OF ok] by blast+
  with nt read_active_waiting [OF ok q] show ?thesis by (auto simp: numbered_def)
qed

text \<open>Server output joins the queue under the next number.\<close>

lemma queue_server_tx_control:
  "s_active_tx_queue (fst (snd (mc_link_session_queue_server_tx s tx))) = s_active_tx_queue s \<and>
   s_active_tx_remaining (fst (snd (mc_link_session_queue_server_tx s tx))) = s_active_tx_remaining s"
  by (simp add: mc_link_session_queue_server_tx_def queue_data_frame_def queue_frame_def Let_def case_prod_unfold
      split: option.split)

lemma numbered_queue:
  assumes nb: "numbered before sent s" and rb: "rb_ok server_tx"
  shows "numbered before sent (fst (snd (mc_link_session_queue_server_tx s server_tx)))"
proof -
  obtain wire waiting k where w: "session_ok s" "list_all device_frame wire" "list_all device_frame waiting"
    "sent @ in_flight s = before @ concat (map frame_bytes wire)" "data_waiting s = concat (map frame_bytes waiting)"
    "m2c_seqs (wire @ waiting) = map of_nat [0..<k]" "s_tx_seq_next s = of_nat k"
    using nb by (auto simp: numbered_def)
  let ?n = "min (length (rb_contents server_tx)) (unat (s_negotiated_payload s))"
  let ?p = "take ?n (rb_contents server_tx)"
  let ?fr = "link_frame MC_LINK_DATA_M2C (s_tx_seq_next s) (s_rx_seq_expected s) ?p"
  obtain ok s' tx' where q: "mc_link_session_queue_server_tx s server_tx = (ok, s', tx')" by (metis prod_cases3)
  have keeps: "session_ok s'" "in_flight s' = in_flight s"
    using queue_server_tx_keeps [OF w(1), of server_tx] q by (simp_all add: keeps_tx_def)
  have act: "s_active_tx_queue s' = s_active_tx_queue s" "s_active_tx_remaining s' = s_active_tx_remaining s"
    using queue_server_tx_control [of s server_tx] q by simp_all
  note e = queue_server_tx_effect [OF w(1) rb HOL.refl HOL.refl, unfolded q prod.case]
  show ?thesis
  proof (cases "ok \<and> 0 < ?n")
    case True
    then have c: "rb_contents (s_tx s') = rb_contents (s_tx s) @ frame_bytes ?fr" "s_tx_seq_next s' = of_nat (Suc k)"
      using e w(7) by (auto simp: frame_bytes_link_frame)
    have d: "data_waiting s' = concat (map frame_bytes (waiting @ [?fr]))"
      using w(1,5) c(1) act by (auto simp: data_waiting_def session_ok_def active_ok_def simp del: length_rb_contents split: if_splits)
    have "unat (s_negotiated_payload s) \<le> MC_LINK_MAX_PAYLOAD"
      using w(1) by (simp add: session_ok_def capabilities_ok_def word_le_nat_alt)
    then have "device_frame ?fr"
      using True by (auto simp: device_frame_def device_payload_def link_frame_def encodable_frame_def simp del: length_rb_contents)
    with w keeps c(2) d show ?thesis
      unfolding numbered_def q fst_conv snd_conv
      by (intro conjI exI [of _ wire] exI [of _ "waiting @ [?fr]"] exI [of _ "Suc k"]) auto
  next
    case False
    then have "s_tx s' = s_tx s" "s_tx_seq_next s' = s_tx_seq_next s" using e by (auto split: if_splits)
    with numbered_keeps [OF nb, of s'] keeps act q show ?thesis by (simp add: keeps_tx_def tx_view_def)
  qed
qed

lemma link_step_numbered:
  assumes "link_step s bs s'" "numbered before sent s" shows "numbered before (sent @ bs) s'"
proof -
  have ok: "session_ok s" using assms(2) by (simp add: numbered_def)
  from assms(1) show ?thesis
  proof cases
    case (frame fr)
    with numbered_keeps [OF assms(2) handle_frame_keeps [OF ok] handle_frame_tx] show ?thesis by simp
  next
    case (parse src r p)
    moreover have "parser_ok p" using parser_feed_ok [OF session_okD(6) [OF ok], of src] parse(3) by auto
    ultimately show ?thesis using numbered_keeps [OF assms(2) keeps_tx_counters(8) [OF ok]] by simp
  next
    case (credit n)
    with numbered_keeps [OF assms(2) queue_ack_c2m_keeps [OF ok]] show ?thesis
      by (simp add: mc_link_session_credit_consumed_def)
  next
    case take_reset
    with numbered_keeps [OF assms(2) keeps_tx_counters(4) [OF ok]] show ?thesis
      by (simp add: mc_link_session_take_reset_requested_def)
  next
    case (server rx rx')
    with numbered_keeps [OF assms(2) keeps_tx_counters(7) [OF ok]] show ?thesis by simp
  qed (use assms(2) numbered_queue numbered_read in auto)
qed

lemma link_runs_numbered: "link_runs s0 sent s \<Longrightarrow> numbered (in_flight s0) [] s0 \<Longrightarrow> numbered (in_flight s0) sent s"
  by (induction rule: link_runs.induct) (auto intro: link_step_numbered)

text \<open>Numbering begins at power-on and after every \<open>RESET\<close>.\<close>

lemma numbered_start:
  "session_ok s \<Longrightarrow> data_waiting s = [] \<Longrightarrow> s_tx_seq_next s = 0 \<Longrightarrow> numbered (in_flight s) [] s"
  unfolding numbered_def by (intro conjI exI [of _ "[]"] exI [of _ 0]) auto

lemma init_numbered: "pred_option rb_ok rx \<Longrightarrow> numbered (in_flight (mc_link_session_init rx)) [] (mc_link_session_init rx)"
  using init_session_ok [of rx]
  by (intro numbered_start) (auto simp: mc_link_session_init_def reset_capabilities_def data_waiting_def fifo_simps)

lemma reset_link_state_tx:
  assumes "session_ok s"
  shows "data_waiting (reset_link_state s) = []" "s_tx_seq_next (reset_link_state s) = 0"
  by (simp_all add: reset_link_state_def reset_link_state_preserving_control_tx_def Let_def clear_active_tx_def
      data_waiting_def truncate_contents del: length_rb_contents)

lemma reset_numbered:
  assumes "session_ok s" "fr_type frame = MC_LINK_RESET"
  shows "numbered (in_flight (snd (handle_frame s frame))) [] (snd (handle_frame s frame))"
proof -
  let ?s = "snd (handle_frame s frame)"
  have v: "tx_view ?s = tx_view (reset_link_state s)"
    using assms(2) by (simp add: handle_frame_def Let_def handle_reset_def case_prod_unfold)
  then have "s_tx_seq_next ?s = s_tx_seq_next (reset_link_state s)" by (simp add: tx_view_def)
  with reset_link_state_tx [OF assms(1)] data_waiting_view [OF v] keeps_tx_ok [OF handle_frame_keeps [OF assms(1)]]
  show ?thesis by (intro numbered_start) simp_all
qed

lemma numbered_wire:
  assumes "numbered before sent s" "list_all encodable_frame frames"
    "sent @ in_flight s = before @ concat (map frame_bytes frames)"
  obtains waiting n where "list_all device_frame waiting" "data_waiting s = concat (map frame_bytes waiting)"
    "m2c_seqs frames @ m2c_seqs waiting = map of_nat [0..<n]" "s_tx_seq_next s = of_nat n"
proof -
  obtain wire waiting n where w: "list_all device_frame wire" "list_all device_frame waiting"
    "sent @ in_flight s = before @ concat (map frame_bytes wire)" "data_waiting s = concat (map frame_bytes waiting)"
    "m2c_seqs (wire @ waiting) = map of_nat [0..<n]" "s_tx_seq_next s = of_nat n"
    using assms(1) by (auto simp: numbered_def)
  have "frames = wire"
    using link_code.enc_uniquely_decodable [OF assms(2) device_frames_encodable [OF w(1)]] assms(3) w(3) by simp
  with w that show ?thesis by simp
qed

text \<open>A queue that is not empty holds at least one data frame, and fewer than there are numbers.\<close>

lemma waiting_data_frames:
  assumes "session_ok s" "list_all device_frame waiting" "data_waiting s = concat (map frame_bytes waiting)"
  shows "length (m2c_seqs waiting) \<le> MC_LINK_SESSION_TX_CAP" "data_waiting s \<noteq> [] \<Longrightarrow> m2c_seqs waiting \<noteq> []"
proof -
  have "frames_of is_data (data_waiting s)" using assms(1) by (simp add: session_ok_def)
  then obtain frs where frs: "list_all device_frame frs" "list_all (\<lambda>fr. is_data (fr_type fr)) frs"
    "data_waiting s = concat (map frame_bytes frs)" by (rule frames_ofE)
  with frames_unique [OF assms(2)] assms(3) have "waiting = frs" by metis
  with frs(2) have "m2c_seqs waiting = map fr_seq waiting" by (simp add: m2c_seqs_def list_all_iff)
  moreover have "length waiting \<le> length (concat (map frame_bytes waiting))"
  proof (induction waiting)
    case (Cons fr frs)
    have "1 \<le> length (frame_bytes fr)" by (simp add: frame_bytes_def link_frame_bytes_def)
    with Cons show ?case by simp
  qed simp
  moreover have "length (data_waiting s) \<le> MC_LINK_SESSION_TX_CAP"
    using rb.bounded [OF session_okD(1) [OF assms(1)]] session_okD(3) [OF assms(1)] by (auto simp: data_waiting_def)
  ultimately show "length (m2c_seqs waiting) \<le> MC_LINK_SESSION_TX_CAP" "data_waiting s \<noteq> [] \<Longrightarrow> m2c_seqs waiting \<noteq> []"
    using assms(3) by auto
qed

text \<open>Where numbering starts: a session at power-on, or one that has just answered a \<open>RESET\<close>.\<close>

definition starts_numbering :: "mc_link_session \<Rightarrow> bool" where
  "starts_numbering s0 \<longleftrightarrow>
     (\<exists>rx. pred_option rb_ok rx \<and> s0 = mc_link_session_init rx) \<or>
     (\<exists>sent s frame. session_reaches sent s \<and> fr_type frame = MC_LINK_RESET \<and> s0 = snd (handle_frame s frame))"

lemma starts_numbered: "starts_numbering s0 \<Longrightarrow> link_runs s0 sent s \<Longrightarrow> numbered (in_flight s0) sent s"
  using link_runs_numbered init_numbered reset_numbered session_reaches_ok unfolding starts_numbering_def by metis

section \<open>Any number of resets\<close>

text \<open>
  The life of a session since power-on, with what it has put on the wire in each epoch that a reset ended: all the bytes
  sent, and the rest of the frame on the wire, which a reset does not cut, less those of the earlier epochs. A reset is a
  frame that resets the link, or the main loop's \<open>mc_link_session_reset_after_error\<close>, which does so when it could queue
  its \<open>ERROR\<close> frame. Queued data may be dropped only when there is none.
\<close>

definition epoch_end :: "byte list list \<Rightarrow> byte list \<Rightarrow> mc_link_session \<Rightarrow> byte list list" where
  "epoch_end ended sent s = ended @ [drop (length (concat ended)) (sent @ in_flight s)]"

inductive link_epochs :: "byte list list \<Rightarrow> byte list \<Rightarrow> mc_link_session \<Rightarrow> bool" where
  power_on: "pred_option rb_ok rx \<Longrightarrow> link_epochs [] [] (mc_link_session_init rx)"
| step: "link_epochs ended sent s \<Longrightarrow> link_step s bs s' \<Longrightarrow> link_epochs ended (sent @ bs) s'"
| reset: "link_epochs ended sent s \<Longrightarrow> resets_link frame \<Longrightarrow>
    link_epochs (epoch_end ended sent s) sent (snd (handle_frame s frame))"
| error: "link_epochs ended sent s \<Longrightarrow> mc_link_session_reset_after_error s code detail = (ok, s') \<Longrightarrow>
    link_epochs (if fst (queue_error s code detail) then epoch_end ended sent s else ended) sent s'"
| drop: "link_epochs ended sent s \<Longrightarrow> data_waiting s = [] \<Longrightarrow> link_epochs ended sent (mc_link_session_drop_queued_data s)"

text \<open>Whole frames of the device whose data frames are numbered from 0 on.\<close>

definition numbered_frames :: "byte list \<Rightarrow> bool" where
  "numbered_frames bs \<longleftrightarrow> (\<exists>frames. list_all device_frame frames \<and> bs = concat (map frame_bytes frames) \<and>
     m2c_seqs frames = map of_nat [0..<length (m2c_seqs frames)])"

lemma numbered_prefix: "xs @ ys = map of_nat [0..<n] \<Longrightarrow> xs = map of_nat [0..<length xs]"
proof -
  assume e: "xs @ ys = map of_nat [0..<n]"
  then have "xs = take (length xs) (map of_nat [0..<n])" by (metis append_eq_conv_conj)
  moreover have "length xs \<le> n" using arg_cong [OF e, of length] by simp
  ultimately show ?thesis by (simp add: take_map)
qed

lemma numbered_now:
  assumes "numbered before sent s" shows "\<exists>now. sent @ in_flight s = before @ now \<and> numbered_frames now"
proof -
  obtain wire waiting n where w: "list_all device_frame wire" "sent @ in_flight s = before @ concat (map frame_bytes wire)"
    "m2c_seqs wire @ m2c_seqs waiting = map of_nat [0..<n]"
    using assms by (auto simp: numbered_def)
  with numbered_prefix [OF w(3)] show ?thesis unfolding numbered_frames_def by blast
qed

lemma numbered_again:
  "session_ok s \<Longrightarrow> data_waiting s = [] \<Longrightarrow> s_tx_seq_next s = 0 \<Longrightarrow> numbered (sent @ in_flight s) sent s"
  unfolding numbered_def by (intro conjI exI [of _ "[]"] exI [of _ 0]) auto

lemma reset_preserving_tx:
  "data_waiting (reset_link_state_preserving_control_tx s) = []" "s_tx_seq_next (reset_link_state_preserving_control_tx s) = 0"
  by (simp_all add: reset_link_state_preserving_control_tx_def data_waiting_def truncate_contents del: length_rb_contents)

lemma handle_reset_epoch:
  assumes "session_ok s" "resets_link frame"
  shows "session_ok (snd (handle_frame s frame))" "in_flight (snd (handle_frame s frame)) = in_flight s"
    "data_waiting (snd (handle_frame s frame)) = []" "s_tx_seq_next (snd (handle_frame s frame)) = 0"
proof -
  let ?s = "snd (handle_frame s frame)"
  have caps: "tx_view (t\<lparr>s_negotiated_payload := a, s_credit_cap := b, s_supported_rate_mask := c, s_active_rate_profile := d\<rparr>) =
      tx_view t" for t a b c d by (simp add: tx_view_def)
  from assms(2) consider "fr_type frame = MC_LINK_RESET"
    | "fr_type frame = MC_LINK_HELLO" "fr_len frame = 6" "get_u16_le (fr_payload frame) 0 \<noteq> 0" "get_u16_le (fr_payload frame) 2 \<noteq> 0"
    by (auto simp: resets_link_def)
  then have v: "tx_view ?s = tx_view (reset_link_state s)"
  proof cases
    case 1
    then show ?thesis by (simp add: handle_frame_def handle_reset_def Let_def case_prod_unfold)
  next
    case 2
    then show ?thesis by (simp add: handle_frame_def handle_hello_def Let_def caps)
  qed
  show "data_waiting ?s = []" "s_tx_seq_next ?s = 0"
    using reset_link_state_tx [OF assms(1)] data_waiting_view [OF v] v by (simp_all add: tx_view_def)
  show "session_ok ?s" "in_flight ?s = in_flight s" using handle_frame_keeps [OF assms(1)] by (simp_all add: keeps_tx_def)
qed

lemma error_epoch:
  assumes "session_ok s" "mc_link_session_reset_after_error s code detail = (ok, s')"
  shows "keeps_tx s s'"
    "if fst (queue_error s code detail) then data_waiting s' = [] \<and> s_tx_seq_next s' = 0 else tx_view s' = tx_view s"
proof -
  obtain ok1 s1 where q: "queue_error s code detail = (ok1, s1)" by fastforce
  have k1: "keeps_tx s s1" using queue_error_keeps [OF assms(1), of code detail] q by simp
  have v1: "tx_view s1 = tx_view s" using queue_error_tx [of s code detail] q by simp
  let ?r = "reset_link_state_preserving_control_tx s1"
  have k2: "keeps_tx s (snd (queue_ready ?r))"
    using k1 reset_preserving_keeps [OF keeps_tx_ok [OF k1]] queue_ready_keeps keeps_tx_ok keeps_tx_trans by metis
  have "data_waiting (snd (queue_ready ?r)) = []" "s_tx_seq_next (snd (queue_ready ?r)) = 0"
    using data_waiting_view [OF queue_ready_tx [of ?r]] queue_ready_tx [of ?r] reset_preserving_tx [of s1] by (auto simp: tx_view_def)
  moreover have "s' = (if ok1 then snd (queue_ready ?r) else s1)"
    using assms(2) q by (auto simp: mc_link_session_reset_after_error_def split: if_splits)
  ultimately show "keeps_tx s s'"
    "if fst (queue_error s code detail) then data_waiting s' = [] \<and> s_tx_seq_next s' = 0 else tx_view s' = tx_view s"
    using k1 k2 v1 q by auto
qed

lemma epoch_end_facts:
  assumes "numbered (concat ended) sent s" "list_all numbered_frames ended"
  shows "concat (epoch_end ended sent s) = sent @ in_flight s" "list_all numbered_frames (epoch_end ended sent s)"
proof -
  obtain now where now: "sent @ in_flight s = concat ended @ now" "numbered_frames now" using numbered_now [OF assms(1)] by blast
  have "epoch_end ended sent s = ended @ [now]" unfolding epoch_end_def now(1) by simp
  with now assms(2) show "concat (epoch_end ended sent s) = sent @ in_flight s" "list_all numbered_frames (epoch_end ended sent s)"
    by simp_all
qed

lemma link_epochs_numbered:
  "link_epochs ended sent s \<Longrightarrow> numbered (concat ended) sent s \<and> list_all numbered_frames ended"
proof (induction rule: link_epochs.induct)
  case (power_on rx)
  then show ?case using init_numbered [of rx] init_session_ok [of rx] by simp
next
  case (step ended sent s bs s')
  then show ?case using link_step_numbered by blast
next
  case (reset ended sent s frame)
  then have ok: "session_ok s" by (simp add: numbered_def)
  note e = epoch_end_facts [OF conjunct1 [OF reset(3)] conjunct2 [OF reset(3)]]
  note h = handle_reset_epoch [OF ok reset(2)]
  show ?case using numbered_again [OF h(1,3,4), of sent] e h(2) by simp
next
  case (error ended sent s code detail ok s')
  then have ok: "session_ok s" by (simp add: numbered_def)
  note e = epoch_end_facts [OF conjunct1 [OF error(3)] conjunct2 [OF error(3)]]
  note h = error_epoch [OF ok error(2)]
  show ?case
  proof (cases "fst (queue_error s code detail)")
    case True
    with numbered_again [of s' sent] e h show ?thesis by (simp add: keeps_tx_def)
  next
    case False
    with error(3) numbered_keeps [OF _ h(1)] h(2) show ?thesis by simp
  qed
next
  case (drop ended sent s)
  then have ok: "session_ok s" by (simp add: numbered_def)
  have "data_waiting (mc_link_session_drop_queued_data s) = []" "s_tx_seq_next (mc_link_session_drop_queued_data s) = s_tx_seq_next s"
    by (simp_all add: mc_link_session_drop_queued_data_def Let_def clear_active_tx_def data_waiting_def truncate_contents
        del: length_rb_contents)
  with drop drop_queued_data_keeps [OF ok] show ?case by (auto simp: numbered_def keeps_tx_def)
qed

text \<open>Whatever the UART delivers, a call of \<open>mc_link_session_receive_bytes\<close> is a part of such a life.\<close>

lemma handle_frame_epochs:
  "link_epochs ended sent s \<Longrightarrow> \<exists>ended'. link_epochs ended' sent (snd (handle_frame s frame))"
  using link_epochs.step [OF _ link_step.frame, of ended sent s frame] link_epochs.reset [of ended sent s frame]
  by (cases "resets_link frame") auto

lemma parse_epochs:
  "link_epochs ended sent s \<Longrightarrow> mc_link_parser_feed (s_parser s) src = Some (r, p) \<Longrightarrow> link_epochs ended sent (s\<lparr>s_parser := p\<rparr>)"
  using link_epochs.step [OF _ link_step.parse] by fastforce

lemma receive_frames_epochs:
  "link_epochs ended sent s \<Longrightarrow> receive_frames s frame = Some (ok, s') \<Longrightarrow> \<exists>ended'. link_epochs ended' sent s'"
proof (induction s frame arbitrary: ended rule: receive_frames.induct)
  case (1 s frame)
  obtain ok1 s1 where h: "handle_frame s frame = (ok1, s1)" by fastforce
  obtain ended1 where e1: "link_epochs ended1 sent s1" using handle_frame_epochs [OF 1(2), of frame] h by auto
  have rf: "receive_frames s frame = (case (ok1, s1) of
        (False, s') \<Rightarrow> Some (False, s')
      | (True, s') \<Rightarrow>
          (case mc_link_parser_feed (s_parser s') [] of
             None \<Rightarrow> None
           | Some (MC_LINK_PARSE_FRAME frame', p) \<Rightarrow> receive_frames (s'\<lparr>s_parser := p\<rparr>) frame'
           | Some (result, p) \<Rightarrow> Some (result \<noteq> MC_LINK_PARSE_ERROR, s'\<lparr>s_parser := p\<rparr>)))"
    by (subst receive_frames.simps) (simp only: h)
  show ?case
  proof (cases ok1)
    case True
    then obtain r p where f: "mc_link_parser_feed (s_parser s1) [] = Some (r, p)"
      using 1(3) rf by (auto split: option.splits)
    note e2 = parse_epochs [OF e1 f]
    have IH: "r = MC_LINK_PARSE_FRAME frame' \<Longrightarrow> receive_frames (s1\<lparr>s_parser := p\<rparr>) frame' = Some (ok, s') \<Longrightarrow>
        \<exists>ended'. link_epochs ended' sent s'" for frame'
      using 1(1) [OF _ HOL.refl f HOL.refl _ e2] h True by auto
    show ?thesis by (cases r) (use 1(3) rf True f e2 IH in auto)
  next
    case False
    with 1(3) rf e1 show ?thesis by auto
  qed
qed

lemma receive_bytes_epochs:
  assumes "link_epochs ended sent s" "mc_link_session_receive_bytes s src = Some (ok, s')"
  shows "\<exists>ended'. link_epochs ended' sent s'"
proof -
  obtain r p where f: "mc_link_parser_feed (s_parser s) src = Some (r, p)"
    using assms(2) by (auto simp: mc_link_session_receive_bytes_def split: option.splits)
  note e = parse_epochs [OF assms(1) f]
  show ?thesis
    by (cases r) (use assms(2) f e receive_frames_epochs [OF e] in \<open>auto simp: mc_link_session_receive_bytes_def\<close>)
qed

section \<open>Properties\<close>

text \<open>C24: the device keeps to the numbering that the bridge checks. From power-on on, whatever frames the session
  answers, however often the link is reset by a \<open>HELLO\<close>, a \<open>RESET\<close> or the main loop after an error, and however the bytes
  are fetched: all that is put on the wire falls into one run of whole frames for each epoch between two resets, and in each
  of them the data frames carry the numbers 0, 1, 2 and so on modulo 2^16, without a gap, a repetition or an exchange. The one
  call that is left out is \<open>mc_link_session_drop_queued_data\<close> while data frames wait, which breaks it.\<close>

theorem data_frames_consecutive:
  assumes "link_epochs ended sent s"
  shows "\<exists>now. sent @ in_flight s = concat ended @ now \<and>
    (\<forall>epoch \<in> set (ended @ [now]). \<exists>frames. list_all device_frame frames \<and> epoch = concat (map frame_bytes frames) \<and>
       m2c_seqs frames = map of_nat [0..<length (m2c_seqs frames)])"
  using link_epochs_numbered [OF assms] numbered_now [of "concat ended" sent s] unfolding numbered_frames_def list_all_iff by auto

theorem data_frames_consecutive_witness:
  "let s0 = mc_link_session_init None;
       s = fst (snd (mc_link_session_queue_server_tx s0 (snd (mc_ringbuf_write (mc_ringbuf_init [0, 0, 0] 3) [4, 5]))));
       (bs, s1) = mc_link_session_read_tx s 5;
       s2 = snd (handle_frame s1 (link_frame MC_LINK_RESET 0 0 []))
   in link_epochs [bs @ in_flight s1] bs s2 \<and>
      (\<exists>frames. bs @ in_flight s1 = concat (map frame_bytes frames) \<and>
         m2c_seqs frames = map of_nat [0..<length (m2c_seqs frames)])"
proof -
  let ?init = "mc_link_session_init None" and ?rb = "snd (mc_ringbuf_write (mc_ringbuf_init [0, 0, 0 :: byte] 3) [4, 5])"
  let ?s = "fst (snd (mc_link_session_queue_server_tx ?init ?rb))" and ?reset = "link_frame MC_LINK_RESET 0 0 []"
  obtain bs s1 where rd: "mc_link_session_read_tx ?s 5 = (bs, s1)" by fastforce
  have "rb_ok ?rb" by (rule rb.write_invar [OF rb_init_ok]) simp_all
  from link_epochs.step [OF link_epochs.step [OF link_epochs.power_on link_step.queue_server_tx [OF this]] link_step.read_tx [OF rd]]
  have "link_epochs [] bs s1" by simp
  from link_epochs.reset [OF this, of ?reset] have e: "link_epochs [bs @ in_flight s1] bs (snd (handle_frame s1 ?reset))"
    by (simp add: epoch_end_def resets_link_def link_frame_def)
  from data_frames_consecutive [OF e] obtain frames where
    "bs @ in_flight s1 = concat (map frame_bytes frames)" "m2c_seqs frames = map of_nat [0..<length (m2c_seqs frames)]" by auto
  with e show ?thesis unfolding Let_def rd prod.case by blast
qed

text \<open>C25: dropping queued data leaves a gap: when data frames wait, dropping them discards numbers that are already
  given out, and the number of the next data frame is not the one that follows the data frames on the wire, which
  is the one that the bridge expects.\<close>

theorem drop_queued_data_leaves_gap:
  assumes "starts_numbering s0" "link_runs s0 sent s" "list_all encodable_frame frames"
    "sent @ in_flight s = in_flight s0 @ concat (map frame_bytes frames)" "data_waiting s \<noteq> []"
    "s' = mc_link_session_drop_queued_data s"
  shows "data_waiting s' = [] \<and> in_flight s' = in_flight s \<and> s_tx_seq_next s' \<noteq> of_nat (length (m2c_seqs frames))"
proof -
  have nb: "numbered (in_flight s0) sent s" by (rule starts_numbered [OF assms(1,2)])
  then have ok: "session_ok s" by (simp add: numbered_def)
  obtain waiting n where w: "list_all device_frame waiting" "data_waiting s = concat (map frame_bytes waiting)"
    "m2c_seqs frames @ m2c_seqs waiting = map of_nat [0..<n]" "s_tx_seq_next s = of_nat n"
    by (rule numbered_wire [OF nb assms(3,4)])
  have "n = length (m2c_seqs frames) + length (m2c_seqs waiting)" using arg_cong [OF w(3), of length] by simp
  moreover have "0 < length (m2c_seqs waiting)" "length (m2c_seqs waiting) < 65536"
    using waiting_data_frames [OF ok w(1,2)] assms(5) by auto
  moreover have "(of_nat k :: u16) \<noteq> 0" if "0 < k" "k < 65536" for k
    using that by (simp add: word_of_nat_eq_0_iff dvd_def) auto
  ultimately have "s_tx_seq_next s \<noteq> of_nat (length (m2c_seqs frames))" using w(4) by simp
  moreover have "s_tx_seq_next s' = s_tx_seq_next s" "data_waiting s' = []"
    using assms(6) by (simp_all add: mc_link_session_drop_queued_data_def Let_def clear_active_tx_def data_waiting_def
        truncate_contents del: length_rb_contents)
  moreover have "in_flight s' = in_flight s" using drop_queued_data_keeps [OF ok] assms(6) by (simp add: keeps_tx_def)
  ultimately show ?thesis by simp
qed

theorem drop_queued_data_leaves_gap_witness:
  "let s = fst (snd (mc_link_session_queue_server_tx (mc_link_session_init None)
         (snd (mc_ringbuf_write (mc_ringbuf_init [0, 0, 0] 3) [4, 5]))));
       s' = mc_link_session_drop_queued_data s
   in data_waiting s' = [] \<and> s_tx_seq_next s' \<noteq> 0"
proof -
  let ?init = "mc_link_session_init None" and ?empty = "mc_ringbuf_init [0, 0, 0 :: byte] 3"
  let ?rb = "snd (mc_ringbuf_write ?empty [4, 5])"
  obtain ok s tx where q: "mc_link_session_queue_server_tx ?init ?rb = (ok, s, tx)" by (metis prod_cases3)
  have s: "fst (snd (mc_link_session_queue_server_tx ?init ?rb)) = s" by (simp only: q fst_conv snd_conv)
  have start: "starts_numbering ?init" unfolding starts_numbering_def by (rule disjI1) (rule exI [of _ None], simp)
  have rb0: "rb_ok ?empty" by (rule rb_init_ok) simp_all
  have rb: "rb_ok ?rb" by (rule rb.write_invar [OF rb0])
  have c: "rb_contents ?rb = [4, 5]"
    using rb.write_contents [OF rb0, of "[4, 5]"] by (simp add: rb_init_contents rb_init_cap del: mc_ringbuf_write.simps)
  have f: "s_negotiated_payload ?init = 497" "s_rx_seq_expected ?init = 0" "s_tx_seq_next ?init = 0" "rb_contents (s_tx ?init) = []"
    "s_active_tx_queue ?init = 0"
    by (simp_all add: mc_link_session_init_def reset_capabilities_def fifo_simps)
  have r: "link_runs ?init [] s"
    using link_runs.step [OF link_runs.start [of ?init] link_step.queue_server_tx [OF rb, of ?init]]
    by (simp only: q fst_conv snd_conv append_Nil)
  have i0: "session_ok ?init" "in_flight ?init = []" using init_session_ok [of None] by simp_all
  have i: "in_flight s = in_flight ?init" using queue_server_tx_keeps [OF i0(1), of ?rb] by (simp only: q fst_conv snd_conv keeps_tx_def)
  have "rb_contents (s_tx s) = link_frame_bytes MC_LINK_DATA_M2C 0 0 [4, 5]"
    using queue_server_tx_effect [OF i0(1) rb HOL.refl HOL.refl] link_frame_length [of "[4, 5]" MC_LINK_DATA_M2C 0 0]
    unfolding c f q by (auto split: prod.splits)
  moreover have "s_active_tx_queue s = 0" using queue_server_tx_control [of ?init ?rb] f by (simp only: q fst_conv snd_conv)
  ultimately have "data_waiting s \<noteq> []" by (simp add: data_waiting_def link_frame_bytes_def)
  from drop_queued_data_leaves_gap [OF start r _ _ this HOL.refl, of "[]"] i i0 show ?thesis
    unfolding Let_def s by simp
qed

end
