(* ===== verification/LinkDelivery.thy ===== *)
theory LinkDelivery
  imports LinkSession
begin

text \<open>
  From the serial line to the receive ring: what the link session makes of the bytes of a sender, through the parser
  with its buffer, for every way the bytes arrive, while the server takes what is delivered and the UART what is queued. The session relies on the parser only through a contract, the
  locale \<open>frame_source\<close>: the calls return the frames that the specification by single bytes finds, one by one.
\<close>

section \<open>The contract of the parser\<close>

locale frame_source =
  fixes feed :: "'p \<Rightarrow> byte list \<Rightarrow> (mc_link_parse_result \<times> 'p) option"
    and good :: "'p \<Rightarrow> bool"
    and clean :: "'p \<Rightarrow> bool"
    and state :: "'p \<Rightarrow> parse_state"
    and pending :: "'p \<Rightarrow> mc_link_frame list \<times> parse_state"
  assumes feed_chunk: "clean p \<Longrightarrow> length src \<le> MC_LINK_MAX_FRAME_LEN \<Longrightarrow>
      (\<exists>p'. feed p src = Some (MC_LINK_PARSE_NEED_MORE, p') \<and> clean p' \<and> parse_bytes (state p) src = ([], state p')) \<or>
      (\<exists>frame p'. feed p src = Some (MC_LINK_PARSE_FRAME frame, p') \<and> good p' \<and>
         parse_bytes (state p) src = (frame # fst (pending p'), snd (pending p')))"
    and feed_pending: "good p \<Longrightarrow>
      (\<exists>p'. feed p [] = Some (MC_LINK_PARSE_NEED_MORE, p') \<and> clean p' \<and> pending p = ([], state p')) \<or>
      (\<exists>frame p'. feed p [] = Some (MC_LINK_PARSE_FRAME frame, p') \<and> good p' \<and>
         pending p = (frame # fst (pending p'), snd (pending p')))"
begin

text \<open>Calls without input take \<open>frames\<close> and then ask for more.\<close>

fun gives :: "'p \<Rightarrow> mc_link_frame list \<Rightarrow> 'p \<Rightarrow> bool" where
  "gives p [] p' \<longleftrightarrow> feed p [] = Some (MC_LINK_PARSE_NEED_MORE, p')"
| "gives p (frame # frames) p' \<longleftrightarrow> (\<exists>q. feed p [] = Some (MC_LINK_PARSE_FRAME frame, q) \<and> gives q frames p')"

lemma gives_pending:
  "good p \<Longrightarrow> \<exists>p'. gives p (fst (pending p)) p' \<and> clean p' \<and> state p' = snd (pending p)"
proof (induction "fst (pending p)" arbitrary: p)
  case Nil
  with feed_pending [OF Nil.prems] show ?case by fastforce
next
  case (Cons frame frames)
  obtain q where q: "feed p [] = Some (MC_LINK_PARSE_FRAME frame, q)" "good q" "pending p = (frame # fst (pending q), snd (pending q))"
    using feed_pending [OF Cons.prems] Cons.hyps(2) by fastforce
  with Cons.hyps(2) have "frames = fst (pending q)" by simp
  from Cons.hyps(1) [OF this q(2)] q show ?case by (metis fst_conv gives.simps(2) snd_conv)
qed

text \<open>So a chunk and the calls after it take the frames that the specification finds in the chunk.\<close>

lemma chunk_gives:
  assumes "clean p" "length src \<le> MC_LINK_MAX_FRAME_LEN"
  shows "\<exists>p'. clean p' \<and> state p' = snd (parse_bytes (state p) src) \<and>
    (case fst (parse_bytes (state p) src) of
       [] \<Rightarrow> feed p src = Some (MC_LINK_PARSE_NEED_MORE, p')
     | frame # frames \<Rightarrow> \<exists>q. feed p src = Some (MC_LINK_PARSE_FRAME frame, q) \<and> gives q frames p')"
  using feed_chunk [OF assms] gives_pending by fastforce

end

interpretation psr: frame_source mc_link_parser_feed parser_ok parser_drained parser_state parser_pending
proof (unfold_locales, goal_cases)
  case (1 p src)
  from parser_feed_refines [OF this] obtain r p' where
    "mc_link_parser_feed p src = Some (r, p')" "result_refines (parse_bytes (parser_state p) src) (r, p')" by auto
  then show ?case by (cases r) auto
next
  case (2 p)
  from parser_feed_pending [OF this] obtain r p' where
    "mc_link_parser_feed p [] = Some (r, p')" "result_refines (parser_pending p) (r, p')" by auto
  then show ?case by (cases r) auto
qed

section \<open>Handling data frames\<close>

text \<open>The handler of data frames does not look at the parser.\<close>

lemma parser_update_last:
  fixes s :: mc_link_session
  shows "s\<lparr>s_parser := p, s_error_count := n\<rparr> = s\<lparr>s_error_count := n, s_parser := p\<rparr>"
    "s\<lparr>s_parser := p, s_c2m_ack_frames := n\<rparr> = s\<lparr>s_c2m_ack_frames := n, s_parser := p\<rparr>"
    "s\<lparr>s_parser := p, s_c2m_duplicate_frames := n\<rparr> = s\<lparr>s_c2m_duplicate_frames := n, s_parser := p\<rparr>"
    "s\<lparr>s_parser := p, s_data_c2m_frames := n\<rparr> = s\<lparr>s_data_c2m_frames := n, s_parser := p\<rparr>"
    "s\<lparr>s_parser := p, s_rx := rx\<rparr> = s\<lparr>s_rx := rx, s_parser := p\<rparr>"
    "s\<lparr>s_parser := p, s_rx_seq_expected := m\<rparr> = s\<lparr>s_rx_seq_expected := m, s_parser := p\<rparr>"
    "s\<lparr>s_parser := p, s_control_tx := tx\<rparr> = s\<lparr>s_control_tx := tx, s_parser := p\<rparr>"
  by simp_all

lemma queue_control_any_parser:
  "queue_control_frame (s\<lparr>s_parser := p\<rparr>) t seq ack pl =
     (fst (queue_control_frame s t seq ack pl), (snd (queue_control_frame s t seq ack pl))\<lparr>s_parser := p\<rparr>)"
  by (simp add: queue_control_frame_def queue_frame_def case_prod_unfold parser_update_last split: option.split)

lemma queue_ack_any_parser:
  "queue_ack_c2m (s\<lparr>s_parser := p\<rparr>) ack = (fst (queue_ack_c2m s ack), (snd (queue_ack_c2m s ack))\<lparr>s_parser := p\<rparr>)"
  by (simp add: queue_ack_c2m_def queue_control_any_parser rx_free_credit_def case_prod_unfold parser_update_last)

lemma queue_error_any_parser:
  "queue_error (s\<lparr>s_parser := p\<rparr>) c d = (fst (queue_error s c d), (snd (queue_error s c d))\<lparr>s_parser := p\<rparr>)"
  by (simp add: queue_error_def parser_update_last queue_control_any_parser)

lemma handle_data_c2m_any_parser:
  "handle_data_c2m (s\<lparr>s_parser := p\<rparr>) frame =
     (fst (handle_data_c2m s frame), (snd (handle_data_c2m s frame))\<lparr>s_parser := p\<rparr>)"
  by (simp add: handle_data_c2m_def Let_def case_prod_unfold parser_update_last queue_ack_any_parser queue_error_any_parser
      split: option.split)

abbreviation data_frame :: "mc_link_frame \<Rightarrow> bool" where "data_frame fr \<equiv> fr_type fr = MC_LINK_DATA_C2M"

lemma handle_frame_data_c2m: "data_frame fr \<Longrightarrow> handle_frame s fr = handle_data_c2m s fr"
  by (simp add: handle_frame_def)

text \<open>Every frame is handled without an error.\<close>

fun all_handled :: "mc_link_frame list \<Rightarrow> mc_link_session \<Rightarrow> bool" where
  "all_handled [] s \<longleftrightarrow> True"
| "all_handled (fr # frs) s \<longleftrightarrow> fst (handle_frame s fr) \<and> all_handled frs (snd (handle_frame s fr))"

lemma handle_frames_simps [simp]:
  "handle_frames [] s = s" "handle_frames (fr # frs) s = handle_frames frs (snd (handle_frame s fr))"
  by (simp_all add: handle_frames_def)

lemma all_handled_append: "all_handled (xs @ ys) s \<longleftrightarrow> all_handled xs s \<and> all_handled ys (handle_frames xs s)"
  by (induction xs arbitrary: s) simp_all

lemma handled_any_parser:
  "list_all data_frame frs \<Longrightarrow> all_handled frs (s\<lparr>s_parser := p\<rparr>) = all_handled frs s \<and>
     handle_frames frs (s\<lparr>s_parser := p\<rparr>) = (handle_frames frs s)\<lparr>s_parser := p\<rparr>"
  by (induction frs arbitrary: s) (simp_all add: handle_frame_data_c2m handle_data_c2m_any_parser)

lemma handle_frames_parser: "list_all data_frame frs \<Longrightarrow> s_parser (handle_frames frs s) = s_parser s"
  by (induction frs arbitrary: s) (simp_all add: handle_frame_data_c2m frame_rules)

section \<open>Receiving bytes\<close>

lemma receive_frames_gives:
  assumes "psr.gives (s_parser s) frs p'" "list_all data_frame (fr # frs)" "all_handled (fr # frs) s"
  shows "receive_frames s fr = Some (True, (handle_frames (fr # frs) s)\<lparr>s_parser := p'\<rparr>)"
  using assms
proof (induction frs arbitrary: s fr)
  case Nil
  then show ?case
    using handle_frames_parser [of "[fr]" s]
    by (subst receive_frames.simps) (cases "handle_frame s fr", simp)
next
  case (Cons f frs)
  obtain q where q: "mc_link_parser_feed (s_parser s) [] = Some (MC_LINK_PARSE_FRAME f, q)" "psr.gives q frs p'"
    using Cons.prems(1) by auto
  obtain s1 where s1: "handle_frame s fr = (True, s1)" "s_parser s1 = s_parser s"
    using Cons.prems(2,3) handle_frames_parser [of "[fr]" s] by (cases "handle_frame s fr") auto
  have "receive_frames (s1\<lparr>s_parser := q\<rparr>) f =
      Some (True, (handle_frames (f # frs) (s1\<lparr>s_parser := q\<rparr>))\<lparr>s_parser := p'\<rparr>)"
    using Cons.prems(2,3) q(2) s1 handled_any_parser [of "f # frs" q s1] by (intro Cons.IH) simp_all
  then show ?case
    using q(1) s1 handled_any_parser [of "f # frs" q s1] Cons.prems(2)
    by (subst receive_frames.simps) simp
qed

text \<open>Receiving a chunk handles the frames that the specification finds in it; a call that fails ends the list.\<close>

lemma receive_bytes_gives:
  assumes "parser_drained (s_parser s)" "length chunk \<le> MC_LINK_MAX_FRAME_LEN"
    and "fst (parse_bytes (parser_state (s_parser s)) chunk) = frs" "list_all data_frame frs" "all_handled frs s"
  obtains p' where "mc_link_session_receive_bytes s chunk = Some (True, (handle_frames frs s)\<lparr>s_parser := p'\<rparr>)"
    "parser_drained p'" "parser_state p' = snd (parse_bytes (parser_state (s_parser s)) chunk)"
proof -
  obtain p' where p': "parser_drained p'" "parser_state p' = snd (parse_bytes (parser_state (s_parser s)) chunk)"
    "case frs of [] \<Rightarrow> mc_link_parser_feed (s_parser s) chunk = Some (MC_LINK_PARSE_NEED_MORE, p')
     | fr # frs \<Rightarrow> \<exists>q. mc_link_parser_feed (s_parser s) chunk = Some (MC_LINK_PARSE_FRAME fr, q) \<and> psr.gives q frs p'"
    using psr.chunk_gives [OF assms(1,2)] assms(3) by auto
  have "mc_link_session_receive_bytes s chunk = Some (True, (handle_frames frs s)\<lparr>s_parser := p'\<rparr>)"
  proof (cases frs)
    case Nil
    with p'(3) show ?thesis by (simp add: mc_link_session_receive_bytes_def)
  next
    case (Cons fr rest)
    then obtain q where q: "mc_link_parser_feed (s_parser s) chunk = Some (MC_LINK_PARSE_FRAME fr, q)" "psr.gives q rest p'"
      using p'(3) by auto
    have "receive_frames (s\<lparr>s_parser := q\<rparr>) fr = Some (True, (handle_frames frs (s\<lparr>s_parser := q\<rparr>))\<lparr>s_parser := p'\<rparr>)"
      using receive_frames_gives [of "s\<lparr>s_parser := q\<rparr>" rest p' fr] q(2) assms(4,5) handled_any_parser [of frs q s] Cons by simp
    with q(1) handled_any_parser [OF assms(4), of q s] show ?thesis by (simp add: mc_link_session_receive_bytes_def)
  qed
  with p'(1,2) show ?thesis by (rule that [rotated])
qed

section \<open>Acknowledgements\<close>

lemma short_frame_length: "length pl \<le> 100 \<Longrightarrow> length (link_frame_bytes type seq ack pl) \<le> length pl + 13"
  using cobs_ref_length [of "link_body type seq ack pl"] by (simp add: link_frame_bytes_def)

text \<open>So an acknowledgement takes at most 15 bytes of the control queue.\<close>

lemma ack_frame_length: "length (link_frame_bytes MC_LINK_ACK_C2M 0 ack (put_u16_le v)) \<le> 15"
  using short_frame_length [of "put_u16_le v" MC_LINK_ACK_C2M 0 ack] by (simp add: put_u16_le_def)

definition ack_room :: "mc_link_session \<Rightarrow> nat \<Rightarrow> bool" where
  "ack_room s n \<longleftrightarrow> length (rb_contents (s_control_tx s)) + 15 * n \<le> MC_LINK_SESSION_TX_CAP"

lemma ack_room_mono: "ack_room s n \<Longrightarrow> m \<le> n \<Longrightarrow> ack_room s m"
  by (simp add: ack_room_def)

lemma queue_ack_c2m_room:
  assumes "session_ok s" "ack_room s (Suc n)"
  shows "fst (queue_ack_c2m s ack) \<and> ack_room (snd (queue_ack_c2m s ack)) n"
proof -
  let ?p = "put_u16_le (rx_free_credit s)"
  let ?f = "link_frame_bytes MC_LINK_ACK_C2M 0 ack ?p"
  have p: "length ?p \<le> MC_LINK_MAX_PAYLOAD" by (simp add: put_u16_le_def)
  have room: "\<not> rb_cap (s_control_tx s) < length (rb_contents (s_control_tx s)) + length ?f"
    using assms(2) ack_frame_length [of ack "rx_free_credit s"] session_okD(4) [OF assms(1)]
    by (simp add: ack_room_def del: length_rb_contents)
  note q = queue_frame_fits [OF p session_okD(2) [OF assms(1)], of s MC_LINK_ACK_C2M 0 ack]
  have w: "rb_contents (snd (mc_ringbuf_write (s_control_tx s) ?f)) = rb_contents (s_control_tx s) @ ?f"
    using rb.write_contents [OF session_okD(2) [OF assms(1)], of ?f] room by (simp del: length_rb_contents)
  show ?thesis
    using assms(2) ack_frame_length [of ack "rx_free_credit s"] room w
    by (simp add: queue_ack_c2m_def queue_control_frame_def q ack_room_def del: length_rb_contents)
qed

text \<open>A data frame that is taken, or a repetition of the last one, is answered with an acknowledgement.\<close>

lemma handle_data_handled:
  assumes "session_ok s" "ack_room s (Suc n)" "s_rx s = Some rx" "encodable_frame fr" "data_frame fr"
    "fr_seq fr + 1 = s_rx_seq_expected s \<or> c2m_accepts s rx fr"
  shows "fst (handle_frame s fr) \<and> ack_room (snd (handle_frame s fr)) n"
proof -
  let ?pl = "fr_payload fr"
  have rdy: "s_ready s" and rxok: "rb_ok rx" using session_okD [OF assms(1)] assms(3) by simp_all
  have len: "unat (fr_len fr) = length ?pl" using assms(4) by (simp add: encodable_frame_def unat_of_nat_id)
  obtain t ack where t: "handle_data_c2m s fr = queue_ack_c2m t ack" "session_ok t" "s_control_tx t = s_control_tx s"
  proof (cases "fr_seq fr + 1 = s_rx_seq_expected s")
    case True
    then have "fr_seq fr = s_rx_seq_expected s - 1" by (simp add: eq_diff_eq)
    with rdy show ?thesis
      by (intro that [of "s\<lparr>s_c2m_duplicate_frames := s_c2m_duplicate_frames s + 1\<rparr>" "s_rx_seq_expected s"])
        (simp_all add: handle_data_c2m_def keeps_tx_ok [OF keeps_tx_counters(3)] assms(1))
  next
    case False
    then have acc: "fr_seq fr = s_rx_seq_expected s" "?pl \<noteq> []" "length ?pl \<le> unat (s_negotiated_payload s)"
      "length (rb_contents rx) + length ?pl \<le> rb_cap rx"
      using assms(6) by (simp_all add: c2m_accepts_def)
    let ?w = "s\<lparr>s_rx := Some (snd (mc_ringbuf_write rx ?pl))\<rparr>"
    have b: "length (rb_contents rx) \<le> rb_cap rx" by (rule rb.bounded [OF rxok])
    have free: "\<not> mc_ringbuf_free rx < length ?pl" using b acc(4) by (auto simp: rb_free_eq simp del: length_rb_contents)
    have "fr_len fr \<noteq> 0" using len acc(2) by (metis length_0_conv unat_0)
    moreover have "\<not> s_negotiated_payload s < fr_len fr" using len acc(3) by (simp add: word_less_nat_alt)
    moreover have "fst (mc_ringbuf_write rx ?pl) = length ?pl"
      using rb.write_count [OF rxok, of ?pl] acc(4) b by (simp del: length_rb_contents)
    moreover have "session_ok ?w"
      by (rule keeps_tx_ok [OF keeps_tx_counters(7) [OF assms(1) rb.write_invar [OF rxok]]])
    ultimately show ?thesis
      using rdy free len acc(1) assms(3)
      by (intro that [of "?w\<lparr>s_rx_seq_expected := s_rx_seq_expected s + 1, s_data_c2m_frames := s_data_c2m_frames s + 1\<rparr>"
            "s_rx_seq_expected s + 1"])
        (simp_all add: handle_data_c2m_def Let_def case_prod_unfold keeps_tx_ok [OF keeps_tx_counters(5)])
  qed
  with queue_ack_c2m_room [of t n ack] assms(2,5) show ?thesis by (simp add: handle_frame_data_c2m ack_room_def)
qed

section \<open>Frames in order\<close>

text \<open>
  What a receiver that expects the number \<open>seq\<close> makes of data frames: each frame is the next one or a repetition of the
  one before. The result is the number expected then, and the payloads taken.
\<close>

fun in_order :: "u16 \<Rightarrow> mc_link_frame list \<Rightarrow> (u16 \<times> byte list list) option" where
  "in_order seq [] = Some (seq, [])"
| "in_order seq (fr # frs) =
     (if fr_seq fr = seq then map_option (apsnd ((#) (fr_payload fr))) (in_order (seq + 1) frs)
      else if fr_seq fr + 1 = seq then in_order seq frs
      else None)"

lemma in_order_append:
  "in_order seq (xs @ ys) = (case in_order seq xs of None \<Rightarrow> None | Some (q, ms) \<Rightarrow> map_option (apsnd ((@) ms)) (in_order q ys))"
proof (induction xs arbitrary: seq)
  case Nil
  then show ?case by (cases "in_order seq ys") auto
next
  case (Cons fr frs)
  have c: "map_option (apsnd f) (map_option (apsnd g) x) = map_option (apsnd (f \<circ> g)) x" for f g and x :: "(u16 \<times> byte list list) option"
    by (cases x) auto
  have a: "(@) (x # b) = (\<lambda>zs. x # b @ zs)" for x :: "byte list" and b by auto
  show ?case using Cons by (auto simp: c a o_def split: option.split)
qed

lemma in_order_repeat:
  "in_order (seq + 1) (replicate k (link_frame t seq a m) @ frs) = in_order (seq + 1) frs"
  by (induction k) (simp_all add: link_frame_def)

text \<open>The frames of a sender are in order.\<close>

lemma in_order_sender:
  "in_order seq (sender_frames seq messages) = Some (seq + of_nat (length messages), map snd messages)"
proof (induction seq messages rule: sender_frames.induct)
  case (2 seq resent m messages)
  then show ?case
    using in_order_repeat [of seq resent MC_LINK_DATA_C2M 0 m "sender_frames (seq + 1) messages"] by (simp add: link_frame_def)
qed simp

text \<open>Data frames that the codec can carry and that keep to the payload the session has announced.\<close>

definition data_fits :: "u16 \<Rightarrow> mc_link_frame \<Rightarrow> bool" where
  "data_fits payload fr \<longleftrightarrow> encodable_frame fr \<and> data_frame fr \<and> fr_payload fr \<noteq> [] \<and> length (fr_payload fr) \<le> unat payload"

lemma sender_frames_fit:
  assumes "\<forall>(k, m) \<in> set messages. m \<noteq> [] \<and> length m \<le> unat payload" "unat payload \<le> MC_LINK_MAX_PAYLOAD"
  shows "list_all (data_fits payload) (sender_frames seq messages)"
  using assms(1)
proof (induction seq messages rule: sender_frames.induct)
  case (2 seq resent m messages)
  then have "data_fits payload (link_frame MC_LINK_DATA_C2M seq 0 m)"
    using assms(2) by (simp add: data_fits_def encodable_frame_def link_frame_def)
  with 2 show ?case by (auto simp: list_all_iff)
qed simp

text \<open>With room for their payloads and their acknowledgements such frames are all handled without an error.\<close>

lemma handled_in_order:
  assumes "session_ok s" "s_rx s = Some rx" "list_all (data_fits (s_negotiated_payload s)) frs"
    "in_order (s_rx_seq_expected s) frs = Some (q, ms)"
    "length (rb_contents rx) + length (concat (map fr_payload frs)) \<le> rb_cap rx" "ack_room s (length frs)"
    and t: "t = handle_frames frs s"
  shows "all_handled frs s \<and> session_ok t \<and> s_rx_seq_expected t = q \<and> s_negotiated_payload t = s_negotiated_payload s \<and>
    (\<exists>rx'. s_rx t = Some rx' \<and> rb_contents rx' = rb_contents rx @ concat ms)"
  using assms(1-6) unfolding t
proof (induction frs arbitrary: s rx ms)
  case (Cons fr frs)
  let ?s = "snd (handle_frame s fr)"
  have fr: "encodable_frame fr" "data_frame fr" "fr_payload fr \<noteq> []" "length (fr_payload fr) \<le> unat (s_negotiated_payload s)"
    using Cons.prems(3) by (simp_all add: data_fits_def)
  have ok: "session_ok ?s" by (rule keeps_tx_ok [OF handle_frame_keeps [OF Cons.prems(1)]])
  obtain rx1 where rx1: "s_rx ?s = Some rx1" "rb_cap rx1 = rb_cap rx"
    "rb_contents rx1 = rb_contents rx @ (if c2m_accepts s rx fr then fr_payload fr else [])"
    "s_rx_seq_expected ?s = s_rx_seq_expected s + (if c2m_accepts s rx fr then 1 else 0)"
    "s_negotiated_payload ?s = s_negotiated_payload s"
    using handle_data_c2m_result [OF Cons.prems(1,2) fr(1)] fr(2) by (auto simp: handle_frame_data_c2m)
  have room: "length (rb_contents rx1) + length (concat (map fr_payload frs)) \<le> rb_cap rx1"
    using Cons.prems(5) rx1(2,3) by (simp del: length_rb_contents)
  have fit: "list_all (data_fits (s_negotiated_payload ?s)) frs" using Cons.prems(3) rx1(5) by simp
  have acc: "c2m_accepts s rx fr \<longleftrightarrow> fr_seq fr = s_rx_seq_expected s"
    using fr Cons.prems(5) by (auto simp: c2m_accepts_def simp del: length_rb_contents)
  have h: "fst (handle_frame s fr) \<and> ack_room ?s (length frs)" if "fr_seq fr + 1 = s_rx_seq_expected s \<or> c2m_accepts s rx fr"
    using handle_data_handled [OF Cons.prems(1) _ Cons.prems(2) fr(1,2) that] Cons.prems(6) by simp
  show ?case
  proof (cases "fr_seq fr = s_rx_seq_expected s")
    case True
    then obtain ms' where ms: "ms = fr_payload fr # ms'" "in_order (s_rx_seq_expected ?s) frs = Some (q, ms')"
      using Cons.prems(4) acc rx1(4) by auto
    from Cons.IH [OF ok rx1(1) fit ms(2) room] h acc True show ?thesis using rx1(3,5) ms(1) by auto
  next
    case False
    then have ms: "fr_seq fr + 1 = s_rx_seq_expected s" "in_order (s_rx_seq_expected ?s) frs = Some (q, ms)"
      using Cons.prems(4) acc rx1(4) by (auto split: if_splits)
    from Cons.IH [OF ok rx1(1) fit ms(2) room] h ms(1) acc False show ?thesis using rx1(3,5) by auto
  qed
qed simp

section \<open>The life of the line\<close>

text \<open>
  What happens at the two ends of a session while bytes arrive: the UART hands a chunk over, the server takes bytes of
  the receive ring, which is answered with credit, output of the server is queued, and the UART fetches queued bytes.
\<close>

datatype line_event =
    Line_bytes "byte list"
  | Line_consume nat
  | Line_output mc_ringbuf
  | Line_fetch nat

text \<open>A run ends with \<open>None\<close> when a call reports an error. The result is what the server has taken, and the session.\<close>

fun line_run :: "line_event list \<Rightarrow> mc_link_session \<Rightarrow> (byte list \<times> mc_link_session) option" where
  "line_run [] s = Some ([], s)"
| "line_run (Line_bytes chunk # es) s =
     (case mc_link_session_receive_bytes s chunk of
        Some (True, s') \<Rightarrow> line_run es s'
      | _ \<Rightarrow> None)"
| "line_run (Line_consume n # es) s =
     (case s_rx s of
        None \<Rightarrow> line_run es s
      | Some rx \<Rightarrow>
          (case mc_ringbuf_read rx n of
             (bs, rx') \<Rightarrow>
               map_option (apfst ((@) bs)) (line_run es (mc_link_session_credit_consumed (s\<lparr>s_rx := Some rx'\<rparr>) (length bs)))))"
| "line_run (Line_output server_tx # es) s = line_run es (fst (snd (mc_link_session_queue_server_tx s server_tx)))"
| "line_run (Line_fetch n # es) s = line_run es (snd (mc_link_session_read_tx s n))"

fun line_bytes :: "line_event list \<Rightarrow> byte list" where
  "line_bytes [] = []"
| "line_bytes (Line_bytes chunk # es) = chunk @ line_bytes es"
| "line_bytes (_ # es) = line_bytes es"

text \<open>
  The room a chunk needs when it arrives: for the payloads of the frames that it completes in the receive ring, and for
  15 bytes in the control queue for each of them, what an acknowledgement takes at most.
\<close>

definition chunk_room :: "mc_link_session \<Rightarrow> byte list \<Rightarrow> bool" where
  "chunk_room s chunk \<longleftrightarrow>
     (let frames = fst (parse_bytes (parser_state (s_parser s)) chunk) in
      length chunk \<le> MC_LINK_MAX_FRAME_LEN \<and>
      (case s_rx s of
         None \<Rightarrow> False
       | Some rx \<Rightarrow> length (rb_contents rx) + length (concat (map fr_payload frames)) \<le> rb_cap rx) \<and>
      length (rb_contents (s_control_tx s)) + 15 * length frames \<le> MC_LINK_SESSION_TX_CAP)"

text \<open>Every chunk finds its room.\<close>

fun line_room :: "line_event list \<Rightarrow> mc_link_session \<Rightarrow> bool" where
  "line_room [] s \<longleftrightarrow> True"
| "line_room (Line_bytes chunk # es) s \<longleftrightarrow>
     chunk_room s chunk \<and>
     (case mc_link_session_receive_bytes s chunk of Some (True, s') \<Rightarrow> line_room es s' | _ \<Rightarrow> True)"
| "line_room (Line_consume n # es) s \<longleftrightarrow>
     (case s_rx s of
        None \<Rightarrow> line_room es s
      | Some rx \<Rightarrow>
          (case mc_ringbuf_read rx n of
             (bs, rx') \<Rightarrow> line_room es (mc_link_session_credit_consumed (s\<lparr>s_rx := Some rx'\<rparr>) (length bs))))"
| "line_room (Line_output server_tx # es) s \<longleftrightarrow> line_room es (fst (snd (mc_link_session_queue_server_tx s server_tx)))"
| "line_room (Line_fetch n # es) s \<longleftrightarrow> line_room es (snd (mc_link_session_read_tx s n))"

text \<open>The part of a session that receiving works on, which the other calls leave alone.\<close>

definition rx_view :: "mc_link_session \<Rightarrow> mc_link_parser \<times> mc_ringbuf option \<times> u16 \<times> u16" where
  "rx_view s = (s_parser s, s_rx s, s_rx_seq_expected s, s_negotiated_payload s)"

lemma rx_view_queue [simp]: "rx_view (snd (queue_control_frame s t seq ack pl)) = rx_view s"
  by (simp add: rx_view_def queue_control_frame_def queue_frame_def case_prod_unfold split: option.split)

lemma rx_view_credit: "rx_view (mc_link_session_credit_consumed s n) = rx_view s"
proof -
  have "rx_view (s'\<lparr>s_c2m_ack_frames := k\<rparr>) = rx_view s'" for s' k by (simp add: rx_view_def)
  then show ?thesis by (simp add: mc_link_session_credit_consumed_def queue_ack_c2m_def case_prod_unfold)
qed

lemma rx_view_output: "rx_view (fst (snd (mc_link_session_queue_server_tx s tx))) = rx_view s"
proof -
  have q: "rx_view (snd (queue_data_frame s t seq ack pl)) = rx_view s" for t seq ack pl
    by (simp add: rx_view_def queue_data_frame_def queue_frame_def case_prod_unfold split: option.split)
  have u: "rx_view (s'\<lparr>s_tx_seq_next := a, s_data_m2c_frames := b\<rparr>) = rx_view s'" for s' a b by (simp add: rx_view_def)
  show ?thesis by (auto simp: mc_link_session_queue_server_tx_def Let_def q u split: option.split prod.split)
      (metis q snd_conv)+
qed

lemma rx_view_select: "select_active_tx s = Some t \<Longrightarrow> rx_view t = rx_view s"
  by (auto simp: select_active_tx_def rx_view_def split: if_splits option.splits)

lemma rx_view_fetch: "rx_view (snd (mc_link_session_read_tx s n)) = rx_view s"
proof (cases "select_active_tx s")
  case (Some t)
  have "rx_view (snd (mc_link_session_read_tx s n)) = rx_view t \<or> rx_view (snd (mc_link_session_read_tx s n)) = rx_view s"
    by (simp add: mc_link_session_read_tx_def Some read_active_tx_def clear_active_tx_def Let_def case_prod_unfold rx_view_def)
  with rx_view_select [OF Some] show ?thesis by auto
qed (simp add: mc_link_session_read_tx_def)

text \<open>What receives, seen from the frames still to come.\<close>

definition receiving :: "mc_link_session \<Rightarrow> byte list \<Rightarrow> mc_ringbuf \<Rightarrow> mc_link_frame list \<Rightarrow> parse_state \<Rightarrow> u16 \<Rightarrow> byte list list \<Rightarrow> bool" where
  "receiving s rest rx frames st q ms \<longleftrightarrow>
     session_ok s \<and> s_rx s = Some rx \<and> parser_drained (s_parser s) \<and>
     parse_bytes (parser_state (s_parser s)) rest = (frames, st) \<and>
     list_all (data_fits (s_negotiated_payload s)) frames \<and> in_order (s_rx_seq_expected s) frames = Some (q, ms)"

lemma receiving_view:
  "receiving s rest rx frames st q ms \<Longrightarrow> session_ok s' \<Longrightarrow> rx_view s' = rx_view s \<Longrightarrow> receiving s' rest rx frames st q ms"
  by (simp add: receiving_def rx_view_def)

text \<open>A chunk that finds its room is received.\<close>

lemma receiving_chunk:
  assumes "receiving s (chunk @ rest) rx frames st q ms" "chunk_room s chunk"
  obtains s' rx' frames' ms1 ms2 where "mc_link_session_receive_bytes s chunk = Some (True, s')"
    "receiving s' rest rx' frames' st q ms2" "ms = ms1 @ ms2" "rb_contents rx' = rb_contents rx @ concat ms1"
proof -
  let ?st = "parser_state (s_parser s)"
  let ?f1 = "fst (parse_bytes ?st chunk)" and ?st1 = "snd (parse_bytes ?st chunk)"
  let ?f2 = "fst (parse_bytes ?st1 rest)"
  have r: "session_ok s" "s_rx s = Some rx" "parser_drained (s_parser s)" "frames = ?f1 @ ?f2" "snd (parse_bytes ?st1 rest) = st"
    "list_all (data_fits (s_negotiated_payload s)) ?f1" "list_all (data_fits (s_negotiated_payload s)) ?f2"
    using assms(1) by (auto simp: receiving_def parse_bytes_append)
  obtain q1 ms1 ms2 where io: "in_order (s_rx_seq_expected s) ?f1 = Some (q1, ms1)" "in_order q1 ?f2 = Some (q, ms2)" "ms = ms1 @ ms2"
    using assms(1) r(4) by (auto simp: receiving_def in_order_append split: option.splits)
  have room: "length chunk \<le> MC_LINK_MAX_FRAME_LEN" "length (rb_contents rx) + length (concat (map fr_payload ?f1)) \<le> rb_cap rx"
    "ack_room s (length ?f1)"
    using assms(2) r(2) by (simp_all add: chunk_room_def ack_room_def Let_def del: length_rb_contents)
  have data: "list_all data_frame ?f1" using r(6) by (auto simp: list_all_iff data_fits_def)
  define t where "t = handle_frames ?f1 s"
  from handled_in_order [OF r(1,2,6) io(1) room(2,3) t_def] obtain rx' where
    t: "all_handled ?f1 s" "session_ok t" "s_rx_seq_expected t = q1" "s_negotiated_payload t = s_negotiated_payload s"
      "s_rx t = Some rx'" "rb_contents rx' = rb_contents rx @ concat ms1" by auto
  obtain p' where p': "mc_link_session_receive_bytes s chunk = Some (True, t\<lparr>s_parser := p'\<rparr>)" "parser_drained p'" "parser_state p' = ?st1"
    using receive_bytes_gives [OF r(3) room(1) HOL.refl data t(1)] unfolding t_def by auto
  have "session_ok (t\<lparr>s_parser := p'\<rparr>)"
    using receive_bytes_keeps [OF r(1), of chunk] p'(1) by (auto simp: keeps_tx_def)
  then have "receiving (t\<lparr>s_parser := p'\<rparr>) rest rx' ?f2 st q ms2"
    using t p'(2,3) r(5,7) io(2) by (simp add: receiving_def) (metis prod.collapse)
  from that [OF p'(1) this io(3) t(6)] show ?thesis .
qed

lemma line_run_receives:
  assumes "receiving s (line_bytes es) rx frames st q ms" "line_room es s"
  shows "\<exists>taken s' rx'. line_run es s = Some (taken, s') \<and> s_rx s' = Some rx' \<and>
    taken @ rb_contents rx' = rb_contents rx @ concat ms \<and> parser_drained (s_parser s') \<and> parser_state (s_parser s') = st"
  using assms
proof (induction es arbitrary: s rx frames ms)
  case Nil
  then show ?case by (auto simp: receiving_def)
next
  case (Cons e es)
  have ok: "session_ok s" "s_rx s = Some rx" using Cons.prems(1) by (simp_all add: receiving_def)
  show ?case
  proof (cases e)
    case (Line_bytes chunk)
    have "receiving s (chunk @ line_bytes es) rx frames st q ms" "chunk_room s chunk" using Cons.prems Line_bytes by simp_all
    then obtain s' rx' frames' ms1 ms2 where c: "mc_link_session_receive_bytes s chunk = Some (True, s')"
      "receiving s' (line_bytes es) rx' frames' st q ms2" "ms = ms1 @ ms2" "rb_contents rx' = rb_contents rx @ concat ms1"
      by (rule receiving_chunk)
    then show ?thesis using Cons.IH [OF c(2)] Cons.prems(2) Line_bytes by auto
  next
    case (Line_consume n)
    obtain bs rx1 where rd: "mc_ringbuf_read rx n = (bs, rx1)" by fastforce
    have rxok: "rb_ok rx" using session_okD(7) [OF ok(1)] ok(2) by simp
    have c: "rb_ok rx1" "bs @ rb_contents rx1 = rb_contents rx"
      using rb.read_invar [OF rxok, of n] rb.read_contents [OF rxok, of n] rb.read_remaining [OF rxok, of n] rd by simp_all
    let ?t = "s\<lparr>s_rx := Some rx1\<rparr>" and ?s = "mc_link_session_credit_consumed (s\<lparr>s_rx := Some rx1\<rparr>) (length bs)"
    have "session_ok ?t" using session_step_ok [OF session_step.server [OF ok(2) c(1)] ok(1)] by simp
    then have "session_ok ?s" using session_step_ok [OF session_step.credit] by blast
    moreover have "receiving ?t (line_bytes es) rx1 frames st q ms"
      using Cons.prems(1) \<open>session_ok ?t\<close> Line_consume by (simp add: receiving_def)
    ultimately have "receiving ?s (line_bytes es) rx1 frames st q ms" using receiving_view rx_view_credit by blast
    from Cons.IH [OF this] Cons.prems(2) Line_consume rd ok(2) obtain taken s' rx' where
      "line_run es ?s = Some (taken, s')" "s_rx s' = Some rx'" "taken @ rb_contents rx' = rb_contents rx1 @ concat ms"
      "parser_drained (s_parser s')" "parser_state (s_parser s') = st" by auto
    then show ?thesis using Line_consume rd ok(2) c(2) by auto
  next
    case (Line_output tx)
    have "session_ok (fst (snd (mc_link_session_queue_server_tx s tx)))" using session_step_ok [OF session_step.queue_server_tx] ok(1) by blast
    then show ?thesis using Cons.IH [OF receiving_view [OF _ _ rx_view_output]] Cons.prems Line_output by simp
  next
    case (Line_fetch n)
    have "session_ok (snd (mc_link_session_read_tx s n))" using session_step_ok [OF session_step.read_tx [OF prod.collapse [symmetric]]] ok(1) by blast
    then show ?thesis using Cons.IH [OF receiving_view [OF _ _ rx_view_fetch]] Cons.prems Line_fetch by simp
  qed
qed

section \<open>Properties\<close>

text \<open>C16: the serial line delivers: when the sender transmits each message one or more times under its sequence
  number, and the line hands the bytes over in any pieces, between which the server takes any part of what is there,
  output is queued and the UART fetches what it likes, no call reports an error, what the server has taken and what
  is left in the receive ring are exactly the messages, in order, behind what was there before, and the parser is
  again between two frames. Two conditions are stated: the sender keeps to the negotiated payload, and each piece, of
  up to 512 bytes, finds room, in the receive ring for the payloads of the frames it completes, repetitions
  included, and in the control queue for an acknowledgement of up to 15 bytes for each of these frames.\<close>

theorem serial_bytes_delivered:
  assumes reach: "session_reaches sent s" and rx: "s_rx s = Some rx"
    and start: "parser_drained (s_parser s)" "parser_state (s_parser s) = ([], False)"
    and size: "\<forall>(resent, m) \<in> set messages. m \<noteq> [] \<and> length m \<le> unat (s_negotiated_payload s)"
    and line: "line_bytes es = concat (map frame_bytes (sender_frames (s_rx_seq_expected s) messages))"
    and room: "line_room es s"
  shows "\<exists>taken s' rx'. line_run es s = Some (taken, s') \<and> s_rx s' = Some rx' \<and>
    taken @ rb_contents rx' = rb_contents rx @ concat (map snd messages) \<and>
    parser_drained (s_parser s') \<and> parser_state (s_parser s') = ([], False)"
proof -
  let ?frs = "sender_frames (s_rx_seq_expected s) messages"
  have ok: "session_ok s" using session_reaches_ok [OF reach] by simp
  then have "unat (s_negotiated_payload s) \<le> MC_LINK_MAX_PAYLOAD"
    by (simp add: session_ok_def capabilities_ok_def word_le_nat_alt)
  note fit = sender_frames_fit [OF size this, of "s_rx_seq_expected s"]
  then have "list_all encodable_frame ?frs" by (auto simp: list_all_iff data_fits_def)
  then have "parse_bytes (parser_state (s_parser s)) (line_bytes es) = (?frs, ([], False))"
    using parse_bytes_frames [of ?frs "[]"] by (simp add: start(2) line)
  then have "receiving s (line_bytes es) rx ?frs ([], False) (s_rx_seq_expected s + of_nat (length messages)) (map snd messages)"
    using ok rx start(1) fit by (simp add: receiving_def in_order_sender)
  from line_run_receives [OF this room] show ?thesis .
qed

theorem serial_bytes_delivered_witness:
  "let line = concat (map frame_bytes (sender_frames 0 [(1, [7, 8]), (0, [9])]))
   in \<exists>taken s' rx'. line_run [Line_fetch 3, Line_bytes line, Line_consume 2, Line_fetch 3]
        (mc_link_session_init (Some (mc_ringbuf_init [0, 0, 0, 0, 0] 5))) = Some (taken, s') \<and>
        s_rx s' = Some rx' \<and> taken @ rb_contents rx' = [7, 8, 9]"
proof -
  let ?rx = "mc_ringbuf_init [0, 0, 0, 0, 0] 5" and ?messages = "[(1, [7, 8]), (0, [9])] :: (nat \<times> byte list) list"
  let ?s = "mc_link_session_init (Some ?rx)" and ?frs = "sender_frames 0 [(1, [7, 8]), (0, [9])]"
  define line where "line = concat (map frame_bytes ?frs)"
  let ?es = "[Line_fetch 3, Line_bytes line, Line_consume 2, Line_fetch 3]"
  have r: "session_reaches [] ?s"
    by (rule session_reaches.start) (simp add: rb_init_ok)
  have f: "s_rx ?s = Some ?rx" "s_negotiated_payload ?s = 497" "s_rx_seq_expected ?s = 0" "rb_contents (s_control_tx ?s) = []"
    "parser_drained (s_parser ?s)" "parser_state (s_parser ?s) = ([], False)" "rb_contents (s_tx ?s) = []" "s_active_tx_queue ?s = 0"
    by (simp_all add: mc_link_session_init_def reset_capabilities_def fifo_simps parser_init_drained parser_init_state)
  have rx: "rb_contents ?rx = []" "rb_cap ?rx = 5" by (simp_all add: fifo_simps)
  have size: "\<forall>(resent, m) \<in> set ?messages. m \<noteq> [] \<and> length m \<le> unat (s_negotiated_payload ?s)"
    by (simp add: f(2))
  have idle: "mc_link_session_read_tx ?s 3 = ([], ?s)"
    by (simp add: mc_link_session_read_tx_def select_active_tx_def next_frame_len f(4,7,8))
  have "list_all encodable_frame ?frs" by (simp add: encodable_frame_def link_frame_def)
  from parse_bytes_frames [OF this, of "[]"] have p: "parse_bytes (parser_state (s_parser ?s)) line = (?frs, ([], False))"
    by (simp add: line_def f(6))
  have "length line \<le> MC_LINK_MAX_FRAME_LEN"
    using short_frame_length [of "[7, 8]" MC_LINK_DATA_C2M 0 0] short_frame_length [of "[9]" MC_LINK_DATA_C2M 1 0]
    by (simp add: line_def)
  then have "chunk_room ?s line" unfolding chunk_room_def Let_def p f(1,4) option.case rx by (simp add: link_frame_def)
  then have room: "line_room ?es ?s" by (simp add: idle split: option.split prod.split bool.split)
  have whole: "line_bytes ?es = concat (map frame_bytes (sender_frames (s_rx_seq_expected ?s) ?messages))"
    by (simp only: f(3) line_def [symmetric]) simp
  from serial_bytes_delivered [OF r f(1,5,6) size whole room] show ?thesis
    unfolding rx line_def [symmetric] Let_def by (auto simp del: line_run.simps)
qed

end
