(* ===== verification/Platform.thy ===== *)
theory Platform
  imports Prelude
begin

text \<open>
  The platform layer of the firmware: the build options of firmware/mc_firmware_config.h, the two
  UARTs, the log output and the tick counter of firmware/platform_ecos.c, platform_ecos.h and
  platform_uart0.c. The hardware is a bus of volatile registers: what each read of a register returns
  is given from outside, and every write is recorded in order.
\<close>

section \<open>Build options\<close>

abbreviation (input) MC_LOG_INFO :: nat where "MC_LOG_INFO \<equiv> 1"
abbreviation (input) MC_LOG_DEBUG :: nat where "MC_LOG_DEBUG \<equiv> 2"
abbreviation (input) MC_LOG_TRACE :: nat where "MC_LOG_TRACE \<equiv> 3"

text \<open>
  The macros a build may set. \<open>fc_cpu_freq_mhz\<close> is \<open>CONFIG_CPU_FREQ_MHZ\<close> of the generated
  configuration and \<open>MC_FIRMWARE_CPU_FREQ_MHZ\<close>, which is defined as it.
\<close>

record firmware_config =
  fc_cpu_freq_mhz :: nat
  fc_uart0_baud :: nat
  fc_uart1_baud :: nat
  fc_bridge_uart_id :: nat
  fc_log_uart_id :: nat
  fc_log_level :: nat
  fc_uart0_tx_pace_loops :: nat
  fc_uart0_write_burst_bytes :: nat
  fc_link_tx_max_bytes_per_loop :: nat
  fc_link_tx_pending_bytes :: nat
  fc_trace_link_uart_rx_data :: bool
  fc_log_link_uart_io :: bool
  fc_uart_activity_led_enable :: bool
  fc_psram_enable :: bool
  fc_psram_flow_test :: bool
  fc_psram_flow_test_bytes :: nat

text \<open>The values used when a build sets nothing but the aggressive-transmission switch.\<close>

definition default_firmware_config :: "nat \<Rightarrow> bool \<Rightarrow> firmware_config" where
  "default_firmware_config cpu_freq_mhz m2c_aggressive_tx =
     \<lparr>fc_cpu_freq_mhz = cpu_freq_mhz, fc_uart0_baud = 115200, fc_uart1_baud = 115200,
      fc_bridge_uart_id = 0, fc_log_uart_id = 1, fc_log_level = MC_LOG_INFO,
      fc_uart0_tx_pace_loops =
        (if m2c_aggressive_tx then 384 else cpu_freq_mhz * 1000000 * 10 div 115200 div 8),
      fc_uart0_write_burst_bytes = 128, fc_link_tx_max_bytes_per_loop = 512,
      fc_link_tx_pending_bytes = 512, fc_trace_link_uart_rx_data = False, fc_log_link_uart_io = False,
      fc_uart_activity_led_enable = True, fc_psram_enable = False, fc_psram_flow_test = False,
      fc_psram_flow_test_bytes = 65536\<rparr>"

text \<open>The conditions whose violation stops the compilation with \<open>#error\<close>.\<close>

definition firmware_config_ok :: "firmware_config \<Rightarrow> bool" where
  "firmware_config_ok fc \<longleftrightarrow>
     0 < fc_uart0_baud fc \<and> 0 < fc_uart1_baud fc \<and> 0 < fc_uart0_write_burst_bytes fc \<and>
     0 < fc_link_tx_max_bytes_per_loop fc \<and>
     fc_uart0_tx_pace_loops fc \<le> fc_cpu_freq_mhz fc * 1000000 \<and>
     0 < fc_link_tx_pending_bytes fc \<and>
     0 < fc_psram_flow_test_bytes fc \<and> fc_psram_flow_test_bytes fc mod 4 = 0 \<and>
     (fc_bridge_uart_id fc = 0 \<or> fc_bridge_uart_id fc = 1) \<and>
     (fc_log_uart_id fc = 0 \<or> fc_log_uart_id fc = 1) \<and>
     fc_bridge_uart_id fc \<noteq> fc_log_uart_id fc \<and>
     fc_log_level fc \<le> MC_LOG_TRACE"

section \<open>Registers\<close>

datatype reg =
    REG_UART_0_CLKDIV | REG_UART_0_DATA
  | REG_UART_1_LCR | REG_UART_1_DIV | REG_UART_1_FCR | REG_UART_1_LSR | REG_UART_1_TRX
  | REG_QSPI_0_STATUS | REG_QSPI_0_INTCFG | REG_QSPI_0_DUM | REG_QSPI_0_CLKDIV | REG_QSPI_0_LEN
  | REG_QSPI_0_TXFIFO
  | REG_PSRAM_0_WC | REG_PSRAM_0_CHD

text \<open>\<open>bus_values b r k\<close> is what the \<open>k\<close>-th read of register \<open>r\<close> returns.\<close>

record bus =
  bus_values :: "reg \<Rightarrow> nat \<Rightarrow> u32"
  bus_reads :: "reg \<Rightarrow> nat"
  bus_writes :: "(reg \<times> u32) list"

definition reg_read :: "reg \<Rightarrow> bus \<Rightarrow> u32 \<times> bus" where
  "reg_read r b = (bus_values b r (bus_reads b r), b\<lparr>bus_reads := (bus_reads b)(r := bus_reads b r + 1)\<rparr>)"

definition reg_write :: "reg \<Rightarrow> u32 \<Rightarrow> bus \<Rightarrow> bus" where
  "reg_write r v b = b\<lparr>bus_writes := bus_writes b @ [(r, v)]\<rparr>"

section \<open>The UARTs\<close>

abbreviation UART1_TX_BUSY :: u32 where "UART1_TX_BUSY \<equiv> 0x100"
abbreviation UART1_RX_EMPTY :: u32 where "UART1_RX_EMPTY \<equiv> 0x080"
abbreviation PLATFORM_LOG_ZERO_PROGRESS_LIMIT :: u32 where "PLATFORM_LOG_ZERO_PROGRESS_LIMIT \<equiv> 1024"

text \<open>The received byte, or nothing when a bit above the low eight is set.\<close>

definition platform_uart0_decode_rx :: "u32 \<Rightarrow> byte option" where
  "platform_uart0_decode_rx raw = (if raw AND NOT 0xff \<noteq> 0 then None else Some (ucast raw))"

definition uart0_init :: "firmware_config \<Rightarrow> bus \<Rightarrow> bus" where
  "uart0_init fc = reg_write REG_UART_0_CLKDIV (of_nat (fc_cpu_freq_mhz fc * 1000000) div of_nat (fc_uart0_baud fc))"

fun uart0_read :: "nat \<Rightarrow> bus \<Rightarrow> byte list \<times> bus" where
  "uart0_read 0 b = ([], b)"
| "uart0_read (Suc max_len) b =
     (case reg_read REG_UART_0_DATA b of (raw, b) \<Rightarrow>
        case platform_uart0_decode_rx raw of
          None \<Rightarrow> ([], b)
        | Some byte \<Rightarrow> (case uart0_read max_len b of (rest, b) \<Rightarrow> (byte # rest, b)))"

text \<open>The busy loop of \<open>uart0_tx_pace\<close> between two writes has no effect but time.\<close>

definition uart0_write :: "firmware_config \<Rightarrow> byte list \<Rightarrow> bus \<Rightarrow> nat \<times> bus" where
  "uart0_write fc src b =
     (let limit = min (length src) (fc_uart0_write_burst_bytes fc)
      in (limit, fold (\<lambda>x. reg_write REG_UART_0_DATA (ucast x)) (take limit src) b))"

definition uart1_init :: "firmware_config \<Rightarrow> bus \<Rightarrow> bus" where
  "uart1_init fc b =
     reg_write REG_UART_1_LCR 0x1F (reg_write REG_UART_1_FCR 0x0C (reg_write REG_UART_1_FCR 0x0F
       (reg_write REG_UART_1_DIV (of_nat (fc_cpu_freq_mhz fc * 1000000) div of_nat (fc_uart1_baud fc) - 1)
         (reg_write REG_UART_1_LCR 0x00 b))))"

fun uart1_read :: "nat \<Rightarrow> bus \<Rightarrow> byte list \<times> bus" where
  "uart1_read 0 b = ([], b)"
| "uart1_read (Suc max_len) b =
     (case reg_read REG_UART_1_LSR b of (lsr, b) \<Rightarrow>
        if lsr AND UART1_RX_EMPTY = 0
        then case reg_read REG_UART_1_TRX b of (trx, b) \<Rightarrow>
          (case uart1_read max_len b of (rest, b) \<Rightarrow> (ucast trx # rest, b))
        else ([], b))"

fun uart1_write :: "byte list \<Rightarrow> bus \<Rightarrow> nat \<times> bus" where
  "uart1_write [] b = (0, b)"
| "uart1_write (x # src) b =
     (case reg_read REG_UART_1_LSR b of (lsr, b) \<Rightarrow>
        if lsr AND UART1_TX_BUSY = 0
        then case uart1_write src (reg_write REG_UART_1_TRX (ucast x) b) of (n, b) \<Rightarrow> (n + 1, b)
        else (0, b))"

definition platform_bridge_read :: "firmware_config \<Rightarrow> nat \<Rightarrow> bus \<Rightarrow> byte list \<times> bus" where
  "platform_bridge_read fc max_len b =
     (if fc_bridge_uart_id fc = 0 then uart0_read max_len b else uart1_read max_len b)"

definition platform_bridge_write :: "firmware_config \<Rightarrow> byte list \<Rightarrow> bus \<Rightarrow> nat \<times> bus" where
  "platform_bridge_write fc src b =
     (if fc_bridge_uart_id fc = 0 then uart0_write fc src b else uart1_write src b)"

definition platform_uart_read :: "firmware_config \<Rightarrow> nat \<Rightarrow> bus \<Rightarrow> byte list \<times> bus" where
  "platform_uart_read fc max_len b = platform_bridge_read fc max_len b"

definition platform_uart_write :: "firmware_config \<Rightarrow> byte list \<Rightarrow> bus \<Rightarrow> nat \<times> bus" where
  "platform_uart_write fc src b = platform_bridge_write fc src b"

section \<open>The log output\<close>

definition log_uart_write :: "firmware_config \<Rightarrow> byte list \<Rightarrow> bus \<Rightarrow> nat \<times> bus" where
  "log_uart_write fc src b = (if fc_log_uart_id fc = 0 then uart0_write fc src b else uart1_write src b)"

lemma uart1_write_le: "uart1_write src b = (n, b') \<Longrightarrow> n \<le> length src"
  by (induction src arbitrary: b n) (auto split: prod.splits if_splits)

lemma log_uart_write_le: "log_uart_write fc src b = (n, b') \<Longrightarrow> n \<le> length src"
  by (auto simp: log_uart_write_def uart0_write_def Let_def uart1_write_le split: if_splits)

lemma zero_progress_rank: "(z :: u32) + 1 < 1024 \<Longrightarrow> unat (1022 - z) < unat (1023 - z)"
proof -
  assume "z + 1 < 1024"
  then have "1023 - z \<noteq> 0" by auto
  from unat_minus_one [OF this] have "unat (1022 - z) = unat (1023 - z) - 1" by (simp add: algebra_simps)
  moreover have "0 < unat (1023 - z)" using \<open>1023 - z \<noteq> 0\<close> unat_gt_0 by blast
  ultimately show ?thesis by simp
qed

text \<open>
  The \<open>while\<close> loop over the bytes from \<open>pos\<close> on. It ends although the UART may never take a byte:
  each round either sends something or uses up one of the rounds without progress.
\<close>

function log_write_loop :: "firmware_config \<Rightarrow> byte list \<Rightarrow> u32 \<Rightarrow> bus \<Rightarrow> bus" where
  "log_write_loop fc rest zero_progress b =
     (if rest = [] then b
      else case log_uart_write fc rest b of (written, b) \<Rightarrow>
        if written = 0
        then if PLATFORM_LOG_ZERO_PROGRESS_LIMIT \<le> zero_progress + 1 then b
             else log_write_loop fc rest (zero_progress + 1) b
        else log_write_loop fc (drop written rest) 0 b)"
  by pat_completeness auto
termination
  by (relation "measures [\<lambda>(fc, rest, z, b). length rest, \<lambda>(fc, rest, z, b). unat (1023 - z)]")
    (auto simp: not_le zero_progress_rank)

declare log_write_loop.simps [simp del]

definition platform_log_write :: "firmware_config \<Rightarrow> byte list \<Rightarrow> bus \<Rightarrow> bus" where
  "platform_log_write fc src b = log_write_loop fc src 0 b"

definition platform_log :: "firmware_config \<Rightarrow> byte list \<Rightarrow> bus \<Rightarrow> bus" where
  "platform_log fc msg b = platform_log_write fc (c_str msg) b"

section \<open>Time\<close>

abbreviation MC_PLATFORM_TICK_RESET_THRESHOLD :: u32 where "MC_PLATFORM_TICK_RESET_THRESHOLD \<equiv> 0x7fffffff"

record mc_tick_extender =
  epoch_ticks :: u32

definition mc_tick_extender_init :: mc_tick_extender where
  "mc_tick_extender_init = \<lparr>epoch_ticks = 0\<rparr>"

text \<open>The extended count and whether the caller has to restart the timer.\<close>

definition mc_tick_extender_update :: "u32 \<Rightarrow> mc_tick_extender \<Rightarrow> u32 \<times> bool \<times> mc_tick_extender" where
  "mc_tick_extender_update raw_ticks extender =
     (if MC_PLATFORM_TICK_RESET_THRESHOLD \<le> raw_ticks
      then let extender = extender\<lparr>epoch_ticks := epoch_ticks extender + raw_ticks\<rparr>
           in (epoch_ticks extender, True, extender)
      else (epoch_ticks extender + raw_ticks, False, extender))"

text \<open>
  \<open>get_sys_tick\<close> and \<open>sys_tick_init\<close> belong to the board support package: \<open>pf_sys_tick p k\<close> is what the
  \<open>k\<close>-th reading of its timer returns, and \<open>pf_timer_starts\<close> counts the restarts.
\<close>

record platform =
  pf_bus :: bus
  pf_tick_extender :: mc_tick_extender
  pf_sys_tick :: "nat \<Rightarrow> u32"
  pf_tick_reads :: nat
  pf_timer_starts :: nat

definition platform_init :: "firmware_config \<Rightarrow> platform \<Rightarrow> platform" where
  "platform_init fc p =
     p\<lparr>pf_bus := uart1_init fc (uart0_init fc (pf_bus p)), pf_timer_starts := pf_timer_starts p + 1,
       pf_tick_extender := mc_tick_extender_init\<rparr>"

definition platform_ticks :: "platform \<Rightarrow> u32 \<times> platform" where
  "platform_ticks p =
     (case mc_tick_extender_update (pf_sys_tick p (pf_tick_reads p)) (pf_tick_extender p) of
        (ticks, reset_timer, extender) \<Rightarrow>
          (ticks, p\<lparr>pf_tick_extender := extender, pf_tick_reads := pf_tick_reads p + 1,
                    pf_timer_starts := (if reset_timer then pf_timer_starts p + 1 else pf_timer_starts p)\<rparr>))"

section \<open>What the UARTs send\<close>

definition uart_sent :: "nat \<Rightarrow> bus \<Rightarrow> byte list" where
  "uart_sent uart b =
     map (\<lambda>(r, v). ucast v)
       (filter (\<lambda>(r, v). r = (if uart = 0 then REG_UART_0_DATA else REG_UART_1_TRX)) (bus_writes b))"

abbreviation bridge_sent :: "firmware_config \<Rightarrow> bus \<Rightarrow> byte list" where
  "bridge_sent fc \<equiv> uart_sent (fc_bridge_uart_id fc)"

abbreviation log_sent :: "firmware_config \<Rightarrow> bus \<Rightarrow> byte list" where
  "log_sent fc \<equiv> uart_sent (fc_log_uart_id fc)"

lemma ucast_byte_back [simp]: "ucast (ucast (x :: byte) :: u32) = x"
  by (rule bit_word_eqI) (simp add: bit_simps)

lemma uart_sent_write [simp]:
  "uart_sent uart (reg_write r v b) =
     uart_sent uart b @ (if r = (if uart = 0 then REG_UART_0_DATA else REG_UART_1_TRX) then [ucast v] else [])"
  by (simp add: uart_sent_def reg_write_def)

lemma reg_read_writes [simp]: "bus_writes (snd (reg_read r b)) = bus_writes b"
  by (simp add: reg_read_def)

lemma uart_sent_read [simp]: "uart_sent uart (snd (reg_read r b)) = uart_sent uart b"
  by (simp add: uart_sent_def)

lemma uart0_fold_sent:
  "uart_sent uart (fold (\<lambda>x. reg_write REG_UART_0_DATA (ucast x)) bs b) =
     uart_sent uart b @ (if uart = 0 then bs else [])"
  by (induction bs arbitrary: b) auto

lemma uart0_write_sent:
  "uart0_write fc src b = (n, b') \<Longrightarrow>
   n \<le> length src \<and> uart_sent uart b' = uart_sent uart b @ (if uart = 0 then take n src else [])"
  by (auto simp: uart0_write_def Let_def uart0_fold_sent)

lemma uart1_write_sent:
  "uart1_write src b = (n, b') \<Longrightarrow>
   n \<le> length src \<and> uart_sent uart b' = uart_sent uart b @ (if uart = 0 then [] else take n src)"
proof (induction src arbitrary: b n)
  case (Cons x src)
  obtain lsr b1 where r: "reg_read REG_UART_1_LSR b = (lsr, b1)" by fastforce
  then have b1: "uart_sent uart b1 = uart_sent uart b" using uart_sent_read [of uart REG_UART_1_LSR b] by simp
  show ?case
  proof (cases "lsr AND UART1_TX_BUSY = 0")
    case True
    with Cons.prems r obtain m where "uart1_write src (reg_write REG_UART_1_TRX (ucast x) b1) = (m, b')" "n = m + 1"
      by (auto split: prod.splits)
    with Cons.IH [OF this(1)] b1 show ?thesis by auto
  qed (use Cons.prems r b1 in auto)
qed simp

lemma bridge_write_sent:
  assumes "platform_bridge_write fc src b = (n, b')"
  shows "n \<le> length src" "bridge_sent fc b' = bridge_sent fc b @ take n src"
  using assms uart0_write_sent [of fc src b n b'] uart1_write_sent [of src b n b']
  by (auto simp: platform_bridge_write_def split: if_splits)

lemma log_uart_write_sent:
  assumes "log_uart_write fc src b = (n, b')"
  shows "log_sent fc b' = log_sent fc b @ take n src"
    "firmware_config_ok fc \<Longrightarrow> bridge_sent fc b' = bridge_sent fc b"
  using assms uart0_write_sent [of fc src b n b'] uart1_write_sent [of src b n b']
  by (auto simp: log_uart_write_def firmware_config_ok_def split: if_splits)

lemma uart0_read_facts:
  "uart0_read n b = (bs, b') \<Longrightarrow> length bs \<le> n \<and> bus_writes b' = bus_writes b"
proof (induction n arbitrary: b bs)
  case (Suc n)
  obtain raw b1 where r: "reg_read REG_UART_0_DATA b = (raw, b1)" by fastforce
  then have "bus_writes b1 = bus_writes b" using reg_read_writes [of REG_UART_0_DATA b] by simp
  with Suc r show ?case by (auto split: prod.splits option.splits)
qed simp

lemma uart1_read_facts:
  "uart1_read n b = (bs, b') \<Longrightarrow> length bs \<le> n \<and> bus_writes b' = bus_writes b"
proof (induction n arbitrary: b bs)
  case (Suc n)
  obtain lsr b1 where r: "reg_read REG_UART_1_LSR b = (lsr, b1)" by fastforce
  obtain trx b2 where t: "reg_read REG_UART_1_TRX b1 = (trx, b2)" by fastforce
  have "bus_writes b1 = bus_writes b" "bus_writes b2 = bus_writes b1"
    using reg_read_writes [of REG_UART_1_LSR b] reg_read_writes [of REG_UART_1_TRX b1] r t by simp_all
  with Suc r t show ?case by (auto split: prod.splits if_splits)
qed simp

lemma bridge_read_facts:
  assumes "platform_bridge_read fc n b = (bs, b')"
  shows "length bs \<le> n" "uart_sent uart b' = uart_sent uart b"
  using assms uart0_read_facts [of n b bs b'] uart1_read_facts [of n b bs b']
  by (auto simp: platform_bridge_read_def uart_sent_def split: if_splits)

lemma log_write_loop_sent:
  "\<exists>k. log_sent fc (log_write_loop fc rest z b) = log_sent fc b @ take k rest"
proof (induction fc rest z b rule: log_write_loop.induct)
  case (1 fc rest z b)
  show ?case
  proof (cases "rest = []")
    case False
    obtain n b1 where w: "log_uart_write fc rest b = (n, b1)" by fastforce
    note sent = log_uart_write_sent(1) [OF w]
    show ?thesis
    proof (cases "n = 0")
      case True
      with False w sent 1(1) [OF False w [symmetric]] show ?thesis
        by (subst log_write_loop.simps) (auto intro: exI [of _ 0])
    next
      case n: False
      from 1(2) [OF False w [symmetric] n] obtain k where
        "log_sent fc (log_write_loop fc (drop n rest) 0 b1) = log_sent fc b1 @ take k (drop n rest)" by auto
      with False w n sent show ?thesis
        by (subst log_write_loop.simps) (auto simp: take_add [symmetric])
    qed
  qed (simp add: log_write_loop.simps)
qed

lemma log_write_loop_bridge:
  "firmware_config_ok fc \<Longrightarrow> bridge_sent fc (log_write_loop fc rest z b) = bridge_sent fc b"
proof (induction fc rest z b rule: log_write_loop.induct)
  case (1 fc rest z b)
  obtain n b1 where w: "log_uart_write fc rest b = (n, b1)" by fastforce
  note log_uart_write_sent(2) [OF w 1(3)]
  with 1(1) [OF _ w [symmetric]] 1(2) [OF _ w [symmetric]] 1(3) w show ?case
    by (subst log_write_loop.simps) auto
qed

lemma platform_log_write_bridge [simp]:
  "firmware_config_ok fc \<Longrightarrow> bridge_sent fc (platform_log_write fc src b) = bridge_sent fc b"
  by (simp add: platform_log_write_def log_write_loop_bridge)

lemma uart0_log_write_all:
  assumes "fc_log_uart_id fc = 0" "0 < fc_uart0_write_burst_bytes fc"
  shows "log_sent fc (log_write_loop fc rest z b) = log_sent fc b @ rest"
  using assms
proof (induction fc rest z b rule: log_write_loop.induct)
  case (1 fc rest z b)
  show ?case
  proof (cases "rest = []")
    case False
    obtain n b1 where w: "log_uart_write fc rest b = (n, b1)" by fastforce
    then have "n \<noteq> 0" using False 1(3,4) by (auto simp: log_uart_write_def uart0_write_def Let_def)
    with False w 1(2) [OF False w [symmetric]] 1(3,4) log_uart_write_sent(1) [OF w] show ?thesis
      by (subst log_write_loop.simps) simp
  qed (simp add: log_write_loop.simps)
qed

section \<open>The extended tick counter\<close>

text \<open>
  Readings of the clock at the given times. \<open>timer s t\<close> is what the timer shows at time \<open>t\<close> when it
  was last started at time \<open>s\<close>; a reading that asks for it restarts the timer.
\<close>

fun poll_ticks :: "(nat \<Rightarrow> nat \<Rightarrow> u32) \<Rightarrow> nat \<Rightarrow> mc_tick_extender \<Rightarrow> nat list \<Rightarrow> u32 list" where
  "poll_ticks timer started extender [] = []"
| "poll_ticks timer started extender (now # ts) =
     (case mc_tick_extender_update (timer started now) extender of
        (ticks, reset_timer, extender) \<Rightarrow>
          ticks # poll_ticks timer (if reset_timer then now else started) extender ts)"

lemma poll_ticks_exact:
  assumes "\<And>s t. s \<le> t \<Longrightarrow> timer s t = of_nat (t - s)"
    "epoch_ticks extender = of_nat started" "started \<le> prev" "prev - started < 2 ^ 31"
    "sorted (prev # ts)" "successively (\<lambda>a b. b - a < 2 ^ 31) (prev # ts)"
  shows "poll_ticks timer started extender ts = map of_nat ts"
  using assms(2-)
proof (induction ts arbitrary: started extender prev)
  case (Cons now ts)
  have le: "started \<le> now" "now - started < 2 ^ 32" using Cons.prems by auto
  then have raw: "timer started now = of_nat (now - started)" "unat (of_nat (now - started) :: u32) = now - started"
    by (simp_all add: assms(1) unat_of_nat take_bit_nat_eq_self del: of_nat_diff)
  have sum: "of_nat started + of_nat (now - started) = (of_nat now :: u32)"
    using le(1) by (simp flip: of_nat_add)
  show ?case
  proof (cases "MC_PLATFORM_TICK_RESET_THRESHOLD \<le> (of_nat (now - started) :: u32)")
    case True
    with Cons.IH [of "extender\<lparr>epoch_ticks := of_nat now\<rparr>" now now] Cons.prems raw sum show ?thesis
      by (simp add: mc_tick_extender_update_def Let_def)
  next
    case False
    then have "now - started < 2 ^ 31" using raw(2) by (simp add: word_le_nat_alt)
    with False Cons.IH [of extender started now] Cons.prems le raw sum show ?thesis
      by (simp add: mc_tick_extender_update_def)
  qed
qed simp

section \<open>The cost of a stalled log\<close>

abbreviation lsr_reads :: "bus \<Rightarrow> nat" where "lsr_reads b \<equiv> bus_reads b REG_UART_1_LSR"

lemma reg_write_reads [simp]: "bus_reads (reg_write r v b) = bus_reads b"
  by (simp add: reg_write_def)

lemma uart1_write_reads: "uart1_write src b = (n, b') \<Longrightarrow> lsr_reads b' \<le> lsr_reads b + n + 1"
proof (induction src arbitrary: b n)
  case (Cons x src)
  obtain lsr b1 where r: "reg_read REG_UART_1_LSR b = (lsr, b1)" by fastforce
  then have "lsr_reads b1 = lsr_reads b + 1" by (auto simp: reg_read_def)
  with Cons.prems Cons.IH r show ?case
    by (auto split: prod.splits if_splits) (metis (no_types, lifting) add.commute add_Suc plus_1_eq_Suc reg_write_reads)
qed simp

lemma uart0_fold_reads: "bus_reads (fold (\<lambda>x. reg_write REG_UART_0_DATA (ucast x)) bs b) = bus_reads b"
  by (induction bs arbitrary: b) simp_all

lemma log_uart_write_reads: "log_uart_write fc src b = (n, b') \<Longrightarrow> lsr_reads b' \<le> lsr_reads b + n + 1"
  by (auto simp: log_uart_write_def uart0_write_def Let_def uart0_fold_reads dest: uart1_write_reads split: if_splits)

lemma log_write_loop_reads:
  "unat z < 1024 \<Longrightarrow>
   lsr_reads (log_write_loop fc rest z b) \<le> lsr_reads b + 1025 * length rest + (1024 - unat z)"
proof (induction fc rest z b rule: log_write_loop.induct)
  case (1 fc rest z b)
  show ?case
  proof (cases "rest = []")
    case False
    obtain n b1 where w: "log_uart_write fc rest b = (n, b1)" by fastforce
    note facts = log_uart_write_reads [OF w] log_uart_write_le [OF w]
    show ?thesis
    proof (cases "n = 0")
      case True
      have z: "unat (z + 1) = unat z + 1" using 1(3) by (simp add: unat_word_ariths)
      have "lsr_reads (log_write_loop fc rest z b) =
          lsr_reads (if 1024 \<le> z + 1 then b1 else log_write_loop fc rest (z + 1) b1)"
        using False w True by (subst log_write_loop.simps) simp
      also have "\<dots> \<le> lsr_reads b1 + 1025 * length rest + (1024 - unat (z + 1))"
        using 1(1) [OF False w [symmetric] True] by (simp add: word_le_nat_alt)
      finally show ?thesis using facts(1) True z 1(3) by linarith
    next
      case n: False
      have "lsr_reads (log_write_loop fc rest z b) = lsr_reads (log_write_loop fc (drop n rest) 0 b1)"
        using False w n by (subst log_write_loop.simps) simp
      also have "\<dots> \<le> lsr_reads b1 + 1025 * (length rest - n) + 1024"
        using 1(2) [OF False w [symmetric] n] by simp
      finally show ?thesis using facts n 1(3) by (simp add: diff_mult_distrib2)
    qed
  qed (simp add: log_write_loop.simps)
qed

section \<open>Properties\<close>

text \<open>C35: writing to the log always comes back, whatever the status register of the UART reads: at most
  1025 readings of the status per byte and 1024 more are made, what was sent is a prefix of the text,
  and nothing is sent on the bridge UART. A log on UART 0 sends all of the text.\<close>

theorem log_write_returns:
  assumes "firmware_config_ok fc"
  shows "lsr_reads (platform_log_write fc src b) \<le> lsr_reads b + 1025 * length src + 1024 \<and>
    (\<exists>k. log_sent fc (platform_log_write fc src b) = log_sent fc b @ take k src) \<and>
    bridge_sent fc (platform_log_write fc src b) = bridge_sent fc b \<and>
    (fc_log_uart_id fc = 0 \<longrightarrow> log_sent fc (platform_log_write fc src b) = log_sent fc b @ src)"
  using assms log_write_loop_reads [of 0 fc src b] log_write_loop_sent [of fc src 0 b]
    uart0_log_write_all [of fc src 0 b] log_write_loop_bridge [OF assms, of src 0 b]
  by (auto simp: platform_log_write_def firmware_config_ok_def)

theorem log_write_returns_witness:
  "let b = \<lparr>bus_values = (\<lambda>r k. 0x100), bus_reads = (\<lambda>r. 0), bus_writes = []\<rparr>
   in lsr_reads (platform_log_write (default_firmware_config 72 False) [1, 2] b) \<le> 3074"
  using log_write_returns [of "default_firmware_config 72 False" "[1, 2]"
      "\<lparr>bus_values = (\<lambda>r k. 0x100), bus_reads = (\<lambda>r. 0), bus_writes = []\<rparr>"]
  by (simp add: firmware_config_ok_def default_firmware_config_def)

text \<open>C36: the clock of the firmware is exact: when the hardware timer counts the ticks since it was
  last started and is read at least every \<open>2^31\<close> ticks, every reading of the extended counter is the
  time since start-up modulo \<open>2^32\<close>, so restarting the timer before it overflows loses no time.\<close>

theorem tick_extender_exact:
  assumes "\<And>s t. s \<le> t \<Longrightarrow> timer s t = of_nat (t - s)"
    and "sorted (0 # ts)" "successively (\<lambda>a b. b - a < 2 ^ 31) (0 # ts)"
  shows "poll_ticks timer 0 mc_tick_extender_init ts = map of_nat ts"
  by (rule poll_ticks_exact [OF assms(1) _ _ _ assms(2,3)]) (simp_all add: mc_tick_extender_init_def)

theorem tick_extender_exact_witness:
  "poll_ticks (\<lambda>s t. of_nat (t - s)) 0 mc_tick_extender_init [5, 0x80000000, 0xfffffff0, 0x100000003] =
     [5, 0x80000000, 0xfffffff0, 3]"
  using tick_extender_exact [of "\<lambda>s t. of_nat (t - s)" "[5, 0x80000000, 0xfffffff0, 0x100000003]"]
  by simp

end
