(* ===== verification/Log.thy ===== *)
theory Log
  imports Platform
begin

text \<open>
  The log formatter of firmware/mc_log.c. It writes piece by piece to \<open>platform_log_write\<close>. The
  variable arguments are a list of typed values; asking for a missing argument or one of another type
  is undefined in C and is \<open>None\<close> here. Strings are byte lists without the terminating zero.
\<close>

section \<open>Pieces of a line\<close>

datatype log_arg = Arg_str "byte list option" | Arg_unsigned u32 | Arg_int i32

definition log_write_char :: "firmware_config \<Rightarrow> byte \<Rightarrow> bus \<Rightarrow> bus" where
  "log_write_char fc c b = platform_log_write fc [c] b"

definition log_write_str :: "firmware_config \<Rightarrow> byte list option \<Rightarrow> bus \<Rightarrow> bus" where
  "log_write_str fc s b =
     platform_log_write fc (case s of None \<Rightarrow> str_bytes ''(null)'' | Some text \<Rightarrow> text) b"

definition digit_char :: "u32 \<Rightarrow> byte" where
  "digit_char digit = (if digit < 10 then 48 + ucast digit else 97 + ucast digit - 10)"

text \<open>
  The first \<open>while\<close> loop, which fills \<open>digits\<close> from the least significant digit on. A division by a
  base of zero is undefined and base one would not end; the callers pass 10 and 16.
\<close>

partial_function (option) unsigned_digits :: "u32 \<Rightarrow> u32 \<Rightarrow> byte list option" where
  "unsigned_digits value base =
     (if value = 0 then Some []
      else if base = 0 then None
      else Option.bind (unsigned_digits (value div base) base)
             (\<lambda>digits. Some (digit_char (value mod base) # digits)))"

definition log_write_unsigned :: "firmware_config \<Rightarrow> u32 \<Rightarrow> u32 \<Rightarrow> bus \<Rightarrow> bus option" where
  "log_write_unsigned fc value base b =
     (if value = 0 then Some (log_write_char fc 48 b)
      else map_option (\<lambda>digits. fold (log_write_char fc) (rev digits) b) (unsigned_digits value base))"

definition hex_chars :: "byte list" where
  "hex_chars = str_bytes ''0123456789abcdef''"

definition log_write_hex_byte :: "firmware_config \<Rightarrow> byte \<Rightarrow> bus \<Rightarrow> bus" where
  "log_write_hex_byte fc value b =
     log_write_char fc (hex_chars ! unat (value AND 0x0f))
       (log_write_char fc (hex_chars ! unat (drop_bit 4 value AND 0x0f)) b)"

definition log_write_signed :: "firmware_config \<Rightarrow> i32 \<Rightarrow> bus \<Rightarrow> bus option" where
  "log_write_signed fc value b =
     (if sint value < 0 then log_write_unsigned fc (0 - value) 10 (log_write_char fc 45 b)
      else log_write_unsigned fc value 10 b)"

section \<open>Lines\<close>

text \<open>The \<open>switch\<close> over the conversion character: the arguments left and the bus afterwards.\<close>

definition log_conversion ::
    "firmware_config \<Rightarrow> byte \<Rightarrow> log_arg list \<Rightarrow> bus \<Rightarrow> (log_arg list \<times> bus) option" where
  "log_conversion fc spec args b =
     (if spec = of_char CHR ''s'' then
        (case args of Arg_str s # args \<Rightarrow> Some (args, log_write_str fc s b) | _ \<Rightarrow> None)
      else if spec = of_char CHR ''u'' then
        (case args of Arg_unsigned v # args \<Rightarrow> map_option (Pair args) (log_write_unsigned fc v 10 b) | _ \<Rightarrow> None)
      else if spec = of_char CHR ''d'' then
        (case args of Arg_int v # args \<Rightarrow> map_option (Pair args) (log_write_signed fc v b) | _ \<Rightarrow> None)
      else if spec = of_char CHR ''x'' then
        (case args of Arg_unsigned v # args \<Rightarrow> map_option (Pair args) (log_write_unsigned fc v 16 b) | _ \<Rightarrow> None)
      else if spec = of_char CHR ''c'' then
        (case args of Arg_int v # args \<Rightarrow> Some (args, log_write_char fc (ucast v) b) | _ \<Rightarrow> None)
      else if spec = 37 then Some (args, log_write_char fc 37 b)
      else Some (args, log_write_char fc spec (log_write_char fc 37 b)))"

text \<open>The \<open>while\<close> loop over the format; 37 is \<open>%\<close>.\<close>

fun vemit_loop :: "firmware_config \<Rightarrow> byte list \<Rightarrow> log_arg list \<Rightarrow> bus \<Rightarrow> bus option" where
  "vemit_loop fc [] args b = Some b"
| "vemit_loop fc (c # fmt) args b =
     (if c \<noteq> 37 then vemit_loop fc fmt args (log_write_char fc c b)
      else case fmt of
        [] \<Rightarrow> Some (log_write_char fc 37 b)
      | spec # fmt \<Rightarrow> Option.bind (log_conversion fc spec args b) (\<lambda>(args, b). vemit_loop fc fmt args b))"

abbreviation log_crlf :: "byte list" where "log_crlf \<equiv> [13, 10]"

definition log_write_prefix :: "firmware_config \<Rightarrow> byte list \<Rightarrow> bus \<Rightarrow> bus" where
  "log_write_prefix fc level b =
     log_write_str fc (Some (str_bytes ''] '')) (log_write_str fc (Some level) (log_write_char fc 91 b))"

definition mc_log_vemit :: "firmware_config \<Rightarrow> byte list \<Rightarrow> byte list \<Rightarrow> log_arg list \<Rightarrow> bus \<Rightarrow> bus option" where
  "mc_log_vemit fc level fmt args b =
     map_option (log_write_str fc (Some log_crlf)) (vemit_loop fc fmt args (log_write_prefix fc level b))"

definition mc_log_emit :: "firmware_config \<Rightarrow> byte list \<Rightarrow> byte list \<Rightarrow> log_arg list \<Rightarrow> bus \<Rightarrow> bus option" where
  "mc_log_emit fc level fmt args b = mc_log_vemit fc level fmt args b"

text \<open>One round of the dump: \<open>i\<close> is the index of the byte, \<open>len\<close> the number of bytes.\<close>

definition hexdump_step ::
    "firmware_config \<Rightarrow> byte list \<Rightarrow> byte list \<Rightarrow> byte list \<Rightarrow> nat \<Rightarrow> bus \<Rightarrow> bus option" where
  "hexdump_step fc level label data i b =
     map_option
       (\<lambda>b. (let b = log_write_hex_byte fc (data ! i) b
            in if i mod 16 = 15 \<or> i + 1 = length data then log_write_str fc (Some log_crlf) b else b))
       (if i mod 16 = 0 then
          map_option (log_write_str fc (Some (str_bytes '': '')))
            (log_write_unsigned fc (of_nat i) 10
              (log_write_str fc (Some (str_bytes ''+''))
                (log_write_str fc (Some label) (log_write_prefix fc level b))))
        else Some (log_write_char fc 32 b))"

fun hexdump_loop ::
    "firmware_config \<Rightarrow> byte list \<Rightarrow> byte list \<Rightarrow> byte list \<Rightarrow> nat list \<Rightarrow> bus \<Rightarrow> bus option" where
  "hexdump_loop fc level label data [] b = Some b"
| "hexdump_loop fc level label data (i # is) b =
     Option.bind (hexdump_step fc level label data i b) (hexdump_loop fc level label data is)"

definition mc_log_hexdump :: "firmware_config \<Rightarrow> byte list \<Rightarrow> byte list \<Rightarrow> byte list \<Rightarrow> bus \<Rightarrow> bus option" where
  "mc_log_hexdump fc level label data b =
     Option.bind (mc_log_emit fc level (str_bytes ''%s len=%u'') [Arg_str (Some label), Arg_unsigned (of_nat (length data))] b)
       (hexdump_loop fc level label data [0..<length data])"

section \<open>The macros\<close>

text \<open>\<open>MC_LOGI\<close>, \<open>MC_LOGD\<close> and \<open>MC_LOGT_HEXDUMP\<close> compile to nothing below their level.\<close>

definition MC_LOGI :: "firmware_config \<Rightarrow> byte list \<Rightarrow> log_arg list \<Rightarrow> bus \<Rightarrow> bus option" where
  "MC_LOGI fc fmt args b = (if MC_LOG_INFO \<le> fc_log_level fc then mc_log_emit fc (str_bytes ''I'') fmt args b else Some b)"

definition MC_LOGD :: "firmware_config \<Rightarrow> byte list \<Rightarrow> log_arg list \<Rightarrow> bus \<Rightarrow> bus option" where
  "MC_LOGD fc fmt args b = (if MC_LOG_DEBUG \<le> fc_log_level fc then mc_log_emit fc (str_bytes ''D'') fmt args b else Some b)"

definition MC_LOGT_HEXDUMP :: "firmware_config \<Rightarrow> byte list \<Rightarrow> byte list \<Rightarrow> bus \<Rightarrow> bus option" where
  "MC_LOGT_HEXDUMP fc label data b =
     (if MC_LOG_TRACE \<le> fc_log_level fc then mc_log_hexdump fc (str_bytes ''T'') label data b else Some b)"

section \<open>Numerals\<close>

text \<open>The value of a list of digit characters, least significant first.\<close>

definition char_digit :: "byte \<Rightarrow> nat" where
  "char_digit c = (if c < 97 then unat c - 48 else unat c - 87)"

fun digits_value :: "nat \<Rightarrow> byte list \<Rightarrow> nat" where
  "digits_value base [] = 0"
| "digits_value base (c # cs) = char_digit c + base * digits_value base cs"

lemma digit_char:
  assumes "d < 16" shows "char_digit (digit_char d) = unat d" "digit_char d = 48 \<longleftrightarrow> d = 0"
proof -
  have "unat d < 16" using assms by (simp add: word_less_nat_alt)
  then have "unat d \<in> {0, 1, 2, 3, 4, 5, 6, 7, 8, 9, 10, 11, 12, 13, 14, 15}"
    by (simp only: insert_iff empty_iff) presburger
  then have "d \<in> {0, 1, 2, 3, 4, 5, 6, 7, 8, 9, 10, 11, 12, 13, 14, 15}"
    by (auto simp: word_unat_eq_iff)
  then show "char_digit (digit_char d) = unat d" "digit_char d = 48 \<longleftrightarrow> d = 0"
    by (auto simp: digit_char_def char_digit_def)
qed

lemma unsigned_digits_ok:
  assumes "2 \<le> base" "base \<le> 16"
  shows "unat value < 2 ^ k \<Longrightarrow> \<exists>digits. unsigned_digits value base = Some digits \<and> length digits \<le> k \<and>
    digits_value (unat base) digits = unat value \<and> (value \<noteq> 0 \<longrightarrow> digits \<noteq> [] \<and> last digits \<noteq> 48)"
proof (induction k arbitrary: "value")
  case 0
  then have "value = 0" by (simp add: unat_eq_0)
  then show ?case by (subst unsigned_digits.simps) simp
next
  case (Suc k)
  have b: "2 \<le> unat base" "unat base \<le> 16" using assms by (simp_all add: word_le_nat_alt)
  show ?case
  proof (cases "value = 0")
    case False
    have "unat value div unat base \<le> unat value div 2" using b(1) by (rule div_le_mono2 [rotated]) simp
    also have "\<dots> < 2 ^ k" using Suc.prems by (simp add: less_mult_imp_div_less mult.commute)
    finally have "unat (value div base) < 2 ^ k" by (simp add: unat_div)
    from Suc.IH [OF this] obtain digits where ds: "unsigned_digits (value div base) base = Some digits"
      "length digits \<le> k" "digits_value (unat base) digits = unat (value div base)"
      "value div base \<noteq> 0 \<longrightarrow> digits \<noteq> [] \<and> last digits \<noteq> 48" by blast
    have m: "value mod base < 16"
      using order_less_le_trans [OF mod_less_divisor b(2)] b(1) by (simp add: word_less_nat_alt unat_mod)
    have r: "unsigned_digits value base = Some (digit_char (value mod base) # digits)"
      using False ds(1) b by (subst unsigned_digits.simps) auto
    have "last (digit_char (value mod base) # digits) \<noteq> 48"
    proof (cases "value div base = 0")
      case True
      then have "unat value div unat base = 0" by (simp add: unat_div [symmetric])
      then have "unat value < unat base" using b(1) by (simp add: div_eq_0_iff)
      then have "unat (value mod base) = unat value" by (simp add: unat_mod)
      then have "value mod base \<noteq> 0" using False by (metis unat_eq_0)
      moreover have "digits = []" using ds(1) True by (subst (asm) unsigned_digits.simps) simp
      ultimately show ?thesis using digit_char(2) [OF m] by simp
    next
      case False
      with ds(4) show ?thesis by simp
    qed
    with r ds m show ?thesis by (simp add: digit_char unat_div unat_mod)
  qed (subst unsigned_digits.simps, simp)
qed

lemma unsigned_digits_32:
  assumes "2 \<le> base" "base \<le> 16"
  obtains digits where "unsigned_digits value base = Some digits" "length digits \<le> 32"
    "digits_value (unat base) digits = unat value" "value \<noteq> 0 \<longrightarrow> digits \<noteq> [] \<and> last digits \<noteq> 48"
  using unsigned_digits_ok [OF assms, of "value" 32] unsigned_less [of "value", where 'a = nat] that by auto

section \<open>What a log call sends\<close>

text \<open>
  The bridge UART carries nothing of the log, and a log on UART 0 gains the text. A log on UART 1 may
  lose bytes when the UART stalls.
\<close>

definition carries :: "firmware_config \<Rightarrow> bus \<Rightarrow> byte list \<Rightarrow> bus \<Rightarrow> bool" where
  "carries fc b text b' \<longleftrightarrow> bridge_sent fc b' = bridge_sent fc b \<and>
     (fc_log_uart_id fc = 0 \<longrightarrow> log_sent fc b' = log_sent fc b @ text)"

lemma carries_refl [simp]: "carries fc b [] b"
  by (simp add: carries_def)

lemma carries_trans: "carries fc b t1 b1 \<Longrightarrow> carries fc b1 t2 b2 \<Longrightarrow> carries fc b (t1 @ t2) b2"
  by (simp add: carries_def)

lemma platform_log_write_carries: "firmware_config_ok fc \<Longrightarrow> carries fc b src (platform_log_write fc src b)"
  using uart0_log_write_all [of fc src 0 b] log_write_loop_bridge [of fc src 0 b]
  by (simp add: carries_def platform_log_write_def) (simp add: firmware_config_ok_def)

lemma log_write_char_carries: "firmware_config_ok fc \<Longrightarrow> carries fc b [c] (log_write_char fc c b)"
  by (simp add: log_write_char_def platform_log_write_carries)

lemma log_write_str_carries:
  "firmware_config_ok fc \<Longrightarrow>
   carries fc b (case s of None \<Rightarrow> str_bytes ''(null)'' | Some text \<Rightarrow> text) (log_write_str fc s b)"
  by (simp add: log_write_str_def platform_log_write_carries del: str_bytes_Cons)

lemma log_write_chars_carries: "firmware_config_ok fc \<Longrightarrow> carries fc b cs (fold (log_write_char fc) cs b)"
proof (induction cs arbitrary: b)
  case (Cons c cs)
  from carries_trans [OF log_write_char_carries [OF Cons.prems] Cons.IH [OF Cons.prems]] show ?case by simp
qed simp

lemma log_write_prefix_carries:
  "firmware_config_ok fc \<Longrightarrow> carries fc b (91 # level @ [93, 32]) (log_write_prefix fc level b)"
  using carries_trans [OF carries_trans [OF log_write_char_carries log_write_str_carries] log_write_str_carries,
      of fc b 91 "Some level" "Some (str_bytes ''] '')"]
  by (simp add: log_write_prefix_def)

text \<open>The numeral of a number and the text of a formatted line.\<close>

definition numeral_text :: "u32 \<Rightarrow> u32 \<Rightarrow> byte list" where
  "numeral_text value base =
     (if value = 0 then [48] else case unsigned_digits value base of None \<Rightarrow> [] | Some digits \<Rightarrow> rev digits)"

definition signed_text :: "i32 \<Rightarrow> byte list" where
  "signed_text value = (if sint value < 0 then 45 # numeral_text (0 - value) 10 else numeral_text value 10)"

lemma log_write_unsigned_carries:
  assumes "firmware_config_ok fc" "base = 10 \<or> base = 16"
  shows "\<exists>b'. log_write_unsigned fc value base b = Some b' \<and> carries fc b (numeral_text value base) b'"
proof -
  have "2 \<le> base" "base \<le> 16" using assms(2) by auto
  then obtain digits where "unsigned_digits value base = Some digits" by (rule unsigned_digits_32)
  then show ?thesis
    by (simp add: log_write_unsigned_def numeral_text_def log_write_char_carries log_write_chars_carries assms(1))
qed

lemma log_write_signed_carries:
  assumes "firmware_config_ok fc"
  shows "\<exists>b'. log_write_signed fc value b = Some b' \<and> carries fc b (signed_text value) b'"
proof (cases "sint value < 0")
  case True
  obtain b' where "log_write_unsigned fc (0 - value) 10 (log_write_char fc 45 b) = Some b'"
    "carries fc (log_write_char fc 45 b) (numeral_text (0 - value) 10) b'"
    using log_write_unsigned_carries [OF assms, of 10 "0 - value"] by blast
  with carries_trans [OF log_write_char_carries [OF assms] this(2)] True show ?thesis
    by (simp add: log_write_signed_def signed_text_def)
next
  case False
  with log_write_unsigned_carries [OF assms, of 10 "value" b] show ?thesis
    by (simp add: log_write_signed_def signed_text_def)
qed

definition conversion_text :: "byte \<Rightarrow> log_arg list \<Rightarrow> (log_arg list \<times> byte list) option" where
  "conversion_text spec args =
     (if spec = of_char CHR ''s'' then
        (case args of Arg_str s # args \<Rightarrow> Some (args, case s of None \<Rightarrow> str_bytes ''(null)'' | Some text \<Rightarrow> text)
         | _ \<Rightarrow> None)
      else if spec = of_char CHR ''u'' then
        (case args of Arg_unsigned v # args \<Rightarrow> Some (args, numeral_text v 10) | _ \<Rightarrow> None)
      else if spec = of_char CHR ''d'' then
        (case args of Arg_int v # args \<Rightarrow> Some (args, signed_text v) | _ \<Rightarrow> None)
      else if spec = of_char CHR ''x'' then
        (case args of Arg_unsigned v # args \<Rightarrow> Some (args, numeral_text v 16) | _ \<Rightarrow> None)
      else if spec = of_char CHR ''c'' then
        (case args of Arg_int v # args \<Rightarrow> Some (args, [ucast v]) | _ \<Rightarrow> None)
      else if spec = 37 then Some (args, [37])
      else Some (args, [37, spec]))"

fun format_text :: "byte list \<Rightarrow> log_arg list \<Rightarrow> byte list option" where
  "format_text [] args = Some []"
| "format_text (c # fmt) args =
     (if c \<noteq> 37 then map_option ((#) c) (format_text fmt args)
      else case fmt of
        [] \<Rightarrow> Some [37]
      | spec # fmt \<Rightarrow>
          Option.bind (conversion_text spec args) (\<lambda>(args, t). map_option ((@) t) (format_text fmt args)))"

lemma log_conversion_carries:
  assumes ok: "firmware_config_ok fc" and t: "conversion_text spec args = Some (args', t)"
  shows "\<exists>b'. log_conversion fc spec args b = Some (args', b') \<and> carries fc b t b'"
  using t log_write_char_carries [OF ok] log_write_str_carries [OF ok]
    log_write_unsigned_carries [OF ok] log_write_signed_carries [OF ok]
    carries_trans [OF log_write_char_carries [OF ok] log_write_char_carries [OF ok], of b 37 spec]
  unfolding conversion_text_def log_conversion_def
  by (fastforce split: if_splits list.splits log_arg.splits simp del: str_bytes_Cons)

lemma vemit_loop_carries:
  assumes ok: "firmware_config_ok fc"
  shows "format_text fmt args = Some text \<Longrightarrow>
    \<exists>b'. vemit_loop fc fmt args b = Some b' \<and> carries fc b text b'"
proof (induction fmt args arbitrary: "text" b rule: format_text.induct)
  case (2 c fmt args)
  show ?case
  proof (cases "c = 37")
    case False
    with 2(3) obtain t where t: "format_text fmt args = Some t" "text = c # t" by auto
    from 2(1) [OF False this(1)] obtain b' where
      "vemit_loop fc fmt args (log_write_char fc c b) = Some b'" "carries fc (log_write_char fc c b) t b'" by blast
    with False t carries_trans [OF log_write_char_carries [OF ok] this(2)] show ?thesis by simp
  next
    case c: True
    show ?thesis
    proof (cases fmt)
      case Nil
      with 2(3) c log_write_char_carries [OF ok, of b 37] show ?thesis by auto
    next
      case f: (Cons spec rest)
      with 2(3) c obtain args' t1 t2 where t: "conversion_text spec args = Some (args', t1)"
        "format_text rest args' = Some t2" "text = t1 @ t2"
        by (auto simp: bind_eq_Some_conv)
      obtain b1 where b1: "log_conversion fc spec args b = Some (args', b1)" "carries fc b t1 b1"
        using log_conversion_carries [OF ok t(1)] by blast
      from 2(2) [OF _ f t(1) refl, of t2 b1] c t(2) obtain b2 where
        "vemit_loop fc rest args' b1 = Some b2" "carries fc b1 t2 b2" by auto
      with c f b1 carries_trans [OF b1(2) this(2)] t(3) show ?thesis by simp
    qed
  qed
qed simp

text \<open>A whole line.\<close>

lemma log_emit_carries:
  assumes ok: "firmware_config_ok fc" and t: "format_text fmt args = Some text"
  shows "\<exists>b'. mc_log_emit fc level fmt args b = Some b' \<and> carries fc b (91 # level @ [93, 32] @ text @ log_crlf) b'"
proof -
  obtain b1 where b1: "vemit_loop fc fmt args (log_write_prefix fc level b) = Some b1"
    "carries fc (log_write_prefix fc level b) text b1"
    using vemit_loop_carries [OF ok t] by blast
  from carries_trans [OF carries_trans [OF log_write_prefix_carries [OF ok] b1(2)]
      log_write_str_carries [OF ok, of _ "Some log_crlf"]] b1(1)
  show ?thesis by (simp add: mc_log_emit_def mc_log_vemit_def)
qed

lemma hexdump_step_bridge:
  assumes ok: "firmware_config_ok fc"
  shows "\<exists>b'. hexdump_step fc level label data i b = Some b' \<and> bridge_sent fc b' = bridge_sent fc b"
proof -
  have w: "bridge_sent fc (log_write_char fc c b) = bridge_sent fc b"
    "bridge_sent fc (log_write_str fc s b) = bridge_sent fc b" for c s b
    using ok by (simp_all add: log_write_char_def log_write_str_def)
  have n: "\<exists>b'. log_write_unsigned fc v 10 b = Some b' \<and> bridge_sent fc b' = bridge_sent fc b" for v b
    using log_write_unsigned_carries [OF ok, of 10] by (auto simp: carries_def)
  obtain b1 where b1: "(if i mod 16 = 0 then
          map_option (log_write_str fc (Some (str_bytes '': '')))
            (log_write_unsigned fc (of_nat i) 10
              (log_write_str fc (Some (str_bytes ''+''))
                (log_write_str fc (Some label) (log_write_prefix fc level b))))
        else Some (log_write_char fc 32 b)) = Some b1" "bridge_sent fc b1 = bridge_sent fc b"
  proof (cases "i mod 16 = 0")
    case True
    obtain b2 where "log_write_unsigned fc (of_nat i) 10 (log_write_str fc (Some (str_bytes ''+''))
        (log_write_str fc (Some label) (log_write_prefix fc level b))) = Some b2" "bridge_sent fc b2 = bridge_sent fc b"
      using n [of "of_nat i" "log_write_str fc (Some (str_bytes ''+'')) (log_write_str fc (Some label) (log_write_prefix fc level b))"]
      by (auto simp: w log_write_prefix_def)
    with True that show ?thesis by (simp add: w del: str_bytes_Cons)
  qed (use that w in simp)
  then show ?thesis unfolding hexdump_step_def by (auto simp: Let_def w log_write_hex_byte_def)
qed

lemma hexdump_loop_bridge:
  assumes ok: "firmware_config_ok fc"
  shows "\<exists>b'. hexdump_loop fc level label data is b = Some b' \<and> bridge_sent fc b' = bridge_sent fc b"
proof (induction "is" arbitrary: b)
  case (Cons i "is")
  with hexdump_step_bridge [OF ok, of level label data i b] show ?case by fastforce
qed simp

section \<open>Log calls are safe\<close>

text \<open>A log call returns and leaves the bridge UART alone.\<close>

definition log_safe :: "firmware_config \<Rightarrow> (bus \<Rightarrow> bus option) \<Rightarrow> bool" where
  "log_safe fc f \<longleftrightarrow> (\<forall>b. \<exists>b'. f b = Some b' \<and> bridge_sent fc b' = bridge_sent fc b)"

lemma log_emit_safe:
  "firmware_config_ok fc \<Longrightarrow> format_text fmt args = Some text \<Longrightarrow> log_safe fc (mc_log_emit fc level fmt args)"
  unfolding log_safe_def using log_emit_carries by (fastforce simp: carries_def)

lemma MC_LOGI_safe:
  "firmware_config_ok fc \<Longrightarrow> format_text fmt args \<noteq> None \<Longrightarrow> log_safe fc (MC_LOGI fc fmt args)"
  using log_emit_safe by (auto simp: MC_LOGI_def log_safe_def)

lemma MC_LOGD_safe:
  "firmware_config_ok fc \<Longrightarrow> format_text fmt args \<noteq> None \<Longrightarrow> log_safe fc (MC_LOGD fc fmt args)"
  using log_emit_safe by (auto simp: MC_LOGD_def log_safe_def)

lemma hexdump_format: "format_text (str_bytes ''%s len=%u'') [Arg_str (Some label), Arg_unsigned n] \<noteq> None"
  by (simp add: conversion_text_def)

lemma log_hexdump_safe:
  assumes ok: "firmware_config_ok fc" shows "log_safe fc (mc_log_hexdump fc level label data)"
proof -
  obtain t where "format_text (str_bytes ''%s len=%u'') [Arg_str (Some label), Arg_unsigned (of_nat (length data))] = Some t"
    using hexdump_format by blast
  from log_emit_safe [OF ok this, of level] show ?thesis
    using hexdump_loop_bridge [OF ok, of level label data "[0..<length data]"]
    unfolding log_safe_def mc_log_hexdump_def by (metis bind.bind_lunit)
qed

lemma MC_LOGT_HEXDUMP_safe: "firmware_config_ok fc \<Longrightarrow> log_safe fc (MC_LOGT_HEXDUMP fc label data)"
  using log_hexdump_safe [of fc "str_bytes ''T''" label data] by (auto simp: MC_LOGT_HEXDUMP_def log_safe_def)

section \<open>Properties\<close>

text \<open>A number is logged correctly in both bases: the loop ends, at most 32 digits are stored, so
  the buffer of 32 characters is never overrun, the characters sent on UART 0 are a numeral of the
  number without leading zero, and nothing goes to the bridge.\<close>

theorem log_unsigned_numeral:
  assumes "firmware_config_ok fc" "base = 10 \<or> base = 16"
  shows "\<exists>digits b'. unsigned_digits value base = Some digits \<and> length digits \<le> 32 \<and>
    digits_value (unat base) digits = unat value \<and> (value \<noteq> 0 \<longrightarrow> digits \<noteq> [] \<and> last digits \<noteq> 48) \<and>
    log_write_unsigned fc value base b = Some b' \<and> bridge_sent fc b' = bridge_sent fc b \<and>
    (fc_log_uart_id fc = 0 \<longrightarrow> log_sent fc b' = log_sent fc b @ (if value = 0 then [48] else rev digits))"
proof -
  have "2 \<le> base" "base \<le> 16" using assms(2) by auto
  then obtain digits where d: "unsigned_digits value base = Some digits" "length digits \<le> 32"
    "digits_value (unat base) digits = unat value" "value \<noteq> 0 \<longrightarrow> digits \<noteq> [] \<and> last digits \<noteq> 48"
    by (rule unsigned_digits_32)
  obtain b' where b': "log_write_unsigned fc value base b = Some b'" "carries fc b (numeral_text value base) b'"
    using log_write_unsigned_carries [OF assms] by blast
  have "numeral_text value base = (if value = 0 then [48] else rev digits)"
    by (simp add: numeral_text_def d(1))
  with d b' show ?thesis by (auto simp: carries_def)
qed

theorem log_unsigned_numeral_witness:
  "\<exists>digits. unsigned_digits 4096 16 = Some digits \<and> digits_value 16 digits = 4096"
  using log_unsigned_numeral [of "default_firmware_config 72 False" 16 4096]
  by (auto simp: firmware_config_ok_def default_firmware_config_def)

end
