(* ===== verification/ActivityLed.thy ===== *)
theory ActivityLed
  imports Prelude
begin

text \<open>
  The activity light of the firmware: the shadowed GPIO port of firmware/platform_gpio0.c, the
  active-low light on its bit 0 (firmware/platform_activity_led.c) and the blinking by traffic class
  of firmware/mc_activity_led.c. The state holds the static variables of the three files and the two
  hardware registers the RISC-V build writes. Tick counters are 32-bit words that wrap around;
  \<open>MC_SERVER_TICKS_PER_SECOND\<close> and \<open>MC_UART_ACTIVITY_LED_ENABLE\<close> are arguments.
\<close>

section \<open>The GPIO port\<close>

abbreviation PLATFORM_GPIO0_BIT_0 :: u32 where "PLATFORM_GPIO0_BIT_0 \<equiv> 0x00000001"
abbreviation PLATFORM_GPIO0_BIT_15 :: u32 where "PLATFORM_GPIO0_BIT_15 \<equiv> 0x00008000"

record gpio0 =
  gpio0_ddr_shadow :: u32
  gpio0_dr_shadow :: u32
  gpio0_data_writes :: u32
  reg_gpio_0_ddr :: u32
  reg_gpio_0_dr :: u32

definition platform_gpio0_write_direction :: "gpio0 \<Rightarrow> gpio0" where
  "platform_gpio0_write_direction g = g\<lparr>reg_gpio_0_ddr := gpio0_ddr_shadow g\<rparr>"

definition platform_gpio0_write_data :: "gpio0 \<Rightarrow> gpio0" where
  "platform_gpio0_write_data g = g\<lparr>reg_gpio_0_dr := gpio0_dr_shadow g\<rparr>"

definition platform_gpio0_reset_shadow :: "u32 \<Rightarrow> u32 \<Rightarrow> gpio0 \<Rightarrow> gpio0" where
  "platform_gpio0_reset_shadow ddr dr g =
     platform_gpio0_write_data (platform_gpio0_write_direction
       (g\<lparr>gpio0_ddr_shadow := ddr, gpio0_dr_shadow := dr, gpio0_data_writes := 0\<rparr>))"

definition platform_gpio0_set_direction_output :: "u32 \<Rightarrow> gpio0 \<Rightarrow> gpio0" where
  "platform_gpio0_set_direction_output bits g =
     platform_gpio0_write_direction (g\<lparr>gpio0_ddr_shadow := gpio0_ddr_shadow g AND NOT bits\<rparr>)"

definition platform_gpio0_set_level_mask :: "u32 \<Rightarrow> u32 \<Rightarrow> gpio0 \<Rightarrow> gpio0" where
  "platform_gpio0_set_level_mask bits value_bits g =
     platform_gpio0_write_data
       (g\<lparr>gpio0_dr_shadow := (gpio0_dr_shadow g AND NOT bits) OR (value_bits AND bits),
          gpio0_data_writes := gpio0_data_writes g + 1\<rparr>)"

definition platform_gpio0_ddr_shadow :: "gpio0 \<Rightarrow> u32" where
  "platform_gpio0_ddr_shadow g = gpio0_ddr_shadow g"

definition platform_gpio0_dr_shadow :: "gpio0 \<Rightarrow> u32" where
  "platform_gpio0_dr_shadow g = gpio0_dr_shadow g"

definition platform_gpio0_data_write_count :: "gpio0 \<Rightarrow> u32" where
  "platform_gpio0_data_write_count g = gpio0_data_writes g"

section \<open>The light\<close>

definition platform_activity_led_init :: "gpio0 \<Rightarrow> gpio0" where
  "platform_activity_led_init g =
     platform_gpio0_set_level_mask PLATFORM_GPIO0_BIT_0 PLATFORM_GPIO0_BIT_0
       (platform_gpio0_set_direction_output PLATFORM_GPIO0_BIT_0 g)"

definition platform_activity_led_set :: "bool \<Rightarrow> gpio0 \<Rightarrow> gpio0" where
  "platform_activity_led_set on g =
     platform_gpio0_set_level_mask PLATFORM_GPIO0_BIT_0 (if on then 0 else PLATFORM_GPIO0_BIT_0) g"

section \<open>Blinking by traffic class\<close>

datatype mc_activity_led_class =
    MC_ACTIVITY_LED_CLASS_IDLE
  | MC_ACTIVITY_LED_CLASS_LOW
  | MC_ACTIVITY_LED_CLASS_MEDIUM
  | MC_ACTIVITY_LED_CLASS_HIGH

record activity_led =
  activity_led_sample_start_ticks :: u32
  activity_led_phase_start_ticks :: u32
  activity_led_window_bytes :: u32
  activity_led_class :: mc_activity_led_class
  activity_led_on :: bool
  activity_led_port :: gpio0

abbreviation MC_ACTIVITY_LED_LOW_MAX_BYTES :: u32 where "MC_ACTIVITY_LED_LOW_MAX_BYTES \<equiv> 64"
abbreviation MC_ACTIVITY_LED_MEDIUM_MAX_BYTES :: u32 where "MC_ACTIVITY_LED_MEDIUM_MAX_BYTES \<equiv> 512"

definition classify_bytes :: "u32 \<Rightarrow> mc_activity_led_class" where
  "classify_bytes bytes =
     (if bytes = 0 then MC_ACTIVITY_LED_CLASS_IDLE
      else if bytes \<le> MC_ACTIVITY_LED_LOW_MAX_BYTES then MC_ACTIVITY_LED_CLASS_LOW
      else if bytes \<le> MC_ACTIVITY_LED_MEDIUM_MAX_BYTES then MC_ACTIVITY_LED_CLASS_MEDIUM
      else MC_ACTIVITY_LED_CLASS_HIGH)"

fun class_half_period :: "u32 \<Rightarrow> mc_activity_led_class \<Rightarrow> u32" where
  "class_half_period ticks_per_second MC_ACTIVITY_LED_CLASS_LOW = ticks_per_second div 2"
| "class_half_period ticks_per_second MC_ACTIVITY_LED_CLASS_MEDIUM = ticks_per_second div 6"
| "class_half_period ticks_per_second MC_ACTIVITY_LED_CLASS_HIGH = ticks_per_second div 12"
| "class_half_period ticks_per_second MC_ACTIVITY_LED_CLASS_IDLE = 0"

definition set_led :: "bool \<Rightarrow> activity_led \<Rightarrow> activity_led" where
  "set_led on led =
     (if activity_led_on led = on then led
      else led\<lparr>activity_led_on := on, activity_led_port := platform_activity_led_set on (activity_led_port led)\<rparr>)"

definition apply_class :: "u32 \<Rightarrow> mc_activity_led_class \<Rightarrow> u32 \<Rightarrow> activity_led \<Rightarrow> activity_led" where
  "apply_class ticks_per_second next_class now_ticks led =
     (if next_class = MC_ACTIVITY_LED_CLASS_IDLE then set_led False (led\<lparr>activity_led_class := next_class\<rparr>)
      else if next_class \<noteq> activity_led_class led then
        set_led True (led\<lparr>activity_led_class := next_class, activity_led_phase_start_ticks := now_ticks\<rparr>)
      else
        let half_period = class_half_period ticks_per_second (activity_led_class led);
            elapsed_ticks = now_ticks - activity_led_phase_start_ticks led
        in if half_period > 0 \<and> half_period \<le> elapsed_ticks then
             let half_periods = elapsed_ticks div half_period;
                 led = led\<lparr>activity_led_phase_start_ticks :=
                             activity_led_phase_start_ticks led + half_periods * half_period\<rparr>
             in if half_periods AND 1 \<noteq> 0 then set_led (\<not> activity_led_on led) led else led
           else led)"

definition mc_activity_led_init :: "bool \<Rightarrow> u32 \<Rightarrow> activity_led \<Rightarrow> activity_led" where
  "mc_activity_led_init led_enable now_ticks led =
     (if \<not> led_enable then led
      else \<lparr>activity_led_sample_start_ticks = now_ticks, activity_led_phase_start_ticks = now_ticks,
            activity_led_window_bytes = 0, activity_led_class = MC_ACTIVITY_LED_CLASS_IDLE,
            activity_led_on = False, activity_led_port = platform_activity_led_init (activity_led_port led)\<rparr>)"

definition mc_activity_led_observe_bytes :: "bool \<Rightarrow> nat \<Rightarrow> activity_led \<Rightarrow> activity_led" where
  "mc_activity_led_observe_bytes led_enable bytes led =
     (if \<not> led_enable then led
      else led\<lparr>activity_led_window_bytes := activity_led_window_bytes led + of_nat bytes\<rparr>)"

definition mc_activity_led_tick :: "bool \<Rightarrow> u32 \<Rightarrow> u32 \<Rightarrow> activity_led \<Rightarrow> activity_led" where
  "mc_activity_led_tick led_enable ticks_per_second now_ticks led =
     (if \<not> led_enable then led
      else if ticks_per_second div 10 \<le> now_ticks - activity_led_sample_start_ticks led then
        (apply_class ticks_per_second (classify_bytes (activity_led_window_bytes led)) now_ticks
          (led\<lparr>activity_led_sample_start_ticks := now_ticks\<rparr>))\<lparr>activity_led_window_bytes := 0\<rparr>
      else apply_class ticks_per_second (activity_led_class led) now_ticks led)"

section \<open>The port shows the state\<close>

text \<open>The register mirrors its shadow and bit 0 is low exactly while the light is on.\<close>

definition led_ok :: "activity_led \<Rightarrow> bool" where
  "led_ok led \<longleftrightarrow> reg_gpio_0_dr (activity_led_port led) = gpio0_dr_shadow (activity_led_port led) \<and>
     (bit (reg_gpio_0_dr (activity_led_port led)) 0 \<longleftrightarrow> \<not> activity_led_on led)"

definition led_lit :: "activity_led \<Rightarrow> bool" where
  "led_lit led \<longleftrightarrow> \<not> bit (reg_gpio_0_dr (activity_led_port led)) 0"

lemma set_level_mask_bit:
  "bit (reg_gpio_0_dr (platform_gpio0_set_level_mask bits v g)) n \<longleftrightarrow>
     (if bit bits n then bit v n else bit (gpio0_dr_shadow g) n)"
  by (cases "n < 32") (auto simp: platform_gpio0_set_level_mask_def platform_gpio0_write_data_def bit_simps
      dest: bit_imp_le_length)

lemma set_level_mask_shadow:
  "gpio0_dr_shadow (platform_gpio0_set_level_mask bits v g) = reg_gpio_0_dr (platform_gpio0_set_level_mask bits v g)"
  by (simp add: platform_gpio0_set_level_mask_def platform_gpio0_write_data_def)

lemma set_led_ok: "led_ok led \<Longrightarrow> led_ok (set_led on led)"
  by (auto simp: led_ok_def set_led_def platform_activity_led_set_def set_level_mask_bit set_level_mask_shadow)

lemma set_led_on [simp]: "activity_led_on (set_led on led) = on"
  by (simp add: set_led_def)

lemma set_led_frame [simp]:
  "activity_led_class (set_led on led) = activity_led_class led"
  "activity_led_phase_start_ticks (set_led on led) = activity_led_phase_start_ticks led"
  "activity_led_sample_start_ticks (set_led on led) = activity_led_sample_start_ticks led"
  by (simp_all add: set_led_def)

lemma led_ok_fields [simp]:
  "led_ok (led\<lparr>activity_led_class := c\<rparr>) = led_ok led"
  "led_ok (led\<lparr>activity_led_phase_start_ticks := t\<rparr>) = led_ok led"
  "led_ok (led\<lparr>activity_led_sample_start_ticks := t\<rparr>) = led_ok led"
  "led_ok (led\<lparr>activity_led_window_bytes := n\<rparr>) = led_ok led"
  by (simp_all add: led_ok_def)

lemma apply_class_ok: "led_ok led \<Longrightarrow> led_ok (apply_class tps c now led)"
  by (auto simp: apply_class_def Let_def intro!: set_led_ok)

lemma apply_class_class [simp]: "activity_led_class (apply_class tps c now led) = c"
  by (auto simp: apply_class_def Let_def)

lemma led_tick_ok: "led_ok led \<Longrightarrow> led_ok (mc_activity_led_tick en tps now led)"
  by (auto simp: mc_activity_led_tick_def intro!: apply_class_ok)

lemma led_observe_ok: "led_ok led \<Longrightarrow> led_ok (mc_activity_led_observe_bytes en n led)"
  by (simp add: mc_activity_led_observe_bytes_def)

lemma led_init_ok: "led_ok (mc_activity_led_init True now led)"
  by (auto simp: mc_activity_led_init_def led_ok_def platform_activity_led_init_def set_level_mask_bit
      set_level_mask_shadow)

section \<open>Blinking\<close>

text \<open>
  Some time after a traffic class was entered at \<open>t0\<close>, with \<open>k\<close> half-periods behind it: the phase
  starts at the last multiple of the half-period and the light is on in the even ones.
\<close>

definition blinking :: "mc_activity_led_class \<Rightarrow> u32 \<Rightarrow> nat \<Rightarrow> nat \<Rightarrow> activity_led \<Rightarrow> bool" where
  "blinking c t0 half k led \<longleftrightarrow> led_ok led \<and> activity_led_class led = c \<and> (activity_led_on led \<longleftrightarrow> even k) \<and>
     activity_led_phase_start_ticks led = t0 + of_nat (k * half)"

lemma word_and_one_iff: "(w :: u32) AND 1 \<noteq> 0 \<longleftrightarrow> odd (unat w)"
  using bit_unsigned_iff [of w 0, where 'a = nat] by (simp add: and_one_eq bit_0 mod2_eq_if)

lemma apply_class_blinking:
  assumes "blinking c t0 half k led" "c \<noteq> MC_ACTIVITY_LED_CLASS_IDLE" "half = unat (class_half_period tps c)"
    "0 < half" "k * half \<le> off" "off - k * half < 2 ^ 32"
  shows "blinking c t0 half (off div half) (apply_class tps c (t0 + of_nat off) led)"
proof -
  let ?h = "class_half_period tps c" and ?e = "off - k * half"
  let ?el = "(t0 + of_nat off) - activity_led_phase_start_ticks led"
  have st: "led_ok led" "activity_led_class led = c" "activity_led_on led \<longleftrightarrow> even k"
    "activity_led_phase_start_ticks led = t0 + of_nat (k * half)"
    using assms(1) by (simp_all add: blinking_def)
  have "?el = of_nat ?e" using assms(5) by (simp add: st(4) of_nat_diff)
  then have el: "unat ?el = ?e" using assms(6) by (simp add: unat_of_nat take_bit_nat_eq_self)
  have div: "off div half = k + ?e div half"
  proof -
    have "off = ?e + k * half" using assms(5) by simp
    then show ?thesis using assms(4) by (metis add.commute div_mult_self1 gr_implies_not0)
  qed
  have hp: "0 < ?h" "?h \<le> ?el \<longleftrightarrow> half \<le> ?e" using assms(3,4) el
    by (simp_all add: word_less_nat_alt word_le_nat_alt)
  have q: "unat (?el div ?h) = ?e div half" by (simp add: unat_div el assms(3))
  have odd_q: "(?el div ?h) AND 1 \<noteq> 0 \<longleftrightarrow> odd (?e div half)"
    by (simp only: word_and_one_iff q)
  show ?thesis
  proof (cases "half \<le> ?e")
    case False
    then have "off div half = k" by (simp add: div)
    with False assms(2) st hp show ?thesis by (simp add: apply_class_def blinking_def Let_def)
  next
    case True
    have "of_nat (?e div half) = ?el div ?h" unfolding q [symmetric] by simp
    then have "(?el div ?h) * ?h = of_nat (?e div half * half)" by (simp add: assms(3))
    then have ph: "t0 + of_nat (k * half) + (?el div ?h) * ?h = t0 + of_nat (off div half * half)"
      by (simp add: div algebra_simps)
    show ?thesis
      using True assms(2) st hp odd_q ph by (simp add: apply_class_def blinking_def Let_def div set_led_ok)
  qed
qed

text \<open>
  A run of the main loop as the light sees it: the bytes observed in each round and the tick count,
  given by its distance from \<open>t0\<close>, at the end of the round.
\<close>

definition led_round :: "u32 \<Rightarrow> u32 \<Rightarrow> nat \<times> nat \<Rightarrow> activity_led \<Rightarrow> activity_led" where
  "led_round tps t0 = (\<lambda>(bytes, off) led.
     mc_activity_led_tick True tps (t0 + of_nat off) (mc_activity_led_observe_bytes True bytes led))"

lemma blinking_fields [simp]:
  "blinking c t0 half k (led\<lparr>activity_led_sample_start_ticks := t\<rparr>) = blinking c t0 half k led"
  "blinking c t0 half k (led\<lparr>activity_led_window_bytes := n\<rparr>) = blinking c t0 half k led"
  by (simp_all add: blinking_def)

lemma led_round_blinking:
  assumes "blinking c t0 half k led" "c \<noteq> MC_ACTIVITY_LED_CLASS_IDLE" "half = unat (class_half_period tps c)"
    "0 < half" "k * half \<le> off" "off - k * half < 2 ^ 32" "activity_led_class (led_round tps t0 (bytes, off) led) = c"
  shows "blinking c t0 half (off div half) (led_round tps t0 (bytes, off) led)"
  using apply_class_blinking [OF _ assms(2-6)] assms(1,7)
  by (auto simp: led_round_def mc_activity_led_tick_def mc_activity_led_observe_bytes_def blinking_def)

lemma half_period_small:
  assumes "12 \<le> tps" "c \<noteq> MC_ACTIVITY_LED_CLASS_IDLE"
  shows "0 < unat (class_half_period tps c) \<and> unat (class_half_period tps c) \<le> 2 ^ 31"
proof -
  have t: "12 \<le> unat tps" "unat tps < 2 ^ 32" using assms(1) unsigned_less [of tps, where 'a = nat]
    by (simp_all add: word_le_nat_alt)
  then show ?thesis using assms(2) by (cases c) (auto simp: unat_div div_greater_zero_iff)
qed

lemma led_rounds_blinking:
  assumes "blinking c t0 half k led" "c \<noteq> MC_ACTIVITY_LED_CLASS_IDLE" "half = unat (class_half_period tps c)"
    "12 \<le> tps" "k = prev div half" "sorted (prev # map snd rounds)"
    "successively (\<lambda>a b. b - a < 2 ^ 31) (prev # map snd rounds)"
    "\<forall>n \<le> length rounds. activity_led_class (fold (led_round tps t0) (take n rounds) led) = c"
  shows "blinking c t0 half (last (prev # map snd rounds) div half) (fold (led_round tps t0) rounds led)"
  using assms
proof (induction rounds arbitrary: led k prev)
  case (Cons r rounds)
  obtain bytes off where r: "r = (bytes, off)" by fastforce
  note h = half_period_small [OF Cons.prems(4,2), folded Cons.prems(3)]
  have le: "k * half \<le> off" using Cons.prems(5,6) r order_trans [OF div_times_less_eq_dividend [of prev half]] by auto
  have "prev - k * half < half"
    using h Cons.prems(5) by (simp add: minus_div_mult_eq_mod)
  moreover have "off - prev < 2 ^ 31" "prev \<le> off" using Cons.prems(6,7) r by simp_all
  ultimately have gap: "off - k * half < 2 ^ 32" using h by simp
  have "activity_led_class (led_round tps t0 (bytes, off) led) = c"
    using Cons.prems(8) [rule_format, of 1] r by simp
  with led_round_blinking [OF Cons.prems(1-3) conjunct1 [OF h] le gap]
  have b: "blinking c t0 half (off div half) (led_round tps t0 r led)" by (simp add: r)
  have "\<forall>n \<le> length rounds. activity_led_class (fold (led_round tps t0) (take n rounds) (led_round tps t0 r led)) = c"
    using Cons.prems(8) by (metis Suc_le_mono fold_simps(2) length_Cons take_Suc_Cons)
  moreover have "sorted (off # map snd rounds)" "successively (\<lambda>a b. b - a < 2 ^ 31) (off # map snd rounds)"
    using Cons.prems(6,7) r by simp_all
  ultimately show ?case using Cons.IH [OF b Cons.prems(2,3,4) refl] r by simp
qed simp

section \<open>Properties\<close>



end
