(* ===== verification/Psram.thy ===== *)
theory Psram
  imports Platform ActivityLed
begin

text \<open>
  The external memory of the firmware, firmware/platform_psram.c: its initialisation over the QSPI
  registers and the flow test, which fills the memory with a pattern and checks it, also after a reset.
  The memory is a list of 32-bit words that starts at the base address. What a cell holds after a write
  is up to the device: \<open>store i v\<close> is the word that cell \<open>i\<close> keeps when \<open>v\<close> is written, \<open>v\<close> itself
  in a sound memory.
\<close>

abbreviation PLATFORM_PSRAM_BASE_ADDR :: nat where "PLATFORM_PSRAM_BASE_ADDR \<equiv> 0x40000000"
abbreviation PLATFORM_PSRAM_TOTAL_BYTES :: nat where "PLATFORM_PSRAM_TOTAL_BYTES \<equiv> 8 * 1024 * 1024"
abbreviation PLATFORM_PSRAM_TEST_SEED :: u32 where "PLATFORM_PSRAM_TEST_SEED \<equiv> 0x12345678"
abbreviation PLATFORM_PSRAM_QSPI_TIMEOUT_LOOPS :: nat where "PLATFORM_PSRAM_QSPI_TIMEOUT_LOOPS \<equiv> 1000000"

datatype platform_psram_stage =
    PLATFORM_PSRAM_STAGE_NONE
  | PLATFORM_PSRAM_STAGE_INIT
  | PLATFORM_PSRAM_STAGE_FILL
  | PLATFORM_PSRAM_STAGE_VERIFY

record platform_psram_test_result =
  psr_ok :: bool
  psr_stage :: platform_psram_stage
  psr_bytes :: u32
  psr_offset :: u32
  psr_expected :: u32
  psr_actual :: u32

section \<open>The pattern\<close>

definition platform_psram_base :: nat where
  "platform_psram_base = PLATFORM_PSRAM_BASE_ADDR"

definition platform_psram_size :: nat where
  "platform_psram_size = PLATFORM_PSRAM_TOTAL_BYTES"

definition platform_psram_pattern_word :: "nat \<Rightarrow> u32 \<Rightarrow> u32" where
  "platform_psram_pattern_word offset seed =
     (let word_index = of_nat (offset div 4) in (seed XOR 0xa5a50000) XOR (word_index * 0x0000a5b9))"

definition platform_psram_fill_pattern ::
    "(nat \<Rightarrow> u32 \<Rightarrow> u32) \<Rightarrow> nat \<Rightarrow> u32 \<Rightarrow> u32 list \<Rightarrow> u32 list" where
  "platform_psram_fill_pattern store bytes seed mem =
     fold (\<lambda>i mem. mem[i := store i (platform_psram_pattern_word (i * 4) seed)]) [0..<bytes div 4] mem"

text \<open>The loop of the check from word \<open>i\<close> on, \<open>n\<close> words to go: the index of the first wrong word.\<close>

fun check_words :: "u32 list \<Rightarrow> u32 \<Rightarrow> nat \<Rightarrow> nat \<Rightarrow> nat option" where
  "check_words mem seed i 0 = None"
| "check_words mem seed i (Suc n) =
     (if mem ! i \<noteq> platform_psram_pattern_word (i * 4) seed then Some i else check_words mem seed (i + 1) n)"

text \<open>The result and the wrong word, if there is one; no memory at all is the null pointer.\<close>

definition platform_psram_check_pattern :: "u32 list option \<Rightarrow> nat \<Rightarrow> u32 \<Rightarrow> bool \<times> nat option" where
  "platform_psram_check_pattern base bytes seed =
     (case base of
        None \<Rightarrow> (False, None)
      | Some mem \<Rightarrow>
          if bytes = 0 \<or> bytes mod 4 \<noteq> 0 then (False, None)
          else case check_words mem seed 0 (bytes div 4) of
                 None \<Rightarrow> (True, None)
               | Some i \<Rightarrow> (False, Some i))"

section \<open>Initialisation\<close>

fun wait_qspi_ready :: "nat \<Rightarrow> bus \<Rightarrow> bool \<times> bus" where
  "wait_qspi_ready 0 b = (False, b)"
| "wait_qspi_ready (Suc n) b =
     (case reg_read REG_QSPI_0_STATUS b of (status, b) \<Rightarrow> if status = 1 then (True, b) else wait_qspi_ready n b)"

definition platform_psram_wait_qspi_ready :: "bus \<Rightarrow> bool \<times> bus" where
  "platform_psram_wait_qspi_ready b = wait_qspi_ready PLATFORM_PSRAM_QSPI_TIMEOUT_LOOPS b"

definition platform_psram_qspi_write8 :: "byte \<Rightarrow> bus \<Rightarrow> bool \<times> bus" where
  "platform_psram_qspi_write8 command b =
     platform_psram_wait_qspi_ready
       (reg_write REG_QSPI_0_STATUS 0x102
         (reg_write REG_QSPI_0_TXFIFO (push_bit 24 (ucast command)) (reg_write REG_QSPI_0_LEN 0x80000 b)))"

definition platform_psram_init :: "firmware_config \<Rightarrow> bus \<Rightarrow> gpio0 \<Rightarrow> bool \<times> bus \<times> gpio0" where
  "platform_psram_init fc b g =
     (if fc_psram_enable fc \<or> fc_psram_flow_test fc then
        let b = reg_write REG_QSPI_0_CLKDIV 1 (reg_write REG_QSPI_0_DUM 0 (reg_write REG_QSPI_0_INTCFG 0
                  (reg_write REG_QSPI_0_STATUS 0 (reg_write REG_QSPI_0_STATUS 16 b))));
            g = platform_gpio0_reset_shadow 0 0 g;
            b = reg_write REG_PSRAM_0_CHD 4 (reg_write REG_PSRAM_0_WC 18 b)
        in case c_all (map platform_psram_qspi_write8 [0x66, 0x99, 0x35]) b of
             (ok, b) \<Rightarrow>
               if \<not> ok then (False, b, g)
               else (True, reg_write REG_PSRAM_0_CHD 0 (reg_write REG_PSRAM_0_WC 8 b),
                     platform_gpio0_set_level_mask PLATFORM_GPIO0_BIT_15 PLATFORM_GPIO0_BIT_15 g)
      else (True, b, g))"

section \<open>The flow test\<close>

definition platform_psram_make_result ::
    "firmware_config \<Rightarrow> u32 list \<Rightarrow> bool \<Rightarrow> platform_psram_stage \<Rightarrow> nat option \<Rightarrow> platform_psram_test_result" where
  "platform_psram_make_result fc mem ok stage bad_word =
     (let result = \<lparr>psr_ok = ok, psr_stage = stage, psr_bytes = of_nat (fc_psram_flow_test_bytes fc),
                    psr_offset = 0, psr_expected = 0, psr_actual = 0\<rparr>
      in case bad_word of
           None \<Rightarrow> result
         | Some i \<Rightarrow>
             let base_addr = PLATFORM_PSRAM_BASE_ADDR;
                 end_addr = base_addr + PLATFORM_PSRAM_TOTAL_BYTES;
                 bad_addr = base_addr + 4 * i
             in if \<not> ok \<and> base_addr \<le> bad_addr \<and> bad_addr < end_addr
                then result\<lparr>psr_offset := of_nat (bad_addr - base_addr),
                            psr_expected := platform_psram_pattern_word (unat (of_nat (bad_addr - base_addr) :: u32))
                                              PLATFORM_PSRAM_TEST_SEED,
                            psr_actual := mem ! i\<rparr>
                else result)"

definition platform_psram_flow_test_bytes_valid :: "firmware_config \<Rightarrow> bool" where
  "platform_psram_flow_test_bytes_valid fc \<longleftrightarrow>
     fc_psram_flow_test_bytes fc \<noteq> 0 \<and> fc_psram_flow_test_bytes fc \<le> PLATFORM_PSRAM_TOTAL_BYTES \<and>
     fc_psram_flow_test_bytes fc mod 4 = 0"

definition platform_psram_flow_test_prepare ::
    "firmware_config \<Rightarrow> (nat \<Rightarrow> u32 \<Rightarrow> u32) \<Rightarrow> u32 list \<Rightarrow> bus \<Rightarrow> gpio0 \<Rightarrow>
     platform_psram_test_result \<times> u32 list \<times> bus \<times> gpio0" where
  "platform_psram_flow_test_prepare fc store mem b g =
     (if \<not> platform_psram_flow_test_bytes_valid fc
      then (platform_psram_make_result fc mem False PLATFORM_PSRAM_STAGE_FILL None, mem, b, g)
      else case platform_psram_init fc b g of
        (ok, b, g) \<Rightarrow>
          if \<not> ok then (platform_psram_make_result fc mem False PLATFORM_PSRAM_STAGE_INIT None, mem, b, g)
          else
            let mem = platform_psram_fill_pattern store (fc_psram_flow_test_bytes fc) PLATFORM_PSRAM_TEST_SEED mem
            in case platform_psram_check_pattern (Some mem) (fc_psram_flow_test_bytes fc) PLATFORM_PSRAM_TEST_SEED of
                 (ok, bad_word) \<Rightarrow>
                   if \<not> ok
                   then (platform_psram_make_result fc mem False PLATFORM_PSRAM_STAGE_FILL bad_word, mem, b, g)
                   else (platform_psram_make_result fc mem True PLATFORM_PSRAM_STAGE_FILL None, mem, b, g))"

definition platform_psram_flow_test_verify_after_reset ::
    "firmware_config \<Rightarrow> u32 list \<Rightarrow> platform_psram_test_result" where
  "platform_psram_flow_test_verify_after_reset fc mem =
     (if \<not> platform_psram_flow_test_bytes_valid fc
      then platform_psram_make_result fc mem False PLATFORM_PSRAM_STAGE_VERIFY None
      else case platform_psram_check_pattern (Some mem) (fc_psram_flow_test_bytes fc) PLATFORM_PSRAM_TEST_SEED of
             (ok, bad_word) \<Rightarrow>
               if \<not> ok then platform_psram_make_result fc mem False PLATFORM_PSRAM_STAGE_VERIFY bad_word
               else platform_psram_make_result fc mem True PLATFORM_PSRAM_STAGE_VERIFY None)"

section \<open>What the test finds\<close>

definition pattern_at :: "u32 list \<Rightarrow> nat \<Rightarrow> bool" where
  "pattern_at mem i \<longleftrightarrow> mem ! i = platform_psram_pattern_word (4 * i) PLATFORM_PSRAM_TEST_SEED"

lemma check_words_None:
  "check_words mem PLATFORM_PSRAM_TEST_SEED i n = None \<longleftrightarrow> (\<forall>j. i \<le> j \<and> j < i + n \<longrightarrow> pattern_at mem j)"
proof (induction n arbitrary: i)
  case (Suc n)
  have "(\<forall>j. i \<le> j \<and> j < i + Suc n \<longrightarrow> pattern_at mem j) \<longleftrightarrow>
      pattern_at mem i \<and> (\<forall>j. Suc i \<le> j \<and> j < Suc i + n \<longrightarrow> pattern_at mem j)"
    by (auto simp: Suc_le_eq) (metis add_Suc_right le_neq_implies_less)
  with Suc show ?case by (simp add: pattern_at_def mult.commute)
qed auto

lemma check_words_Some:
  "check_words mem PLATFORM_PSRAM_TEST_SEED i n = Some k \<Longrightarrow>
   i \<le> k \<and> k < i + n \<and> \<not> pattern_at mem k \<and> (\<forall>j. i \<le> j \<and> j < k \<longrightarrow> pattern_at mem j)"
proof (induction n arbitrary: i)
  case (Suc n)
  show ?case
  proof (cases "pattern_at mem i")
    case True
    with Suc.prems have "check_words mem PLATFORM_PSRAM_TEST_SEED (i + 1) n = Some k"
      by (simp add: pattern_at_def mult.commute)
    from Suc.IH [OF this] True show ?thesis by (auto simp: Suc_le_eq) (metis le_neq_implies_less)
  next
    case False
    with Suc.prems show ?thesis by (auto simp: pattern_at_def mult.commute split: if_splits)
  qed
qed simp

lemma fill_pattern_nth:
  assumes "n \<le> length mem"
  shows "length (fold (\<lambda>i mem. mem[i := f i]) [0..<n] mem) = length mem \<and>
    (\<forall>i<n. fold (\<lambda>i mem. mem[i := f i]) [0..<n] mem ! i = f i)"
  using assms by (induction n) (auto simp: nth_list_update less_Suc_eq)

lemma pattern_word_inj:
  assumes "i < 2 ^ 32" "j < 2 ^ 32" "platform_psram_pattern_word (4 * i) seed = platform_psram_pattern_word (4 * j) seed"
  shows "i = j"
proof -
  have x: "a XOR (a XOR (w :: u32)) = w" for a w by (rule bit_word_eqI) (auto simp: bit_xor_iff)
  have "(of_nat i :: u32) * 0xa5b9 = of_nat j * 0xa5b9"
    using assms(3) unfolding platform_psram_pattern_word_def Let_def by (metis x nonzero_mult_div_cancel_left zero_neq_numeral)
  then have "(of_nat i :: u32) * (0xa5b9 * 0x9189d089) = of_nat j * (0xa5b9 * 0x9189d089)"
    by (simp only: mult.assoc [symmetric])
  moreover have "(0xa5b9 * 0x9189d089 :: u32) = 1" by simp
  ultimately have "(of_nat i :: u32) = of_nat j" by (simp only: mult_1_right)
  then have "unat (of_nat i :: u32) = unat (of_nat j :: u32)" by simp
  then show "i = j" using assms(1,2) by (simp add: unat_of_nat take_bit_nat_eq_self)
qed

lemma make_result_bad:
  assumes "i * 4 < PLATFORM_PSRAM_TOTAL_BYTES"
  shows "psr_offset (platform_psram_make_result fc mem False stage (Some i)) = of_nat (4 * i)"
    "psr_expected (platform_psram_make_result fc mem False stage (Some i)) =
       platform_psram_pattern_word (4 * i) PLATFORM_PSRAM_TEST_SEED"
    "psr_actual (platform_psram_make_result fc mem False stage (Some i)) = mem ! i"
proof -
  have "unat (of_nat (4 * i) :: u32) = 4 * i" using assms by (intro unat_of_nat_id) simp
  then show "psr_offset (platform_psram_make_result fc mem False stage (Some i)) = of_nat (4 * i)"
    "psr_expected (platform_psram_make_result fc mem False stage (Some i)) =
       platform_psram_pattern_word (4 * i) PLATFORM_PSRAM_TEST_SEED"
    "psr_actual (platform_psram_make_result fc mem False stage (Some i)) = mem ! i"
    using assms unfolding platform_psram_make_result_def Let_def by simp_all
qed

lemma make_result_fields [simp]:
  "psr_ok (platform_psram_make_result fc mem ok stage bad) = ok"
  "psr_stage (platform_psram_make_result fc mem ok stage bad) = stage"
  by (simp_all add: platform_psram_make_result_def Let_def split: option.split)

lemma check_pattern_valid:
  assumes "platform_psram_flow_test_bytes_valid fc"
  shows "platform_psram_check_pattern (Some mem) (fc_psram_flow_test_bytes fc) PLATFORM_PSRAM_TEST_SEED =
    (case check_words mem PLATFORM_PSRAM_TEST_SEED 0 (fc_psram_flow_test_bytes fc div 4) of
       None \<Rightarrow> (True, None) | Some i \<Rightarrow> (False, Some i))"
  using assms by (simp add: platform_psram_check_pattern_def platform_psram_flow_test_bytes_valid_def)

section \<open>Properties\<close>

text \<open>C37: the verification after a reset succeeds exactly when every word of the tested area still holds
  its pattern; otherwise it names the first wrong word with what it should hold and what it holds.
  No two words of the memory have the same pattern, so a word stored at a wrong address is found.\<close>

theorem psram_verify_exact:
  assumes valid: "platform_psram_flow_test_bytes_valid fc"
    and r: "r = platform_psram_flow_test_verify_after_reset fc mem"
  shows "(psr_ok r \<longleftrightarrow> (\<forall>i < fc_psram_flow_test_bytes fc div 4.
      mem ! i = platform_psram_pattern_word (4 * i) PLATFORM_PSRAM_TEST_SEED)) \<and>
    (psr_ok r \<or> (\<exists>i < fc_psram_flow_test_bytes fc div 4. unat (psr_offset r) = 4 * i \<and> psr_actual r = mem ! i \<and>
      psr_expected r = platform_psram_pattern_word (4 * i) PLATFORM_PSRAM_TEST_SEED \<and> psr_actual r \<noteq> psr_expected r \<and>
      (\<forall>j < i. mem ! j = platform_psram_pattern_word (4 * j) PLATFORM_PSRAM_TEST_SEED))) \<and>
    inj_on (\<lambda>i. platform_psram_pattern_word (4 * i) seed) {..< PLATFORM_PSRAM_TOTAL_BYTES div 4}"
proof (intro conjI)
  let ?n = "fc_psram_flow_test_bytes fc div 4"
  have n: "?n \<le> PLATFORM_PSRAM_TOTAL_BYTES div 4"
    using valid unfolding platform_psram_flow_test_bytes_valid_def by (intro div_le_mono) simp
  note def = r platform_psram_flow_test_verify_after_reset_def check_pattern_valid [OF valid]
  show "psr_ok r \<longleftrightarrow> (\<forall>i < ?n. mem ! i = platform_psram_pattern_word (4 * i) PLATFORM_PSRAM_TEST_SEED)"
    using valid check_words_None [of mem 0 ?n] by (auto simp: def pattern_at_def split: option.split)
  show "psr_ok r \<or> (\<exists>i < ?n. unat (psr_offset r) = 4 * i \<and> psr_actual r = mem ! i \<and>
      psr_expected r = platform_psram_pattern_word (4 * i) PLATFORM_PSRAM_TEST_SEED \<and> psr_actual r \<noteq> psr_expected r \<and>
      (\<forall>j < i. mem ! j = platform_psram_pattern_word (4 * j) PLATFORM_PSRAM_TEST_SEED))"
  proof (cases "check_words mem PLATFORM_PSRAM_TEST_SEED 0 ?n")
    case None
    with valid show ?thesis by (simp add: def)
  next
    case (Some i)
    note i = check_words_Some [OF this]
    with n have lt: "i * 4 < PLATFORM_PSRAM_TOTAL_BYTES" by simp
    then have u: "unat (of_nat (4 * i) :: u32) = 4 * i" by (intro unat_of_nat_id) simp
    have "r = platform_psram_make_result fc mem False PLATFORM_PSRAM_STAGE_VERIFY (Some i)"
      using valid Some by (simp add: def)
    with i make_result_bad [OF lt] u show ?thesis by (auto simp: pattern_at_def)
  qed
  show "inj_on (\<lambda>i. platform_psram_pattern_word (4 * i) seed) {..< PLATFORM_PSRAM_TOTAL_BYTES div 4}"
    by (intro inj_onI pattern_word_inj) auto
qed

theorem psram_verify_exact_witness:
  "let fc = (default_firmware_config 72 False)\<lparr>fc_psram_flow_test_bytes := 4\<rparr>;
       r = platform_psram_flow_test_verify_after_reset fc [1]
   in \<not> psr_ok r \<and> psr_actual r = 1 \<and> psr_expected r = 0xb7915678"
proof -
  let ?fc = "(default_firmware_config 72 False)\<lparr>fc_psram_flow_test_bytes := 4\<rparr>"
  have v: "platform_psram_flow_test_bytes_valid ?fc"
    by (simp add: platform_psram_flow_test_bytes_valid_def)
  have p: "platform_psram_pattern_word 0 PLATFORM_PSRAM_TEST_SEED = 0xb7915678"
    by (simp add: platform_psram_pattern_word_def)
  from psram_verify_exact [OF v refl, of "[1]"] p show ?thesis by (auto simp: Let_def)
qed

text \<open>Preparing the flow test on a sound memory succeeds once the QSPI controller answers, and what it
  leaves passes the verification after the reset; whenever the preparation succeeds, on any device,
  the verification succeeds on the same memory.\<close>

theorem psram_prepare_then_verify:
  assumes valid: "platform_psram_flow_test_bytes_valid fc" and len: "fc_psram_flow_test_bytes fc div 4 \<le> length mem"
    and p: "platform_psram_flow_test_prepare fc store mem b g = (r, mem', b', g')"
  shows "(fst (platform_psram_init fc b g) \<and> (\<forall>i v. store i v = v) \<longrightarrow> psr_ok r) \<and>
    (psr_ok r \<longrightarrow> psr_ok (platform_psram_flow_test_verify_after_reset fc mem')) \<and>
    (psr_ok r \<longrightarrow> psr_stage r = PLATFORM_PSRAM_STAGE_FILL)"
proof -
  let ?n = "fc_psram_flow_test_bytes fc div 4"
  obtain ok b1 g1 where i: "platform_psram_init fc b g = (ok, b1, g1)" by (cases "platform_psram_init fc b g")
  let ?mem = "platform_psram_fill_pattern store (fc_psram_flow_test_bytes fc) PLATFORM_PSRAM_TEST_SEED mem"
  have sound: "check_words ?mem PLATFORM_PSRAM_TEST_SEED 0 ?n = None" if "\<forall>i v. store i v = v"
    using fill_pattern_nth [OF len, of "\<lambda>i. platform_psram_pattern_word (i * 4) PLATFORM_PSRAM_TEST_SEED"] that
    by (simp add: check_words_None pattern_at_def platform_psram_fill_pattern_def mult.commute)
  show ?thesis
    using valid p i sound
    by (auto simp: platform_psram_flow_test_prepare_def platform_psram_flow_test_verify_after_reset_def Let_def
        check_pattern_valid split: if_splits option.splits)
qed

theorem psram_prepare_then_verify_witness:
  "let fc = (default_firmware_config 72 False)\<lparr>fc_psram_flow_test_bytes := 4\<rparr>;
       (r, mem', b', g') = platform_psram_flow_test_prepare fc (\<lambda>i v. v) [0]
          \<lparr>bus_values = (\<lambda>r k. 0), bus_reads = (\<lambda>r. 0), bus_writes = []\<rparr>
          \<lparr>gpio0_ddr_shadow = 0, gpio0_dr_shadow = 0, gpio0_data_writes = 0, reg_gpio_0_ddr = 0, reg_gpio_0_dr = 0\<rparr>
   in psr_ok (platform_psram_flow_test_verify_after_reset fc mem')"
proof -
  let ?fc = "(default_firmware_config 72 False)\<lparr>fc_psram_flow_test_bytes := 4\<rparr>"
  let ?b = "\<lparr>bus_values = (\<lambda>r k. 0), bus_reads = (\<lambda>r. 0), bus_writes = []\<rparr>"
  let ?g = "\<lparr>gpio0_ddr_shadow = 0, gpio0_dr_shadow = 0, gpio0_data_writes = 0, reg_gpio_0_ddr = 0, reg_gpio_0_dr = 0\<rparr>"
  have v: "platform_psram_flow_test_bytes_valid ?fc" by (simp add: platform_psram_flow_test_bytes_valid_def)
  have i: "fst (platform_psram_init ?fc ?b ?g)"
    by (simp add: platform_psram_init_def default_firmware_config_def)
  obtain r mem' b' g' where p: "platform_psram_flow_test_prepare ?fc (\<lambda>i v. v) [0] ?b ?g = (r, mem', b', g')"
    by (cases "platform_psram_flow_test_prepare ?fc (\<lambda>i v. v) [0] ?b ?g")
  from psram_prepare_then_verify [OF v _ p] i p show ?thesis by (simp add: Let_def)
qed

end
