(* ===== verification/Sink.thy ===== *)
theory Sink
  imports Prelude
begin

text \<open>
  Writers into a buffer of fixed capacity: the packet writer, the text builder of the commands and the
  JSON text of the chat packets all append bytes and report with their result whether the bytes fit.
  \<open>appends\<close> is the contract of one call; it composes over C's \<open>&&\<close>, so that what a whole packet
  builder writes follows from what its calls write.
\<close>

section \<open>The contract of a call\<close>

text \<open>
  From a well-formed sink the call appends \<open>bs\<close> and succeeds when they fit; when they do not fit, it
  fails. The sink stays well-formed either way.
\<close>

definition appends ::
    "('s \<Rightarrow> bool) \<Rightarrow> ('s \<Rightarrow> byte list) \<Rightarrow> ('s \<Rightarrow> nat) \<Rightarrow> ('s \<Rightarrow> bool \<times> 's) \<Rightarrow> byte list \<Rightarrow> bool" where
  "appends invar contents capacity f bs \<longleftrightarrow>
     (\<forall>s. invar s \<longrightarrow> invar (snd (f s)) \<and> capacity (snd (f s)) = capacity s \<and>
        (if length (contents s) + length bs \<le> capacity s
         then fst (f s) \<and> contents (snd (f s)) = contents s @ bs else \<not> fst (f s)))"

text \<open>The contract of a call that fails whatever the sink holds.\<close>

definition refuses :: "('s \<Rightarrow> bool) \<Rightarrow> ('s \<Rightarrow> nat) \<Rightarrow> ('s \<Rightarrow> bool \<times> 's) \<Rightarrow> bool" where
  "refuses invar capacity f \<longleftrightarrow>
     (\<forall>s. invar s \<longrightarrow> invar (snd (f s)) \<and> capacity (snd (f s)) = capacity s \<and> \<not> fst (f s))"

locale bounded_sink =
  fixes invar :: "'s \<Rightarrow> bool"
    and contents :: "'s \<Rightarrow> byte list"
    and capacity :: "'s \<Rightarrow> nat"
    and put :: "byte \<Rightarrow> 's \<Rightarrow> bool \<times> 's"
  assumes put_appends: "appends invar contents capacity (put b) [b]"
    and contents_le: "invar s \<Longrightarrow> length (contents s) \<le> capacity s"
begin

lemma appends_then:
  assumes "appends invar contents capacity f xs" "appends invar contents capacity (c_all fs) ys"
  shows "appends invar contents capacity (c_all (f # fs)) (xs @ ys)"
  unfolding appends_def
proof (intro allI impI)
  fix s assume s: "invar s"
  let ?t = "snd (f s)"
  have f: "invar ?t \<and> capacity ?t = capacity s \<and>
      (if length (contents s) + length xs \<le> capacity s
       then fst (f s) \<and> contents ?t = contents s @ xs else \<not> fst (f s))"
    using assms(1) s by (simp add: appends_def)
  then have "invar (snd (c_all fs ?t)) \<and> capacity (snd (c_all fs ?t)) = capacity ?t \<and>
      (if length (contents ?t) + length ys \<le> capacity ?t
       then fst (c_all fs ?t) \<and> contents (snd (c_all fs ?t)) = contents ?t @ ys else \<not> fst (c_all fs ?t))"
    using assms(2) by (simp add: appends_def)
  with f show "invar (snd (c_all (f # fs) s)) \<and> capacity (snd (c_all (f # fs) s)) = capacity s \<and>
      (if length (contents s) + length (xs @ ys) \<le> capacity s
       then fst (c_all (f # fs) s) \<and> contents (snd (c_all (f # fs) s)) = contents s @ xs @ ys
       else \<not> fst (c_all (f # fs) s))"
    by (auto simp: case_prod_unfold split: if_splits)
qed

lemma appends_Nil: "appends invar contents capacity (c_all []) []"
  using contents_le by (simp add: appends_def)

lemma appends_last:
  "appends invar contents capacity f xs \<Longrightarrow> appends invar contents capacity (c_all [f]) xs"
  using appends_then [OF _ appends_Nil, of f xs] by simp

lemma appends_all:
  "list_all2 (appends invar contents capacity) fs bss \<Longrightarrow>
   appends invar contents capacity (c_all fs) (concat bss)"
  by (induction fs bss rule: list_all2_induct) (auto simp: appends_Nil simp del: c_all.simps intro: appends_then)

lemma appends_puts: "appends invar contents capacity (c_all (map put bs)) bs"
proof -
  have "list_all2 (appends invar contents capacity) (map put bs) (map (\<lambda>b. [b]) bs)"
    by (simp add: list_all2_conv_all_nth put_appends)
  from appends_all [OF this] show ?thesis by (simp add: concat_map_singleton)
qed

text \<open>Running a call on a sink with room.\<close>

lemma appends_run:
  assumes "appends invar contents capacity f bs" "invar s" "length (contents s) + length bs \<le> capacity s"
  obtains s' where "f s = (True, s')" "invar s'" "contents s' = contents s @ bs" "capacity s' = capacity s"
  using assms by (cases "f s") (auto simp: appends_def dest!: spec [of _ s])

lemma appends_fail:
  assumes "appends invar contents capacity f bs" "invar s" "capacity s < length (contents s) + length bs"
  obtains s' where "f s = (False, s')" "invar s'" "capacity s' = capacity s"
  using assms by (cases "f s") (auto simp: appends_def dest!: spec [of _ s])

end

end
