(* ===== verification/Varint.thy ===== *)
theory Varint
  imports Prelude
begin

text \<open>
  The Minecraft VarInt codec of core/src/mc_varint.c: 7 bits per byte, least significant group
  first, bit 7 set on every byte but the last. The reference is the base-128 notation of a
  natural number (\<open>leb128\<close>); the coder and the decoder are proved against it.
\<close>

unbundle bit_operations_syntax

section \<open>The coder and the decoder\<close>

text \<open>
  \<open>dst\<close> is the caller's buffer of at least \<open>dst_cap\<close> bytes. The result is the number of bytes
  written (0 when the buffer is too small) and the buffer after the call.
\<close>

function mc_varint_encode_loop :: "u32 \<Rightarrow> byte list \<Rightarrow> nat \<Rightarrow> nat \<Rightarrow> nat \<times> byte list" where
  "mc_varint_encode_loop v dst dst_cap written =
     (if dst_cap \<le> written then (0, dst)
      else let byte = ucast (v AND 0x7F);
               v' = drop_bit 7 v;
               dst' = dst[written := (if v' \<noteq> 0 then byte OR 0x80 else byte)]
           in if v' \<noteq> 0 then mc_varint_encode_loop v' dst' dst_cap (written + 1)
              else (written + 1, dst'))"
  by pat_completeness auto
termination
  by (relation "measure (\<lambda>(v, dst, dst_cap, written). dst_cap - written)") auto

declare mc_varint_encode_loop.simps [simp del]

definition mc_varint_encode :: "i32 \<Rightarrow> byte list \<Rightarrow> nat \<Rightarrow> nat \<times> byte list" where
  "mc_varint_encode value dst dst_cap = mc_varint_encode_loop value dst dst_cap 0"

text \<open>The loop over \<open>src\<close>, which holds the \<open>src_len\<close> readable bytes from position \<open>i\<close> on.\<close>

fun mc_varint_decode_loop :: "byte list \<Rightarrow> u32 \<Rightarrow> nat \<Rightarrow> nat \<Rightarrow> (i32 \<times> nat) option" where
  "mc_varint_decode_loop [] result shift i = None"
| "mc_varint_decode_loop (byte # src) result shift i =
     (if i < 5 then
        let result' = result OR push_bit shift (ucast (byte AND 0x7F))
        in if byte AND 0x80 = 0 then
             (if i = 4 \<and> byte AND 0x70 \<noteq> 0 then None else Some (result', i + 1))
           else mc_varint_decode_loop src result' (shift + 7) (i + 1)
      else None)"

definition mc_varint_decode :: "byte list \<Rightarrow> (i32 \<times> nat) option" where
  "mc_varint_decode src = mc_varint_decode_loop src 0 0 0"

section \<open>The reference: base-128 notation\<close>

function leb128 :: "nat \<Rightarrow> byte list" where
  "leb128 n = (if n < 128 then [of_nat n] else of_nat (n mod 128 + 128) # leb128 (n div 128))"
  by pat_completeness auto
termination
  by (relation "measure id") auto

declare leb128.simps [simp del]

fun leb128_value :: "byte list \<Rightarrow> nat" where
  "leb128_value [] = 0"
| "leb128_value (b # bs) = unat b mod 128 + 128 * leb128_value bs"

text \<open>A complete encoding: continuation bytes, then one byte below 128.\<close>

fun leb128_complete :: "byte list \<Rightarrow> bool" where
  "leb128_complete [] = False"
| "leb128_complete (b # bs) = (if unat b < 128 then bs = [] else leb128_complete bs)"

text \<open>The encoding of a 32-bit value, the name the other theories use.\<close>

definition varint_bytes :: "i32 \<Rightarrow> byte list" where
  "varint_bytes v = leb128 (unat v)"

section \<open>Bits of a byte against base 128\<close>

lemma byte_low7: "unat (b AND 0x7F :: byte) = unat b mod 128"
proof -
  have "unat (b AND 0x7F) = unat (take_bit 7 b)"
    by (simp add: take_bit_eq_mask mask_eq_exp_minus_1)
  also have "\<dots> = take_bit 7 (unat b)"
    by (rule unsigned_take_bit_eq)
  also have "\<dots> = unat b mod 128"
    by (simp add: take_bit_nat_def)
  finally show ?thesis .
qed

lemma byte_bit7: "(b AND 0x80 :: byte) = 0 \<longleftrightarrow> unat b < 128"
proof -
  have "(b AND 2 ^ 7) = 0 \<longleftrightarrow> \<not> bit b 7"
    by (rule and_exp_eq_0_iff_not_bit)
  moreover have "bit b 7 = bit (unat b) 7"
    by (simp add: bit_unsigned_iff)
  moreover have "bit (unat b) 7 \<longleftrightarrow> \<not> unat b < 128"
  proof (cases "unat b < 128")
    case False
    then have "unat b div 128 = 1"
      using unat_lt_8 [of b] by (intro div_nat_eqI) simp_all
    with False show ?thesis by (simp add: bit_nat_def)
  qed (simp add: bit_nat_def)
  ultimately show ?thesis by simp
qed

lemma byte_0x70: "unat b < 128 \<Longrightarrow> (b AND 0x70 :: byte) = 0 \<longleftrightarrow> unat b < 16"
proof -
  assume b: "unat b < 128"
  have "list_all (\<lambda>n. ((of_nat n :: byte) AND 0x70 = 0) = (n < 16)) [0..<128]"
    by code_simp
  with b have "((of_nat (unat b) :: byte) AND 0x70 = 0) = (unat b < 16)"
    unfolding list_all_iff set_upt by (elim ballE [of _ _ "unat b"]) simp_all
  then show ?thesis by simp
qed

section \<open>The decoder against the reference\<close>

lemma leb128_value_bound: "leb128_value bs < 128 ^ length bs"
proof (induction bs)
  case (Cons b bs)
  have "unat b mod 128 < 128" by simp
  with Cons show ?case by simp
qed simp

lemma u32_or_shift:
  assumes "unat (r :: u32) < 128 ^ i" "x < 128" "x * 128 ^ i < 2 ^ 32"
  shows "unat (r OR push_bit (7 * i) (of_nat x)) = unat r + x * 128 ^ i"
proof -
  have p: "(128::nat) ^ i = 2 ^ (7 * i)"
    by (simp add: power_mult)
  have disj: "unat r + push_bit (7 * i) x = unat r OR push_bit (7 * i) x"
  proof (rule disjunctive_add)
    fix n
    show "\<not> bit (unat r) n \<or> \<not> bit (push_bit (7 * i) x) n"
    proof (cases "n < 7 * i")
      case True then show ?thesis by (simp add: bit_push_bit_iff)
    next
      case False
      then have "(2::nat) ^ (7 * i) \<le> 2 ^ n" by simp
      with assms(1) p have "unat r < 2 ^ n" by linarith
      then show ?thesis by (simp add: bit_nat_def)
    qed
  qed
  have "unat (push_bit (7 * i) (of_nat x :: u32)) = push_bit (7 * i) x"
  proof -
    have "push_bit (7 * i) x < 2 ^ 32"
      using assms(3) p by (simp add: push_bit_nat_def)
    then show ?thesis
      by (simp only: push_bit_of_nat) (simp add: unat_of_nat_id)
  qed
  then have "unat (r OR push_bit (7 * i) (of_nat x)) = unat r OR push_bit (7 * i) x"
    by (simp add: unsigned_or_eq)
  also have "\<dots> = unat r + x * 128 ^ i"
    using disj p by (simp add: push_bit_nat_def)
  finally show ?thesis .
qed

lemma decode_step_value:
  assumes "unat (r :: u32) < 128 ^ i" "i < 4 \<or> (i = 4 \<and> unat b < 16)"
  shows "unat (r OR push_bit (7 * i) (ucast (b AND 0x7F :: byte))) = unat r + unat b mod 128 * 128 ^ i"
proof -
  have x: "(ucast (b AND 0x7F) :: u32) = of_nat (unat b mod 128)"
    by (simp only: byte_low7 [symmetric] of_nat_unat)
  have "unat b mod 128 * 128 ^ i < 2 ^ 32"
  proof (cases "i = 4")
    case False
    then have "i \<le> 3" using assms(2) by auto
    then have "(128::nat) ^ i \<le> 128 ^ 3" by (intro power_increasing) auto
    then have "unat b mod 128 * 128 ^ i \<le> 127 * 128 ^ 3"
      by (intro mult_mono) auto
    then show ?thesis by simp
  qed (use assms(2) in simp)
  then show ?thesis
    unfolding x using assms(1) by (intro u32_or_shift) simp_all
qed

lemma mc_varint_decode_loop_iff:
  assumes "unat r < 128 ^ i"
  shows "mc_varint_decode_loop bs r (7 * i) i = Some (v, n) \<longleftrightarrow>
    (\<exists>m. n = i + m \<and> n \<le> 5 \<and> m \<le> length bs \<and> leb128_complete (take m bs) \<and>
         unat v = unat r + 128 ^ i * leb128_value (take m bs))"
  using assms
proof (induction bs arbitrary: r i)
  case Nil
  then show ?case by simp
next
  case (Cons b bs)
  let ?r = "r OR push_bit (7 * i) (ucast (b AND 0x7F)) :: u32"
  have split_m: "(\<exists>m. n = i + m \<and> n \<le> 5 \<and> m \<le> length (b # bs) \<and> leb128_complete (take m (b # bs)) \<and>
         unat v = unat r + 128 ^ i * leb128_value (take m (b # bs))) \<longleftrightarrow>
     (\<exists>m. n = Suc i + m \<and> n \<le> 5 \<and> m \<le> length bs \<and> leb128_complete (b # take m bs) \<and>
         unat v = unat r + unat b mod 128 * 128 ^ i + 128 ^ Suc i * leb128_value (take m bs))"
    (is "?L = ?R")
  proof
    assume ?L
    then obtain m where m: "n = i + m" "n \<le> 5" "m \<le> length (b # bs)" "leb128_complete (take m (b # bs))"
      "unat v = unat r + 128 ^ i * leb128_value (take m (b # bs))" by blast
    then obtain k where "m = Suc k" by (cases m) auto
    with m show ?R by (intro exI [of _ k]) (auto simp: algebra_simps)
  next
    assume ?R
    then obtain m where "n = Suc i + m" "n \<le> 5" "m \<le> length bs" "leb128_complete (b # take m bs)"
      "unat v = unat r + unat b mod 128 * 128 ^ i + 128 ^ Suc i * leb128_value (take m bs)" by blast
    then show ?L by (intro exI [of _ "Suc m"]) (auto simp: algebra_simps)
  qed
  consider "5 \<le> i" | "i < 5" "unat b < 128" | "i = 4" "128 \<le> unat b" | "i < 4" "128 \<le> unat b"
    by linarith
  then show ?case
  proof cases
    case 1
    then show ?thesis unfolding split_m by auto
  next
    case 2
    show ?thesis
    proof (cases "i = 4 \<and> 16 \<le> unat b")
      case True
      then have "unat r + unat b mod 128 * 128 ^ i \<noteq> unat v"
        using unat_lt_32 [of v] 2 by simp
      with True 2 show ?thesis
        unfolding split_m by (auto simp: byte_bit7 byte_0x70 Let_def)
    next
      case False
      then have "unat ?r = unat r + unat b mod 128 * 128 ^ i"
        using Cons.prems 2 by (intro decode_step_value) auto
      then have v: "?r = v \<longleftrightarrow> unat v = unat r + unat b mod 128 * 128 ^ i"
        by (auto simp: word_unat_eq_iff)
      have "mc_varint_decode_loop (b # bs) r (7 * i) i = Some (?r, Suc i)"
        using False 2 by (auto simp: byte_bit7 byte_0x70 Let_def)
      with 2 show ?thesis
        unfolding split_m by (auto simp: v)
    qed
  next
    case 3
    then show ?thesis
      unfolding split_m by (cases bs) (auto simp: byte_bit7 Let_def)
  next
    case 4
    then have r: "unat ?r = unat r + unat b mod 128 * 128 ^ i"
      using Cons.prems by (intro decode_step_value) auto
    have "unat b mod 128 * 128 ^ i \<le> 127 * 128 ^ i" by (intro mult_right_mono) auto
    with r Cons.prems have "unat ?r < 128 ^ Suc i"
      unfolding power_Suc by linarith
    from Cons.IH [OF this] 4 r show ?thesis
      unfolding split_m by (simp add: byte_bit7 Let_def add.commute)
  qed
qed

lemma mc_varint_decode_iff:
  "mc_varint_decode bs = Some (v, n) \<longleftrightarrow>
     n \<le> 5 \<and> n \<le> length bs \<and> leb128_complete (take n bs) \<and> unat v = leb128_value (take n bs)"
  using mc_varint_decode_loop_iff [of 0 0 bs v n] by (auto simp: mc_varint_decode_def)

lemma leb128_complete_nonempty: "leb128_complete bs \<Longrightarrow> 0 < length bs"
  by (cases bs) auto

lemma mc_varint_decode_used:
  assumes "mc_varint_decode bs = Some (v, n)"
  shows "1 \<le> n" "n \<le> 5" "n \<le> length bs"
  using assms leb128_complete_nonempty [of "take n bs"] by (auto simp: mc_varint_decode_iff Suc_le_eq)

section \<open>The reference is a notation\<close>

lemma unat_low_byte: "n < 256 \<Longrightarrow> unat (of_nat n :: byte) = n"
  by (simp add: unat_of_nat_id)

lemma leb128_complete_leb128: "leb128_complete (leb128 n)"
proof (induction n rule: leb128.induct)
  case (1 n)
  have "n mod 128 + 128 < 256"
    using mod_less_divisor [of 128 n] by linarith
  then show ?case
    using 1 by (subst leb128.simps) (simp add: unat_low_byte del: of_nat_add)
qed

lemma leb128_value_leb128: "leb128_value (leb128 n) = n"
proof (induction n rule: leb128.induct)
  case (1 n)
  have "n mod 128 + 128 < 256"
    using mod_less_divisor [of 128 n] by linarith
  then show ?case
    using 1 by (subst leb128.simps) (simp add: unat_low_byte del: of_nat_add)
qed

lemma leb128_ne: "leb128 n \<noteq> []"
  by (subst leb128.simps) simp

lemma length_leb128:
  "n < 128 \<Longrightarrow> length (leb128 n) = 1"
  "128 \<le> n \<Longrightarrow> n < 16384 \<Longrightarrow> length (leb128 n) = 2"
  "16384 \<le> n \<Longrightarrow> n < 2097152 \<Longrightarrow> length (leb128 n) = 3"
  "2097152 \<le> n \<Longrightarrow> n < 268435456 \<Longrightarrow> length (leb128 n) = 4"
  "268435456 \<le> n \<Longrightarrow> n < 34359738368 \<Longrightarrow> length (leb128 n) = 5"
proof -
  have 1: "n < 128 \<Longrightarrow> length (leb128 n) = 1" for n
    by (subst leb128.simps) simp
  have 2: "128 \<le> n \<Longrightarrow> n < 16384 \<Longrightarrow> length (leb128 n) = 2" for n
    using 1 [of "n div 128"] by (subst leb128.simps) (simp add: div_less_iff_less_mult)
  have 3: "16384 \<le> n \<Longrightarrow> n < 2097152 \<Longrightarrow> length (leb128 n) = 3" for n
    using 2 [of "n div 128"] by (subst leb128.simps) (simp add: div_less_iff_less_mult less_eq_div_iff_mult_less_eq)
  have 4: "2097152 \<le> n \<Longrightarrow> n < 268435456 \<Longrightarrow> length (leb128 n) = 4" for n
    using 3 [of "n div 128"] by (subst leb128.simps) (simp add: div_less_iff_less_mult less_eq_div_iff_mult_less_eq)
  have 5: "268435456 \<le> n \<Longrightarrow> n < 34359738368 \<Longrightarrow> length (leb128 n) = 5" for n
    using 4 [of "n div 128"] by (subst leb128.simps) (simp add: div_less_iff_less_mult less_eq_div_iff_mult_less_eq)
  show "n < 128 \<Longrightarrow> length (leb128 n) = 1" by (rule 1)
  show "128 \<le> n \<Longrightarrow> n < 16384 \<Longrightarrow> length (leb128 n) = 2" by (rule 2)
  show "16384 \<le> n \<Longrightarrow> n < 2097152 \<Longrightarrow> length (leb128 n) = 3" by (rule 3)
  show "2097152 \<le> n \<Longrightarrow> n < 268435456 \<Longrightarrow> length (leb128 n) = 4" by (rule 4)
  show "268435456 \<le> n \<Longrightarrow> n < 34359738368 \<Longrightarrow> length (leb128 n) = 5" by (rule 5)
qed

lemma length_varint_bytes: "0 < length (varint_bytes v)" "length (varint_bytes v) \<le> 5"
proof -
  show "0 < length (varint_bytes v)" by (simp add: varint_bytes_def leb128_ne)
  consider "unat v < 128" | "128 \<le> unat v" "unat v < 16384" | "16384 \<le> unat v" "unat v < 2097152"
    | "2097152 \<le> unat v" "unat v < 268435456" | "268435456 \<le> unat v" by linarith
  then show "length (varint_bytes v) \<le> 5"
    using unat_lt_32 [of v] by cases (simp_all add: varint_bytes_def length_leb128)
qed

lemma mc_varint_decode_varint_bytes:
  "mc_varint_decode (varint_bytes v @ rest) = Some (v, length (varint_bytes v))"
  using length_varint_bytes [of v]
  by (simp add: mc_varint_decode_iff leb128_complete_leb128 leb128_value_leb128 varint_bytes_def)

section \<open>The coder against the reference\<close>

lemma u32_low7: "(ucast (v AND 0x7F :: u32) :: byte) = of_nat (unat v mod 128)"
proof -
  have "unat (v AND 0x7F) = unat (take_bit 7 v)"
    by (simp add: take_bit_eq_mask mask_eq_exp_minus_1)
  also have "\<dots> = take_bit 7 (unat v)"
    by (rule unsigned_take_bit_eq)
  also have "\<dots> = unat v mod 128"
    by (simp add: take_bit_nat_def)
  finally have "unat (v AND 0x7F) = unat v mod 128" .
  moreover have "(ucast (v AND 0x7F) :: byte) = of_nat (unat (v AND 0x7F))"
    by (rule of_nat_unat [symmetric])
  ultimately show ?thesis by (simp only:)
qed

lemma byte_or_0x80: "n < 128 \<Longrightarrow> (of_nat n :: byte) OR 0x80 = of_nat (n + 128)"
proof -
  assume "n < 128"
  then have "(of_nat n :: byte) AND 0x80 = 0"
    by (simp add: byte_bit7 unat_low_byte)
  then have "(of_nat n :: byte) + 0x80 = of_nat n OR 0x80"
    by (rule disjunctive_add_eq_or)
  then show ?thesis by simp
qed

lemma drop_bit_7_u32: "unat (drop_bit 7 v :: u32) = unat v div 128"
  by (simp add: unat_drop_bit_eq drop_bit_nat_def)

lemma mc_varint_encode_loop_eq:
  assumes "dst_cap \<le> length dst" "length (leb128 (unat v)) \<le> dst_cap - written"
  shows "mc_varint_encode_loop v dst dst_cap written =
    (written + length (leb128 (unat v)),
     take written dst @ leb128 (unat v) @ drop (written + length (leb128 (unat v))) dst)"
  using assms
proof (induction v dst dst_cap written rule: mc_varint_encode_loop.induct)
  case (1 v dst dst_cap written)
  have ne: "0 < length (leb128 (unat v))" by (simp add: leb128_ne)
  with "1.prems" have w: "written < dst_cap" "written < length dst" by linarith+
  show ?case
  proof (cases "unat v < 128")
    case True
    then have z: "drop_bit 7 v = 0"
      by (simp add: word_unat_eq_iff drop_bit_7_u32)
    from True have l: "leb128 (unat v) = [of_nat (unat v)]"
      by (subst leb128.simps) simp
    show ?thesis
      using w True by (subst mc_varint_encode_loop.simps)
        (simp add: z l u32_low7 Let_def upd_conv_take_nth_drop)
  next
    case False
    then have nz: "drop_bit 7 v \<noteq> 0"
      by (simp add: word_unat_eq_iff drop_bit_7_u32)
    let ?b = "of_nat (unat v mod 128 + 128) :: byte"
    from False have l: "leb128 (unat v) = ?b # leb128 (unat (drop_bit 7 v))"
      by (subst leb128.simps) (simp add: drop_bit_7_u32)
    have b: "(ucast (v AND 0x7F) :: byte) OR 0x80 = ?b"
      unfolding u32_low7 by (rule byte_or_0x80) simp
    have IH: "mc_varint_encode_loop (drop_bit 7 v) (dst[written := ?b]) dst_cap (written + 1) =
      (written + 1 + length (leb128 (unat (drop_bit 7 v))),
       take (written + 1) (dst[written := ?b]) @ leb128 (unat (drop_bit 7 v)) @
       drop (written + 1 + length (leb128 (unat (drop_bit 7 v)))) (dst[written := ?b]))"
      using "1.prems" l nz w
      by (intro "1.IH" [OF _ refl refl, unfolded b]) (simp_all add: b)
    show ?thesis
      using w IH nz by (subst mc_varint_encode_loop.simps)
        (simp add: Let_def b l take_list_update_snoc del: of_nat_add)
  qed
qed

lemma length_mc_varint_encode_loop: "length (snd (mc_varint_encode_loop v dst c w)) = length dst"
proof (induction v dst c w rule: mc_varint_encode_loop.induct)
  case (1 v dst dst_cap written)
  show ?case
    by (subst mc_varint_encode_loop.simps) (use 1 in \<open>auto simp: Let_def\<close>)
qed

lemma mc_varint_encode_loop_fail:
  assumes "dst_cap - written < length (leb128 (unat v))"
  shows "fst (mc_varint_encode_loop v dst dst_cap written) = 0"
  using assms
proof (induction v dst dst_cap written rule: mc_varint_encode_loop.induct)
  case (1 v dst dst_cap written)
  show ?case
  proof (cases "dst_cap \<le> written")
    case True
    then show ?thesis by (subst mc_varint_encode_loop.simps) simp
  next
    case False
    with "1.prems" have "\<not> unat v < 128"
      by (auto simp: length_leb128)
    then have nz: "drop_bit 7 v \<noteq> 0" and l: "length (leb128 (unat v)) = Suc (length (leb128 (unat (drop_bit 7 v))))"
      by (simp_all add: word_unat_eq_iff drop_bit_7_u32 leb128.simps [of "unat v"])
    show ?thesis
      by (subst mc_varint_encode_loop.simps) (use "1.IH" [OF False refl refl refl] "1.prems" nz l False in \<open>auto simp: Let_def\<close>)
  qed
qed

lemma mc_varint_encode_eq:
  assumes "dst_cap \<le> length dst" "length (varint_bytes v) \<le> dst_cap"
  shows "mc_varint_encode v dst dst_cap =
    (length (varint_bytes v), varint_bytes v @ drop (length (varint_bytes v)) dst)"
  using mc_varint_encode_loop_eq [of dst_cap dst v 0] assms
  by (simp add: mc_varint_encode_def varint_bytes_def)

text \<open>The call with a five-byte scratch array, which never fails.\<close>

lemma mc_varint_encode_5 [simp]:
  assumes "length dst = 5"
  shows "fst (mc_varint_encode v dst 5) = length (varint_bytes v)"
    "take (length (varint_bytes v)) (snd (mc_varint_encode v dst 5)) = varint_bytes v"
  using mc_varint_encode_eq [of 5 dst v] assms length_varint_bytes [of v] by simp_all

interpretation varint: prefix_code "\<lambda>_. True" varint_bytes mc_varint_decode
  by unfold_locales (use length_varint_bytes in \<open>auto simp: mc_varint_decode_varint_bytes\<close>)

lemma mc_varint_decode_Nil: "mc_varint_decode [] = None"
  by (simp add: mc_varint_decode_def)

text \<open>A run of VarInts is read back whole, so distinct runs have distinct encodings.\<close>

lemma varint_stream: "decode_stream mc_varint_decode (concat (map varint_bytes vs)) = (vs, [])"
  by (rule varint.decode_stream_all) (simp_all add: list_all_iff mc_varint_decode_Nil)

section \<open>Properties\<close>

text \<open>The coder writes the base-128 notation of the 32-bit value into the caller's buffer and
  returns its length when it fits, leaving the rest of the buffer alone; when it does not fit it
  returns 0.\<close>

theorem varint_encode_reference:
  assumes "dst_cap \<le> length dst"
  shows "if length (leb128 (unat v)) \<le> dst_cap
    then mc_varint_encode v dst dst_cap =
           (length (leb128 (unat v)), leb128 (unat v) @ drop (length (leb128 (unat v))) dst)
    else fst (mc_varint_encode v dst dst_cap) = 0"
  using assms mc_varint_encode_eq [of dst_cap dst v] mc_varint_encode_loop_fail [of dst_cap 0 v dst]
  by (simp add: mc_varint_encode_def varint_bytes_def)

theorem varint_encode_reference_witness:
  "mc_varint_encode 300 [7, 7, 7] 3 = (2, [0xAC, 2, 7])"
proof -
  have l: "leb128 (unat (300 :: u32)) = [0xAC, 2]"
    by (simp add: leb128.simps)
  show ?thesis
    using varint_encode_reference [of 3 "[7, 7, 7]" 300] unfolding l by simp
qed

text \<open>C22: the decoder accepts exactly the complete base-128 notations of at most five bytes whose
  value fits 32 bits; it returns that value and the number of bytes it read.\<close>

theorem varint_decode_exact:
  "mc_varint_decode src = Some (v, used) \<longleftrightarrow>
     used \<le> 5 \<and> used \<le> length src \<and> leb128_complete (take used src) \<and>
     leb128_value (take used src) = unat v"
  using mc_varint_decode_iff [of src v used] by auto

text \<open>What the coder writes for any 32-bit value into a buffer of at least five bytes is
  decoded to the same value, whatever follows it in the stream.\<close>

theorem varint_round_trip:
  assumes "5 \<le> dst_cap" "dst_cap \<le> length dst" "mc_varint_encode v dst dst_cap = (n, dst')"
  shows "mc_varint_decode (take n dst' @ rest) = Some (v, n)"
  using assms mc_varint_encode_eq [of dst_cap dst v] length_varint_bytes [of v]
  by (auto simp: mc_varint_decode_varint_bytes)

theorem varint_round_trip_witness:
  "mc_varint_decode (take 2 [0xAC, 2, 0, 0, 0] @ [9]) = Some (300, 2)"
proof -
  have "mc_varint_encode 300 [0, 0, 0, 0, 0] 5 = (2, [0xAC, 2, 0, 0, 0])"
    by (simp add: mc_varint_encode_def mc_varint_encode_loop.simps Let_def)
  then show ?thesis
    by (intro varint_round_trip [of 5 "[0, 0, 0, 0, 0]"]) simp_all
qed

end
