(* ===== verification/Packet.thy ===== *)
theory Packet
  imports Sink Varint
begin

text \<open>
  The packet layer of core/src/mc_packet.c: the big-endian field writer and the length-prefixed
  frames of the Minecraft protocol, plain and in the form used once compression is on.
\<close>

abbreviation MC_MAX_PACKET_BODY :: nat where "MC_MAX_PACKET_BODY \<equiv> 32768"
abbreviation MC_MAX_STRING_BYTES :: nat where "MC_MAX_STRING_BYTES \<equiv> 32767"
abbreviation INT32_MAX :: nat where "INT32_MAX \<equiv> 2147483647"

section \<open>The writer\<close>

record mc_writer =
  wr_buf :: "byte list"
  wr_cap :: nat
  wr_len :: nat

definition mc_writer_has_space :: "mc_writer \<Rightarrow> nat \<Rightarrow> bool" where
  "mc_writer_has_space w len \<longleftrightarrow> wr_len w \<le> wr_cap w \<and> len \<le> wr_cap w - wr_len w"

definition mc_write_raw :: "byte \<Rightarrow> mc_writer \<Rightarrow> bool \<times> mc_writer" where
  "mc_write_raw b w =
     (if \<not> mc_writer_has_space w 1 then (False, w)
      else (True, w\<lparr>wr_buf := (wr_buf w)[wr_len w := b], wr_len := wr_len w + 1\<rparr>))"

definition mc_writer_init :: "byte list \<Rightarrow> nat \<Rightarrow> mc_writer" where
  "mc_writer_init buf c = \<lparr>wr_buf = buf, wr_cap = c, wr_len = 0\<rparr>"

definition mc_write_u8 :: "byte \<Rightarrow> mc_writer \<Rightarrow> bool \<times> mc_writer" where
  "mc_write_u8 v = mc_write_raw v"

text \<open>An \<open>int8_t\<close> argument is the byte with its bits.\<close>

definition mc_write_i8 :: "byte \<Rightarrow> mc_writer \<Rightarrow> bool \<times> mc_writer" where
  "mc_write_i8 v = mc_write_raw v"

definition mc_write_u16 :: "u16 \<Rightarrow> mc_writer \<Rightarrow> bool \<times> mc_writer" where
  "mc_write_u16 v w =
     (if \<not> mc_writer_has_space w 2 then (False, w)
      else c_all [mc_write_raw (ucast (drop_bit 8 v)), mc_write_raw (ucast v)] w)"

definition mc_write_i16 :: "u16 \<Rightarrow> mc_writer \<Rightarrow> bool \<times> mc_writer" where
  "mc_write_i16 v = mc_write_u16 v"

definition mc_write_i32 :: "i32 \<Rightarrow> mc_writer \<Rightarrow> bool \<times> mc_writer" where
  "mc_write_i32 v w =
     (if \<not> mc_writer_has_space w 4 then (False, w)
      else c_all [mc_write_raw (ucast (drop_bit 24 v)), mc_write_raw (ucast (drop_bit 16 v)),
                  mc_write_raw (ucast (drop_bit 8 v)), mc_write_raw (ucast v)] w)"

definition mc_write_i64 :: "u64 \<Rightarrow> mc_writer \<Rightarrow> bool \<times> mc_writer" where
  "mc_write_i64 v w =
     (if \<not> mc_writer_has_space w 8 then (False, w)
      else c_all (map (\<lambda>shift. mc_write_raw (ucast (drop_bit shift v))) [56, 48, 40, 32, 24, 16, 8, 0]) w)"

definition mc_write_f32 :: "f32_bits \<Rightarrow> mc_writer \<Rightarrow> bool \<times> mc_writer" where
  "mc_write_f32 v = mc_write_i32 v"

definition mc_write_f64 :: "f64_bits \<Rightarrow> mc_writer \<Rightarrow> bool \<times> mc_writer" where
  "mc_write_f64 v w =
     (if \<not> mc_writer_has_space w 8 then (False, w)
      else c_all (map (\<lambda>shift. mc_write_raw (ucast (drop_bit shift v))) [56, 48, 40, 32, 24, 16, 8, 0]) w)"

definition mc_write_bool :: "bool \<Rightarrow> mc_writer \<Rightarrow> bool \<times> mc_writer" where
  "mc_write_bool v = mc_write_raw (if v then 1 else 0)"

definition mc_write_bytes :: "byte list \<Rightarrow> mc_writer \<Rightarrow> bool \<times> mc_writer" where
  "mc_write_bytes src w =
     (if \<not> mc_writer_has_space w (length src) then (False, w)
      else (True, w\<lparr>wr_buf := memcpy_at (wr_buf w) (wr_len w) src, wr_len := wr_len w + length src\<rparr>))"

definition mc_write_varint :: "i32 \<Rightarrow> mc_writer \<Rightarrow> bool \<times> mc_writer" where
  "mc_write_varint v w =
     (case mc_varint_encode v (replicate 5 0) 5 of
        (n, tmp) \<Rightarrow> if n = 0 then (False, w) else mc_write_bytes (take n tmp) w)"

text \<open>\<open>str\<close> is the C string without its terminating zero.\<close>

definition mc_write_string :: "byte list \<Rightarrow> mc_writer \<Rightarrow> bool \<times> mc_writer" where
  "mc_write_string str w =
     (let start = wr_len w in
      if MC_MAX_STRING_BYTES < length str then (False, w)
      else case c_all [mc_write_varint (of_nat (length str)), mc_write_bytes str] w of
             (ok, w') \<Rightarrow> if ok then (True, w') else (False, w'\<lparr>wr_len := start\<rparr>))"

section \<open>Frames\<close>

text \<open>The result of a wrapper is the number of bytes written to \<open>dst\<close> (0 on failure) and \<open>dst\<close>.\<close>

definition mc_packet_wrap :: "byte list \<Rightarrow> byte list \<Rightarrow> nat \<Rightarrow> nat \<times> byte list" where
  "mc_packet_wrap body dst dst_cap =
     (let body_len = length body in
      if MC_MAX_PACKET_BODY < body_len \<or> INT32_MAX < body_len then (0, dst)
      else case mc_varint_encode (of_nat body_len) (replicate 5 0) 5 of
        (prefix_len, prefix) \<Rightarrow>
          if prefix_len = 0 \<or> dst_cap < prefix_len \<or> dst_cap - prefix_len < body_len then (0, dst)
          else (prefix_len + body_len,
                memcpy_at (memcpy_at dst 0 (take prefix_len prefix)) prefix_len body))"

definition mc_packet_frame_len :: "nat \<Rightarrow> nat" where
  "mc_packet_frame_len body_len =
     (if MC_MAX_PACKET_BODY < body_len \<or> INT32_MAX < body_len then 0
      else let prefix_len = fst (mc_varint_encode (of_nat body_len) (replicate 5 0) 5) in
        if prefix_len = 0 then 0 else prefix_len + body_len)"

definition mc_packet_compressed_plain_frame_len :: "nat \<Rightarrow> nat" where
  "mc_packet_compressed_plain_frame_len body_len =
     (let inner_len = 1 + body_len;
          outer_len = fst (mc_varint_encode (of_nat inner_len) (replicate 5 0) 5)
      in if MC_MAX_PACKET_BODY < body_len \<or> INT32_MAX < inner_len \<or> outer_len = 0 then 0
         else outer_len + inner_len)"

definition mc_packet_compressed_payload_frame_len :: "i32 \<Rightarrow> nat \<Rightarrow> nat" where
  "mc_packet_compressed_payload_frame_len uncompressed_body_len compressed_payload_len =
     (if sint uncompressed_body_len \<le> 0 \<or> MC_MAX_PACKET_BODY < unat uncompressed_body_len \<or>
         MC_MAX_PACKET_BODY < compressed_payload_len then 0
      else let data_len_len = fst (mc_varint_encode uncompressed_body_len (replicate 5 0) 5) in
        if data_len_len = 0 \<or> INT32_MAX - data_len_len < compressed_payload_len then 0
        else let inner_len = data_len_len + compressed_payload_len;
                 outer_len = fst (mc_varint_encode (of_nat inner_len) (replicate 5 0) 5)
             in if outer_len = 0 then 0 else outer_len + inner_len)"

definition mc_packet_wrap_compressed_plain :: "byte list \<Rightarrow> byte list \<Rightarrow> nat \<Rightarrow> nat \<times> byte list" where
  "mc_packet_wrap_compressed_plain body dst dst_cap =
     (let body_len = length body; inner_len = 1 + body_len in
      if MC_MAX_PACKET_BODY < body_len \<or> INT32_MAX < inner_len then (0, dst)
      else case mc_varint_encode (of_nat inner_len) (replicate 5 0) 5 of
        (outer_len, outer) \<Rightarrow>
          if outer_len = 0 \<or> dst_cap < outer_len + inner_len then (0, dst)
          else (outer_len + inner_len,
                memcpy_at ((memcpy_at dst 0 (take outer_len outer))[outer_len := 0]) (outer_len + 1) body))"

definition mc_packet_wrap_compressed_payload ::
    "i32 \<Rightarrow> byte list \<Rightarrow> byte list \<Rightarrow> nat \<Rightarrow> nat \<times> byte list" where
  "mc_packet_wrap_compressed_payload uncompressed_body_len compressed_payload dst dst_cap =
     (let compressed_payload_len = length compressed_payload in
      if sint uncompressed_body_len \<le> 0 \<or> MC_MAX_PACKET_BODY < unat uncompressed_body_len \<or>
         MC_MAX_PACKET_BODY < compressed_payload_len then (0, dst)
      else case mc_varint_encode uncompressed_body_len (replicate 5 0) 5 of
        (data_len_len, data_len_varint) \<Rightarrow>
          if data_len_len = 0 \<or> INT32_MAX - data_len_len < compressed_payload_len then (0, dst)
          else let inner_len = data_len_len + compressed_payload_len in
            case mc_varint_encode (of_nat inner_len) (replicate 5 0) 5 of
              (outer_len, outer) \<Rightarrow>
                if outer_len = 0 \<or> dst_cap < outer_len + inner_len then (0, dst)
                else (outer_len + inner_len,
                      memcpy_at (memcpy_at (memcpy_at dst 0 (take outer_len outer))
                          outer_len (take data_len_len data_len_varint))
                        (outer_len + data_len_len) compressed_payload))"

text \<open>The body and its data length. The body is the list behind the prefix.\<close>

definition mc_packet_get_compressed_body :: "byte list \<Rightarrow> (byte list \<times> i32) option" where
  "mc_packet_get_compressed_body frame_body =
     (case mc_varint_decode frame_body of
        None \<Rightarrow> None
      | Some (decoded, used) \<Rightarrow>
          if length frame_body < used then None
          else if sint decoded < 0 \<or> MC_MAX_PACKET_BODY < unat decoded then None
          else Some (drop used frame_body, decoded))"

record mc_packet =
  pk_body :: "byte list"
  pk_body_len :: nat
  pk_frame_len :: nat

definition mc_packet_try_read :: "byte list \<Rightarrow> mc_packet option" where
  "mc_packet_try_read src =
     (case mc_varint_decode src of
        None \<Rightarrow> None
      | Some (body_len, prefix_len) \<Rightarrow>
          if sint body_len < 0 \<or> MC_MAX_PACKET_BODY < unat body_len then None
          else if length src < prefix_len + unat body_len then None
          else Some \<lparr>pk_body = take (unat body_len) (drop prefix_len src), pk_body_len = unat body_len,
                     pk_frame_len = prefix_len + unat body_len\<rparr>)"

section \<open>What the writer appends\<close>

definition wr_bytes :: "mc_writer \<Rightarrow> byte list" where
  "wr_bytes w = take (wr_len w) (wr_buf w)"

definition writer_ok :: "mc_writer \<Rightarrow> bool" where
  "writer_ok w \<longleftrightarrow> wr_len w \<le> wr_cap w \<and> wr_cap w \<le> length (wr_buf w)"

abbreviation writes :: "(mc_writer \<Rightarrow> bool \<times> mc_writer) \<Rightarrow> byte list \<Rightarrow> bool" where
  "writes \<equiv> appends writer_ok wr_bytes wr_cap"

lemma length_wr_bytes: "writer_ok w \<Longrightarrow> length (wr_bytes w) = wr_len w"
  by (simp add: wr_bytes_def writer_ok_def)

lemma writes_raw [sink_simps]: "writes (mc_write_raw b) [b]"
  by (auto simp: appends_def mc_write_raw_def mc_writer_has_space_def writer_ok_def wr_bytes_def
      take_Suc_conv_app_nth)

interpretation wr: bounded_sink writer_ok wr_bytes wr_cap mc_write_raw
  by unfold_locales (simp_all add: writes_raw length_wr_bytes, simp add: writer_ok_def)

lemma writes_bytes [sink_simps]: "writes (mc_write_bytes bs) bs"
  by (auto simp: appends_def mc_write_bytes_def mc_writer_has_space_def writer_ok_def wr_bytes_def
      memcpy_at_def)

text \<open>A guard that checks the space for all the bytes first changes nothing.\<close>

lemma writes_guarded:
  assumes "writes f bs" "length bs = n"
  shows "writes (\<lambda>w. if \<not> mc_writer_has_space w n then (False, w) else f w) bs"
  using assms by (auto simp: appends_def mc_writer_has_space_def length_wr_bytes writer_ok_def split: if_splits)

definition u16_be :: "u16 \<Rightarrow> byte list" where
  "u16_be v = [ucast (drop_bit 8 v), ucast v]"

definition u32_be :: "u32 \<Rightarrow> byte list" where
  "u32_be v = [ucast (drop_bit 24 v), ucast (drop_bit 16 v), ucast (drop_bit 8 v), ucast v]"

definition u64_be :: "u64 \<Rightarrow> byte list" where
  "u64_be v = map (\<lambda>shift. ucast (drop_bit shift v)) [56, 48, 40, 32, 24, 16, 8, 0]"

definition mc_string :: "byte list \<Rightarrow> byte list" where
  "mc_string str = varint_bytes (of_nat (length str)) @ str"

lemma length_be [simp]: "length (u16_be a) = 2" "length (u32_be b) = 4" "length (u64_be c) = 8"
  by (simp_all add: u16_be_def u32_be_def u64_be_def)

lemma writes_u8 [sink_simps]: "writes (mc_write_u8 b) [b]"
  by (simp add: mc_write_u8_def sink_simps)

lemma writes_i8 [sink_simps]: "writes (mc_write_i8 b) [b]"
  by (simp add: mc_write_i8_def sink_simps)

lemma writes_bool [sink_simps]: "writes (mc_write_bool b) [if b then 1 else 0]"
  by (simp add: mc_write_bool_def sink_simps)

lemma writes_u16 [sink_simps]: "writes (mc_write_u16 v) (u16_be v)"
  using writes_guarded [OF wr.appends_puts [of "u16_be v"] length_be(1)]
  unfolding u16_be_def mc_write_u16_def [abs_def] list.map .

lemma writes_i16 [sink_simps]: "writes (mc_write_i16 v) (u16_be v)"
  by (simp add: mc_write_i16_def sink_simps)

lemma writes_i32 [sink_simps]: "writes (mc_write_i32 v) (u32_be v)"
  using writes_guarded [OF wr.appends_puts [of "u32_be v"] length_be(2)]
  unfolding u32_be_def mc_write_i32_def [abs_def] list.map .

lemma writes_f32 [sink_simps]: "writes (mc_write_f32 v) (u32_be v)"
  by (simp add: mc_write_f32_def sink_simps)

lemma writes_i64 [sink_simps]: "writes (mc_write_i64 v) (u64_be v)"
  using writes_guarded [OF wr.appends_puts [of "u64_be v"] length_be(3)]
  unfolding u64_be_def mc_write_i64_def [abs_def] list.map .

lemma writes_f64 [sink_simps]: "writes (mc_write_f64 v) (u64_be v)"
  using writes_guarded [OF wr.appends_puts [of "u64_be v"] length_be(3)]
  unfolding u64_be_def mc_write_f64_def [abs_def] list.map .

lemma writes_varint [sink_simps]: "writes (mc_write_varint v) (varint_bytes v)"
proof -
  have "mc_write_varint v = mc_write_bytes (varint_bytes v)"
    using length_varint_bytes [of v]
    by (intro ext) (simp add: mc_write_varint_def case_prod_unfold)
  then show ?thesis by (simp add: sink_simps)
qed

lemma writes_string [sink_simps]:
  assumes "length str \<le> MC_MAX_STRING_BYTES"
  shows "writes (mc_write_string str) (mc_string str)"
proof -
  let ?f = "c_all [mc_write_varint (of_nat (length str)), mc_write_bytes str]"
  have f: "writes ?f (mc_string str)"
    unfolding mc_string_def by (intro wr.appends_then wr.appends_last sink_simps)
  have eq: "mc_write_string str w = (if fst (?f w) then ?f w else (False, (snd (?f w))\<lparr>wr_len := wr_len w\<rparr>))" for w
    using assms by (simp add: mc_write_string_def Let_def case_prod_unfold del: c_all.simps)
      (metis prod.collapse)
  show ?thesis
    using f unfolding appends_def eq
    by (auto simp: writer_ok_def simp del: c_all.simps split: if_splits)
qed

text \<open>A failed string write leaves the writer at the length it had.\<close>

lemma mc_write_string_restores: "\<not> fst (mc_write_string str w) \<Longrightarrow> wr_len (snd (mc_write_string str w)) = wr_len w"
  by (auto simp: mc_write_string_def Let_def split: if_splits prod.splits)

section \<open>What the wrappers write\<close>

definition packet_frame :: "byte list \<Rightarrow> byte list" where
  "packet_frame body = varint_bytes (of_nat (length body)) @ body"

lemma length_packet_frame: "length (packet_frame body) = length (varint_bytes (of_nat (length body))) + length body"
  by (simp add: packet_frame_def)

lemma length_packet_frame_le: "length (packet_frame body) \<le> length body + 5"
  using length_varint_bytes [of "of_nat (length body)"] by (simp add: length_packet_frame)

lemma mc_packet_wrap_result:
  assumes "dst_cap \<le> length dst"
  shows "if length body \<le> MC_MAX_PACKET_BODY \<and> length (packet_frame body) \<le> dst_cap
    then fst (mc_packet_wrap body dst dst_cap) = length (packet_frame body) \<and>
      take (length (packet_frame body)) (snd (mc_packet_wrap body dst dst_cap)) = packet_frame body
    else mc_packet_wrap body dst dst_cap = (0, dst)"
proof -
  let ?v = "varint_bytes (of_nat (length body))"
  have "take (length ?v + length body) (memcpy_at (memcpy_at dst 0 ?v) (length ?v) body) = ?v @ body"
    if "length ?v \<le> dst_cap"
    using that assms by (intro memcpy_at_prefix) (simp_all add: memcpy_at_start)
  then show ?thesis
    using length_varint_bytes [of "of_nat (length body)"]
    by (auto simp: mc_packet_wrap_def Let_def case_prod_unfold packet_frame_def)
qed

lemma mc_packet_frame_len_eq:
  "mc_packet_frame_len n =
     (if n \<le> MC_MAX_PACKET_BODY then length (varint_bytes (of_nat n)) + n else 0)"
  using length_varint_bytes [of "of_nat n"] by (simp add: mc_packet_frame_len_def Let_def)

lemma mc_packet_wrap_compressed_plain_result:
  assumes "dst_cap \<le> length dst"
  shows "if length body \<le> MC_MAX_PACKET_BODY \<and> length (packet_frame (0 # body)) \<le> dst_cap
    then fst (mc_packet_wrap_compressed_plain body dst dst_cap) = length (packet_frame (0 # body)) \<and>
      take (length (packet_frame (0 # body))) (snd (mc_packet_wrap_compressed_plain body dst dst_cap)) =
        packet_frame (0 # body)
    else mc_packet_wrap_compressed_plain body dst dst_cap = (0, dst)"
proof -
  let ?v = "varint_bytes (of_nat (Suc (length body)))"
  let ?d = "(memcpy_at dst 0 ?v)[length ?v := 0]"
  have "take (length (?v @ [0]) + length body) (memcpy_at ?d (length (?v @ [0])) body) = (?v @ [0]) @ body"
    if "length ?v + Suc (length body) \<le> dst_cap"
  proof (rule memcpy_at_prefix)
    have l: "length (memcpy_at dst 0 ?v) = length dst"
      using that assms by (simp add: memcpy_at_start)
    have "take (Suc (length ?v)) ?d = take (length ?v) (memcpy_at dst 0 ?v) @ [0]"
      using that assms l by (intro take_list_update_snoc) simp
    then show "take (length (?v @ [0])) ?d = ?v @ [0]" by (simp add: memcpy_at_start)
    show "length (?v @ [0]) \<le> length ?d" using that assms l by simp
  qed
  then show ?thesis
    using length_varint_bytes [of "of_nat (Suc (length body))"]
    by (auto simp: mc_packet_wrap_compressed_plain_def Let_def case_prod_unfold packet_frame_def)
qed

lemma mc_packet_compressed_plain_frame_len_eq:
  "mc_packet_compressed_plain_frame_len n =
     (if n \<le> MC_MAX_PACKET_BODY then length (varint_bytes (of_nat (Suc n))) + Suc n else 0)"
  using length_varint_bytes [of "of_nat (Suc n)"]
  by (simp add: mc_packet_compressed_plain_frame_len_def Let_def del: of_nat_Suc)

text \<open>The data length of a packet that is really compressed.\<close>

definition data_len_ok :: "i32 \<Rightarrow> bool" where
  "data_len_ok n \<longleftrightarrow> 0 < sint n \<and> unat n \<le> MC_MAX_PACKET_BODY"

lemma data_len_okI:
  assumes "n \<noteq> 0" "unat n \<le> MC_MAX_PACKET_BODY"
  shows "data_len_ok n"
proof -
  have "0 < unat n" using assms(1) unfolding unat_gt_0 .
  moreover have "sint (of_nat (unat n) :: i32) = int (unat n)"
    using assms(2) by (intro sint_of_nat_small) simp
  ultimately have "0 < sint (of_nat (unat n) :: i32)" by (simp only: of_nat_0_less_iff)
  then show ?thesis using assms(2) unfolding data_len_ok_def of_nat_unat ucast_id by simp
qed

lemma mc_packet_wrap_compressed_payload_result:
  assumes "dst_cap \<le> length dst"
  shows "if data_len_ok n \<and> length payload \<le> MC_MAX_PACKET_BODY \<and>
       length (packet_frame (varint_bytes n @ payload)) \<le> dst_cap
    then fst (mc_packet_wrap_compressed_payload n payload dst dst_cap) =
        length (packet_frame (varint_bytes n @ payload)) \<and>
      take (length (packet_frame (varint_bytes n @ payload)))
        (snd (mc_packet_wrap_compressed_payload n payload dst dst_cap)) =
        packet_frame (varint_bytes n @ payload)
    else mc_packet_wrap_compressed_payload n payload dst dst_cap = (0, dst)"
proof -
  let ?d = "varint_bytes n" and ?v = "varint_bytes (of_nat (length (varint_bytes n) + length payload))"
  have l5: "length ?d \<le> 5" "0 < length ?d" "length ?v \<le> 5" "0 < length ?v"
    by (simp_all only: length_varint_bytes)
  have m1: "take (length ?v + length ?d) (memcpy_at (memcpy_at dst 0 ?v) (length ?v) ?d) = ?v @ ?d"
    "length (memcpy_at (memcpy_at dst 0 ?v) (length ?v) ?d) = length dst"
    if "length ?v + length ?d \<le> dst_cap"
    using that assms by (simp_all add: memcpy_at_prefix memcpy_at_start length_memcpy_at)
  have m2: "take (length (?v @ ?d) + length payload)
      (memcpy_at (memcpy_at (memcpy_at dst 0 ?v) (length ?v) ?d) (length (?v @ ?d)) payload) = (?v @ ?d) @ payload"
    if "length ?v + length ?d \<le> dst_cap"
    using that m1 assms by (intro memcpy_at_prefix) simp_all
  show ?thesis
    using l5 m2
    by (auto simp: mc_packet_wrap_compressed_payload_def Let_def case_prod_unfold packet_frame_def
        data_len_ok_def add.assoc)
qed

section \<open>Reading frames back\<close>

lemma of_nat_body_len:
  assumes "n \<le> MC_MAX_PACKET_BODY + 5"
  shows "unat (of_nat n :: i32) = n" "sint (of_nat n :: i32) = int n"
  using assms by (simp_all add: unat_of_nat_id sint_of_nat_small)

lemma mc_packet_try_read_frame:
  assumes "length body \<le> MC_MAX_PACKET_BODY"
  shows "mc_packet_try_read (packet_frame body @ rest) =
    Some \<lparr>pk_body = body, pk_body_len = length body, pk_frame_len = length (packet_frame body)\<rparr>"
  using assms of_nat_body_len [of "length body"] mc_varint_decode_varint_bytes [of "of_nat (length body)" "body @ rest"]
  by (simp add: mc_packet_try_read_def packet_frame_def)

text \<open>What a successful read says about the input.\<close>

lemma mc_packet_try_read_sound:
  assumes "mc_packet_try_read src = Some p"
  shows "pk_body_len p \<le> MC_MAX_PACKET_BODY" "length (pk_body p) = pk_body_len p"
    "pk_frame_len p \<le> length src" "0 < pk_frame_len p" "\<exists>prefix. take (pk_frame_len p) src = prefix @ pk_body p"
proof -
  from assms obtain n u where d: "mc_varint_decode src = Some (n, u)" "unat n \<le> MC_MAX_PACKET_BODY"
    "u + unat n \<le> length src" and p: "p = \<lparr>pk_body = take (unat n) (drop u src), pk_body_len = unat n, pk_frame_len = u + unat n\<rparr>"
    by (auto simp: mc_packet_try_read_def split: option.splits if_splits)
  have "0 < u" using mc_varint_decode_used [OF d(1)] by simp
  with d p show "pk_body_len p \<le> MC_MAX_PACKET_BODY" "length (pk_body p) = pk_body_len p"
    "pk_frame_len p \<le> length src" "0 < pk_frame_len p" by simp_all
  show "\<exists>prefix. take (pk_frame_len p) src = prefix @ pk_body p"
    using d(3) by (intro exI [of _ "take u src"]) (simp add: p take_add)
qed

definition read_body :: "byte list \<Rightarrow> (byte list \<times> nat) option" where
  "read_body src = map_option (\<lambda>p. (pk_body p, pk_frame_len p)) (mc_packet_try_read src)"

interpretation packets: prefix_code "\<lambda>body. length body \<le> MC_MAX_PACKET_BODY" packet_frame read_body
  by unfold_locales (simp_all add: read_body_def mc_packet_try_read_frame, simp add: packet_frame_def varint.enc_ne)

lemma read_body_Nil [simp]: "read_body [] = None"
  by (simp add: read_body_def mc_packet_try_read_def mc_varint_decode_Nil)

lemma get_compressed_body_plain: "mc_packet_get_compressed_body (0 # body) = Some (body, 0)"
  using mc_varint_decode_varint_bytes [of 0 body]
  by (simp add: mc_packet_get_compressed_body_def varint_bytes_def leb128.simps)

lemma get_compressed_body_payload:
  assumes "data_len_ok n"
  shows "mc_packet_get_compressed_body (varint_bytes n @ payload) = Some (payload, n)"
  using assms mc_varint_decode_varint_bytes [of n payload]
  by (simp add: mc_packet_get_compressed_body_def data_len_ok_def)

text \<open>What the wrapper writes when there is room.\<close>

definition wrapped :: "byte list \<Rightarrow> byte list \<Rightarrow> byte list" where
  "wrapped body dst = (case mc_packet_wrap body dst (length dst) of (n, dst') \<Rightarrow> take n dst')"

lemma wrapped_eq:
  assumes "length body \<le> MC_MAX_PACKET_BODY" "mc_packet_frame_len (length body) \<le> length dst"
  shows "wrapped body dst = packet_frame body"
  using mc_packet_wrap_result [of "length dst" dst body] assms
  by (auto simp: wrapped_def mc_packet_frame_len_eq length_packet_frame case_prod_unfold)

section \<open>Properties\<close>

text \<open>A packet body of at most 32768 bytes that is wrapped into a large enough buffer is read back
  unchanged, with the frame length that the wrapper returned and \<open>mc_packet_frame_len\<close> predicts,
  whatever bytes follow it; a wrapper without room writes nothing and returns 0.\<close>

theorem packet_wrap_round_trip:
  assumes "dst_cap \<le> length dst" "length body \<le> MC_MAX_PACKET_BODY"
  shows "case mc_packet_wrap body dst dst_cap of (n, dst') \<Rightarrow>
    if mc_packet_frame_len (length body) \<le> dst_cap
    then n = mc_packet_frame_len (length body) \<and>
      mc_packet_try_read (take n dst' @ rest) =
        Some \<lparr>pk_body = body, pk_body_len = length body, pk_frame_len = n\<rparr>
    else n = 0 \<and> dst' = dst"
  using mc_packet_wrap_result [OF assms(1), of body] mc_packet_try_read_frame [OF assms(2), of rest] assms(2)
  by (auto simp: mc_packet_frame_len_eq length_packet_frame case_prod_unfold split: if_splits)

theorem packet_wrap_round_trip_witness:
  "case mc_packet_wrap [1, 2, 3] (replicate 8 0) 8 of (n, dst') \<Rightarrow>
      mc_packet_try_read (take n dst' @ [9]) =
        Some \<lparr>pk_body = [1, 2, 3], pk_body_len = 3, pk_frame_len = n\<rparr>"
proof -
  have "mc_packet_frame_len (length [1, 2, 3 :: byte]) \<le> 8"
    using length_varint_bytes [of "of_nat (length [1, 2, 3 :: byte])"] by (simp only: mc_packet_frame_len_eq) simp
  then show ?thesis
    using packet_wrap_round_trip [of 8 "replicate 8 0" "[1, 2, 3]" "[9]"]
    by (auto simp: case_prod_unfold)
qed

text \<open>C27: a stream of packets, each wrapped by \<open>mc_packet_wrap\<close> into a buffer of its own that has room for it and
  whatever that buffer held before, read frame by frame, gives back the packet bodies in order and leaves nothing, so
  that packets of the stream can never be confused.\<close>

theorem packet_stream_round_trip:
  assumes "list_all2 (\<lambda>body dst. length body \<le> MC_MAX_PACKET_BODY \<and> mc_packet_frame_len (length body) \<le> length dst) bodies dsts"
  shows "decode_stream (\<lambda>src. map_option (\<lambda>p. (pk_body p, pk_frame_len p)) (mc_packet_try_read src))
      (concat (map2 (\<lambda>body dst. case mc_packet_wrap body dst (length dst) of (n, dst') \<Rightarrow> take n dst') bodies dsts)) = (bodies, [])"
proof -
  have "map2 wrapped bodies dsts = map packet_frame bodies \<and> list_all (\<lambda>body. length body \<le> MC_MAX_PACKET_BODY) bodies"
    using assms by (induction rule: list_all2_induct) (simp_all add: wrapped_eq)
  then show ?thesis
    using packets.decode_stream_all [of bodies, OF _ read_body_Nil] by (simp add: wrapped_def [abs_def] read_body_def [abs_def])
qed

theorem packet_stream_round_trip_witness:
  "decode_stream (\<lambda>src. map_option (\<lambda>p. (pk_body p, pk_frame_len p)) (mc_packet_try_read src))
      (concat (map2 (\<lambda>body dst. case mc_packet_wrap body dst (length dst) of (n, dst') \<Rightarrow> take n dst')
         [[], [7], [0, 0]] [replicate 8 1, replicate 9 2, replicate 10 3])) = ([[], [7], [0, 0]], [])"
  by (rule packet_stream_round_trip)
    (use length_varint_bytes [of 0] length_varint_bytes [of 1] length_varint_bytes [of 2] in \<open>simp add: mc_packet_frame_len_eq\<close>)

text \<open>A packet that the reader accepts lies entirely within the bytes received, is not empty, and its
  body is at most 32768 bytes long and ends the frame.\<close>

theorem packet_try_read_in_bounds:
  assumes "mc_packet_try_read src = Some p"
  shows "0 < pk_frame_len p \<and> pk_frame_len p \<le> length src \<and> pk_body_len p \<le> MC_MAX_PACKET_BODY \<and>
    length (pk_body p) = pk_body_len p \<and> (\<exists>prefix. take (pk_frame_len p) src = prefix @ pk_body p)"
  using mc_packet_try_read_sound [OF assms] by simp

theorem packet_try_read_in_bounds_witness:
  "0 < pk_frame_len \<lparr>pk_body = [5, 6], pk_body_len = 2, pk_frame_len = 3\<rparr> \<and>
   (\<exists>prefix. take 3 [2, 5, 6, 7] = prefix @ [5, 6 :: byte])"
proof -
  have "mc_packet_try_read [2, 5, 6, 7] = Some \<lparr>pk_body = [5, 6], pk_body_len = 2, pk_frame_len = 3\<rparr>"
    using mc_packet_try_read_frame [of "[5, 6]" "[7]"] by (simp add: packet_frame_def varint_bytes_def leb128.simps)
  from packet_try_read_in_bounds [OF this] show ?thesis by simp
qed

text \<open>C28: with compression on, a packet below the threshold is wrapped with the data length 0 and is
  recovered by reading the frame and then its data length, for bodies of at most 32767 bytes. A body of
  exactly 32768 bytes is wrapped as well, but no reader of the frame accepts it.\<close>

theorem packet_compressed_plain_round_trip:
  assumes "dst_cap \<le> length dst" "mc_packet_compressed_plain_frame_len (length body) \<le> dst_cap"
    and "length body \<le> MC_MAX_PACKET_BODY"
  shows "case mc_packet_wrap_compressed_plain body dst dst_cap of (n, dst') \<Rightarrow>
    n = mc_packet_compressed_plain_frame_len (length body) \<and>
    (if length body < MC_MAX_PACKET_BODY
     then \<exists>p. mc_packet_try_read (take n dst' @ rest) = Some p \<and> pk_frame_len p = n \<and>
       mc_packet_get_compressed_body (pk_body p) = Some (body, 0)
     else mc_packet_try_read (take n dst' @ rest) = None)"
proof -
  have "mc_packet_try_read (packet_frame (0 # body) @ rest) = None" if "length body = MC_MAX_PACKET_BODY"
  proof -
    have d: "mc_varint_decode (packet_frame (0 # body) @ rest) =
        Some (of_nat (length (0 # body)), length (varint_bytes (of_nat (length (0 # body)))))"
      unfolding packet_frame_def append_assoc by (rule mc_varint_decode_varint_bytes)
    have "\<not> unat (of_nat (length (0 # body)) :: i32) \<le> MC_MAX_PACKET_BODY"
      using that by (subst of_nat_body_len) simp_all
    with d show ?thesis by (simp add: mc_packet_try_read_def del: of_nat_Suc)
  qed
  then show ?thesis
    using mc_packet_wrap_compressed_plain_result [OF assms(1), of body] assms(2,3)
      mc_packet_try_read_frame [of "0 # body" rest]
    by (auto simp: mc_packet_compressed_plain_frame_len_eq length_packet_frame get_compressed_body_plain
        case_prod_unfold split: if_splits)
qed

theorem packet_compressed_plain_round_trip_witness:
  "case mc_packet_wrap_compressed_plain [3, 4] (replicate 10 0) 10 of (n, dst') \<Rightarrow>
     \<exists>p. mc_packet_try_read (take n dst' @ []) = Some p \<and> mc_packet_get_compressed_body (pk_body p) = Some ([3, 4], 0)"
proof -
  have "mc_packet_compressed_plain_frame_len (length [3, 4 :: byte]) \<le> 10"
    using length_varint_bytes [of "of_nat (Suc (length [3, 4 :: byte]))"]
    by (simp only: mc_packet_compressed_plain_frame_len_eq) simp
  then show ?thesis
    using packet_compressed_plain_round_trip [of 10 "replicate 10 0" "[3, 4]" "[]"]
    by (auto simp: case_prod_unfold)
qed

text \<open>A packet whose compressed payload was prepared ahead is wrapped with its uncompressed length,
  and reading the frame gives back exactly that length and the payload.\<close>

theorem packet_compressed_payload_round_trip:
  assumes "dst_cap \<le> length dst" "0 < sint data_len" "unat data_len \<le> MC_MAX_PACKET_BODY"
    and "length payload + 5 \<le> MC_MAX_PACKET_BODY" "length payload + 10 \<le> dst_cap"
  shows "case mc_packet_wrap_compressed_payload data_len payload dst dst_cap of (n, dst') \<Rightarrow>
    n = mc_packet_compressed_payload_frame_len data_len (length payload) \<and>
    (\<exists>p. mc_packet_try_read (take n dst' @ rest) = Some p \<and> pk_frame_len p = n \<and>
       mc_packet_get_compressed_body (pk_body p) = Some (payload, data_len))"
proof -
  let ?b = "varint_bytes data_len @ payload"
  have dl: "data_len_ok data_len" using assms by (simp add: data_len_ok_def)
  have l: "length (varint_bytes data_len) \<le> 5" "0 < length (varint_bytes data_len)" "length ?b \<le> MC_MAX_PACKET_BODY"
    "length (packet_frame ?b) \<le> dst_cap"
    using length_varint_bytes [of data_len] length_varint_bytes [of "of_nat (length ?b)"] assms(4,5)
    by (simp_all add: length_packet_frame del: of_nat_add length_greater_0_conv)
  have "mc_packet_compressed_payload_frame_len data_len (length payload) = length (packet_frame ?b)"
    using l dl assms(4) length_varint_bytes [of "of_nat (length ?b)"]
    by (simp add: mc_packet_compressed_payload_frame_len_def Let_def data_len_ok_def length_packet_frame)
  then show ?thesis
    using mc_packet_wrap_compressed_payload_result [OF assms(1), of data_len payload] dl l assms(4)
      mc_packet_try_read_frame [OF l(3), of rest] get_compressed_body_payload [OF dl]
    by (auto simp: case_prod_unfold)
qed

theorem packet_compressed_payload_round_trip_witness:
  "case mc_packet_wrap_compressed_payload 300 [1, 2] (replicate 20 0) 20 of (n, dst') \<Rightarrow>
    (\<exists>p. mc_packet_try_read (take n dst' @ []) = Some p \<and> mc_packet_get_compressed_body (pk_body p) = Some ([1, 2], 300))"
  using packet_compressed_payload_round_trip [of 20 "replicate 20 0" 300 "[1, 2]" "[]"] by auto

end
