(* ===== verification/Commands.thy ===== *)
theory Commands
  imports Sink
begin

text \<open>
  The chat commands of core/src/mc_commands.c: a bounded text builder, the conversion of IEEE bit
  patterns to two decimals and back without floating-point arithmetic, the tokenizer and the command
  handlers. Texts are byte lists without the terminating zero, except where a \<open>char\<close> array is filled.
\<close>

section \<open>Data\<close>

abbreviation MC_COMMAND_TEXT_CAP :: nat where "MC_COMMAND_TEXT_CAP \<equiv> 160"
abbreviation MC_COMMAND_DEFAULT_X :: f64_bits where "MC_COMMAND_DEFAULT_X \<equiv> 0x3FE0000000000000"
abbreviation MC_COMMAND_DEFAULT_Y :: f64_bits where "MC_COMMAND_DEFAULT_Y \<equiv> 0x4040000000000000"
abbreviation MC_COMMAND_DEFAULT_Z :: f64_bits where "MC_COMMAND_DEFAULT_Z \<equiv> 0x3FE0000000000000"
abbreviation MC_COMMAND_DEFAULT_YAW :: f32_bits where "MC_COMMAND_DEFAULT_YAW \<equiv> 0"
abbreviation MC_COMMAND_DEFAULT_PITCH :: f32_bits where "MC_COMMAND_DEFAULT_PITCH \<equiv> 0"
abbreviation MC_COMMAND_DEFAULT_TIME :: i32 where "MC_COMMAND_DEFAULT_TIME \<equiv> 6000"
abbreviation MC_COMMAND_COORD_LIMIT_WHOLE :: u32 where "MC_COMMAND_COORD_LIMIT_WHOLE \<equiv> 30000000"
abbreviation MC_COMMAND_DECIMAL_MAX_FRAC_DIGITS :: nat where "MC_COMMAND_DECIMAL_MAX_FRAC_DIGITS \<equiv> 9"
abbreviation MC_COMMAND_FIXED2_MAX_SCALED :: u64 where "MC_COMMAND_FIXED2_MAX_SCALED \<equiv> 3000000000"
abbreviation MC_COMMAND_DOUBLE_SIGN_BIT :: u64 where "MC_COMMAND_DOUBLE_SIGN_BIT \<equiv> 0x8000000000000000"
abbreviation MC_COMMAND_DOUBLE_FRAC_MASK :: u64 where "MC_COMMAND_DOUBLE_FRAC_MASK \<equiv> 0x000fffffffffffff"
abbreviation MC_COMMAND_DOUBLE_HIDDEN_BIT :: u64 where "MC_COMMAND_DOUBLE_HIDDEN_BIT \<equiv> 0x0010000000000000"
abbreviation MC_COMMAND_DOUBLE_EXP_SHIFT :: nat where "MC_COMMAND_DOUBLE_EXP_SHIFT \<equiv> 52"
abbreviation MC_COMMAND_FLOAT_SIGN_BIT :: u32 where "MC_COMMAND_FLOAT_SIGN_BIT \<equiv> 0x80000000"
abbreviation MC_COMMAND_FLOAT_FRAC_MASK :: u32 where "MC_COMMAND_FLOAT_FRAC_MASK \<equiv> 0x007fffff"
abbreviation MC_COMMAND_FLOAT_HIDDEN_BIT :: u32 where "MC_COMMAND_FLOAT_HIDDEN_BIT \<equiv> 0x00800000"
abbreviation MC_COMMAND_FLOAT_EXP_SHIFT :: nat where "MC_COMMAND_FLOAT_EXP_SHIFT \<equiv> 23"

datatype mc_weather = MC_WEATHER_CLEAR | MC_WEATHER_RAIN | MC_WEATHER_THUNDER

record mc_command_position =
  cp_x :: f64_bits
  cp_y :: f64_bits
  cp_z :: f64_bits
  cp_yaw :: f32_bits
  cp_pitch :: f32_bits

record mc_command_context =
  cc_position :: mc_command_position
  cc_time_of_day :: i32
  cc_weather :: mc_weather

text \<open>The result type together with the member of the union that it selects.\<close>

datatype mc_command_action =
    MC_COMMAND_RESULT_CHAT
  | MC_COMMAND_RESULT_TELEPORT mc_command_position
  | MC_COMMAND_RESULT_TIME i32
  | MC_COMMAND_RESULT_WEATHER mc_weather

record mc_command_result =
  rs_chat :: "byte list"
  rs_action :: mc_command_action

record mc_text_builder =
  tb_buf :: "byte list"
  tb_cap :: nat
  tb_len :: nat

abbreviation ch_zero :: byte where "ch_zero \<equiv> 48"
abbreviation ch_nine :: byte where "ch_nine \<equiv> 57"
abbreviation ch_space :: byte where "ch_space \<equiv> 32"
abbreviation ch_plus :: byte where "ch_plus \<equiv> 43"
abbreviation ch_minus :: byte where "ch_minus \<equiv> 45"
abbreviation ch_dot :: byte where "ch_dot \<equiv> 46"
abbreviation ch_slash :: byte where "ch_slash \<equiv> 47"
abbreviation ch_lt :: byte where "ch_lt \<equiv> 60"

section \<open>The text builder\<close>

definition mc_cstr_len :: "byte list \<Rightarrow> nat" where
  "mc_cstr_len text = length text"

definition mc_builder_init :: "byte list \<Rightarrow> nat \<Rightarrow> mc_text_builder" where
  "mc_builder_init buf c =
     \<lparr>tb_buf = (if 0 < c then buf[0 := 0] else buf), tb_cap = c, tb_len = 0\<rparr>"

definition mc_builder_append_char :: "byte \<Rightarrow> mc_text_builder \<Rightarrow> bool \<times> mc_text_builder" where
  "mc_builder_append_char ch b =
     (if tb_cap b \<le> tb_len b + 1 then (False, b)
      else (True, b\<lparr>tb_buf := (tb_buf b)[tb_len b := ch, tb_len b + 1 := 0], tb_len := tb_len b + 1\<rparr>))"

definition mc_builder_append_bytes :: "byte list \<Rightarrow> mc_text_builder \<Rightarrow> bool \<times> mc_text_builder" where
  "mc_builder_append_bytes text b =
     (let len = length text in
      if tb_cap b \<le> len \<or> tb_cap b - len - 1 < tb_len b then (False, b)
      else (True, b\<lparr>tb_buf := (memcpy_at (tb_buf b) (tb_len b) text)[tb_len b + len := 0],
                    tb_len := tb_len b + len\<rparr>))"

definition mc_builder_append_cstr :: "byte list \<Rightarrow> mc_text_builder \<Rightarrow> bool \<times> mc_text_builder" where
  "mc_builder_append_cstr text b = mc_builder_append_bytes (take (mc_cstr_len text) text) b"

text \<open>The digits of \<open>value\<close>, least significant first, as the first loop collects them.\<close>

function u32_digits :: "u32 \<Rightarrow> byte list" where
  "u32_digits value =
     (if value = 0 then [] else (ch_zero + ucast (value mod 10)) # u32_digits (value div 10))"
  by pat_completeness auto
termination
  by (relation "measure unat") (auto simp: unat_div unat_gt_0 intro!: div_less_dividend)

declare u32_digits.simps [simp del]

definition mc_builder_append_u32 :: "u32 \<Rightarrow> mc_text_builder \<Rightarrow> bool \<times> mc_text_builder" where
  "mc_builder_append_u32 value b =
     (if value = 0 then mc_builder_append_char ch_zero b
      else c_all (map mc_builder_append_char (rev (u32_digits value))) b)"

definition mc_builder_append_i32 :: "i32 \<Rightarrow> mc_text_builder \<Rightarrow> bool \<times> mc_text_builder" where
  "mc_builder_append_i32 value b =
     (if sint value < 0
      then c_all [mc_builder_append_char ch_minus, mc_builder_append_u32 (- (value + 1) + 1)] b
      else mc_builder_append_u32 value b)"

definition mc_builder_append_fixed2_scaled :: "bool \<Rightarrow> u32 \<Rightarrow> mc_text_builder \<Rightarrow> bool \<times> mc_text_builder" where
  "mc_builder_append_fixed2_scaled negative scaled b =
     (let whole = scaled div 100; frac = scaled mod 100 in
      c_all ((if negative \<and> scaled \<noteq> 0 then [mc_builder_append_char ch_minus] else []) @
        [mc_builder_append_u32 whole, mc_builder_append_char ch_dot,
         mc_builder_append_char (ch_zero + ucast (frac div 10)),
         mc_builder_append_char (ch_zero + ucast (frac mod 10))]) b)"

section \<open>IEEE bit patterns and two decimals\<close>

definition mc_round_shift_u64 :: "u64 \<Rightarrow> nat \<Rightarrow> u64" where
  "mc_round_shift_u64 value shift =
     (if shift = 0 then value
      else if 64 \<le> shift then 0
      else let quotient = drop_bit shift value;
               remainder = value AND (push_bit shift 1 - 1);
               half = push_bit (shift - 1) 1
           in if half < remainder \<or> (remainder = half \<and> quotient AND 1 \<noteq> 0) then quotient + 1 else quotient)"

text \<open>The sign and the scaled magnitude, or nothing when the value is out of range.\<close>

definition mc_binary_to_fixed2 :: "bool \<Rightarrow> int \<Rightarrow> u64 \<Rightarrow> nat \<Rightarrow> (bool \<times> u32) option" where
  "mc_binary_to_fixed2 negative exponent mantissa mantissa_bits =
     (let shift = exponent - int mantissa_bits in
      if (- 1) div 100 < mantissa then None
      else let base = push_bit 6 mantissa + push_bit 5 mantissa + push_bit 2 mantissa in
        if 0 \<le> shift \<and> (64 \<le> shift \<or> drop_bit (nat shift) MC_COMMAND_FIXED2_MAX_SCALED < base) then None
        else let scaled = (if 0 \<le> shift then push_bit (nat shift) base
                           else mc_round_shift_u64 base (nat (- shift)))
             in if MC_COMMAND_FIXED2_MAX_SCALED < scaled then None
                else Some (negative \<and> scaled \<noteq> 0, ucast scaled))"

definition mc_double_to_fixed2 :: "f64_bits \<Rightarrow> (bool \<times> u32) option" where
  "mc_double_to_fixed2 bits =
     (let exp_bits = drop_bit MC_COMMAND_DOUBLE_EXP_SHIFT bits AND 0x7ff;
          frac = bits AND MC_COMMAND_DOUBLE_FRAC_MASK
      in if exp_bits = 0x7ff then None
         else if exp_bits = 0 then Some (False, 0)
         else mc_binary_to_fixed2 (bits AND MC_COMMAND_DOUBLE_SIGN_BIT \<noteq> 0) (uint exp_bits - 1023)
                (MC_COMMAND_DOUBLE_HIDDEN_BIT OR frac) MC_COMMAND_DOUBLE_EXP_SHIFT)"

definition mc_float_to_fixed2 :: "f32_bits \<Rightarrow> (bool \<times> u32) option" where
  "mc_float_to_fixed2 bits =
     (let exp_bits = drop_bit MC_COMMAND_FLOAT_EXP_SHIFT bits AND 0xff;
          frac = bits AND MC_COMMAND_FLOAT_FRAC_MASK
      in if exp_bits = 0xff then None
         else if exp_bits = 0 then Some (False, 0)
         else mc_binary_to_fixed2 (bits AND MC_COMMAND_FLOAT_SIGN_BIT \<noteq> 0) (uint exp_bits - 127)
                (ucast (MC_COMMAND_FLOAT_HIDDEN_BIT OR frac)) MC_COMMAND_FLOAT_EXP_SHIFT)"

section \<open>Results and tokens\<close>

definition mc_copy_chat :: "mc_command_result \<Rightarrow> byte list \<Rightarrow> bool \<times> mc_command_result" where
  "mc_copy_chat result text =
     (case mc_builder_append_cstr text (mc_builder_init (rs_chat result) MC_COMMAND_TEXT_CAP) of
        (ok, b) \<Rightarrow> (ok, result\<lparr>rs_chat := tb_buf b\<rparr>))"

definition mc_set_chat :: "mc_command_result \<Rightarrow> byte list \<Rightarrow> bool \<times> mc_command_result" where
  "mc_set_chat result text = mc_copy_chat (result\<lparr>rs_action := MC_COMMAND_RESULT_CHAT\<rparr>) text"

fun mc_token_eq_loop :: "byte list \<Rightarrow> byte list \<Rightarrow> bool" where
  "mc_token_eq_loop (a # token) (b # text) = (if a \<noteq> b then False else mc_token_eq_loop token text)"
| "mc_token_eq_loop _ _ = True"

definition mc_token_eq :: "byte list \<Rightarrow> byte list \<Rightarrow> bool" where
  "mc_token_eq token text = (if length token \<noteq> mc_cstr_len text then False else mc_token_eq_loop token text)"

lemma split_spaces_shorter:
  assumes "dropWhile (\<lambda>c. c = ch_space) p \<noteq> []"
  shows "length (dropWhile (\<lambda>c. c \<noteq> ch_space) (dropWhile (\<lambda>c. c = ch_space) p)) < length p"
proof -
  obtain c cs where c: "dropWhile (\<lambda>c. c = ch_space) p = c # cs" "c \<noteq> ch_space"
    using assms by (metis (mono_tags, lifting) hd_dropWhile list.exhaust_sel)
  have "length (dropWhile (\<lambda>c. c \<noteq> ch_space) cs) \<le> length cs" by (rule length_dropWhile_le)
  also have "length cs < length p"
    using c(1) length_dropWhile_le [of "\<lambda>c. c = ch_space" p] by simp
  finally show ?thesis using c by simp
qed

text \<open>The number of tokens, the first \<open>token_cap\<close> of them, and whether there are more.\<close>

function mc_split_spaces_loop ::
    "byte list \<Rightarrow> nat \<Rightarrow> nat \<Rightarrow> byte list list \<Rightarrow> bool \<Rightarrow> nat \<times> byte list list \<times> bool" where
  "mc_split_spaces_loop p token_cap count tokens too_many =
     (if p = [] then (count, tokens, too_many)
      else let start = dropWhile (\<lambda>c. c = ch_space) p in
        if start = [] then (count, tokens, too_many)
        else let token = takeWhile (\<lambda>c. c \<noteq> ch_space) start;
                 rest = dropWhile (\<lambda>c. c \<noteq> ch_space) start
             in if count < token_cap
                then mc_split_spaces_loop rest token_cap (count + 1) (tokens @ [token]) too_many
                else mc_split_spaces_loop rest token_cap (count + 1) tokens True)"
  by pat_completeness auto
termination
  by (relation "measure (\<lambda>(p, _). length p)") (use split_spaces_shorter in auto)

declare mc_split_spaces_loop.simps [simp del]

definition mc_split_spaces :: "byte list \<Rightarrow> nat \<Rightarrow> nat \<times> byte list list \<times> bool" where
  "mc_split_spaces text token_cap = mc_split_spaces_loop text token_cap 0 [] False"

section \<open>Parsing numbers\<close>

text \<open>The decimal digits of the fraction, least significant first, at most \<open>n\<close> of them.\<close>

fun dec_frac_digits :: "nat \<Rightarrow> u32 \<Rightarrow> u32 \<Rightarrow> u32 list" where
  "dec_frac_digits 0 frac_value scale = []"
| "dec_frac_digits (Suc n) frac_value scale =
     (if 1 < scale then frac_value mod 10 # dec_frac_digits n (frac_value div 10) (scale div 10) else [])"

definition frac_q32_place :: "u32 list" where
  "frac_q32_place = [429496730, 42949673, 4294967, 429497, 42950, 4295, 430, 43, 4]"

function msb_loop :: "u64 \<Rightarrow> nat \<Rightarrow> nat" where
  "msb_loop q msb = (if 1 < drop_bit msb q then msb_loop q (msb + 1) else msb)"
  by pat_completeness auto
termination
proof (relation "measure (\<lambda>(q, msb). 64 - msb)")
  fix q :: u64 and msb assume "1 < drop_bit msb q"
  then have "msb < 64"
    by (rule contrapos_pp) (simp add: drop_bit_word_beyond not_less)
  then show "((q, msb + 1), q, msb) \<in> measure (\<lambda>(q, msb). 64 - msb)" by simp
qed simp

declare msb_loop.simps [simp del]

definition mc_decimal_to_double :: "bool \<Rightarrow> u32 \<Rightarrow> u32 \<Rightarrow> u32 \<Rightarrow> f64_bits" where
  "mc_decimal_to_double negative whole frac scale =
     (let q32 = push_bit 32 (ucast whole) +
            (if frac \<noteq> 0
             then sum_list (map2 (\<lambda>d p. ucast d * ucast p)
                    (rev (dec_frac_digits MC_COMMAND_DECIMAL_MAX_FRAC_DIGITS frac scale)) frac_q32_place)
             else 0)
      in if q32 = 0 then 0
         else let msb = msb_loop q32 0;
                  exponent = int msb - 32;
                  (mantissa, exponent) =
                    (if msb \<le> MC_COMMAND_DOUBLE_EXP_SHIFT
                     then (push_bit (MC_COMMAND_DOUBLE_EXP_SHIFT - msb) q32, exponent)
                     else let mantissa = mc_round_shift_u64 q32 (msb - MC_COMMAND_DOUBLE_EXP_SHIFT) in
                       if drop_bit (MC_COMMAND_DOUBLE_EXP_SHIFT + 1) mantissa \<noteq> 0
                       then (drop_bit 1 mantissa, exponent + 1) else (mantissa, exponent));
                  bits = push_bit MC_COMMAND_DOUBLE_EXP_SHIFT (of_int (exponent + 1023)) OR
                         (mantissa AND MC_COMMAND_DOUBLE_FRAC_MASK)
              in if negative then bits OR MC_COMMAND_DOUBLE_SIGN_BIT else bits)"

definition is_digit :: "byte \<Rightarrow> bool" where
  "is_digit c \<longleftrightarrow> ch_zero \<le> c \<and> c \<le> ch_nine"

text \<open>The rest of the token, the whole part, the range error and the number of digits read.\<close>

fun parse_int_digits :: "byte list \<Rightarrow> u32 \<Rightarrow> bool \<Rightarrow> nat \<Rightarrow> byte list \<times> u32 \<times> bool \<times> nat" where
  "parse_int_digits [] whole range_error int_digits = ([], whole, range_error, int_digits)"
| "parse_int_digits (c # cs) whole range_error int_digits =
     (if is_digit c then
        let digit = ucast (c - ch_zero) in
        if (MC_COMMAND_COORD_LIMIT_WHOLE - digit) div 10 < whole
        then parse_int_digits cs whole True (int_digits + 1)
        else if \<not> range_error then parse_int_digits cs (whole * 10 + digit) range_error (int_digits + 1)
        else parse_int_digits cs whole range_error (int_digits + 1)
      else (c # cs, whole, range_error, int_digits))"

text \<open>The rest, the fraction and its scale, the number of digits and whether a digit that is not zero was
  dropped.\<close>

fun parse_frac_digits ::
    "byte list \<Rightarrow> bool \<Rightarrow> u32 \<Rightarrow> u32 \<Rightarrow> nat \<Rightarrow> bool \<Rightarrow> byte list \<times> u32 \<times> u32 \<times> nat \<times> bool" where
  "parse_frac_digits [] range_error frac scale frac_digits discarded = ([], frac, scale, frac_digits, discarded)"
| "parse_frac_digits (c # cs) range_error frac scale frac_digits discarded =
     (if is_digit c then
        if \<not> range_error \<and> frac_digits < MC_COMMAND_DECIMAL_MAX_FRAC_DIGITS
        then parse_frac_digits cs range_error (frac * 10 + ucast (c - ch_zero)) (scale * 10) (frac_digits + 1) discarded
        else if c \<noteq> ch_zero then parse_frac_digits cs range_error frac scale (frac_digits + 1) True
        else parse_frac_digits cs range_error frac scale (frac_digits + 1) discarded
      else (c # cs, frac, scale, frac_digits, discarded))"

text \<open>
  The value and whether it is out of range; nothing when the token is not a number. First the code from
  the point on, then the code from the digits on, then the function with the sign.
\<close>

definition parse_decimal_tail :: "bool \<Rightarrow> byte list \<Rightarrow> u32 \<Rightarrow> bool \<Rightarrow> (f64_bits \<times> bool) option" where
  "parse_decimal_tail negative rest whole range_error =
     (case (case rest of
              c # cs \<Rightarrow>
                if c = ch_dot
                then (case parse_frac_digits cs range_error 0 1 0 False of
                        (rest', frac, scale, frac_digits, discarded) \<Rightarrow>
                          if frac_digits = 0 then None else Some (rest', frac, scale, discarded))
                else Some (rest, 0, 1, False)
            | [] \<Rightarrow> Some (rest, 0, 1, False)) of
        None \<Rightarrow> None
      | Some (rest', frac, scale, discarded) \<Rightarrow>
          if rest' \<noteq> [] then None
          else let range_error = (range_error \<or> MC_COMMAND_COORD_LIMIT_WHOLE < whole \<or>
                     (whole = MC_COMMAND_COORD_LIMIT_WHOLE \<and> (frac \<noteq> 0 \<or> discarded)))
               in Some (if range_error then 0 else mc_decimal_to_double negative whole frac scale, range_error))"

definition parse_decimal_digits :: "bool \<Rightarrow> byte list \<Rightarrow> (f64_bits \<times> bool) option" where
  "parse_decimal_digits negative body =
     (case parse_int_digits body 0 False 0 of
        (rest, whole, range_error, int_digits) \<Rightarrow>
          if int_digits = 0 then None else parse_decimal_tail negative rest whole range_error)"

definition mc_parse_decimal :: "byte list \<Rightarrow> (f64_bits \<times> bool) option" where
  "mc_parse_decimal token =
     (case token of
        [] \<Rightarrow> None
      | c # cs \<Rightarrow>
          if c = ch_minus \<or> c = ch_plus
          then if cs = [] then None else parse_decimal_digits (c = ch_minus) cs
          else parse_decimal_digits False token)"

text \<open>\<open>value\<close> stays below \<open>24000 * 10 + 10\<close>, so the 32-bit arithmetic never overflows.\<close>

fun parse_time_loop :: "byte list \<Rightarrow> i32 \<Rightarrow> i32 option" where
  "parse_time_loop [] value = Some value"
| "parse_time_loop (c # cs) value =
     (if \<not> is_digit c then None
      else parse_time_loop cs (if sint value \<le> 24000 then value * 10 + ucast (c - ch_zero) else value))"

definition mc_parse_time_ticks :: "byte list \<Rightarrow> i32 option" where
  "mc_parse_time_ticks token = (if token = [] then None else parse_time_loop token 0)"

section \<open>The handlers\<close>

text \<open>Filling \<open>result->chat\<close> through a builder.\<close>

definition build_chat ::
    "(mc_text_builder \<Rightarrow> bool \<times> mc_text_builder) list \<Rightarrow> mc_command_result \<Rightarrow> bool \<times> mc_command_result" where
  "build_chat calls result =
     (case c_all calls (mc_builder_init (rs_chat result) MC_COMMAND_TEXT_CAP) of
        (ok, b) \<Rightarrow> (ok, result\<lparr>rs_chat := tb_buf b\<rparr>))"

definition mc_plain_chat :: "byte list \<Rightarrow> byte list \<Rightarrow> mc_command_result \<Rightarrow> bool \<times> mc_command_result" where
  "mc_plain_chat username message result =
     build_chat [mc_builder_append_char ch_lt, mc_builder_append_cstr username,
                 mc_builder_append_cstr (str_bytes ''> ''), mc_builder_append_cstr message]
       (result\<lparr>rs_action := MC_COMMAND_RESULT_CHAT\<rparr>)"

definition mc_handle_spawn :: "mc_command_result \<Rightarrow> bool \<times> mc_command_result" where
  "mc_handle_spawn result =
     mc_copy_chat (result\<lparr>rs_action := MC_COMMAND_RESULT_TELEPORT
         \<lparr>cp_x = MC_COMMAND_DEFAULT_X, cp_y = MC_COMMAND_DEFAULT_Y, cp_z = MC_COMMAND_DEFAULT_Z,
          cp_yaw = MC_COMMAND_DEFAULT_YAW, cp_pitch = MC_COMMAND_DEFAULT_PITCH\<rparr>\<rparr>)
       (str_bytes ''Teleported to spawn.'')"

definition mc_handle_tp ::
    "byte list list \<Rightarrow> nat \<Rightarrow> mc_command_context \<Rightarrow> mc_command_result \<Rightarrow> bool \<times> mc_command_result" where
  "mc_handle_tp tokens count ctx result =
     (if count \<noteq> 4 then mc_set_chat result (str_bytes ''Usage: /tp <x> <y> <z>'')
      else case (mc_parse_decimal (tokens ! 1), mc_parse_decimal (tokens ! 2), mc_parse_decimal (tokens ! 3)) of
        (Some (x, x_out), Some (y, y_out), Some (z, z_out)) \<Rightarrow>
          if x_out \<or> y_out \<or> z_out then mc_set_chat result (str_bytes ''Coordinate out of range.'')
          else mc_copy_chat (result\<lparr>rs_action := MC_COMMAND_RESULT_TELEPORT
                 \<lparr>cp_x = x, cp_y = y, cp_z = z, cp_yaw = cp_yaw (cc_position ctx),
                  cp_pitch = cp_pitch (cc_position ctx)\<rparr>\<rparr>) (str_bytes ''Teleported.'')
      | _ \<Rightarrow> mc_set_chat result (str_bytes ''Invalid number.''))"

definition mc_handle_pos :: "mc_command_context \<Rightarrow> mc_command_result \<Rightarrow> bool \<times> mc_command_result" where
  "mc_handle_pos ctx result =
     (let pos = cc_position ctx in
      case (mc_double_to_fixed2 (cp_x pos), mc_double_to_fixed2 (cp_y pos), mc_double_to_fixed2 (cp_z pos),
            mc_float_to_fixed2 (cp_yaw pos), mc_float_to_fixed2 (cp_pitch pos)) of
        (Some (x_negative, x_scaled), Some (y_negative, y_scaled), Some (z_negative, z_scaled),
         Some (yaw_negative, yaw_scaled), Some (pitch_negative, pitch_scaled)) \<Rightarrow>
          build_chat
            [mc_builder_append_cstr (str_bytes ''Known position: x=''),
             mc_builder_append_fixed2_scaled x_negative x_scaled,
             mc_builder_append_cstr (str_bytes '' y=''),
             mc_builder_append_fixed2_scaled y_negative y_scaled,
             mc_builder_append_cstr (str_bytes '' z=''),
             mc_builder_append_fixed2_scaled z_negative z_scaled,
             mc_builder_append_cstr (str_bytes '' yaw=''),
             mc_builder_append_fixed2_scaled yaw_negative yaw_scaled,
             mc_builder_append_cstr (str_bytes '' pitch=''),
             mc_builder_append_fixed2_scaled pitch_negative pitch_scaled]
            (result\<lparr>rs_action := MC_COMMAND_RESULT_CHAT\<rparr>)
      | _ \<Rightarrow> mc_set_chat result (str_bytes ''Known position unavailable.''))"

definition mc_time_result :: "mc_command_result \<Rightarrow> i32 \<Rightarrow> bool \<times> mc_command_result" where
  "mc_time_result result ticks =
     build_chat [mc_builder_append_cstr (str_bytes ''Time set to ''), mc_builder_append_i32 ticks,
                 mc_builder_append_char ch_dot]
       (result\<lparr>rs_action := MC_COMMAND_RESULT_TIME ticks\<rparr>)"

definition mc_handle_time :: "byte list list \<Rightarrow> nat \<Rightarrow> mc_command_result \<Rightarrow> bool \<times> mc_command_result" where
  "mc_handle_time tokens count result =
     (if count \<noteq> 2 then mc_set_chat result (str_bytes ''Usage: /time <day|noon|night|midnight|ticks>'')
      else if mc_token_eq (tokens ! 1) (str_bytes ''day'') then mc_time_result result 1000
      else if mc_token_eq (tokens ! 1) (str_bytes ''noon'') then mc_time_result result 6000
      else if mc_token_eq (tokens ! 1) (str_bytes ''night'') then mc_time_result result 13000
      else if mc_token_eq (tokens ! 1) (str_bytes ''midnight'') then mc_time_result result 18000
      else case mc_parse_time_ticks (tokens ! 1) of
             None \<Rightarrow> mc_set_chat result (str_bytes ''Invalid number.'')
           | Some ticks \<Rightarrow>
               if sint ticks < 0 \<or> 24000 < sint ticks
               then mc_set_chat result (str_bytes ''Time must be 0..24000.'')
               else mc_time_result result ticks)"

definition mc_weather_result :: "mc_command_result \<Rightarrow> mc_weather \<Rightarrow> byte list \<Rightarrow> bool \<times> mc_command_result" where
  "mc_weather_result result weather name =
     build_chat [mc_builder_append_cstr (str_bytes ''Weather set to ''), mc_builder_append_cstr name,
                 mc_builder_append_char ch_dot]
       (result\<lparr>rs_action := MC_COMMAND_RESULT_WEATHER weather\<rparr>)"

definition mc_handle_weather :: "byte list list \<Rightarrow> nat \<Rightarrow> mc_command_result \<Rightarrow> bool \<times> mc_command_result" where
  "mc_handle_weather tokens count result =
     (if count \<noteq> 2 then mc_set_chat result (str_bytes ''Usage: /weather <clear|rain|thunder>'')
      else if mc_token_eq (tokens ! 1) (str_bytes ''clear'')
      then mc_weather_result result MC_WEATHER_CLEAR (str_bytes ''clear'')
      else if mc_token_eq (tokens ! 1) (str_bytes ''rain'')
      then mc_weather_result result MC_WEATHER_RAIN (str_bytes ''rain'')
      else if mc_token_eq (tokens ! 1) (str_bytes ''thunder'')
      then mc_weather_result result MC_WEATHER_THUNDER (str_bytes ''thunder'')
      else mc_set_chat result (str_bytes ''Usage: /weather <clear|rain|thunder>''))"

definition mc_command_default_context :: mc_command_context where
  "mc_command_default_context =
     \<lparr>cc_position = \<lparr>cp_x = MC_COMMAND_DEFAULT_X, cp_y = MC_COMMAND_DEFAULT_Y, cp_z = MC_COMMAND_DEFAULT_Z,
        cp_yaw = MC_COMMAND_DEFAULT_YAW, cp_pitch = MC_COMMAND_DEFAULT_PITCH\<rparr>,
      cc_time_of_day = MC_COMMAND_DEFAULT_TIME, cc_weather = MC_WEATHER_CLEAR\<rparr>"

definition unknown_command :: "byte list" where
  "unknown_command = str_bytes ''Unknown command. Use /help.''"

definition help_text :: "byte list" where
  "help_text = str_bytes ''Commands: /help, /spawn, /tp <x> <y> <z>, /pos, /time <day|noon|night|midnight|ticks>, /weather <clear|rain|thunder>''"

definition mc_commands_handle_chat ::
    "byte list \<Rightarrow> byte list \<Rightarrow> mc_command_context \<Rightarrow> mc_command_result \<Rightarrow> bool \<times> mc_command_result" where
  "mc_commands_handle_chat username message ctx result =
     (if message = [] \<or> hd message \<noteq> ch_slash then mc_plain_chat username message result
      else case mc_split_spaces message 5 of (count, tokens, too_many) \<Rightarrow>
        if count = 0 \<or> too_many then mc_set_chat result unknown_command
        else if mc_token_eq (tokens ! 0) (str_bytes ''/help'') then
          (if count \<noteq> 1 then mc_set_chat result unknown_command else mc_set_chat result help_text)
        else if mc_token_eq (tokens ! 0) (str_bytes ''/spawn'') then
          (if count \<noteq> 1 then mc_set_chat result unknown_command else mc_handle_spawn result)
        else if mc_token_eq (tokens ! 0) (str_bytes ''/tp'') then mc_handle_tp tokens count ctx result
        else if mc_token_eq (tokens ! 0) (str_bytes ''/pos'') then
          (if count \<noteq> 1 then mc_set_chat result unknown_command else mc_handle_pos ctx result)
        else if mc_token_eq (tokens ! 0) (str_bytes ''/time'') then mc_handle_time tokens count result
        else if mc_token_eq (tokens ! 0) (str_bytes ''/weather'') then mc_handle_weather tokens count result
        else mc_set_chat result unknown_command)"

section \<open>What the builder appends\<close>

definition tb_text :: "mc_text_builder \<Rightarrow> byte list" where
  "tb_text b = take (tb_len b) (tb_buf b)"

text \<open>Room for the terminating zero, which is always there.\<close>

definition builder_ok :: "mc_text_builder \<Rightarrow> bool" where
  "builder_ok b \<longleftrightarrow> tb_len b < tb_cap b \<and> tb_cap b \<le> length (tb_buf b) \<and> tb_buf b ! tb_len b = 0"

definition tb_room :: "mc_text_builder \<Rightarrow> nat" where
  "tb_room b = tb_cap b - 1"

abbreviation builds :: "(mc_text_builder \<Rightarrow> bool \<times> mc_text_builder) \<Rightarrow> byte list \<Rightarrow> bool" where
  "builds \<equiv> appends builder_ok tb_text tb_room"

lemma length_tb_text: "builder_ok b \<Longrightarrow> length (tb_text b) = tb_len b"
  by (simp add: tb_text_def builder_ok_def)

lemma builds_char [sink_simps]: "builds (mc_builder_append_char c) [c]"
  by (auto simp: appends_def mc_builder_append_char_def builder_ok_def tb_text_def tb_room_def
      take_Suc_conv_app_nth)

interpretation tb: bounded_sink builder_ok tb_text tb_room mc_builder_append_char
proof
  fix b show "builds (mc_builder_append_char b) [b]" by (rule builds_char)
next
  fix s assume "builder_ok s"
  then show "length (tb_text s) \<le> tb_room s" by (simp add: length_tb_text tb_room_def) (auto simp: builder_ok_def)
qed

lemma builds_bytes [sink_simps]: "builds (mc_builder_append_bytes text) text"
proof -
  have "builder_ok (snd (mc_builder_append_bytes text b)) \<and> tb_room (snd (mc_builder_append_bytes text b)) = tb_room b \<and>
    (if length (tb_text b) + length text \<le> tb_room b
     then fst (mc_builder_append_bytes text b) \<and> tb_text (snd (mc_builder_append_bytes text b)) = tb_text b @ text
     else \<not> fst (mc_builder_append_bytes text b))" if b: "builder_ok b" for b
  proof (cases "tb_len b + length text < tb_cap b")
    case True
    let ?m = "memcpy_at (tb_buf b) (tb_len b) text"
    have l: "length ?m = length (tb_buf b)"
      using b True by (intro length_memcpy_at) (simp add: builder_ok_def)
    have t: "take (tb_len b + length text) ?m = tb_text b @ text"
      using b by (simp add: memcpy_at_def tb_text_def builder_ok_def)
    from b True l t show ?thesis
      by (auto simp: mc_builder_append_bytes_def Let_def length_tb_text tb_room_def)
        (auto simp: builder_ok_def tb_text_def)
  next
    case False
    with b show ?thesis
      by (auto simp: mc_builder_append_bytes_def Let_def length_tb_text tb_room_def) (auto simp: builder_ok_def)
  qed
  then show ?thesis by (simp add: appends_def)
qed

lemma builds_cstr [sink_simps]: "builds (mc_builder_append_cstr text) text"
  using builds_bytes [of "text"] by (simp add: mc_builder_append_cstr_def [abs_def] mc_cstr_len_def)

text \<open>The reference: decimal notation.\<close>

fun nat_dec :: "nat \<Rightarrow> byte list" where
  "nat_dec n = (if n < 10 then [ch_zero + of_nat n] else nat_dec (n div 10) @ [ch_zero + of_nat (n mod 10)])"

declare nat_dec.simps [simp del]

lemma u32_digits_dec: "v \<noteq> 0 \<Longrightarrow> rev (u32_digits v) = nat_dec (unat v)"
proof (induction v rule: u32_digits.induct)
  case (1 v)
  have d: "ucast (v mod 10) = (of_nat (unat v mod 10) :: byte)"
    using arg_cong [OF unat_mod [of v 10], of "of_nat :: nat \<Rightarrow> byte"] by simp
  have q: "unat (v div 10) = unat v div 10" by (simp add: unat_div)
  have z: "v div 10 = 0 \<longleftrightarrow> unat v < 10"
    using q by (metis div_eq_0_iff unat_eq_zero zero_neq_numeral)
  show ?case
  proof (cases "v div 10 = 0")
    case True
    then have "unat v < 10" by (simp add: z)
    with 1 True d show ?thesis
      by (simp add: u32_digits.simps [of v] u32_digits.simps [of 0] nat_dec.simps [of "unat v"])
  next
    case False
    with 1 d q z show ?thesis
      by (simp add: u32_digits.simps [of v] nat_dec.simps [of "unat v"])
  qed
qed

lemma builds_u32 [sink_simps]: "builds (mc_builder_append_u32 v) (nat_dec (unat v))"
proof (cases "v = 0")
  case True
  then show ?thesis
    using builds_char [of ch_zero] by (simp add: mc_builder_append_u32_def [abs_def] nat_dec.simps)
next
  case False
  then show ?thesis
    using tb.appends_puts [of "rev (u32_digits v)"]
    by (simp add: mc_builder_append_u32_def [abs_def] u32_digits_dec)
qed

definition int_dec :: "int \<Rightarrow> byte list" where
  "int_dec i = (if i < 0 then ch_minus # nat_dec (nat (- i)) else nat_dec (nat i))"

lemma unat_uminus_neg: "sint (v :: i32) < 0 \<Longrightarrow> unat (- v) = nat (- sint v)"
proof -
  assume neg: "sint v < 0"
  have "sint v \<ge> - (2 ^ 31)" using sint_ge [of v] by simp
  have "uint (- v) = (- sint v) mod 2 ^ 32"
  proof -
    have "uint (- v) = uint (word_of_int (- sint v) :: i32)" by simp
    then show ?thesis by (simp only: uint_word_of_int) simp
  qed
  with neg \<open>sint v \<ge> - (2 ^ 31)\<close> have "uint (- v) = - sint v" by simp
  then show ?thesis by (metis nat_uint_eq)
qed

lemma builds_i32 [sink_simps]: "builds (mc_builder_append_i32 v) (int_dec (sint v))"
proof (cases "sint v < 0")
  case True
  have "- (v + 1) + 1 = - v" by simp
  moreover have "builds (c_all [mc_builder_append_char ch_minus, mc_builder_append_u32 (- v)])
      ([ch_minus] @ nat_dec (unat (- v)))"
    by (intro tb.appends_then tb.appends_last sink_simps)
  ultimately show ?thesis
    using True by (simp add: mc_builder_append_i32_def [abs_def] int_dec_def unat_uminus_neg del: c_all.simps)
next
  case False
  then show ?thesis
    using builds_u32 [of v] sint_nonneg_unat [of v]
    by (simp add: mc_builder_append_i32_def [abs_def] int_dec_def)
qed

definition fixed2_text :: "bool \<Rightarrow> nat \<Rightarrow> byte list" where
  "fixed2_text negative scaled =
     (if negative \<and> scaled \<noteq> 0 then [ch_minus] else []) @ nat_dec (scaled div 100) @
     [ch_dot, ch_zero + of_nat (scaled mod 100 div 10), ch_zero + of_nat (scaled mod 10)]"

lemma builds_fixed2 [sink_simps]:
  "builds (mc_builder_append_fixed2_scaled negative scaled) (fixed2_text negative (unat scaled))"
proof -
  let ?s = "if negative \<and> scaled \<noteq> 0 then [mc_builder_append_char ch_minus] else []"
  have s: "list_all2 builds ?s (if negative \<and> scaled \<noteq> 0 then [[ch_minus]] else [])"
    by (simp add: sink_simps)
  have r: "list_all2 builds [mc_builder_append_u32 (scaled div 100), mc_builder_append_char ch_dot,
         mc_builder_append_char (ch_zero + ucast (scaled mod 100 div 10)),
         mc_builder_append_char (ch_zero + ucast (scaled mod 100 mod 10))]
       [nat_dec (unat (scaled div 100)), [ch_dot], [ch_zero + ucast (scaled mod 100 div 10)],
         [ch_zero + ucast (scaled mod 100 mod 10)]]"
    by (simp add: sink_simps)
  have u: "unat (scaled mod 100 div 10) = unat scaled mod 100 div 10" "unat (scaled mod 100 mod 10) = unat scaled mod 10"
    "unat (scaled div 100) = unat scaled div 100"
    by (simp_all add: unat_div unat_mod mod_mod_cancel)
  have w: "unat (scaled div 100) = unat scaled div 100" "ucast (scaled mod 100 div 10) = (of_nat (unat scaled mod 100 div 10) :: byte)"
    "ucast (scaled mod 100 mod 10) = (of_nat (unat scaled mod 10) :: byte)" "scaled \<noteq> 0 \<longleftrightarrow> unat scaled \<noteq> 0"
    using arg_cong [OF u(1), of "of_nat :: nat \<Rightarrow> byte"] arg_cong [OF u(2), of "of_nat :: nat \<Rightarrow> byte"]
    by (simp_all add: u(3) unat_eq_zero)
  show ?thesis
    using tb.appends_all [OF list_all2_appendI [OF s r]] w
    by (cases "negative \<and> scaled \<noteq> 0")
      (auto simp: mc_builder_append_fixed2_scaled_def [abs_def] Let_def fixed2_text_def simp del: c_all.simps)
qed

section \<open>Rounding\<close>

text \<open>The reference: division by a power of two, rounded to nearest, ties to even.\<close>

definition round_half_even :: "nat \<Rightarrow> nat \<Rightarrow> nat" where
  "round_half_even n k =
     (let q = n div 2 ^ k; r = n mod 2 ^ k in
      if 2 ^ k < 2 * r \<or> (2 * r = 2 ^ k \<and> odd q) then q + 1 else q)"

lemma round_half_even_0: "round_half_even n 0 = n"
  by (simp add: round_half_even_def)

lemma round_half_even_tiny: "2 * n < 2 ^ k \<Longrightarrow> round_half_even n k = 0"
  by (simp add: round_half_even_def Let_def)

lemma unat_and_mask: "unat ((v :: 'a::len word) AND (push_bit k 1 - 1)) = unat v mod 2 ^ k"
proof -
  have "(push_bit k 1 - 1 :: 'a word) = mask k" by (simp add: mask_eq_exp_minus_1 push_bit_eq_mult)
  then have "v AND (push_bit k 1 - 1) = take_bit k v" by (simp only: take_bit_eq_mask)
  then show ?thesis by (simp only: unsigned_take_bit_eq) (simp add: take_bit_eq_mod)
qed

lemma mc_round_shift_u64_eq:
  assumes "k < 64"
  shows "unat (mc_round_shift_u64 v k) = round_half_even (unat v) k"
proof (cases "k = 0")
  case True
  then show ?thesis by (simp add: mc_round_shift_u64_def round_half_even_0)
next
  case False
  let ?q = "drop_bit k v" and ?r = "v AND (push_bit k 1 - 1)" and ?h = "push_bit (k - 1) 1 :: u64"
  have q: "unat ?q = unat v div 2 ^ k" by (simp only: unat_drop_bit_eq) (simp only: drop_bit_eq_div)
  have r: "unat ?r = unat v mod 2 ^ k" by (rule unat_and_mask)
  have h: "2 * unat ?h = 2 ^ k"
  proof -
    have "(2 :: nat) ^ (k - 1) < 2 ^ 64" using assms by (intro power_strict_increasing) simp_all
    then have "unat (of_nat (2 ^ (k - 1)) :: u64) = 2 ^ (k - 1)" by (intro unat_of_nat_id) simp
    then have "unat ?h = 2 ^ (k - 1)" by (simp add: push_bit_eq_mult)
    with False show ?thesis by (simp add: power_eq_if)
  qed
  have odd: "?q AND 1 \<noteq> 0 \<longleftrightarrow> odd (unat ?q)"
  proof -
    have "unat (?q AND 1) = unat ?q mod 2" by (simp only: and_one_eq unat_mod) simp
    then have "?q AND 1 \<noteq> 0 \<longleftrightarrow> unat ?q mod 2 \<noteq> 0" by (metis unat_eq_zero)
    then show ?thesis by presburger
  qed
  have gt: "?h < ?r \<longleftrightarrow> 2 ^ k < 2 * unat ?r" and eq: "?r = ?h \<longleftrightarrow> 2 * unat ?r = 2 ^ k"
    using h by (auto simp: word_less_nat_alt word_unat_eq_iff)
  have "unat ?q + 1 < 2 ^ 64"
  proof -
    have "unat v div 2 ^ k \<le> unat v div 2 ^ 1" using False by (intro div_le_mono2) (simp_all add: self_le_power)
    also have "\<dots> < 2 ^ 63" using unat_lt_64 [of v] by simp
    finally show ?thesis using q by simp
  qed
  then have inc: "unat (?q + 1) = unat ?q + 1" by (simp add: unat_word_ariths)
  show ?thesis
    using False assms unfolding mc_round_shift_u64_def Let_def gt eq odd q r
    by (simp add: inc q round_half_even_def Let_def)
qed

text \<open>The magnitude in hundredths of \<open>mantissa * 2 ^ shift\<close>.\<close>

definition fixed2_value :: "nat \<Rightarrow> int \<Rightarrow> nat" where
  "fixed2_value m shift =
     (if 0 \<le> shift then 100 * m * 2 ^ nat shift else round_half_even (100 * m) (nat (- shift)))"

lemma mc_binary_to_fixed2_eq:
  assumes "unat m < 2 ^ 53" "m \<noteq> 0"
  shows "mc_binary_to_fixed2 negative e m bits =
    (let s = fixed2_value (unat m) (e - int bits) in
     if s \<le> 3000000000 then Some (negative \<and> s \<noteq> 0, of_nat s) else None)"
proof -
  let ?base = "push_bit 6 m + push_bit 5 m + push_bit 2 m" and ?shift = "e - int bits"
  have base: "unat ?base = 100 * unat m"
  proof -
    have "?base = 100 * m" by (simp add: push_bit_eq_mult algebra_simps)
    also have "\<dots> = of_nat (100 * unat m)" by simp
    finally show ?thesis using assms by (simp only:) (rule unat_of_nat_id, simp)
  qed
  have small: "\<not> (- 1 :: u64) div 100 < m"
  proof -
    have "(- 1 :: u64) div 100 = 184467440737095516" by simp
    with assms show ?thesis by (simp add: word_less_nat_alt)
  qed
  have res: "(if MC_COMMAND_FIXED2_MAX_SCALED < s then None else Some (negative \<and> s \<noteq> 0, ucast s)) =
      (if n \<le> 3000000000 then Some (negative \<and> n \<noteq> 0, of_nat n :: u32) else None)" if "unat s = n" for s :: u64 and n
    using that by (auto simp: word_less_nat_alt unat_gt_0)
  show ?thesis
  proof (cases "0 \<le> ?shift")
    case False
    let ?k = "nat (- ?shift)"
    have sc: "unat (mc_round_shift_u64 ?base ?k) = round_half_even (100 * unat m) ?k"
    proof (cases "?k < 64")
      case True
      then show ?thesis by (simp only: mc_round_shift_u64_eq base)
    next
      case big: False
      have "2 * (100 * unat m) < (2 :: nat) ^ 64" using assms by simp
      also have "(2 :: nat) ^ 64 \<le> 2 ^ ?k" using big by (intro power_increasing) simp_all
      finally have "round_half_even (100 * unat m) ?k = 0" by (rule round_half_even_tiny)
      with big show ?thesis by (simp add: mc_round_shift_u64_def)
    qed
    let ?s = "mc_round_shift_u64 ?base ?k"
    have "mc_binary_to_fixed2 negative e m bits =
        (if MC_COMMAND_FIXED2_MAX_SCALED < ?s then None else Some (negative \<and> ?s \<noteq> 0, ucast ?s))"
      using False small by (simp add: mc_binary_to_fixed2_def Let_def)
    also have "\<dots> = (let s = fixed2_value (unat m) ?shift in
        if s \<le> 3000000000 then Some (negative \<and> s \<noteq> 0, of_nat s) else None)"
      using False by (simp only: res [OF sc] fixed2_value_def Let_def if_False)
    finally show ?thesis .
  next
    case True
    let ?k = "nat ?shift"
    have v: "fixed2_value (unat m) ?shift = 100 * unat m * 2 ^ ?k" using True by (simp add: fixed2_value_def)
    have guard: "(64 \<le> ?shift \<or> drop_bit ?k MC_COMMAND_FIXED2_MAX_SCALED < ?base) \<longleftrightarrow>
        (64 \<le> ?shift \<or> 3000000000 < 100 * unat m * 2 ^ ?k)"
    proof -
      have "unat (drop_bit ?k MC_COMMAND_FIXED2_MAX_SCALED) = 3000000000 div 2 ^ ?k"
        by (simp only: unat_drop_bit_eq) (simp add: drop_bit_eq_div)
      then have "drop_bit ?k MC_COMMAND_FIXED2_MAX_SCALED < ?base \<longleftrightarrow> 3000000000 div 2 ^ ?k < 100 * unat m"
        by (simp only: word_less_nat_alt base)
      then show ?thesis by (simp add: div_less_iff_less_mult)
    qed
    have pos: "1 \<le> unat m" using assms(2) unat_gt_0 [of m] by simp
    show ?thesis
    proof (cases "3000000000 < 100 * unat m * 2 ^ ?k")
      case True
      with \<open>0 \<le> ?shift\<close> small guard show ?thesis
        by (simp add: mc_binary_to_fixed2_def Let_def v)
    next
      case fit: False
      have "?shift < 64"
      proof (rule ccontr)
        assume "\<not> ?shift < 64"
        then have "(2 :: nat) ^ 64 \<le> 2 ^ ?k" by (intro power_increasing) simp_all
        also have "\<dots> \<le> 100 * unat m * 2 ^ ?k" using pos by simp
        finally show False using fit by simp
      qed
      moreover have sc: "unat (push_bit ?k ?base) = 100 * unat m * 2 ^ ?k"
      proof -
        have "push_bit ?k ?base = of_nat (100 * unat m * 2 ^ ?k)"
          using base by (simp add: push_bit_eq_mult mult.commute)
        with fit show ?thesis by (simp only:) (rule unat_of_nat_id, simp)
      qed
      ultimately show ?thesis
        using \<open>0 \<le> ?shift\<close> small guard fit res [OF sc]
        by (simp add: mc_binary_to_fixed2_def Let_def v)
    qed
  qed
qed

lemma unat_or_hidden:
  assumes "unat (f :: 'a::len word) < 2 ^ k" "k < LENGTH('a)"
  shows "unat (push_bit k 1 OR f) = 2 ^ k + unat f"
proof -
  have "push_bit k 1 AND f = 0"
  proof (rule bit_word_eqI)
    fix n assume "n < LENGTH('a)"
    have "\<not> bit (unat f) k" using assms(1) by (simp add: bit_iff_odd)
    then have "\<not> bit f k" using assms(2) by (simp add: bit_unsigned_iff)
    then show "bit (push_bit k 1 AND f) n = bit 0 n" by (auto simp: bit_and_iff bit_exp_iff)
  qed
  then have "push_bit k 1 OR f = push_bit k 1 + f" by (rule disjunctive_add_eq_or [symmetric])
  moreover have "unat (push_bit k 1 :: 'a word) = 2 ^ k"
  proof -
    have "(2 :: nat) ^ k < 2 ^ LENGTH('a)" using assms(2) by (intro power_strict_increasing) simp_all
    then have "unat (of_nat (2 ^ k) :: 'a word) = 2 ^ k" by (intro unat_of_nat_id)
    then show ?thesis by (simp add: push_bit_eq_mult)
  qed
  moreover have "2 ^ k + unat f < 2 ^ LENGTH('a)"
  proof -
    have "2 ^ k + unat f < 2 ^ Suc k" using assms(1) by simp
    also have "\<dots> \<le> 2 ^ LENGTH('a)" using assms(2) by (intro power_increasing) simp_all
    finally show ?thesis .
  qed
  ultimately show ?thesis by (simp add: unat_word_ariths)
qed

lemma double_mantissa:
  "unat ((MC_COMMAND_DOUBLE_HIDDEN_BIT OR (b AND MC_COMMAND_DOUBLE_FRAC_MASK)) :: u64) = 2 ^ 52 + unat b mod 2 ^ 52"
proof -
  have m: "(MC_COMMAND_DOUBLE_FRAC_MASK :: u64) = push_bit 52 1 - 1" and h: "(MC_COMMAND_DOUBLE_HIDDEN_BIT :: u64) = push_bit 52 1"
    by (simp_all add: push_bit_eq_mult)
  have "unat (b AND (push_bit 52 1 - 1)) = unat b mod 2 ^ 52" by (rule unat_and_mask)
  then show ?thesis unfolding m h using unat_or_hidden [of "b AND (push_bit 52 1 - 1)" 52] by simp
qed

text \<open>The parts of the bit pattern of a \<open>double\<close>.\<close>

definition double_exp :: "f64_bits \<Rightarrow> nat" where
  "double_exp b = unat b div 2 ^ 52 mod 2 ^ 11"

definition double_mant :: "f64_bits \<Rightarrow> nat" where
  "double_mant b = 2 ^ 52 + unat b mod 2 ^ 52"

lemma double_exp_bits: "unat (drop_bit 52 b AND 0x7ff :: u64) = double_exp b"
proof -
  have m: "(0x7ff :: u64) = push_bit 11 1 - 1" by (simp add: push_bit_eq_mult)
  have "unat (drop_bit 52 b) = unat b div 2 ^ 52" by (simp only: unat_drop_bit_eq) (simp only: drop_bit_eq_div)
  then show ?thesis unfolding m unat_and_mask double_exp_def by simp
qed

lemma mc_double_to_fixed2_eq:
  assumes "0 < double_exp b" "double_exp b < 2047"
  shows "mc_double_to_fixed2 b =
    (let s = fixed2_value (double_mant b) (int (double_exp b) - 1075) in
     if s \<le> 3000000000 then Some (bit b 63 \<and> s \<noteq> 0, of_nat s) else None)"
proof -
  let ?e = "drop_bit 52 b AND 0x7ff :: u64" and ?m = "MC_COMMAND_DOUBLE_HIDDEN_BIT OR (b AND MC_COMMAND_DOUBLE_FRAC_MASK)"
  have e: "?e \<noteq> 0x7ff" "?e \<noteq> 0" "uint ?e = int (double_exp b)"
    using assms double_exp_bits [of b] by (auto simp: uint_nat)
  have m: "unat ?m = double_mant b" by (simp only: double_mantissa double_mant_def)
  have m53: "unat ?m < 2 ^ 53" "?m \<noteq> 0"
    using m by (auto simp: double_mant_def simp del: unat_eq_zero)
  have sign: "b AND MC_COMMAND_DOUBLE_SIGN_BIT \<noteq> 0 \<longleftrightarrow> bit b 63"
    using and_exp_eq_0_iff_not_bit [of b 63] by simp
  show ?thesis
    using e(1,2) mc_binary_to_fixed2_eq [OF m53, of "bit b 63" "uint ?e - 1023" 52]
    by (simp add: mc_double_to_fixed2_def Let_def sign m e(3) del: double_exp_bits)
qed

text \<open>The parts of the bit pattern of a \<open>float\<close>.\<close>

definition float_exp :: "f32_bits \<Rightarrow> nat" where
  "float_exp b = unat b div 2 ^ 23 mod 2 ^ 8"

definition float_mant :: "f32_bits \<Rightarrow> nat" where
  "float_mant b = 2 ^ 23 + unat b mod 2 ^ 23"

lemma float_exp_bits: "unat (drop_bit 23 b AND 0xff :: u32) = float_exp b"
proof -
  have m: "(0xff :: u32) = push_bit 8 1 - 1" by (simp add: push_bit_eq_mult)
  have "unat (drop_bit 23 b) = unat b div 2 ^ 23" by (simp only: unat_drop_bit_eq) (simp only: drop_bit_eq_div)
  then show ?thesis unfolding m unat_and_mask float_exp_def by simp
qed

lemma float_mantissa:
  "unat (MC_COMMAND_FLOAT_HIDDEN_BIT OR (b AND MC_COMMAND_FLOAT_FRAC_MASK)) = float_mant b"
proof -
  have m: "(MC_COMMAND_FLOAT_FRAC_MASK) = push_bit 23 1 - 1" and h: "(MC_COMMAND_FLOAT_HIDDEN_BIT) = push_bit 23 1"
    by (simp_all add: push_bit_eq_mult)
  have "unat (b AND (push_bit 23 1 - 1)) = unat b mod 2 ^ 23" by (rule unat_and_mask)
  then show ?thesis unfolding m h float_mant_def using unat_or_hidden [of "b AND (push_bit 23 1 - 1)" 23] by simp
qed

lemma mc_float_to_fixed2_eq:
  assumes "0 < float_exp b" "float_exp b < 255"
  shows "mc_float_to_fixed2 b =
    (let s = fixed2_value (float_mant b) (int (float_exp b) - 150) in
     if s \<le> 3000000000 then Some (bit b 31 \<and> s \<noteq> 0, of_nat s) else None)"
proof -
  let ?e = "drop_bit 23 b AND 0xff :: u32" and ?m = "MC_COMMAND_FLOAT_HIDDEN_BIT OR (b AND MC_COMMAND_FLOAT_FRAC_MASK)"
  have e: "?e \<noteq> 0xff" "?e \<noteq> 0" "uint ?e = int (float_exp b)"
    using assms float_exp_bits [of b] by (auto simp: uint_nat)
  have m24: "float_mant b < 2 ^ 24" "0 < float_mant b" by (simp_all add: float_mant_def)
  have m: "unat (ucast ?m :: u64) = float_mant b"
    using m24 float_mantissa [of b] by (simp add: unsigned_ucast_eq take_bit_nat_eq_self)
  have m53: "unat (ucast ?m :: u64) < 2 ^ 53" "(ucast ?m :: u64) \<noteq> 0"
    using m m24 by (auto simp del: unat_eq_zero)
  have sign: "b AND MC_COMMAND_FLOAT_SIGN_BIT \<noteq> 0 \<longleftrightarrow> bit b 31"
    using and_exp_eq_0_iff_not_bit [of b 31] by simp
  show ?thesis
    using e(1,2) mc_binary_to_fixed2_eq [OF m53, of "bit b 31" "uint ?e - 127" 23]
    by (simp add: mc_float_to_fixed2_def Let_def sign m e(3))
qed

section \<open>What the handlers answer\<close>

abbreviation chat_array_ok :: "mc_command_result \<Rightarrow> bool" where
  "chat_array_ok r \<equiv> MC_COMMAND_TEXT_CAP \<le> length (rs_chat r)"

lemma build_chat_result:
  assumes "chat_array_ok r" "builds (c_all calls) t" "0 \<notin> set t"
  shows "(if length t < MC_COMMAND_TEXT_CAP
      then fst (build_chat calls r) \<and> c_str (rs_chat (snd (build_chat calls r))) = t
      else \<not> fst (build_chat calls r)) \<and>
    chat_array_ok (snd (build_chat calls r)) \<and> rs_action (snd (build_chat calls r)) = rs_action r"
proof -
  let ?b = "mc_builder_init (rs_chat r) MC_COMMAND_TEXT_CAP"
  have "rs_chat r \<noteq> []" using assms(1) by auto
  then have b: "builder_ok ?b" "tb_text ?b = []" "tb_room ?b = 159"
    using assms(1) by (simp_all add: mc_builder_init_def builder_ok_def tb_text_def tb_room_def)
  obtain ok b' where r: "c_all calls ?b = (ok, b')" by fastforce
  have b': "builder_ok b'" "tb_room b' = 159"
    "if length t \<le> 159 then ok \<and> tb_text b' = t else \<not> ok"
    using assms(2) b r by (auto simp: appends_def dest!: spec [of _ ?b] split: if_splits)
  have "c_str (tb_buf b') = t" if "length t \<le> 159"
  proof -
    have len: "tb_len b' < length (tb_buf b')" "tb_buf b' ! tb_len b' = 0" using b'(1) by (simp_all add: builder_ok_def)
    have "tb_buf b' = tb_text b' @ 0 # drop (Suc (tb_len b')) (tb_buf b')"
      using id_take_nth_drop [OF len(1)] len(2) by (simp add: tb_text_def)
    then show ?thesis using b'(3) that c_str_terminated [OF assms(3)] by metis
  qed
  moreover have "160 \<le> length (tb_buf b')"
    using b'(1,2) by (auto simp: builder_ok_def tb_room_def)
  ultimately show ?thesis using b'(3) r by (auto simp: build_chat_def split: if_splits)
qed

lemma mc_copy_chat_build: "mc_copy_chat r t = build_chat [mc_builder_append_cstr t] r"
  by (auto simp: mc_copy_chat_def build_chat_def split: prod.splits)

text \<open>A fixed answer that fits always succeeds.\<close>

lemma mc_copy_chat_ok:
  assumes "chat_array_ok r" "0 \<notin> set t" "length t < MC_COMMAND_TEXT_CAP"
  shows "fst (mc_copy_chat r t)" "c_str (rs_chat (snd (mc_copy_chat r t))) = t"
    "rs_action (snd (mc_copy_chat r t)) = rs_action r"
  using build_chat_result [OF assms(1) tb.appends_last [OF builds_cstr] assms(2)] assms(3)
  by (simp_all add: mc_copy_chat_build)

lemma mc_set_chat_ok:
  assumes "chat_array_ok r" "0 \<notin> set t" "length t < MC_COMMAND_TEXT_CAP"
  shows "fst (mc_set_chat r t)" "c_str (rs_chat (snd (mc_set_chat r t))) = t"
    "rs_action (snd (mc_set_chat r t)) = MC_COMMAND_RESULT_CHAT"
  using mc_copy_chat_ok [of "r\<lparr>rs_action := MC_COMMAND_RESULT_CHAT\<rparr>" t] assms by (simp_all add: mc_set_chat_def)

lemma digit_not_zero: "d < 10 \<Longrightarrow> ch_zero + of_nat d \<noteq> (0 :: byte)"
proof -
  assume "d < 10"
  then have "unat (ch_zero + of_nat d :: byte) = 48 + d"
    by (simp add: unat_word_ariths unat_of_nat)
  then show ?thesis by (metis add_is_0 unat_0 zero_neq_numeral)
qed

lemma nat_dec_no_zero: "0 \<notin> set (nat_dec n)"
proof (induction n rule: nat_dec.induct)
  case (1 n)
  have "ch_zero + of_nat (n mod 10) \<noteq> (0 :: byte)" by (rule digit_not_zero) simp
  with 1 digit_not_zero [of n] show ?case by (subst nat_dec.simps) auto
qed

lemma length_nat_dec: "n < 10 ^ Suc k \<Longrightarrow> length (nat_dec n) \<le> Suc k"
proof (induction k arbitrary: n)
  case 0
  then show ?case by (simp add: nat_dec.simps)
next
  case (Suc k)
  then have "n div 10 < 10 ^ Suc k" by (simp add: less_mult_imp_div_less)
  with Suc.IH show ?case by (subst nat_dec.simps) simp
qed

lemma length_int_dec: "length (int_dec (sint (v :: i32))) \<le> 11"
proof -
  have "nat (- sint v) < 10 ^ Suc 9" "nat (sint v) < 10 ^ Suc 9"
    using sint_ge [of v] sint_lt [of v] by simp_all
  then show ?thesis
    using length_nat_dec [of "nat (- sint v)" 9] length_nat_dec [of "nat (sint v)" 9] by (simp add: int_dec_def)
qed

lemma int_dec_no_zero: "0 \<notin> set (int_dec i)"
  using nat_dec_no_zero by (simp add: int_dec_def)

lemma length_fixed2_text: "length (fixed2_text neg (unat (s :: u32))) \<le> 12"
proof -
  have "unat s div 100 < 10 ^ Suc 7" using unat_lt_32 [of s] by simp
  from length_nat_dec [OF this] show ?thesis by (simp add: fixed2_text_def)
qed

lemma fixed2_text_no_zero: "0 \<notin> set (fixed2_text neg n)"
proof -
  have "ch_zero + of_nat (n mod 100 div 10) \<noteq> (0 :: byte)" "ch_zero + of_nat (n mod 10) \<noteq> (0 :: byte)"
    by (rule digit_not_zero, simp)+
  with nat_dec_no_zero [of "n div 100"] show ?thesis by (auto simp: fixed2_text_def)
qed

lemma mc_time_result_ok:
  assumes "chat_array_ok r"
  shows "fst (mc_time_result r ticks)"
    "c_str (rs_chat (snd (mc_time_result r ticks))) = str_bytes ''Time set to '' @ int_dec (sint ticks) @ [ch_dot]"
    "rs_action (snd (mc_time_result r ticks)) = MC_COMMAND_RESULT_TIME ticks"
proof -
  let ?calls = "[mc_builder_append_cstr (str_bytes ''Time set to ''), mc_builder_append_i32 ticks, mc_builder_append_char ch_dot]"
  have "builds (c_all ?calls) (str_bytes ''Time set to '' @ int_dec (sint ticks) @ [ch_dot])"
    by (intro tb.appends_then tb.appends_last sink_simps)
  from build_chat_result [OF _ this, of "r\<lparr>rs_action := MC_COMMAND_RESULT_TIME ticks\<rparr>"] assms
    length_int_dec [of ticks] int_dec_no_zero [of "sint ticks"]
  show "fst (mc_time_result r ticks)"
    "c_str (rs_chat (snd (mc_time_result r ticks))) = str_bytes ''Time set to '' @ int_dec (sint ticks) @ [ch_dot]"
    "rs_action (snd (mc_time_result r ticks)) = MC_COMMAND_RESULT_TIME ticks"
    by (auto simp: mc_time_result_def split: if_splits)
qed

lemma mc_weather_result_ok:
  assumes "chat_array_ok r" "0 \<notin> set name" "length name \<le> 7"
  shows "fst (mc_weather_result r w name)"
proof -
  have "builds (c_all [mc_builder_append_cstr (str_bytes ''Weather set to ''), mc_builder_append_cstr name,
      mc_builder_append_char ch_dot]) (str_bytes ''Weather set to '' @ name @ [ch_dot])"
    by (intro tb.appends_then tb.appends_last sink_simps)
  from build_chat_result [OF _ this, of "r\<lparr>rs_action := MC_COMMAND_RESULT_WEATHER w\<rparr>"] assms
  show ?thesis by (auto simp: mc_weather_result_def split: if_splits)
qed

definition pos_text :: "(bool \<times> u32) \<Rightarrow> (bool \<times> u32) \<Rightarrow> (bool \<times> u32) \<Rightarrow> (bool \<times> u32) \<Rightarrow> (bool \<times> u32) \<Rightarrow> byte list" where
  "pos_text x y z yaw pitch =
     (let t = (\<lambda>(neg, s). fixed2_text neg (unat s)) in
      str_bytes ''Known position: x='' @ t x @ str_bytes '' y='' @ t y @ str_bytes '' z='' @ t z @
      str_bytes '' yaw='' @ t yaw @ str_bytes '' pitch='' @ t pitch)"

lemma mc_handle_pos_ok:
  assumes "chat_array_ok r"
  shows "fst (mc_handle_pos ctx r) \<and>
    (\<forall>x y z yaw pitch. mc_double_to_fixed2 (cp_x (cc_position ctx)) = Some x \<longrightarrow>
       mc_double_to_fixed2 (cp_y (cc_position ctx)) = Some y \<longrightarrow> mc_double_to_fixed2 (cp_z (cc_position ctx)) = Some z \<longrightarrow>
       mc_float_to_fixed2 (cp_yaw (cc_position ctx)) = Some yaw \<longrightarrow>
       mc_float_to_fixed2 (cp_pitch (cc_position ctx)) = Some pitch \<longrightarrow>
       c_str (rs_chat (snd (mc_handle_pos ctx r))) = pos_text x y z yaw pitch)"
proof (cases "mc_double_to_fixed2 (cp_x (cc_position ctx)) = None \<or> mc_double_to_fixed2 (cp_y (cc_position ctx)) = None \<or>
    mc_double_to_fixed2 (cp_z (cc_position ctx)) = None \<or> mc_float_to_fixed2 (cp_yaw (cc_position ctx)) = None \<or>
    mc_float_to_fixed2 (cp_pitch (cc_position ctx)) = None")
  case True
  have "fst (mc_set_chat r (str_bytes ''Known position unavailable.''))"
    using assms by (intro mc_set_chat_ok) simp_all
  with True show ?thesis
    by (auto simp: mc_handle_pos_def Let_def split: option.splits)
next
  case False
  then obtain xn xs yn ys zn zs wn ws pn ps where v: "mc_double_to_fixed2 (cp_x (cc_position ctx)) = Some (xn, xs)"
    "mc_double_to_fixed2 (cp_y (cc_position ctx)) = Some (yn, ys)" "mc_double_to_fixed2 (cp_z (cc_position ctx)) = Some (zn, zs)"
    "mc_float_to_fixed2 (cp_yaw (cc_position ctx)) = Some (wn, ws)" "mc_float_to_fixed2 (cp_pitch (cc_position ctx)) = Some (pn, ps)"
    by auto
  let ?t = "pos_text (xn, xs) (yn, ys) (zn, zs) (wn, ws) (pn, ps)"
  let ?calls = "[mc_builder_append_cstr (str_bytes ''Known position: x=''), mc_builder_append_fixed2_scaled xn xs,
     mc_builder_append_cstr (str_bytes '' y=''), mc_builder_append_fixed2_scaled yn ys,
     mc_builder_append_cstr (str_bytes '' z=''), mc_builder_append_fixed2_scaled zn zs,
     mc_builder_append_cstr (str_bytes '' yaw=''), mc_builder_append_fixed2_scaled wn ws,
     mc_builder_append_cstr (str_bytes '' pitch=''), mc_builder_append_fixed2_scaled pn ps]"
  have h: "mc_handle_pos ctx r = build_chat ?calls (r\<lparr>rs_action := MC_COMMAND_RESULT_CHAT\<rparr>)"
    by (simp only: mc_handle_pos_def Let_def v option.case prod.case)
  have b: "builds (c_all ?calls) ?t"
    unfolding pos_text_def Let_def prod.case by (intro tb.appends_then tb.appends_last sink_simps)
  have "0 \<notin> set ?t" "length ?t < 160"
    using fixed2_text_no_zero length_fixed2_text [of xn xs] length_fixed2_text [of yn ys] length_fixed2_text [of zn zs]
      length_fixed2_text [of wn ws] length_fixed2_text [of pn ps] by (auto simp: pos_text_def)
  with build_chat_result [OF _ b, of "r\<lparr>rs_action := MC_COMMAND_RESULT_CHAT\<rparr>"] assms v show ?thesis
    unfolding h by auto
qed

section \<open>Numbers\<close>

definition digit_value :: "byte \<Rightarrow> nat" where
  "digit_value c = unat c - 48"

text \<open>The value of a string of decimal digits.\<close>

definition dec_value :: "byte list \<Rightarrow> nat" where
  "dec_value ds = foldl (\<lambda>n c. n * 10 + digit_value c) 0 ds"

lemma is_digit_range: "is_digit c \<longleftrightarrow> 48 \<le> unat c \<and> unat c \<le> 57"
  by (simp add: is_digit_def word_le_nat_alt)

lemma digit_value_lt: "is_digit c \<Longrightarrow> digit_value c < 10"
  by (auto simp: is_digit_range digit_value_def)

lemma unat_digit: "is_digit c \<Longrightarrow> unat (c - ch_zero) = digit_value c"
  by (simp add: is_digit_def digit_value_def unat_sub)

lemma ucast_digit: "is_digit c \<Longrightarrow> (ucast (c - ch_zero) :: u32) = of_nat (digit_value c)"
  using unat_digit [of c] by (metis of_nat_unat)

definition dec_step :: "nat \<Rightarrow> byte \<Rightarrow> nat" where
  "dec_step n c = n * 10 + digit_value c"

lemma dec_value_step: "dec_value ds = foldl dec_step 0 ds"
  by (simp add: dec_value_def dec_step_def [abs_def])

lemma foldl_dec_mono: "n \<le> foldl dec_step n ds"
proof (induction ds arbitrary: n)
  case (Cons c ds)
  have "n \<le> dec_step n c" by (simp add: dec_step_def)
  with Cons.IH [of "dec_step n c"] show ?case by simp
qed simp

text \<open>The loop stops accumulating above 24000.\<close>

definition time_step :: "nat \<Rightarrow> byte \<Rightarrow> nat" where
  "time_step n c = (if n \<le> 24000 then dec_step n c else n)"

lemma parse_time_loop_digits:
  assumes "list_all is_digit ds" "n \<le> 240009"
  shows "parse_time_loop ds (of_nat n) = Some (of_nat (foldl time_step n ds)) \<and> foldl time_step n ds \<le> 240009"
  using assms
proof (induction ds arbitrary: n)
  case (Cons c ds)
  have s: "sint (of_nat n :: i32) = int n" using Cons.prems by (intro sint_of_nat_small) simp
  have "time_step n c \<le> 240009"
    using Cons.prems digit_value_lt [of c] by (simp add: time_step_def dec_step_def)
  moreover have "parse_time_loop (c # ds) (of_nat n) = parse_time_loop ds (of_nat (time_step n c))"
    using Cons.prems s by (simp add: ucast_digit time_step_def dec_step_def)
  ultimately show ?case using Cons by simp
qed simp

lemma parse_time_loop_other: "\<not> list_all is_digit ds \<Longrightarrow> parse_time_loop ds v = None"
  by (induction ds arbitrary: v) auto

lemma time_fold:
  "if foldl dec_step n ds \<le> 24000 then foldl time_step n ds = foldl dec_step n ds else 24000 < foldl time_step n ds"
proof (induction ds arbitrary: n)
  case (Cons c ds)
  have skip: "foldl time_step n ds = n" if "24000 < n" using that by (induction ds) (simp_all add: time_step_def)
  show ?case
  proof (cases "n \<le> 24000")
    case True
    then have "time_step n c = dec_step n c" by (simp add: time_step_def)
    with Cons.IH [of "dec_step n c"] show ?thesis by simp
  next
    case False
    moreover have "time_step n c = n" using False by (simp add: time_step_def)
    moreover have "n \<le> foldl dec_step (dec_step n c) ds"
      using foldl_dec_mono [of "dec_step n c" ds] by (simp add: dec_step_def)
    ultimately show ?thesis using skip by simp
  qed
qed simp

lemma mc_parse_time_ticks_cases:
  "(case mc_parse_time_ticks token of
      None \<Rightarrow> token = [] \<or> \<not> list_all is_digit token
    | Some t \<Rightarrow> token \<noteq> [] \<and> list_all is_digit token \<and>
        (if dec_value token \<le> 24000 then t = of_nat (dec_value token) else 24000 < sint t))"
proof (cases "token = [] \<or> \<not> list_all is_digit token")
  case True
  then show ?thesis by (auto simp: mc_parse_time_ticks_def parse_time_loop_other)
next
  case False
  then have "parse_time_loop token 0 = Some (of_nat (foldl time_step 0 token))" "foldl time_step 0 token \<le> 240009"
    using parse_time_loop_digits [of token 0] by simp_all
  moreover have "sint (of_nat (foldl time_step 0 token) :: i32) = int (foldl time_step 0 token)"
    using \<open>foldl time_step 0 token \<le> 240009\<close> by (intro sint_of_nat_small) simp
  ultimately show ?thesis
    using False time_fold [of 0 token] by (auto simp: mc_parse_time_ticks_def dec_value_step split: if_splits)
qed

text \<open>
  The grammar of the coordinates: an optional sign, at least one digit, and optionally a point and at
  least one more digit.
\<close>

definition decimal_digits :: "byte list \<Rightarrow> (byte list \<times> byte list) option" where
  "decimal_digits body =
     (let ds = takeWhile is_digit body; rest = dropWhile is_digit body in
      if ds = [] then None
      else case rest of
             [] \<Rightarrow> Some (ds, [])
           | c # fs \<Rightarrow> if c = ch_dot \<and> fs \<noteq> [] \<and> list_all is_digit fs then Some (ds, fs) else None)"

definition decimal_parts :: "byte list \<Rightarrow> (bool \<times> byte list \<times> byte list) option" where
  "decimal_parts token =
     (case token of
        [] \<Rightarrow> None
      | c # cs \<Rightarrow>
          if c = ch_minus \<or> c = ch_plus then map_option (Pair (c = ch_minus)) (decimal_digits cs)
          else map_option (Pair False) (decimal_digits token))"

lemma parse_int_digits_eq:
  assumes "unat whole \<le> 30000000" "err \<longrightarrow> 30000000 < v" "\<not> err \<longrightarrow> v = unat whole"
  shows "parse_int_digits cs whole err n =
      (dropWhile is_digit cs, of_nat (unat (fst (snd (parse_int_digits cs whole err n)))),
       30000000 < foldl dec_step v (takeWhile is_digit cs), n + length (takeWhile is_digit cs)) \<and>
    unat (fst (snd (parse_int_digits cs whole err n))) \<le> 30000000 \<and>
    (foldl dec_step v (takeWhile is_digit cs) \<le> 30000000 \<longrightarrow>
       unat (fst (snd (parse_int_digits cs whole err n))) = foldl dec_step v (takeWhile is_digit cs))"
  using assms
proof (induction cs arbitrary: whole err n v)
  case (Cons c cs)
  show ?case
  proof (cases "is_digit c")
    case True
    let ?d = "of_nat (digit_value c) :: u32"
    have d: "unat ?d = digit_value c" "digit_value c < 10"
      using digit_value_lt [OF True] by (simp_all add: unat_of_nat_id)
    have lim: "unat ((MC_COMMAND_COORD_LIMIT_WHOLE - ?d) div 10) = (30000000 - digit_value c) div 10"
    proof -
      have "unat (MC_COMMAND_COORD_LIMIT_WHOLE - ?d) = 30000000 - digit_value c"
        using d by (subst unat_sub) (simp_all add: word_le_nat_alt)
      then show ?thesis by (simp add: unat_div)
    qed
    have over: "(MC_COMMAND_COORD_LIMIT_WHOLE - ?d) div 10 < whole \<longleftrightarrow> 30000000 < unat whole * 10 + digit_value c"
      unfolding word_less_nat_alt lim using d(2) by (simp add: div_less_iff_less_mult) linarith
    have step: "parse_int_digits (c # cs) whole err n =
        (if 30000000 < unat whole * 10 + digit_value c then parse_int_digits cs whole True (n + 1)
         else if \<not> err then parse_int_digits cs (whole * 10 + ?d) err (n + 1)
         else parse_int_digits cs whole err (n + 1))"
      using True over by (simp add: Let_def ucast_digit)
    have new: "unat (whole * 10 + ?d) = unat whole * 10 + digit_value c" if "unat whole * 10 + digit_value c \<le> 30000000"
      using that d by (simp add: unat_word_ariths)
    show ?thesis
    proof (cases "err \<or> 30000000 < unat whole * 10 + digit_value c")
      case True
      then have v: "30000000 < dec_step v c" using Cons.prems by (auto simp: dec_step_def)
      have eq: "parse_int_digits (c # cs) whole err n = parse_int_digits cs whole True (n + 1)"
        using step True by (auto simp del: parse_int_digits.simps)
      show ?thesis
        using Cons.IH [of whole True "dec_step v c" "n + 1"] Cons.prems(1) v \<open>is_digit c\<close> unfolding eq by simp
    next
      case False
      then have v: "dec_step v c = unat (whole * 10 + ?d)" using new Cons.prems by (simp add: dec_step_def)
      have eq: "parse_int_digits (c # cs) whole err n = parse_int_digits cs (whole * 10 + ?d) False (n + 1)"
        using step False by (simp del: parse_int_digits.simps)
      show ?thesis
        using Cons.IH [of "whole * 10 + ?d" False "dec_step v c" "n + 1"] v new False \<open>is_digit c\<close> unfolding eq by simp
    qed
  qed (use Cons.prems in auto)
qed auto

lemma parse_frac_digits_error:
  "\<exists>d. parse_frac_digits cs True frac scale n disc =
     (dropWhile is_digit cs, frac, scale, n + length (takeWhile is_digit cs), d)"
proof (induction cs arbitrary: n disc)
  case (Cons c cs)
  show ?case
    using Cons.IH [of "Suc n" True] Cons.IH [of "Suc n" disc]
    by (cases "is_digit c"; cases "c = ch_zero") simp_all
qed simp

lemma parse_frac_digits_eq:
  assumes "n \<le> 9 \<longrightarrow> f < 10 ^ n" "f < 10 ^ 9"
  shows "parse_frac_digits cs False (of_nat f) (10 ^ min n 9) n disc =
    (dropWhile is_digit cs, of_nat (foldl dec_step f (take (9 - n) (takeWhile is_digit cs))),
     10 ^ min (n + length (takeWhile is_digit cs)) 9, n + length (takeWhile is_digit cs),
     disc \<or> (\<exists>c \<in> set (drop (9 - n) (takeWhile is_digit cs)). c \<noteq> ch_zero))"
  using assms
proof (induction cs arbitrary: f n disc)
  case (Cons c cs)
  show ?case
  proof (cases "is_digit c")
    case True
    show ?thesis
    proof (cases "n < 9")
      case lt: True
      have "10 * f + digit_value c < 10 ^ Suc n"
        using Cons.prems(1) lt digit_value_lt [OF True] by simp
      moreover have "(10 :: nat) ^ Suc n \<le> 10 ^ 9" using lt by (intro power_increasing) simp_all
      ultimately have f: "dec_step f c < 10 ^ Suc n" "dec_step f c < 10 ^ 9"
        by (simp_all add: dec_step_def mult.commute)
      have sc: "(10 :: u32) ^ min n 9 * 10 = 10 ^ min (Suc n) 9" using lt by (simp add: min_def mult.commute)
      have fr: "of_nat f * 10 + ucast (c - ch_zero) = (of_nat (dec_step f c) :: u32)"
        using True by (simp add: ucast_digit dec_step_def)
      have step: "parse_frac_digits (c # cs) False (of_nat f) (10 ^ min n 9) n disc =
          parse_frac_digits cs False (of_nat (dec_step f c)) (10 ^ min (Suc n) 9) (Suc n) disc"
        unfolding parse_frac_digits.simps sc fr using True lt by simp
      have "9 - n = Suc (9 - Suc n)" using lt by simp
      with Cons.IH [of "Suc n" "dec_step f c" disc] f lt True show ?thesis
        unfolding step by (simp del: min_Suc_Suc power_Suc)
    next
      case False
      then have "9 - n = 0" "9 - Suc n = 0" "min n 9 = 9" "min (Suc n) 9 = 9" by simp_all
      with Cons.IH [of "Suc n" f "disc \<or> c \<noteq> ch_zero"] Cons.prems False True show ?thesis
        by (cases "c = ch_zero") (simp_all add: min_def)
    qed
  qed simp
qed simp

text \<open>A fraction is zero exactly when all its digits are.\<close>

lemma digit_value_0: "is_digit c \<Longrightarrow> digit_value c = 0 \<longleftrightarrow> c = ch_zero"
  by (auto simp: is_digit_range digit_value_def word_unat_eq_iff)

lemma foldl_dec_zero:
  "list_all is_digit ds \<Longrightarrow> foldl dec_step f ds = 0 \<longleftrightarrow> f = 0 \<and> (\<forall>c \<in> set ds. c = ch_zero)"
  by (induction ds arbitrary: f) (auto simp: dec_step_def digit_value_0)

lemma foldl_dec_bound: "list_all is_digit ds \<Longrightarrow> f < 10 ^ n \<Longrightarrow> foldl dec_step f ds < 10 ^ (n + length ds)"
proof (induction ds arbitrary: f n)
  case (Cons c ds)
  then have "dec_step f c < 10 ^ Suc n" using digit_value_lt [of c] by (simp add: dec_step_def)
  with Cons.IH [of "dec_step f c" "Suc n"] Cons.prems show ?case by simp
qed simp

definition decimal_out_of_range :: "byte list \<Rightarrow> byte list \<Rightarrow> bool" where
  "decimal_out_of_range ds fs \<longleftrightarrow>
     30000000 < dec_value ds \<or> (dec_value ds = 30000000 \<and> (\<exists>c \<in> set fs. c \<noteq> ch_zero))"

lemma list_all_takeWhile: "list_all P xs \<longleftrightarrow> takeWhile P xs = xs"
  by (induction xs) auto

lemma list_all_takeWhile': "list_all P (takeWhile P xs)"
  by (induction xs) auto

lemma parse_int_digits_0:
  obtains whole where "parse_int_digits cs 0 False 0 =
      (dropWhile is_digit cs, whole, 30000000 < dec_value (takeWhile is_digit cs), length (takeWhile is_digit cs))"
    "unat whole \<le> 30000000"
    "dec_value (takeWhile is_digit cs) \<le> 30000000 \<longrightarrow> unat whole = dec_value (takeWhile is_digit cs)"
  using parse_int_digits_eq [of 0 False 0 cs 0] by (simp add: dec_value_step) blast

lemma parse_frac_digits_0:
  assumes "list_all is_digit fs"
  shows "parse_frac_digits fs False 0 1 0 False =
    ([], of_nat (dec_value (take 9 fs)), 10 ^ min (length fs) 9, length fs, \<exists>c \<in> set (drop 9 fs). c \<noteq> ch_zero)"
proof -
  have t: "takeWhile is_digit fs = fs" "dropWhile is_digit fs = []"
    using assms by (simp_all add: list_all_iff)
  from parse_frac_digits_eq [of 0 0 fs False, unfolded t] show ?thesis by (simp add: dec_value_step)
qed

lemma frac_nonzero:
  assumes "list_all is_digit fs"
  shows "(of_nat (dec_value (take 9 fs)) \<noteq> (0 :: u32) \<or> (\<exists>c \<in> set (drop 9 fs). c \<noteq> ch_zero)) \<longleftrightarrow>
    (\<exists>c \<in> set fs. c \<noteq> ch_zero)"
proof -
  have l: "list_all is_digit (take 9 fs)" using assms by (auto simp: list_all_iff dest: in_set_takeD)
  have "dec_value (take 9 fs) < 10 ^ (0 + length (take 9 fs))"
    unfolding dec_value_step by (rule foldl_dec_bound [OF l]) simp
  also have "\<dots> \<le> 10 ^ 9" by (intro power_increasing) simp_all
  finally have "unat (of_nat (dec_value (take 9 fs)) :: u32) = dec_value (take 9 fs)" by (intro unat_of_nat_id) simp
  then have "of_nat (dec_value (take 9 fs)) \<noteq> (0 :: u32) \<longleftrightarrow> dec_value (take 9 fs) \<noteq> 0" by (metis unat_eq_zero)
  also have "\<dots> \<longleftrightarrow> (\<exists>c \<in> set (take 9 fs). c \<noteq> ch_zero)"
    unfolding dec_value_step foldl_dec_zero [OF l] by auto
  finally show ?thesis
    using set_append [of "take 9 fs" "drop 9 fs"] by auto
qed

text \<open>The code from the point on, for a whole part within the limit and for one beyond it.\<close>

lemma parse_decimal_tail_nil:
  "parse_decimal_tail negative [] whole err =
     Some (if err \<or> MC_COMMAND_COORD_LIMIT_WHOLE < whole then 0 else mc_decimal_to_double negative whole 0 1,
           err \<or> MC_COMMAND_COORD_LIMIT_WHOLE < whole)"
  by (simp add: parse_decimal_tail_def Let_def)

lemma parse_decimal_tail_other: "c \<noteq> ch_dot \<Longrightarrow> parse_decimal_tail negative (c # cs) whole err = None"
  by (simp add: parse_decimal_tail_def)

lemma parse_decimal_tail_bad:
  "fs = [] \<or> \<not> list_all is_digit fs \<Longrightarrow> parse_decimal_tail negative (ch_dot # fs) whole err = None"
proof -
  assume a: "fs = [] \<or> \<not> list_all is_digit fs"
  have "\<exists>frac scale n disc. parse_frac_digits fs err 0 1 0 False = (dropWhile is_digit fs, frac, scale, n, disc) \<and>
      n = length (takeWhile is_digit fs)"
    using parse_frac_digits_error [of fs 0 1 0 False] parse_frac_digits_eq [of 0 0 fs False]
    by (cases err) auto
  with a show ?thesis
    by (auto simp: parse_decimal_tail_def list_all_iff dropWhile_eq_Nil_conv)
qed

lemma parse_decimal_tail_reject:
  "\<not> (c = ch_dot \<and> fs \<noteq> [] \<and> list_all is_digit fs) \<Longrightarrow> parse_decimal_tail negative (c # fs) whole err = None"
  by (cases "c = ch_dot") (auto simp: parse_decimal_tail_other parse_decimal_tail_bad)

lemma parse_decimal_tail_error:
  assumes "fs \<noteq> []" "list_all is_digit fs"
  shows "parse_decimal_tail negative (ch_dot # fs) whole True = Some (0, True)"
proof -
  have t: "takeWhile is_digit fs = fs" "dropWhile is_digit fs = []"
    using assms by (simp_all add: list_all_iff)
  obtain d where "parse_frac_digits fs True 0 1 0 False = ([], 0, 1, 0 + length fs, d)"
    using parse_frac_digits_error [of fs 0 1 0 False, unfolded t] by blast
  with assms(1) show ?thesis by (simp add: parse_decimal_tail_def Let_def)
qed

lemma parse_decimal_tail_digits:
  assumes "fs \<noteq> []" "list_all is_digit fs" "\<not> MC_COMMAND_COORD_LIMIT_WHOLE < whole"
  shows "parse_decimal_tail negative (ch_dot # fs) whole False =
    (let out = (whole = MC_COMMAND_COORD_LIMIT_WHOLE \<and> (\<exists>c \<in> set fs. c \<noteq> ch_zero)) in
     Some (if out then 0 else mc_decimal_to_double negative whole (of_nat (dec_value (take 9 fs))) (10 ^ min (length fs) 9), out))"
  using assms frac_nonzero [OF assms(2)] parse_frac_digits_0 [OF assms(2)]
  by (simp add: parse_decimal_tail_def Let_def)

lemma parse_decimal_tail_eq:
  assumes w: "unat whole \<le> 30000000" "n \<le> 30000000 \<longrightarrow> unat whole = n" and n: "n = dec_value ds"
  shows "parse_decimal_tail negative rest whole (30000000 < n) =
     (case (case rest of
              [] \<Rightarrow> Some (ds, [])
            | c # fs \<Rightarrow> if c = ch_dot \<and> fs \<noteq> [] \<and> list_all is_digit fs then Some (ds, fs) else None) of
        None \<Rightarrow> None
      | Some (ds, fs) \<Rightarrow>
          Some (if decimal_out_of_range ds fs then 0
                else mc_decimal_to_double negative (of_nat (dec_value ds)) (of_nat (dec_value (take 9 fs)))
                       (10 ^ min (length fs) 9),
                decimal_out_of_range ds fs))"
proof -
  have w0: "\<not> MC_COMMAND_COORD_LIMIT_WHOLE < whole" using w(1) by (simp add: word_less_nat_alt)
  have w1: "of_nat n = whole" if "\<not> 30000000 < n" using w(2) that by (metis of_nat_unat ucast_id not_less)
  have w2: "whole = MC_COMMAND_COORD_LIMIT_WHOLE \<longleftrightarrow> n = 30000000" if "\<not> 30000000 < n"
    using w(2) that by (simp add: word_unat_eq_iff)
  have z: "dec_value [] = 0" by (simp add: dec_value_def)
  show ?thesis
  proof (cases rest)
    case Nil
    then show ?thesis
      using w0 w1 w2 z by (auto simp: decimal_out_of_range_def parse_decimal_tail_nil n [symmetric])
  next
    case (Cons c fs)
    show ?thesis
    proof (cases "c = ch_dot \<and> fs \<noteq> [] \<and> list_all is_digit fs")
      case False
      then show ?thesis unfolding Cons by (simp add: parse_decimal_tail_reject)
    next
      case True
      note t = this
      show ?thesis
      proof (cases "30000000 < n")
        case True
        then have "decimal_out_of_range ds fs" by (simp add: decimal_out_of_range_def n)
        with t True show ?thesis unfolding Cons by (simp add: parse_decimal_tail_error)
      next
        case False
        then have "decimal_out_of_range ds fs \<longleftrightarrow> whole = MC_COMMAND_COORD_LIMIT_WHOLE \<and> (\<exists>c \<in> set fs. c \<noteq> ch_zero)"
          "of_nat (dec_value ds) = whole"
          using w1 w2 n by (simp_all add: decimal_out_of_range_def)
        with t False w0 show ?thesis unfolding Cons by (auto simp: parse_decimal_tail_digits Let_def)
      qed
    qed
  qed
qed

lemma parse_decimal_digits_eq:
  "parse_decimal_digits negative body =
     (case decimal_digits body of
        None \<Rightarrow> None
      | Some (ds, fs) \<Rightarrow>
          Some (if decimal_out_of_range ds fs then 0
                else mc_decimal_to_double negative (of_nat (dec_value ds)) (of_nat (dec_value (take 9 fs)))
                       (10 ^ min (length fs) 9),
                decimal_out_of_range ds fs))"
proof -
  let ?ds = "takeWhile is_digit body" and ?rest = "dropWhile is_digit body"
  obtain whole where p: "parse_int_digits body 0 False 0 = (?rest, whole, 30000000 < dec_value ?ds, length ?ds)"
    and w: "unat whole \<le> 30000000" "dec_value ?ds \<le> 30000000 \<longrightarrow> unat whole = dec_value ?ds"
    by (rule parse_int_digits_0)
  show ?thesis
    unfolding parse_decimal_digits_def p prod.case decimal_digits_def Let_def
    by (cases "?ds = []")
      (simp, simp only: parse_decimal_tail_eq [OF w refl] length_0_conv if_False)
qed

lemma mc_parse_decimal_eq:
  "mc_parse_decimal token =
     (case decimal_parts token of
        None \<Rightarrow> None
      | Some (negative, ds, fs) \<Rightarrow>
          Some (if decimal_out_of_range ds fs then 0
                else mc_decimal_to_double negative (of_nat (dec_value ds)) (of_nat (dec_value (take 9 fs)))
                       (10 ^ min (length fs) 9),
                decimal_out_of_range ds fs))"
proof -
  have n: "decimal_digits [] = None" by (simp add: decimal_digits_def)
  show ?thesis
    by (cases token) (auto simp: mc_parse_decimal_def decimal_parts_def parse_decimal_digits_eq n split: option.splits)
qed

section \<open>Every answer fits\<close>

lemma build_chat_bounded:
  assumes "chat_array_ok r" "list_all (\<lambda>f. \<exists>t. builds f t) calls"
  shows "length (c_str (rs_chat (snd (build_chat calls r)))) < MC_COMMAND_TEXT_CAP"
    "rs_action (snd (build_chat calls r)) = rs_action r"
proof -
  let ?b = "mc_builder_init (rs_chat r) MC_COMMAND_TEXT_CAP"
  from assms(2) obtain ts where "list_all2 builds calls ts"
    by (auto simp: list_all_length list_all2_conv_all_nth Skolem_list_nth) (metis (full_types))
  then have b: "builds (c_all calls) (concat ts)" by (rule tb.appends_all)
  have "rs_chat r \<noteq> []" using assms(1) by auto
  then have "builder_ok ?b" "tb_room ?b = 159"
    using assms(1) by (auto simp: mc_builder_init_def builder_ok_def tb_room_def)
  then have b': "builder_ok (snd (c_all calls ?b))" "tb_room (snd (c_all calls ?b)) = 159"
    using b by (simp_all add: appends_def)
  let ?buf = "tb_buf (snd (c_all calls ?b))" and ?n = "tb_len (snd (c_all calls ?b))"
  have n: "?n < 160" "?n < length ?buf" "?buf ! ?n = 0"
    using b' by (auto simp: builder_ok_def tb_room_def)
  have "c_str ?buf = c_str (take ?n ?buf @ 0 # drop (Suc ?n) ?buf)"
    using id_take_nth_drop [OF n(2)] n(3) by simp
  also have "length \<dots> \<le> length (take ?n ?buf)"
    by (rule length_c_str_le)
  finally show "length (c_str (rs_chat (snd (build_chat calls r)))) < MC_COMMAND_TEXT_CAP"
    using n(1) by (simp add: build_chat_def case_prod_unfold)
  show "rs_action (snd (build_chat calls r)) = rs_action r"
    by (simp add: build_chat_def case_prod_unfold)
qed

text \<open>The text fits with its terminating zero and a new time of day is a valid one.\<close>

definition answer_ok :: "mc_command_result \<Rightarrow> bool" where
  "answer_ok r \<longleftrightarrow> length (c_str (rs_chat r)) < MC_COMMAND_TEXT_CAP \<and>
     (case rs_action r of MC_COMMAND_RESULT_TIME t \<Rightarrow> 0 \<le> sint t \<and> sint t \<le> 24000 | _ \<Rightarrow> True)"

lemma answer_ok_build:
  assumes "chat_array_ok r" "list_all (\<lambda>f. \<exists>t. builds f t) calls"
    "case rs_action r of MC_COMMAND_RESULT_TIME t \<Rightarrow> 0 \<le> sint t \<and> sint t \<le> 24000 | _ \<Rightarrow> True"
  shows "answer_ok (snd (build_chat calls r))"
  using build_chat_bounded [OF assms(1,2)] assms(3) by (simp add: answer_ok_def)

lemma builds_some:
  "\<exists>t. builds (mc_builder_append_char c) t" "\<exists>t. builds (mc_builder_append_cstr cs) t"
  "\<exists>t. builds (mc_builder_append_i32 v) t" "\<exists>t. builds (mc_builder_append_fixed2_scaled neg sc) t"
  by (blast intro: sink_simps)+

lemma commands_answer_ok:
  assumes "chat_array_ok r"
  shows "answer_ok (snd (mc_commands_handle_chat username message ctx r))"
proof -
  have copy: "answer_ok (snd (mc_copy_chat (r\<lparr>rs_action := a\<rparr>) t))"
    if "case a of MC_COMMAND_RESULT_TIME t \<Rightarrow> 0 \<le> sint t \<and> sint t \<le> 24000 | _ \<Rightarrow> True" for a t
    unfolding mc_copy_chat_build using assms that by (intro answer_ok_build) (simp_all add: builds_some)
  then have set: "answer_ok (snd (mc_set_chat r t))" for t by (simp add: mc_set_chat_def)
  have plain: "answer_ok (snd (mc_plain_chat username message r))"
    unfolding mc_plain_chat_def using assms by (intro answer_ok_build) (simp_all add: builds_some)
  have pos: "answer_ok (snd (mc_handle_pos ctx r))"
  proof -
    have "answer_ok (snd (build_chat calls (r\<lparr>rs_action := MC_COMMAND_RESULT_CHAT\<rparr>)))"
      if "list_all (\<lambda>f. \<exists>t. builds f t) calls" for calls
      using assms that by (intro answer_ok_build) simp_all
    then show ?thesis using set by (auto simp: mc_handle_pos_def Let_def builds_some split: option.split)
  qed
  have tm: "answer_ok (snd (mc_time_result r t))" if "0 \<le> sint t" "sint t \<le> 24000" for t
    unfolding mc_time_result_def using assms that by (intro answer_ok_build) (simp_all add: builds_some)
  have time: "answer_ok (snd (mc_handle_time tokens count r))" for tokens count
    using set tm by (auto simp: mc_handle_time_def split: option.split)
  have we: "answer_ok (snd (mc_weather_result r w n))" for w n
    unfolding mc_weather_result_def using assms by (intro answer_ok_build) (simp_all add: builds_some)
  have weather: "answer_ok (snd (mc_handle_weather tokens count r))" for tokens count
    using set we by (auto simp: mc_handle_weather_def)
  have tp: "answer_ok (snd (mc_handle_tp tokens count ctx r))" for tokens count
    using set copy by (auto simp: mc_handle_tp_def split: option.split)
  have spawn: "answer_ok (snd (mc_handle_spawn r))" using copy by (simp add: mc_handle_spawn_def)
  from plain pos time weather tp spawn set show ?thesis
    by (auto simp: mc_commands_handle_chat_def split: prod.split)
qed

section \<open>Properties\<close>

text \<open>C29: a slash command never fails, whatever its text: every command line gets an answer that fits
  the chat buffer. A plain message is answered with the sender's name in angle brackets and the message
  when they fit in 159 bytes, and it fails otherwise.\<close>

theorem commands_always_answer:
  assumes "MC_COMMAND_TEXT_CAP \<le> length (rs_chat r)" "0 \<notin> set username" "0 \<notin> set message"
  shows "length (c_str (rs_chat (snd (mc_commands_handle_chat username message ctx r)))) < MC_COMMAND_TEXT_CAP \<and>
    (if message \<noteq> [] \<and> hd message = ch_slash then fst (mc_commands_handle_chat username message ctx r)
    else fst (mc_commands_handle_chat username message ctx r) = (length username + length message + 3 < MC_COMMAND_TEXT_CAP) \<and>
      (fst (mc_commands_handle_chat username message ctx r) \<longrightarrow>
       c_str (rs_chat (snd (mc_commands_handle_chat username message ctx r))) =
         str_bytes ''<'' @ username @ str_bytes ''> '' @ message))"
proof (cases "message \<noteq> [] \<and> hd message = ch_slash")
  case True
  note ok = assms(1) and set = mc_set_chat_ok(1) [OF assms(1)]
  have spawn: "fst (mc_handle_spawn r)" unfolding mc_handle_spawn_def using ok by (intro mc_copy_chat_ok) simp_all
  have tp: "fst (mc_handle_tp tokens count ctx r)" for tokens count
    using ok set by (auto simp: mc_handle_tp_def mc_copy_chat_ok split: option.splits)
  have time: "fst (mc_handle_time tokens count r)" for tokens count
    using set by (auto simp: mc_handle_time_def mc_time_result_ok ok split: option.splits)
  have weather: "fst (mc_handle_weather tokens count r)" for tokens count
    using set by (auto simp: mc_handle_weather_def mc_weather_result_ok ok)
  have pos: "fst (mc_handle_pos ctx r)" using mc_handle_pos_ok [OF ok] by simp
  have texts: "fst (mc_set_chat r unknown_command)" "fst (mc_set_chat r help_text)"
    by (rule set; simp add: unknown_command_def help_text_def)+
  from True spawn tp time weather pos texts commands_answer_ok [OF ok, of username message ctx] show ?thesis
    unfolding answer_ok_def
    by (auto simp: mc_commands_handle_chat_def split: prod.splits)
next
  case False
  let ?t = "[ch_lt] @ username @ str_bytes ''> '' @ message"
  have b: "builds (c_all [mc_builder_append_char ch_lt, mc_builder_append_cstr username,
      mc_builder_append_cstr (str_bytes ''> ''), mc_builder_append_cstr message]) ?t"
    by (intro tb.appends_then tb.appends_last sink_simps)
  have "mc_commands_handle_chat username message ctx r = mc_plain_chat username message r"
    using False by (auto simp: mc_commands_handle_chat_def)
  with False build_chat_result [OF _ b, of "r\<lparr>rs_action := MC_COMMAND_RESULT_CHAT\<rparr>"] assms
    commands_answer_ok [OF assms(1), of username message ctx] show ?thesis
    unfolding answer_ok_def by (auto simp: mc_plain_chat_def split: if_splits)
qed

theorem commands_always_answer_witness:
  "c_str (rs_chat (snd (mc_commands_handle_chat (str_bytes ''Bob'') (str_bytes ''hi'') mc_command_default_context
      \<lparr>rs_chat = replicate 160 0, rs_action = MC_COMMAND_RESULT_CHAT\<rparr>))) = str_bytes ''<Bob> hi''"
  using commands_always_answer [of "\<lparr>rs_chat = replicate 160 0, rs_action = MC_COMMAND_RESULT_CHAT\<rparr>"
      "str_bytes ''Bob''" "str_bytes ''hi''" mc_command_default_context] by simp

text \<open>C30: the coordinate parser accepts exactly an optional sign, at least one digit, and optionally a
  point with at least one digit behind it, and reports a coordinate as out of range exactly when its
  decimal value exceeds 30000000, however many digits it has; no 32-bit overflow can hide a large value.\<close>

theorem parse_decimal_exact:
  "map_option snd (mc_parse_decimal token) =
     (case decimal_parts token of
        None \<Rightarrow> None
      | Some (negative, ds, fs) \<Rightarrow>
          Some (30000000 < dec_value ds \<or> (dec_value ds = 30000000 \<and> (\<exists>c \<in> set fs. c \<noteq> ch_zero))))"
  by (simp add: mc_parse_decimal_eq decimal_out_of_range_def split: option.splits)

text \<open>The tick parser of the time command accepts exactly the non-empty strings of digits; it returns
  their value when that is at most 24000 and a value above 24000, without overflow, otherwise.\<close>

theorem parse_time_exact:
  "case mc_parse_time_ticks token of
     None \<Rightarrow> \<not> (token \<noteq> [] \<and> list_all is_digit token)
   | Some t \<Rightarrow> token \<noteq> [] \<and> list_all is_digit token \<and>
       (if dec_value token \<le> 24000 then t = of_nat (dec_value token) else 24000 < sint t)"
  using mc_parse_time_ticks_cases [of token] by (simp split: option.splits)



end
