(* ===== verification/ChatJson.thy ===== *)
theory ChatJson
  imports Packet Commands
begin

text \<open>
  The chat packet of core/src/mc_server.c: a text is escaped into a JSON string, wrapped into
  \<open>{"text":"..."}\<close> and written as packet 0x02. Strings are C strings, given by their bytes without the
  terminating zero; the buffers are \<open>char\<close> arrays with the zero in them.
\<close>

abbreviation ch_quote :: byte where "ch_quote \<equiv> 0x22"
abbreviation ch_backslash :: byte where "ch_backslash \<equiv> 0x5c"
abbreviation ch_u :: byte where "ch_u \<equiv> 0x75"

section \<open>Escaping\<close>

text \<open>The state of the writer: the array \<open>dst\<close> and the position \<open>*pos\<close>.\<close>

type_synonym json_buf = "byte list \<times> nat"

definition json_append_char :: "nat \<Rightarrow> byte \<Rightarrow> json_buf \<Rightarrow> bool \<times> json_buf" where
  "json_append_char dst_cap ch b =
     (case b of (dst, pos) \<Rightarrow>
        if dst_cap \<le> pos + 1 then (False, (dst, pos))
        else (True, (dst[pos := ch, pos + 1 := 0], pos + 1)))"

definition json_append_cstr :: "nat \<Rightarrow> byte list \<Rightarrow> json_buf \<Rightarrow> bool \<times> json_buf" where
  "json_append_cstr dst_cap text = c_all (map (json_append_char dst_cap) text)"

definition hex_digit :: "byte \<Rightarrow> byte" where
  "hex_digit value =
     (let value = value AND 0x0f in if value < 10 then 0x30 + value else 0x41 + (value - 10))"

text \<open>One round of the loop in \<open>json_escape_text\<close>.\<close>

definition json_escape_char :: "nat \<Rightarrow> byte \<Rightarrow> json_buf \<Rightarrow> bool \<times> json_buf" where
  "json_escape_char dst_cap ch =
     (if ch < 0x20
      then c_all [json_append_char dst_cap ch_backslash, json_append_char dst_cap ch_u,
                  json_append_char dst_cap 0x30, json_append_char dst_cap 0x30,
                  json_append_char dst_cap (hex_digit (drop_bit 4 ch)), json_append_char dst_cap (hex_digit ch)]
      else if ch = ch_quote \<or> ch = ch_backslash
      then c_all [json_append_char dst_cap ch_backslash, json_append_char dst_cap ch]
      else json_append_char dst_cap ch)"

definition json_escape_text :: "byte list \<Rightarrow> byte list \<Rightarrow> nat \<Rightarrow> bool \<times> byte list" where
  "json_escape_text text dst dst_cap =
     (if dst_cap = 0 then (False, dst)
      else case c_all (map (json_escape_char dst_cap) text) (dst[0 := 0], 0) of
        (ok, dst', pos) \<Rightarrow> (ok, dst'))"

definition build_chat_json :: "byte list \<Rightarrow> byte list \<Rightarrow> nat \<Rightarrow> bool \<times> byte list" where
  "build_chat_json escaped dst dst_cap =
     (if dst_cap = 0 then (False, dst)
      else case c_all [json_append_cstr dst_cap (str_bytes ''{\"text\":\"''), json_append_cstr dst_cap escaped,
             json_append_cstr dst_cap (str_bytes ''\"}'')] (dst[0 := 0], 0) of
        (ok, dst', pos) \<Rightarrow> (ok, dst'))"

section \<open>Building a packet body in a local array\<close>

text \<open>
  \<open>uint8_t body[cap]; mc_writer_init(&w, body, cap);\<close> followed by a conjunction of writer calls. The result
  is the first \<open>w.len\<close> bytes of the array when all calls succeed. The array is not read before it is
  written, so its first contents do not matter; they are zero here.
\<close>

definition build_body :: "nat \<Rightarrow> (mc_writer \<Rightarrow> bool \<times> mc_writer) list \<Rightarrow> byte list option" where
  "build_body body_cap calls =
     (case c_all calls (mc_writer_init (replicate body_cap 0) body_cap) of
        (ok, w) \<Rightarrow> if ok then Some (take (wr_len w) (wr_buf w)) else None)"

definition build_chat_body :: "nat \<Rightarrow> byte list \<Rightarrow> byte list option" where
  "build_chat_body body_cap text =
     (let escaped = replicate (MC_COMMAND_TEXT_CAP * 6) 0;
          json = replicate (MC_COMMAND_TEXT_CAP * 6 + 16) 0 in
      case json_escape_text text escaped (length escaped) of
        (ok, escaped) \<Rightarrow>
          if \<not> ok then None
          else case build_chat_json (c_str escaped) json (length json) of
            (ok, json) \<Rightarrow>
              if \<not> ok then None
              else build_body body_cap [mc_write_varint 0x02, mc_write_string (c_str json), mc_write_u8 0])"

section \<open>What the buffers hold\<close>

lemma build_body_result:
  assumes "writes (c_all calls) bs"
  shows "build_body cap calls = (if length bs \<le> cap then Some bs else None)"
proof -
  let ?w = "mc_writer_init (replicate cap 0) cap"
  have w: "writer_ok ?w" "wr_bytes ?w = []" "wr_cap ?w = cap"
    by (simp_all add: mc_writer_init_def writer_ok_def wr_bytes_def)
  show ?thesis
  proof (cases "length bs \<le> cap")
    case True
    with w obtain w' where "c_all calls ?w = (True, w')" "wr_bytes w' = bs"
      using wr.appends_run [OF assms w(1)] by auto
    with True show ?thesis by (simp add: build_body_def wr_bytes_def)
  next
    case False
    with w obtain w' where "c_all calls ?w = (False, w')"
      using wr.appends_fail [OF assms w(1)] by auto
    with False show ?thesis by (simp add: build_body_def)
  qed
qed

definition json_ok :: "nat \<Rightarrow> json_buf \<Rightarrow> bool" where
  "json_ok dst_cap b \<longleftrightarrow> snd b < dst_cap \<and> dst_cap = length (fst b) \<and> fst b ! snd b = 0"

definition json_written :: "json_buf \<Rightarrow> byte list" where
  "json_written b = take (snd b) (fst b)"

definition json_room :: "nat \<Rightarrow> json_buf \<Rightarrow> nat" where
  "json_room dst_cap b = dst_cap - 1"

abbreviation json_puts :: "nat \<Rightarrow> (json_buf \<Rightarrow> bool \<times> json_buf) \<Rightarrow> byte list \<Rightarrow> bool" where
  "json_puts dst_cap \<equiv> appends (json_ok dst_cap) json_written (json_room dst_cap)"

lemma json_puts_char [sink_simps]: "json_puts dst_cap (json_append_char dst_cap c) [c]"
  by (auto simp: appends_def json_append_char_def json_ok_def json_written_def json_room_def take_Suc_conv_app_nth)

interpretation js: bounded_sink "json_ok dst_cap" json_written "json_room dst_cap" "json_append_char dst_cap" for dst_cap
  by unfold_locales (simp add: json_puts_char, auto simp: json_ok_def json_written_def json_room_def)

lemma json_puts_cstr [sink_simps]: "json_puts dst_cap (json_append_cstr dst_cap text) text"
  by (simp add: json_append_cstr_def js.appends_puts)

text \<open>The escape of a byte and of a text.\<close>

definition json_escape :: "byte \<Rightarrow> byte list" where
  "json_escape ch =
     (if ch < 0x20 then [ch_backslash, ch_u, 0x30, 0x30, hex_digit (drop_bit 4 ch), hex_digit ch]
      else if ch = ch_quote \<or> ch = ch_backslash then [ch_backslash, ch] else [ch])"

definition json_string :: "byte list \<Rightarrow> byte list" where
  "json_string text = concat (map json_escape text)"

lemma json_puts_escape: "json_puts dst_cap (json_escape_char dst_cap ch) (json_escape ch)"
proof -
  have "json_puts dst_cap (c_all (map (json_append_char dst_cap) (json_escape ch))) (json_escape ch)"
    by (rule js.appends_puts)
  with json_puts_char [of dst_cap ch] show ?thesis
    unfolding json_escape_char_def json_escape_def by (auto simp del: c_all.simps split: if_splits)
qed

lemma json_puts_text: "json_puts dst_cap (c_all (map (json_escape_char dst_cap) text)) (json_string text)"
  unfolding json_string_def
  by (intro js.appends_all) (simp add: list_all2_conv_all_nth json_puts_escape)

text \<open>Running a writer on a fresh buffer; the C string it leaves there.\<close>

lemma json_run:
  assumes "json_puts (length dst) f bs" "dst \<noteq> []" "0 \<notin> set bs"
  shows "if length bs < length dst then \<exists>dst' pos. f (dst[0 := 0], 0) = (True, dst', pos) \<and> c_str dst' = bs
    else \<not> fst (f (dst[0 := 0], 0))"
proof -
  let ?b = "(dst[0 := 0], 0 :: nat)"
  have ok: "json_ok (length dst) ?b" "json_written ?b = []"
    using assms(2) by (simp_all add: json_ok_def json_written_def)
  show ?thesis
  proof (cases "length bs < length dst")
    case True
    then have r: "length (json_written ?b) + length bs \<le> json_room (length dst) ?b" using ok(2) by (simp add: json_room_def)
    obtain b' where b': "f ?b = (True, b')" "json_ok (length dst) b'" "json_written b' = bs"
      by (rule js.appends_run [OF assms(1) ok(1) r]) (use ok(2) in simp)
    obtain d p where d: "b' = (d, p)" by fastforce
    have "d = bs @ 0 # drop (Suc p) d"
      using b'(2,3) id_take_nth_drop [of p d] by (simp add: d json_ok_def json_written_def)
    then have "c_str d = bs" using c_str_terminated [OF assms(3)] by metis
    with True b'(1) d show ?thesis by auto
  next
    case False
    then have r: "json_room (length dst) ?b < length (json_written ?b) + length bs"
      using ok(2) assms(2) by (cases dst) (simp_all add: json_room_def)
    obtain b' where "f ?b = (False, b')" by (rule js.appends_fail [OF assms(1) ok(1) r])
    with False show ?thesis by simp
  qed
qed

section \<open>Reading the text back\<close>

text \<open>
  A JSON string reader for the bytes behind the opening quote, as RFC 8259 prescribes it for the escapes
  that occur here: it returns the text and what follows the closing quote, and rejects raw control
  characters.
\<close>

definition hex_value :: "byte \<Rightarrow> byte option" where
  "hex_value c =
     (if 0x30 \<le> c \<and> c \<le> 0x39 then Some (c - 0x30)
      else if 0x41 \<le> c \<and> c \<le> 0x46 then Some (c - 0x41 + 10)
      else if 0x61 \<le> c \<and> c \<le> 0x66 then Some (c - 0x61 + 10) else None)"

definition json_hex_pair :: "byte \<Rightarrow> byte \<Rightarrow> byte option" where
  "json_hex_pair x y =
     (case (hex_value x, hex_value y) of (Some a, Some b) \<Rightarrow> Some (push_bit 4 a OR b) | _ \<Rightarrow> None)"

fun json_read :: "byte list \<Rightarrow> (byte list \<times> byte list) option" where
  "json_read [] = None"
| "json_read (c # cs) =
     (if c = ch_quote then Some ([], cs)
      else if c = ch_backslash then
        (case cs of
           [] \<Rightarrow> None
         | d # ds \<Rightarrow>
             if d = ch_quote \<or> d = ch_backslash then map_option (apfst (Cons d)) (json_read ds)
             else if d = ch_u then
               (case ds of
                  a # b # x # y # es \<Rightarrow>
                    if a = 0x30 \<and> b = 0x30 then
                      (case json_hex_pair x y of
                         None \<Rightarrow> None
                       | Some v \<Rightarrow> map_option (apfst (Cons v)) (json_read es))
                    else None
                | _ \<Rightarrow> None)
             else None)
      else if c < 0x20 then None
      else map_option (apfst (Cons c)) (json_read cs))"

lemma control_byte_cases:
  assumes "ch < (0x20 :: byte)"
  obtains n where "n < 32" "ch = of_nat n"
proof
  show "ch = of_nat (unat ch)" by simp
  show "unat ch < 32" using assms by (simp add: word_less_nat_alt)
qed

lemma json_hex_pair_digits: "ch < 0x20 \<Longrightarrow> json_hex_pair (hex_digit (drop_bit 4 ch)) (hex_digit ch) = Some ch"
proof (elim control_byte_cases)
  fix n :: nat assume n: "n < 32" "ch = of_nat n"
  have "\<forall>n \<in> set [0..<32]. json_hex_pair (hex_digit (drop_bit 4 (of_nat n))) (hex_digit (of_nat n)) = Some (of_nat n)"
    by code_simp
  then show "json_hex_pair (hex_digit (drop_bit 4 ch)) (hex_digit ch) = Some ch" using n by simp
qed

lemma json_read_escape: "json_read (json_escape ch @ rest) = map_option (apfst (Cons ch)) (json_read rest)"
  by (simp add: json_escape_def json_hex_pair_digits)

lemma json_read_string: "json_read (json_string text @ ch_quote # rest) = Some (text, rest)"
  by (induction "text") (simp_all add: json_string_def json_read_escape del: json_read.simps(2), simp)

lemma hex_digit_printable: "0x20 \<le> hex_digit v"
proof -
  have "unat (v AND 0xf) < 16" using unat_and_mask [of v 4] by simp
  then have "\<exists>n < 16. v AND 0xf = of_nat n" by (intro exI [of _ "unat (v AND 0xf)"]) simp
  then obtain n :: nat where n: "n < 16" "v AND 0xf = of_nat n" by blast
  have "\<forall>n \<in> set [0..<16]. 0x20 \<le> (let value = of_nat n :: byte in if value < 10 then 0x30 + value else 0x41 + (value - 10))"
    by code_simp
  with n show ?thesis by (simp add: hex_digit_def)
qed

lemma json_escape_printable: "c \<in> set (json_escape ch) \<Longrightarrow> 0x20 \<le> c"
  using hex_digit_printable [of ch] hex_digit_printable [of "drop_bit 4 ch"]
  by (auto simp: json_escape_def split: if_splits)

lemma json_string_no_zero: "0 \<notin> set (json_string text)"
  using json_escape_printable by (fastforce simp: json_string_def)

lemma length_json_string: "length (json_string text) \<le> 6 * length text"
proof (induction "text")
  case (Cons ch ts)
  have "length (json_escape ch) \<le> 6" by (simp add: json_escape_def)
  with Cons.IH show ?case by (simp add: json_string_def)
qed (simp add: json_string_def)

section \<open>The chat packet\<close>

definition chat_json :: "byte list \<Rightarrow> byte list" where
  "chat_json text = str_bytes ''{\"text\":\"'' @ json_string text @ str_bytes ''\"}''"

definition chat_packet :: "byte list \<Rightarrow> byte list" where
  "chat_packet text = varint_bytes 0x02 @ mc_string (chat_json text) @ [0]"

lemma length_chat_json: "length (chat_json text) = length (json_string text) + 11"
  by (simp add: chat_json_def)

lemma chat_json_no_zero: "0 \<notin> set (chat_json text)"
  using json_string_no_zero [of "text"] by (simp add: chat_json_def)

lemma length_chat_packet:
  assumes "length text < MC_COMMAND_TEXT_CAP"
  shows "length (chat_packet text) \<le> 972"
proof -
  have "length (varint_bytes (2 :: i32)) = 1" by (simp add: varint_bytes_def leb128.simps)
  with assms length_json_string [of "text"] length_varint_bytes [of "of_nat (length (chat_json text))"]
  show ?thesis by (simp add: chat_packet_def mc_string_def length_chat_json)
qed

lemma build_chat_body_eq:
  assumes "length text < MC_COMMAND_TEXT_CAP" "972 \<le> body_cap"
  shows "build_chat_body body_cap text = Some (chat_packet text)"
proof -
  let ?e = "replicate 960 (0 :: byte)" and ?j = "replicate 976 (0 :: byte)"
  have len: "length (json_string text) < 960" "length (chat_json text) < 976"
    using length_json_string [of "text"] assms(1) by (simp_all add: length_chat_json)
  obtain e where e: "json_escape_text text ?e 960 = (True, e)" "c_str e = json_string text"
    using json_run [of ?e "c_all (map (json_escape_char 960) text)" "json_string text"] len(1)
      json_puts_text [of 960 "text"] json_string_no_zero [of "text"]
    by (auto simp: json_escape_text_def)
  let ?calls = "[json_append_cstr 976 (str_bytes ''{\"text\":\"''), json_append_cstr 976 (json_string text),
      json_append_cstr 976 (str_bytes ''\"}'')]"
  have "json_puts 976 (c_all ?calls) (chat_json text)"
    unfolding chat_json_def by (intro js.appends_then js.appends_last sink_simps)
  then obtain j where j: "build_chat_json (json_string text) ?j 976 = (True, j)" "c_str j = chat_json text"
    using json_run [of ?j "c_all ?calls" "chat_json text"] len(2) chat_json_no_zero [of "text"]
    by (auto simp: build_chat_json_def simp del: c_all.simps)
  have "writes (c_all [mc_write_varint 0x02, mc_write_string (chat_json text), mc_write_u8 0]) (chat_packet text)"
    unfolding chat_packet_def using len(2) by (intro wr.appends_then wr.appends_last sink_simps) simp
  from build_body_result [OF this, of body_cap] assms(2) length_chat_packet [OF assms(1)] e j
  show ?thesis by (simp add: build_chat_body_def del: c_all.simps)
qed

section \<open>Properties\<close>

text \<open>C34: every text that fits the chat buffer of the commands, whatever bytes it has, becomes a chat
  packet: the arrays of \<open>build_chat_body\<close> are large enough for the worst case of six bytes per character.
  The packet holds one JSON object whose string has no raw control character and reads back, with the
  escapes undone, as exactly the text.\<close>

theorem chat_body_round_trip:
  assumes "length text < MC_COMMAND_TEXT_CAP"
  shows "\<exists>json. build_chat_body (MC_COMMAND_TEXT_CAP * 6 + 32) text = Some (varint_bytes 0x02 @ mc_string json @ [0]) \<and>
    (\<forall>c \<in> set json. 0x20 \<le> c) \<and>
    (\<exists>rest. json = str_bytes ''{\"text\":\"'' @ rest \<and> json_read rest = Some (text, str_bytes ''}''))"
proof (intro exI conjI)
  show "build_chat_body (MC_COMMAND_TEXT_CAP * 6 + 32) text =
      Some (varint_bytes 0x02 @ mc_string (chat_json text) @ [0])"
    using build_chat_body_eq [OF assms, of "MC_COMMAND_TEXT_CAP * 6 + 32"] by (simp add: chat_packet_def)
  show "\<forall>c \<in> set (chat_json text). 0x20 \<le> c"
    using json_escape_printable by (auto simp: chat_json_def json_string_def)
  show "chat_json text = str_bytes ''{\"text\":\"'' @ json_string text @ str_bytes ''\"}''"
    by (simp add: chat_json_def)
  show "json_read (json_string text @ str_bytes ''\"}'') = Some (text, str_bytes ''}'')"
    using json_read_string [of "text" "str_bytes ''}''"] by simp
qed

theorem chat_body_round_trip_witness:
  "\<exists>json. build_chat_body 992 [0x41, 0x22, 0x0a] = Some (varint_bytes 0x02 @ mc_string json @ [0]) \<and> 0x0a \<notin> set json"
  using chat_body_round_trip [of "[0x41, 0x22, 0x0a]"] by fastforce

end
