(* ===== verification/ServerQueue.thy ===== *)
theory ServerQueue
  imports Packet Ringbuf
begin

text \<open>
  Queueing whole packets into the server's transmit ring: \<open>mc_server_queue_packet\<close> and its variant for
  connections with compression, of core/src/mc_server.c, which the world generator calls too. The
  contract \<open>enqueues\<close> says that a call is all or nothing.
\<close>

section \<open>Build options\<close>

text \<open>The macros of core/include/mc_config.h that select code.\<close>

record mc_config =
  cfg_compression :: bool
  cfg_psram_map :: bool
  cfg_threshold :: i32
  cfg_keepalive_interval :: u32

text \<open>What the \<open>#error\<close> directives demand.\<close>

definition config_ok :: "mc_config \<Rightarrow> bool" where
  "config_ok cfg \<longleftrightarrow> 0 < sint (cfg_threshold cfg) \<and> 0 < cfg_keepalive_interval cfg \<and>
     (cfg_psram_map cfg \<longrightarrow> cfg_compression cfg)"

section \<open>Queueing a packet\<close>

definition ring_write_all :: "byte list \<Rightarrow> mc_ringbuf \<Rightarrow> bool \<times> mc_ringbuf" where
  "ring_write_all bs tx = (case mc_ringbuf_write tx bs of (n, tx') \<Rightarrow> (n = length bs, tx'))"

definition mc_server_queue_packet :: "byte list \<Rightarrow> mc_ringbuf \<Rightarrow> bool \<times> mc_ringbuf" where
  "mc_server_queue_packet body tx =
     (let body_len = length body; free_len = mc_ringbuf_free tx in
      if MC_MAX_PACKET_BODY < body_len then (False, tx)
      else case mc_varint_encode (of_nat body_len) (replicate 5 0) 5 of
        (prefix_len, prefix) \<Rightarrow>
          if prefix_len = 0 \<or> free_len < prefix_len \<or> free_len - prefix_len < body_len then (False, tx)
          else c_all [ring_write_all (take prefix_len prefix), ring_write_all body] tx)"

definition queue_packet_compressed_plain :: "byte list \<Rightarrow> mc_ringbuf \<Rightarrow> bool \<times> mc_ringbuf" where
  "queue_packet_compressed_plain body tx =
     (let body_len = length body; inner_len = 1 + body_len; free_len = mc_ringbuf_free tx in
      if MC_MAX_PACKET_BODY < body_len \<or> INT32_MAX < inner_len then (False, tx)
      else case mc_varint_encode (of_nat inner_len) (replicate 5 0) 5 of
        (prefix_len, prefix) \<Rightarrow>
          if prefix_len = 0 \<or> free_len < prefix_len + inner_len then (False, tx)
          else c_all [ring_write_all (take prefix_len prefix), ring_write_all [0], ring_write_all body] tx)"

section \<open>The contract: all or nothing\<close>

definition enqueues :: "(mc_ringbuf \<Rightarrow> bool \<times> mc_ringbuf) \<Rightarrow> byte list \<Rightarrow> bool" where
  "enqueues f bs \<longleftrightarrow>
     (\<forall>tx. rb_ok tx \<longrightarrow>
        (if length (rb_contents tx) + length bs \<le> rb_cap tx
         then fst (f tx) \<and> rb_ok (snd (f tx)) \<and> rb_cap (snd (f tx)) = rb_cap tx \<and>
           rb_contents (snd (f tx)) = rb_contents tx @ bs
         else f tx = (False, tx)))"

lemma enqueues_cases [consumes 2, case_names queued full]:
  assumes "enqueues f bs" "rb_ok tx"
  obtains tx' where "f tx = (True, tx')" "rb_ok tx'" "rb_cap tx' = rb_cap tx" "rb_contents tx' = rb_contents tx @ bs"
      "length (rb_contents tx) + length bs \<le> rb_cap tx"
  | "f tx = (False, tx)" "rb_cap tx < length (rb_contents tx) + length bs"
  using assms by (cases "f tx") (auto simp: enqueues_def dest!: spec [of _ tx] split: if_splits)

lemma ring_write_all_fits:
  assumes "rb_ok tx" "length (rb_contents tx) + length bs \<le> rb_cap tx"
  shows "fst (ring_write_all bs tx)" "rb_ok (snd (ring_write_all bs tx))"
    "rb_cap (snd (ring_write_all bs tx)) = rb_cap tx"
    "rb_contents (snd (ring_write_all bs tx)) = rb_contents tx @ bs"
  using assms by (simp_all add: ring_write_all_def case_prod_unfold fifo_simps del: length_rb_contents)

lemma ring_writes_fit:
  assumes "rb_ok tx" "length (rb_contents tx) + length (concat bss) \<le> rb_cap tx"
  shows "fst (c_all (map ring_write_all bss) tx) \<and> rb_ok (snd (c_all (map ring_write_all bss) tx)) \<and>
    rb_cap (snd (c_all (map ring_write_all bss) tx)) = rb_cap tx \<and>
    rb_contents (snd (c_all (map ring_write_all bss) tx)) = rb_contents tx @ concat bss"
  using assms
proof (induction bss arbitrary: tx)
  case (Cons bs bss)
  then have "length (rb_contents tx) + length bs \<le> rb_cap tx" by simp
  note w = ring_write_all_fits [OF Cons.prems(1) this]
  with Cons.IH [OF w(2)] Cons.prems(2) show ?case
    by (simp add: case_prod_unfold del: length_rb_contents)
qed simp

text \<open>Writing the parts of a frame after a check that the whole frame fits.\<close>

lemma enqueues_parts:
  assumes "\<And>tx. rb_ok tx \<Longrightarrow> f tx = (if mc_ringbuf_free tx < length (concat bss) then (False, tx)
      else c_all (map ring_write_all bss) tx)"
  shows "enqueues f (concat bss)"
  unfolding enqueues_def
proof (intro allI impI)
  fix tx assume ok: "rb_ok tx"
  have "length (rb_contents tx) \<le> rb_cap tx" by (rule rb.bounded [OF ok])
  then show "if length (rb_contents tx) + length (concat bss) \<le> rb_cap tx
      then fst (f tx) \<and> rb_ok (snd (f tx)) \<and> rb_cap (snd (f tx)) = rb_cap tx \<and>
        rb_contents (snd (f tx)) = rb_contents tx @ concat bss
      else f tx = (False, tx)"
    using ring_writes_fit [OF ok, of bss] unfolding assms [OF ok] rb_free_eq by (auto simp del: length_rb_contents)
qed

lemma enqueues_packet:
  assumes "length body \<le> MC_MAX_PACKET_BODY"
  shows "enqueues (mc_server_queue_packet body) (packet_frame body)"
proof -
  let ?v = "varint_bytes (of_nat (length body))"
  have "enqueues (mc_server_queue_packet body) (concat [?v, body])"
    by (rule enqueues_parts)
      (use assms length_varint_bytes [of "of_nat (length body)"] in
        \<open>auto simp: mc_server_queue_packet_def Let_def case_prod_unfold simp del: c_all.simps\<close>)
  then show ?thesis by (simp add: packet_frame_def)
qed

lemma queue_packet_too_long: "MC_MAX_PACKET_BODY < length body \<Longrightarrow> mc_server_queue_packet body tx = (False, tx)"
  by (simp add: mc_server_queue_packet_def Let_def)

lemma enqueues_compressed_plain:
  assumes "length body \<le> MC_MAX_PACKET_BODY"
  shows "enqueues (queue_packet_compressed_plain body) (packet_frame (0 # body))"
proof -
  let ?v = "varint_bytes (of_nat (Suc (length body)))"
  have "enqueues (queue_packet_compressed_plain body) (concat [?v, [0], body])"
    by (rule enqueues_parts)
      (use assms length_varint_bytes [of "of_nat (Suc (length body))"] in
        \<open>auto simp: queue_packet_compressed_plain_def Let_def case_prod_unfold simp del: c_all.simps of_nat_Suc\<close>)
  then show ?thesis by (simp add: packet_frame_def)
qed

lemma queue_compressed_too_long:
  "MC_MAX_PACKET_BODY < length body \<Longrightarrow> queue_packet_compressed_plain body tx = (False, tx)"
  by (simp add: queue_packet_compressed_plain_def Let_def)

text \<open>A sequence of such calls, and the frames they queue one after the other.\<close>

lemma enqueues_all_fit:
  assumes "list_all2 enqueues fs bss" "rb_ok tx" "length (rb_contents tx) + length (concat bss) \<le> rb_cap tx"
  shows "fst (c_all fs tx) \<and> rb_ok (snd (c_all fs tx)) \<and> rb_cap (snd (c_all fs tx)) = rb_cap tx \<and>
    rb_contents (snd (c_all fs tx)) = rb_contents tx @ concat bss"
  using assms
proof (induction fs bss arbitrary: tx rule: list_all2_induct)
  case (Cons f fs bs bss)
  from Cons.hyps(1) Cons.prems(1) show ?case
  proof (cases rule: enqueues_cases)
    case (queued tx')
    with Cons.IH [of tx'] Cons.prems(2) show ?thesis by (simp del: length_rb_contents)
  next
    case full
    with Cons.prems(2) show ?thesis by (simp del: length_rb_contents)
  qed
qed simp

end
