(* ===== verification/World.thy ===== *)
theory World
  imports ServerQueue
begin

text \<open>
  The spawn chunks of core/src/mc_world.c: a flat chunk section built into a static array and sent as
  one packet per chunk. In a build with the compressed map the functions only fail.
\<close>

abbreviation MC_CHUNK_SECTION_BYTES :: nat where "MC_CHUNK_SECTION_BYTES \<equiv> 12544"
abbreviation MC_WORLD_CHUNK_COUNT :: nat where "MC_WORLD_CHUNK_COUNT \<equiv> 9"

section \<open>Building chunks\<close>

definition world_spawn_chunks :: "(i32 \<times> i32) list" where
  "world_spawn_chunks =
     [(0, 0), (1, 0), (- 1, 0), (0, 1), (0, - 1), (1, 1), (- 1, - 1), (1, - 1), (- 1, 1)]"

definition block_for_y :: "nat \<Rightarrow> u16" where
  "block_for_y y =
     (if y = 0 then push_bit 4 7 else if y \<le> 3 then push_bit 4 3 else if y = 4 then push_bit 4 2 else 0)"

definition mc_world_spawn_chunk_count :: nat where
  "mc_world_spawn_chunk_count = MC_WORLD_CHUNK_COUNT"

text \<open>The body of the innermost loop.\<close>

definition chunk_store_block :: "nat \<times> nat \<times> nat \<Rightarrow> byte list \<Rightarrow> byte list" where
  "chunk_store_block yzx data =
     (case yzx of (y, z, x) \<Rightarrow>
        let block = block_for_y y; off = ((y * 16 + z) * 16 + x) * 2
        in data[off := ucast block, off + 1 := ucast (drop_bit 8 block)])"

text \<open>The order in which the three loops visit the blocks.\<close>

definition chunk_loop :: "(nat \<times> nat \<times> nat) list" where
  "chunk_loop = concat (map (\<lambda>y. concat (map (\<lambda>z. map (\<lambda>x. (y, z, x)) [0..<16]) [0..<16])) [0..<16])"

definition world_chunk_data :: "byte list" where
  "world_chunk_data =
     (let data = replicate MC_CHUNK_SECTION_BYTES 0;
          data = fold chunk_store_block chunk_loop data;
          data = memcpy_at data 8192 (replicate 2048 0xff);
          data = memcpy_at data (8192 + 2048) (replicate 2048 0xff)
      in memcpy_at data (8192 + 2048 + 2048) (replicate 256 1))"

text \<open>The result is the success flag, the caller's buffer and the length of the body.\<close>

definition mc_world_build_chunk_body ::
    "mc_config \<Rightarrow> i32 \<Rightarrow> i32 \<Rightarrow> byte list \<Rightarrow> nat \<Rightarrow> bool \<times> byte list \<times> nat" where
  "mc_world_build_chunk_body cfg chunk_x chunk_z body body_cap =
     (if cfg_psram_map cfg then (False, body, 0)
      else case c_all [mc_write_varint 0x21, mc_write_i32 chunk_x, mc_write_i32 chunk_z, mc_write_bool True,
                       mc_write_u16 1, mc_write_varint (of_nat (length world_chunk_data)),
                       mc_write_bytes world_chunk_data] (mc_writer_init body body_cap) of
             (ok, w) \<Rightarrow> if ok then (True, wr_buf w, wr_len w) else (False, wr_buf w, 0))"

text \<open>The static array the chunk bodies are built in.\<close>

definition world_chunk_body :: "byte list" where
  "world_chunk_body = replicate (MC_CHUNK_SECTION_BYTES + 32) 0"

definition mc_world_queue_spawn_chunk :: "mc_config \<Rightarrow> nat \<Rightarrow> mc_ringbuf \<Rightarrow> bool \<times> mc_ringbuf" where
  "mc_world_queue_spawn_chunk cfg index tx =
     (if cfg_psram_map cfg then (False, tx)
      else if MC_WORLD_CHUNK_COUNT \<le> index then (False, tx)
      else case world_spawn_chunks ! index of (cx, cz) \<Rightarrow>
        (case mc_world_build_chunk_body cfg cx cz world_chunk_body (length world_chunk_body) of
           (ok, body, body_len) \<Rightarrow>
             if \<not> ok then (False, tx) else mc_server_queue_packet (take body_len body) tx))"

fun preflight_loop :: "mc_config \<Rightarrow> (i32 \<times> i32) list \<Rightarrow> nat \<Rightarrow> nat \<Rightarrow> bool" where
  "preflight_loop cfg [] free_len needed = True"
| "preflight_loop cfg ((cx, cz) # chunks) free_len needed =
     (case mc_world_build_chunk_body cfg cx cz world_chunk_body (length world_chunk_body) of
        (ok, body, body_len) \<Rightarrow>
          if \<not> ok then False
          else let prefix_len = fst (mc_varint_encode (of_nat body_len) (replicate 5 0) 5) in
            if prefix_len = 0 \<or> free_len < prefix_len \<or> free_len - prefix_len < body_len then False
            else let frame_len = prefix_len + body_len in
              if free_len < needed \<or> free_len - needed < frame_len then False
              else preflight_loop cfg chunks free_len (needed + frame_len))"

definition preflight_spawn_chunk_space :: "mc_config \<Rightarrow> mc_ringbuf \<Rightarrow> bool" where
  "preflight_spawn_chunk_space cfg tx = preflight_loop cfg world_spawn_chunks (mc_ringbuf_free tx) 0"

definition mc_world_queue_spawn_chunks :: "mc_config \<Rightarrow> mc_ringbuf \<Rightarrow> bool \<times> mc_ringbuf" where
  "mc_world_queue_spawn_chunks cfg tx =
     (if cfg_psram_map cfg then (False, tx)
      else if \<not> preflight_spawn_chunk_space cfg tx then (False, tx)
      else c_all (map (mc_world_queue_spawn_chunk cfg) [0..<MC_WORLD_CHUNK_COUNT]) tx)"

section \<open>What a chunk holds\<close>

definition block_offset :: "nat \<times> nat \<times> nat \<Rightarrow> nat" where
  "block_offset yzx = (case yzx of (y, z, x) \<Rightarrow> ((y * 16 + z) * 16 + x) * 2)"

definition in_section :: "nat \<times> nat \<times> nat \<Rightarrow> bool" where
  "in_section yzx \<longleftrightarrow> (case yzx of (y, z, x) \<Rightarrow> y < 16 \<and> z < 16 \<and> x < 16)"

lemma chunk_loop_all: "in_section yzx \<longleftrightarrow> yzx \<in> set chunk_loop"
  by (cases yzx) (auto simp: in_section_def chunk_loop_def image_iff)

lemma block_offset_lt: "in_section yzx \<Longrightarrow> block_offset yzx + 1 < 8192"
  by (auto simp: in_section_def block_offset_def)

lemma block_offset_inj:
  assumes "in_section a" "in_section b" "block_offset a div 2 = block_offset b div 2"
  shows "a = b"
proof -
  obtain y z x y' z' x' where ab: "a = (y, z, x)" "b = (y', z', x')" by (metis surj_pair)
  have lt: "z < 16" "x < 16" "z' < 16" "x' < 16" using assms(1,2) by (simp_all add: in_section_def ab)
  have eq: "(y * 16 + z) * 16 + x = (y' * 16 + z') * 16 + x'" using assms(3) by (simp add: block_offset_def ab)
  have k: "(n * 16 + m) mod 16 = m" "(n * 16 + m) div 16 = n" if "m < 16" for n m :: nat using that by simp_all
  from eq have "x = x'" and yz: "y * 16 + z = y' * 16 + z'" using k lt by metis+
  moreover from yz have "z = z'" "y = y'" using k lt by metis+
  ultimately show ?thesis using ab by simp
qed

lemma chunk_store_length [simp]: "length (chunk_store_block t data) = length data"
  by (simp add: chunk_store_block_def Let_def case_prod_unfold)

lemma chunk_fill_length [simp]: "length (fold chunk_store_block ts data) = length data"
  by (induction ts arbitrary: data) simp_all

lemma chunk_store_nth:
  assumes "in_section t" "in_section u" "8192 \<le> length data"
  shows "chunk_store_block t data ! block_offset u =
      (if t = u then ucast (block_for_y (fst u)) else data ! block_offset u)"
    "chunk_store_block t data ! (block_offset u + 1) =
      (if t = u then ucast (drop_bit 8 (block_for_y (fst u))) else data ! (block_offset u + 1))"
proof -
  have s: "chunk_store_block t data = data[block_offset t := ucast (block_for_y (fst t)),
      block_offset t + 1 := ucast (drop_bit 8 (block_for_y (fst t)))]"
    by (simp add: chunk_store_block_def block_offset_def Let_def case_prod_unfold)
  have even: "even (block_offset t)" "even (block_offset u)" by (simp_all add: block_offset_def case_prod_unfold)
  have lt: "block_offset t + 1 < length data" "block_offset u + 1 < length data"
    using block_offset_lt [OF assms(1)] block_offset_lt [OF assms(2)] assms(3) by simp_all
  have ne: "block_offset t \<noteq> block_offset u" if "t \<noteq> u" using block_offset_inj [OF assms(1,2)] that by auto
  have par: "block_offset t \<noteq> block_offset u + 1" "block_offset t + 1 \<noteq> block_offset u"
    using even by presburger+
  show "chunk_store_block t data ! block_offset u =
      (if t = u then ucast (block_for_y (fst u)) else data ! block_offset u)"
    "chunk_store_block t data ! (block_offset u + 1) =
      (if t = u then ucast (drop_bit 8 (block_for_y (fst u))) else data ! (block_offset u + 1))"
    unfolding s using lt ne par by (auto simp: nth_list_update)
qed

lemma chunk_fill_nth:
  assumes "list_all in_section ts" "in_section u" "8192 \<le> length data" "u \<in> set ts \<or>
      (data ! block_offset u = ucast (block_for_y (fst u)) \<and>
       data ! (block_offset u + 1) = ucast (drop_bit 8 (block_for_y (fst u))))"
  shows "fold chunk_store_block ts data ! block_offset u = ucast (block_for_y (fst u)) \<and>
    fold chunk_store_block ts data ! (block_offset u + 1) = ucast (drop_bit 8 (block_for_y (fst u)))"
  using assms
proof (induction ts arbitrary: data)
  case (Cons t ts)
  show ?case
    using Cons.prems chunk_store_nth [of t u data] Cons.IH [of "chunk_store_block t data"] by auto
qed auto

lemma nth_memcpy_below: "k < i \<Longrightarrow> i \<le> length dst \<Longrightarrow> memcpy_at dst i src ! k = dst ! k"
  by (simp add: memcpy_at_def nth_append)

lemma nth_memcpy_in:
  "i \<le> k \<Longrightarrow> k < i + length src \<Longrightarrow> i \<le> length dst \<Longrightarrow> memcpy_at dst i src ! k = src ! (k - i)"
  by (auto simp: memcpy_at_def nth_append)

lemma length_world_chunk_data: "length world_chunk_data = MC_CHUNK_SECTION_BYTES"
  by (simp add: world_chunk_data_def Let_def length_memcpy_at)

lemma world_chunk_blocks:
  assumes "in_section u"
  shows "world_chunk_data ! block_offset u = ucast (block_for_y (fst u))"
    "world_chunk_data ! (block_offset u + 1) = ucast (drop_bit 8 (block_for_y (fst u)))"
  using chunk_fill_nth [of chunk_loop u "replicate MC_CHUNK_SECTION_BYTES 0"] assms block_offset_lt [OF assms]
  by (simp_all add: world_chunk_data_def Let_def nth_memcpy_below length_memcpy_at list_all_iff chunk_loop_all)

lemma world_chunk_light_biomes:
  assumes "8192 \<le> i" "i < MC_CHUNK_SECTION_BYTES"
  shows "world_chunk_data ! i = (if i < 12288 then 0xff else 1)"
proof -
  consider "i < 10240" | "10240 \<le> i" "i < 12288" | "12288 \<le> i" by linarith
  then show ?thesis
    using assms by cases (simp_all add: world_chunk_data_def Let_def nth_memcpy_below nth_memcpy_in length_memcpy_at)
qed

section \<open>The chunk packet\<close>

definition chunk_packet :: "i32 \<Rightarrow> i32 \<Rightarrow> byte list" where
  "chunk_packet cx cz = varint_bytes 0x21 @ u32_be cx @ u32_be cz @ [1] @ u16_be 1 @ varint_bytes 12544 @ world_chunk_data"

lemma length_chunk_packet: "length (chunk_packet cx cz) = 12558"
proof -
  have "length (varint_bytes (0x21 :: i32)) = 1" "length (varint_bytes (12544 :: i32)) = 2"
    by (simp_all add: varint_bytes_def leb128.simps)
  then show ?thesis by (simp add: chunk_packet_def length_world_chunk_data)
qed

lemma mc_world_build_chunk_body_eq:
  assumes "body_cap \<le> length body" "\<not> cfg_psram_map cfg"
  shows "if 12558 \<le> body_cap
    then \<exists>body'. mc_world_build_chunk_body cfg cx cz body body_cap = (True, body', 12558) \<and>
      take 12558 body' = chunk_packet cx cz
    else fst (mc_world_build_chunk_body cfg cx cz body body_cap) = False"
proof -
  let ?calls = "[mc_write_varint 0x21, mc_write_i32 cx, mc_write_i32 cz, mc_write_bool True,
      mc_write_u16 1, mc_write_varint (of_nat (length world_chunk_data)), mc_write_bytes world_chunk_data]"
  let ?w = "mc_writer_init body body_cap"
  have b: "writes (mc_write_bool True) [1]" using writes_bool [of True] by simp
  have f: "writes (c_all ?calls) (chunk_packet cx cz)"
    unfolding chunk_packet_def length_world_chunk_data of_nat_numeral
    by (intro wr.appends_then wr.appends_last b sink_simps)
  have w: "writer_ok ?w" "wr_bytes ?w = []" "wr_cap ?w = body_cap"
    using assms(1) by (simp_all add: mc_writer_init_def writer_ok_def wr_bytes_def)
  show ?thesis
  proof (cases "12558 \<le> body_cap")
    case True
    obtain w' where "c_all ?calls ?w = (True, w')" "writer_ok w'" "wr_bytes w' = chunk_packet cx cz"
      using wr.appends_run [OF f w(1)] True w by (auto simp: length_chunk_packet simp del: c_all.simps)
    with True assms(2) show ?thesis
      using length_wr_bytes [of w'] by (auto simp: mc_world_build_chunk_body_def wr_bytes_def length_chunk_packet simp del: c_all.simps)
  next
    case False
    obtain w' where "c_all ?calls ?w = (False, w')"
      using wr.appends_fail [OF f w(1)] False w by (auto simp: length_chunk_packet simp del: c_all.simps)
    with False assms(2) show ?thesis by (simp add: mc_world_build_chunk_body_def del: c_all.simps)
  qed
qed

lemma chunk_packet_head:
  "chunk_packet cx cz = (0x21 # u32_be cx @ u32_be cz @ [1, 0, 1, 0x80, 0x62]) @ world_chunk_data"
  by (simp add: chunk_packet_def u16_be_def varint_bytes_def leb128.simps)

section \<open>Queueing chunks\<close>

definition chunk_frame :: "i32 \<times> i32 \<Rightarrow> byte list" where
  "chunk_frame c = packet_frame (chunk_packet (fst c) (snd c))"

lemma length_chunk_frame: "length (chunk_frame c) = 12560"
proof -
  have "length (varint_bytes (12558 :: i32)) = 2" by (simp add: varint_bytes_def leb128.simps)
  then show ?thesis by (simp add: chunk_frame_def packet_frame_def length_chunk_packet)
qed

lemma build_spawn_chunk:
  assumes "\<not> cfg_psram_map cfg"
  obtains body where "mc_world_build_chunk_body cfg cx cz world_chunk_body (length world_chunk_body) = (True, body, 12558)"
    "take 12558 body = chunk_packet cx cz"
  using mc_world_build_chunk_body_eq [of "length world_chunk_body" world_chunk_body cfg cx cz] assms
  by (auto simp: world_chunk_body_def)

lemma enqueues_spawn_chunk:
  assumes "\<not> cfg_psram_map cfg" "i < MC_WORLD_CHUNK_COUNT"
  shows "enqueues (mc_world_queue_spawn_chunk cfg i) (chunk_frame (world_spawn_chunks ! i))"
proof -
  obtain cx cz where c: "world_spawn_chunks ! i = (cx, cz)" by fastforce
  obtain body where "mc_world_build_chunk_body cfg cx cz world_chunk_body (length world_chunk_body) = (True, body, 12558)"
    "take 12558 body = chunk_packet cx cz" by (rule build_spawn_chunk [OF assms(1)])
  then have "mc_world_queue_spawn_chunk cfg i = mc_server_queue_packet (chunk_packet cx cz)"
    using assms c by (intro ext) (simp add: mc_world_queue_spawn_chunk_def)
  then show ?thesis
    using enqueues_packet [of "chunk_packet cx cz"] by (simp add: chunk_frame_def c length_chunk_packet)
qed

lemma preflight_loop_eq:
  assumes "\<not> cfg_psram_map cfg" "needed \<le> free_len"
  shows "preflight_loop cfg chunks free_len needed = (needed + 12560 * length chunks \<le> free_len)"
  using assms(2)
proof (induction chunks arbitrary: needed)
  case (Cons c chunks)
  obtain cx cz where c: "c = (cx, cz)" by fastforce
  obtain body where b: "mc_world_build_chunk_body cfg cx cz world_chunk_body (length world_chunk_body) = (True, body, 12558)"
    by (rule build_spawn_chunk [OF assms(1)])
  have v: "length (varint_bytes (12558 :: i32)) = 2" by (simp add: varint_bytes_def leb128.simps)
  then have vn: "varint_bytes (12558 :: i32) \<noteq> []" by auto
  show ?case
    using Cons.IH [of "needed + 12560"] Cons.prems unfolding c
    by (auto simp: b v vn Let_def)
qed simp

lemma length_spawn_chunks: "length world_spawn_chunks = MC_WORLD_CHUNK_COUNT"
  by (simp add: world_spawn_chunks_def)

section \<open>Properties\<close>

text \<open>C32: the packet body built for a chunk is the flat world the server promises, for all coordinates and whatever
  the caller's buffer held: the head names the packet, the coordinates, one section and 12544 bytes of data; at every
  height the block is bedrock at 0, dirt from 1 to 3, grass at 4 and air above, stored little-endian at its place in
  y, z, x order; all light is full and all biomes are plains. A buffer with less than 12558 bytes is refused.\<close>

theorem world_chunk_is_flat:
  assumes "body_cap \<le> length body" "\<not> cfg_psram_map cfg"
  shows "if 12558 \<le> body_cap
    then \<exists>body'. mc_world_build_chunk_body cfg cx cz body body_cap = (True, body', 12558) \<and>
      take 14 body' = [0x21] @ u32_be cx @ u32_be cz @ [1, 0, 1, 0x80, 0x62] \<and>
      (\<forall>y z x. y < 16 \<longrightarrow> z < 16 \<longrightarrow> x < 16 \<longrightarrow>
         u16_le (body' ! (14 + ((y * 16 + z) * 16 + x) * 2)) (body' ! (14 + ((y * 16 + z) * 16 + x) * 2 + 1)) =
         (if y = 0 then 0x70 else if y \<le> 3 then 0x30 else if y = 4 then 0x20 else 0)) \<and>
      (\<forall>i. 8192 \<le> i \<longrightarrow> i < 12288 \<longrightarrow> body' ! (14 + i) = 0xff) \<and>
      (\<forall>i. 12288 \<le> i \<longrightarrow> i < 12544 \<longrightarrow> body' ! (14 + i) = 1)
    else fst (mc_world_build_chunk_body cfg cx cz body body_cap) = False"
proof (cases "12558 \<le> body_cap")
  case True
  let ?head = "[0x21] @ u32_be cx @ u32_be cz @ [1, 0, 1, 0x80, 0x62]"
  obtain body' where b: "mc_world_build_chunk_body cfg cx cz body body_cap = (True, body', 12558)"
    "take 12558 body' = chunk_packet cx cz"
    using mc_world_build_chunk_body_eq [OF assms, of cx cz] True by auto
  have p: "take 12558 body' = ?head @ world_chunk_data" using b(2) by (simp add: chunk_packet_head)
  have nth: "body' ! (14 + i) = world_chunk_data ! i" if "i < 12544" for i
  proof -
    have "body' ! (14 + i) = take 12558 body' ! (14 + i)" using that by simp
    also have "\<dots> = world_chunk_data ! i" unfolding p by (simp add: nth_append)
    finally show ?thesis .
  qed
  have "take 14 body' = take 14 (take 12558 body')" by simp
  then have head: "take 14 body' = ?head" unfolding p by simp
  have blocks: "u16_le (body' ! (14 + block_offset (y, z, x))) (body' ! (14 + block_offset (y, z, x) + 1)) =
      (if y = 0 then 0x70 else if y \<le> 3 then 0x30 else if y = 4 then 0x20 else 0)"
    if "y < 16" "z < 16" "x < 16" for y z x
    using world_chunk_blocks [of "(y, z, x)"] block_offset_lt [of "(y, z, x)"] that nth [of "block_offset (y, z, x)"]
      nth [of "block_offset (y, z, x) + 1"]
    by (simp add: in_section_def block_for_y_def u16_le_def add.assoc)
  from True b(1) head blocks nth world_chunk_light_biomes show ?thesis by (simp add: block_offset_def)
next
  case False
  then show ?thesis using mc_world_build_chunk_body_eq [OF assms, of cx cz] by simp
qed

theorem world_chunk_is_flat_witness:
  "\<exists>body'. mc_world_build_chunk_body \<lparr>cfg_compression = False, cfg_psram_map = False, cfg_threshold = 1, cfg_keepalive_interval = 1\<rparr>
       1 2 (replicate 12576 0) 12576 = (True, body', 12558) \<and>
     take 14 body' = [0x21, 0, 0, 0, 1, 0, 0, 0, 2, 1, 0, 1, 0x80, 0x62] \<and>
     u16_le (body' ! (14 + ((4 * 16 + 3) * 16 + 2) * 2)) (body' ! (14 + ((4 * 16 + 3) * 16 + 2) * 2 + 1)) = 0x20"
proof -
  let ?cfg = "\<lparr>cfg_compression = False, cfg_psram_map = False, cfg_threshold = 1, cfg_keepalive_interval = 1\<rparr>"
  have "(12576 :: nat) \<le> length (replicate 12576 (0 :: byte))" "\<not> cfg_psram_map ?cfg" "(12558 :: nat) \<le> 12576" by simp_all
  from world_chunk_is_flat [OF this(1,2), of 1 2] this(3) obtain body' where
    "mc_world_build_chunk_body ?cfg 1 2 (replicate 12576 0) 12576 = (True, body', 12558)"
    "take 14 body' = [0x21] @ u32_be 1 @ u32_be 2 @ [1, 0, 1, 0x80, 0x62]"
    and blocks: "\<forall>y z x. y < 16 \<longrightarrow> z < 16 \<longrightarrow> x < 16 \<longrightarrow>
      u16_le (body' ! (14 + ((y * 16 + z) * 16 + x) * 2)) (body' ! (14 + ((y * 16 + z) * 16 + x) * 2 + 1)) =
      (if y = 0 then 0x70 else if y \<le> 3 then 0x30 else if y = 4 then 0x20 else 0)"
    by (simp only: if_True) blast
  with blocks [rule_format, of 4 3 2] show ?thesis by (auto simp: u32_be_def)
qed

text \<open>Queueing the nine spawn chunks is all or nothing: when the transmit ring has room for all nine
  frames of 12560 bytes they are appended in order, and otherwise the ring is left as it was.\<close>

theorem spawn_chunks_all_or_nothing:
  assumes "rb_ok tx" "\<not> cfg_psram_map cfg"
  shows "if length (rb_contents tx) + 9 * 12560 \<le> rb_cap tx
    then \<exists>tx'. mc_world_queue_spawn_chunks cfg tx = (True, tx') \<and> rb_ok tx' \<and>
      rb_contents tx' = rb_contents tx @ concat (map (\<lambda>(cx, cz). packet_frame (chunk_packet cx cz)) world_spawn_chunks)
    else mc_world_queue_spawn_chunks cfg tx = (False, tx)"
proof -
  let ?calls = "map (mc_world_queue_spawn_chunk cfg) [0..<MC_WORLD_CHUNK_COUNT]"
  let ?frames = "map chunk_frame world_spawn_chunks"
  have b: "length (rb_contents tx) \<le> rb_cap tx" by (rule rb.bounded [OF assms(1)])
  have pre: "preflight_spawn_chunk_space cfg tx \<longleftrightarrow> length (rb_contents tx) + 9 * 12560 \<le> rb_cap tx"
    using b by (auto simp: preflight_spawn_chunk_space_def preflight_loop_eq [OF assms(2)] length_spawn_chunks rb_free_eq
        simp del: length_rb_contents)
  have all: "list_all2 enqueues ?calls ?frames"
    using enqueues_spawn_chunk [OF assms(2)] by (simp add: list_all2_conv_all_nth length_spawn_chunks del: upt_Suc)
  have "length (concat ?frames) = 9 * 12560"
    by (simp add: length_concat comp_def length_chunk_frame length_spawn_chunks sum_list_triv)
  with enqueues_all_fit [OF all assms(1)] pre assms(2) show ?thesis
    by (cases "c_all ?calls tx")
      (auto simp: mc_world_queue_spawn_chunks_def chunk_frame_def [abs_def] case_prod_unfold simp del: length_rb_contents upt_Suc)
qed

theorem spawn_chunks_all_or_nothing_witness:
  "mc_world_queue_spawn_chunks \<lparr>cfg_compression = False, cfg_psram_map = False, cfg_threshold = 1, cfg_keepalive_interval = 1\<rparr>
     (mc_ringbuf_init [0, 0] 2) = (False, mc_ringbuf_init [0, 0] 2)"
  using spawn_chunks_all_or_nothing [OF rb_init_ok [of 2 "[0, 0]"], of "\<lparr>cfg_compression = False, cfg_psram_map = False, cfg_threshold = 1, cfg_keepalive_interval = 1\<rparr>"]
  by (simp add: rb_init_contents rb_init_cap del: length_rb_contents split: if_splits)

end
