(* ===== verification/WorldCompressed.thy ===== *)
theory WorldCompressed
  imports ServerQueue
begin

text \<open>
  The pre-compressed spawn chunks of core/src/mc_world_compressed.c: at start-up the assets are copied
  into an arena in PSRAM, later they are sent from there. The asset table is generated by the build, so it
  is a parameter here; the runtime table holds offsets into the arena where the C code holds pointers.
\<close>

abbreviation MC_WORLD_COMPRESSED_MAX_CHUNKS :: nat where "MC_WORLD_COMPRESSED_MAX_CHUNKS \<equiv> 32"

section \<open>State\<close>

text \<open>One generated asset: \<open>compressed\<close> is the null pointer or an array of at least \<open>compressed_len\<close> bytes.\<close>

record mc_world_compressed_asset =
  as_chunk_x :: i32
  as_chunk_z :: i32
  as_raw_body_len :: u32
  as_compressed_len :: u32
  as_compressed :: "byte list option"

record compressed_chunk =
  wc_chunk_x :: i32
  wc_chunk_z :: i32
  wc_raw_body_len :: u32
  wc_compressed_len :: u32
  wc_compressed :: nat

record world_compressed =
  wc_arena :: "byte list"
  wc_runtime_chunks :: "compressed_chunk list"
  wc_runtime_chunk_count :: nat
  wc_runtime_ready :: bool

section \<open>Operations\<close>

definition compressed_chunk_frame_valid :: "u32 \<Rightarrow> u32 \<Rightarrow> bool" where
  "compressed_chunk_frame_valid raw_body_len compressed_len =
     (if raw_body_len = 0 \<or> MC_MAX_PACKET_BODY < unat raw_body_len \<or>
         compressed_len = 0 \<or> MC_MAX_PACKET_BODY < unat compressed_len then False
      else let data_len_len = fst (mc_varint_encode raw_body_len (replicate 5 0) 5) in
        if data_len_len = 0 \<or> INT32_MAX - data_len_len < unat compressed_len then False
        else let inner_len = data_len_len + unat compressed_len in
          if MC_MAX_PACKET_BODY < inner_len \<or>
             fst (mc_varint_encode (of_nat inner_len) (replicate 5 0) 5) = 0 then False else True)"

fun compressed_init_loop ::
    "mc_world_compressed_asset list \<Rightarrow> nat \<Rightarrow> nat \<Rightarrow> nat \<Rightarrow> world_compressed \<Rightarrow> bool \<times> world_compressed" where
  "compressed_init_loop [] i pos arena_len st = (True, st)"
| "compressed_init_loop (asset # assets) i pos arena_len st =
     (case as_compressed asset of
        None \<Rightarrow> (False, st)
      | Some src \<Rightarrow>
          if as_compressed_len asset = 0 \<or>
             \<not> compressed_chunk_frame_valid (as_raw_body_len asset) (as_compressed_len asset) \<or>
             arena_len < pos \<or> arena_len - pos < unat (as_compressed_len asset) then (False, st)
          else compressed_init_loop assets (i + 1) (pos + unat (as_compressed_len asset)) arena_len
                 (st\<lparr>wc_arena := memcpy_at (wc_arena st) pos (take (unat (as_compressed_len asset)) src),
                     wc_runtime_chunks := (wc_runtime_chunks st)[i :=
                       \<lparr>wc_chunk_x = as_chunk_x asset, wc_chunk_z = as_chunk_z asset,
                        wc_raw_body_len = as_raw_body_len asset, wc_compressed_len = as_compressed_len asset,
                        wc_compressed = pos\<rparr>]\<rparr>))"

text \<open>\<open>total_bytes\<close> is the generated constant \<open>mc_world_compressed_total_bytes\<close>.\<close>

definition mc_world_compressed_init ::
    "mc_config \<Rightarrow> mc_world_compressed_asset list \<Rightarrow> nat \<Rightarrow> nat \<Rightarrow> world_compressed \<Rightarrow> bool \<times> world_compressed" where
  "mc_world_compressed_init cfg assets total_bytes arena_len st =
     (if \<not> cfg_psram_map cfg then (False, st)
      else let st = st\<lparr>wc_runtime_ready := False, wc_runtime_chunk_count := 0\<rparr> in
        if MC_WORLD_COMPRESSED_MAX_CHUNKS < length assets then (False, st)
        else if arena_len < total_bytes then (False, st)
        else case compressed_init_loop assets 0 0 arena_len st of
               (ok, st) \<Rightarrow>
                 if ok then (True, st\<lparr>wc_runtime_chunk_count := length assets, wc_runtime_ready := True\<rparr>)
                 else (False, st))"

definition mc_world_compressed_ready :: "mc_config \<Rightarrow> world_compressed \<Rightarrow> bool" where
  "mc_world_compressed_ready cfg st \<longleftrightarrow> cfg_psram_map cfg \<and> wc_runtime_ready st"

definition mc_world_compressed_chunk_count :: "mc_config \<Rightarrow> world_compressed \<Rightarrow> nat" where
  "mc_world_compressed_chunk_count cfg st = (if cfg_psram_map cfg then wc_runtime_chunk_count st else 0)"

definition mc_world_compressed_chunk :: "mc_config \<Rightarrow> world_compressed \<Rightarrow> nat \<Rightarrow> compressed_chunk option" where
  "mc_world_compressed_chunk cfg st index =
     (if \<not> cfg_psram_map cfg then None
      else if \<not> wc_runtime_ready st \<or> wc_runtime_chunk_count st \<le> index then None
      else Some (wc_runtime_chunks st ! index))"

definition mc_world_queue_compressed_spawn_chunk ::
    "mc_config \<Rightarrow> world_compressed \<Rightarrow> nat \<Rightarrow> mc_ringbuf \<Rightarrow> bool \<times> mc_ringbuf" where
  "mc_world_queue_compressed_spawn_chunk cfg st index tx =
     (case mc_world_compressed_chunk cfg st index of
        None \<Rightarrow> (False, tx)
      | Some chunk \<Rightarrow>
          if \<not> compressed_chunk_frame_valid (wc_raw_body_len chunk) (wc_compressed_len chunk) then (False, tx)
          else case mc_varint_encode (wc_raw_body_len chunk) (replicate 5 0) 5 of
            (data_len_len, data_len_varint) \<Rightarrow>
              if data_len_len = 0 \<or> INT32_MAX - data_len_len < unat (wc_compressed_len chunk) then (False, tx)
              else let inner_len = data_len_len + unat (wc_compressed_len chunk) in
                case mc_varint_encode (of_nat inner_len) (replicate 5 0) 5 of
                  (prefix_len, prefix) \<Rightarrow>
                    if prefix_len = 0 \<or> mc_ringbuf_free tx < prefix_len + inner_len then (False, tx)
                    else c_all [ring_write_all (take prefix_len prefix),
                                ring_write_all (take data_len_len data_len_varint),
                                ring_write_all (take (unat (wc_compressed_len chunk))
                                  (drop (wc_compressed chunk) (wc_arena st)))] tx)"

section \<open>The arena after a successful start\<close>

text \<open>What the build guarantees of a generated asset: its length field does not exceed its data.\<close>

definition asset_ok :: "mc_world_compressed_asset \<Rightarrow> bool" where
  "asset_ok a \<longleftrightarrow> (\<forall>src. as_compressed a = Some src \<longrightarrow> unat (as_compressed_len a) \<le> length src)"

definition asset_bytes :: "mc_world_compressed_asset \<Rightarrow> byte list" where
  "asset_bytes a = (case as_compressed a of None \<Rightarrow> [] | Some src \<Rightarrow> take (unat (as_compressed_len a)) src)"

text \<open>The runtime entry of an asset: its metadata, and its bytes at its place in the arena.\<close>

definition chunk_matches :: "byte list \<Rightarrow> mc_world_compressed_asset \<Rightarrow> compressed_chunk \<Rightarrow> bool" where
  "chunk_matches arena a c \<longleftrightarrow>
     wc_chunk_x c = as_chunk_x a \<and> wc_chunk_z c = as_chunk_z a \<and> wc_raw_body_len c = as_raw_body_len a \<and>
     wc_compressed_len c = as_compressed_len a \<and>
     compressed_chunk_frame_valid (as_raw_body_len a) (as_compressed_len a) \<and>
     wc_compressed c + unat (as_compressed_len a) \<le> length arena \<and>
     take (unat (as_compressed_len a)) (drop (wc_compressed c) arena) = asset_bytes a \<and>
     length (asset_bytes a) = unat (as_compressed_len a)"

lemma memcpy_at_keeps_below:
  assumes "i + n \<le> pos" "pos + length src \<le> length arena"
  shows "take n (drop i (memcpy_at arena pos src)) = take n (drop i arena)"
proof -
  have "take n (drop i (memcpy_at arena pos src)) = take n (drop i (take pos arena))"
    using assms by (simp add: memcpy_at_def)
  also have "\<dots> = take n (drop i arena)" using assms by (simp add: drop_take min_def)
  finally show ?thesis .
qed

lemma chunk_matches_memcpy:
  assumes "chunk_matches arena a c" "wc_compressed c + unat (as_compressed_len a) \<le> pos"
    "pos + length src \<le> length arena"
  shows "chunk_matches (memcpy_at arena pos src) a c"
  using assms memcpy_at_keeps_below [of "wc_compressed c" "unat (as_compressed_len a)" pos src arena]
  by (simp add: chunk_matches_def length_memcpy_at)

lemma take_drop_memcpy:
  "pos + length src \<le> length arena \<Longrightarrow> take (length src) (drop pos (memcpy_at arena pos src)) = src"
  by (simp add: memcpy_at_def)

lemma compressed_init_loop_ok:
  assumes "compressed_init_loop assets i pos arena_len st = (True, st')"
    and "list_all asset_ok assets" "arena_len \<le> length (wc_arena st)"
    and "i + length assets \<le> length (wc_runtime_chunks st)" "i = length prev"
    and "\<forall>j < i. chunk_matches (wc_arena st) (prev ! j) (wc_runtime_chunks st ! j) \<and>
          wc_compressed (wc_runtime_chunks st ! j) + unat (as_compressed_len (prev ! j)) \<le> pos"
  shows "length (wc_arena st') = length (wc_arena st) \<and> length (wc_runtime_chunks st') = length (wc_runtime_chunks st) \<and>
    (\<forall>j < i + length assets. chunk_matches (wc_arena st') ((prev @ assets) ! j) (wc_runtime_chunks st' ! j))"
  using assms
proof (induction assets arbitrary: i pos st prev)
  case Nil
  then show ?case by simp
next
  case (Cons a assets)
  from Cons.prems(1) obtain src where src: "as_compressed a = Some src"
    by (cases "as_compressed a") simp_all
  let ?n = "unat (as_compressed_len a)" and ?bs = "take (unat (as_compressed_len a)) src"
  let ?st = "st\<lparr>wc_arena := memcpy_at (wc_arena st) pos ?bs,
      wc_runtime_chunks := (wc_runtime_chunks st)[i := \<lparr>wc_chunk_x = as_chunk_x a, wc_chunk_z = as_chunk_z a,
        wc_raw_body_len = as_raw_body_len a, wc_compressed_len = as_compressed_len a, wc_compressed = pos\<rparr>]\<rparr>"
  from Cons.prems(1) src have valid: "compressed_chunk_frame_valid (as_raw_body_len a) (as_compressed_len a)"
    and fit: "pos + ?n \<le> arena_len" and rec: "compressed_init_loop assets (i + 1) (pos + ?n) arena_len ?st = (True, st')"
    by (auto split: if_splits)
  have len: "length ?bs = ?n" using Cons.prems(2) src by (simp add: asset_ok_def)
  have fit': "pos + length ?bs \<le> length (wc_arena st)" using fit len Cons.prems(3) by simp
  have al: "length (memcpy_at (wc_arena st) pos ?bs) = length (wc_arena st)" by (rule length_memcpy_at [OF fit'])
  have new: "chunk_matches (wc_arena ?st) a (wc_runtime_chunks ?st ! i)"
    using valid fit' len al take_drop_memcpy [OF fit'] src Cons.prems(4)
    by (simp add: chunk_matches_def asset_bytes_def)
  have old: "chunk_matches (wc_arena ?st) (prev ! j) (wc_runtime_chunks ?st ! j) \<and>
      wc_compressed (wc_runtime_chunks ?st ! j) + unat (as_compressed_len (prev ! j)) \<le> pos" if "j < i" for j
    using Cons.prems(6) that chunk_matches_memcpy [OF _ _ fit'] by simp
  have "\<forall>j < i + 1. chunk_matches (wc_arena ?st) ((prev @ [a]) ! j) (wc_runtime_chunks ?st ! j) \<and>
      wc_compressed (wc_runtime_chunks ?st ! j) + unat (as_compressed_len ((prev @ [a]) ! j)) \<le> pos + ?n"
    using old new Cons.prems(4,5) by (auto simp: less_Suc_eq nth_append intro: trans_le_add1)
  from Cons.IH [OF rec _ _ _ _ this] show ?case
    using Cons.prems(2-5) al by simp
qed

lemma compressed_valid_frame:
  assumes "compressed_chunk_frame_valid raw n"
  shows "raw \<noteq> 0" "unat raw \<le> MC_MAX_PACKET_BODY" "length (varint_bytes raw) + unat n \<le> MC_MAX_PACKET_BODY" "n \<noteq> 0"
  using assms by (auto simp: compressed_chunk_frame_valid_def Let_def split: if_splits)

lemma enqueues_compressed_chunk:
  assumes "mc_world_compressed_chunk cfg st index = Some c" "chunk_matches (wc_arena st) a c"
  shows "enqueues (mc_world_queue_compressed_spawn_chunk cfg st index)
    (packet_frame (varint_bytes (as_raw_body_len a) @ asset_bytes a))"
proof -
  let ?d = "varint_bytes (as_raw_body_len a)"
  let ?v = "varint_bytes (of_nat (length ?d + unat (as_compressed_len a)))"
  have m: "wc_raw_body_len c = as_raw_body_len a" "wc_compressed_len c = as_compressed_len a"
    "compressed_chunk_frame_valid (as_raw_body_len a) (as_compressed_len a)"
    "take (unat (as_compressed_len a)) (drop (wc_compressed c) (wc_arena st)) = asset_bytes a"
    "length (asset_bytes a) = unat (as_compressed_len a)"
    using assms(2) by (simp_all add: chunk_matches_def)
  have l: "?d \<noteq> []" "?v \<noteq> []" using length_varint_bytes by blast+
  have "enqueues (mc_world_queue_compressed_spawn_chunk cfg st index) (concat [?v, ?d, asset_bytes a])"
    using compressed_valid_frame [OF m(3)] l m
    by (intro enqueues_parts)
      (auto simp: mc_world_queue_compressed_spawn_chunk_def assms(1) Let_def case_prod_unfold simp del: c_all.simps of_nat_add)
  then show ?thesis by (simp add: packet_frame_def m(5))
qed

text \<open>The map is loaded with these assets.\<close>

definition map_loaded :: "world_compressed \<Rightarrow> mc_world_compressed_asset list \<Rightarrow> bool" where
  "map_loaded st assets \<longleftrightarrow> wc_runtime_ready st \<and> wc_runtime_chunk_count st = length assets \<and>
     length assets \<le> MC_WORLD_COMPRESSED_MAX_CHUNKS \<and>
     (\<forall>i < length assets. chunk_matches (wc_arena st) (assets ! i) (wc_runtime_chunks st ! i))"

definition asset_frame :: "mc_world_compressed_asset \<Rightarrow> byte list" where
  "asset_frame a = packet_frame (varint_bytes (as_raw_body_len a) @ asset_bytes a)"

lemma init_map_loaded:
  assumes "mc_world_compressed_init cfg assets total_bytes arena_len st = (True, st')"
    and "list_all asset_ok assets" "arena_len \<le> length (wc_arena st)"
    and "length (wc_runtime_chunks st) = MC_WORLD_COMPRESSED_MAX_CHUNKS"
  shows "cfg_psram_map cfg" "map_loaded st' assets"
proof -
  let ?s = "st\<lparr>wc_runtime_ready := False, wc_runtime_chunk_count := 0\<rparr>"
  obtain st1 where cfg: "cfg_psram_map cfg" and le: "length assets \<le> MC_WORLD_COMPRESSED_MAX_CHUNKS"
    and loop: "compressed_init_loop assets 0 0 arena_len ?s = (True, st1)"
    and st': "st' = st1\<lparr>wc_runtime_chunk_count := length assets, wc_runtime_ready := True\<rparr>"
    using assms(1) by (auto simp: mc_world_compressed_init_def Let_def split: if_splits prod.splits)
  show "cfg_psram_map cfg" by (fact cfg)
  show "map_loaded st' assets"
    using compressed_init_loop_ok [OF loop assms(2), of "[]"] assms(3,4) le st' by (simp add: map_loaded_def)
qed

text \<open>The table of chunks keeps its size, whether or not the call succeeds.\<close>

lemma compressed_init_loop_length:
  "compressed_init_loop assets i pos arena_len st = (ok, st') \<Longrightarrow>
     length (wc_runtime_chunks st') = length (wc_runtime_chunks st)"
  by (induction assets i pos arena_len st rule: compressed_init_loop.induct) (auto split: option.splits if_splits)

lemma init_chunks_length:
  "mc_world_compressed_init cfg assets total_bytes arena_len st = (ok, st') \<Longrightarrow>
     length (wc_runtime_chunks st') = length (wc_runtime_chunks st)"
  by (auto simp: mc_world_compressed_init_def Let_def dest: compressed_init_loop_length split: if_splits prod.splits)

lemma enqueues_asset:
  assumes "cfg_psram_map cfg" "map_loaded st assets" "i < length assets"
  shows "enqueues (mc_world_queue_compressed_spawn_chunk cfg st i) (asset_frame (assets ! i))"
    "length (varint_bytes (as_raw_body_len (assets ! i)) @ asset_bytes (assets ! i)) \<le> MC_MAX_PACKET_BODY"
proof -
  have m: "chunk_matches (wc_arena st) (assets ! i) (wc_runtime_chunks st ! i)" using assms(2,3) by (simp add: map_loaded_def)
  have "mc_world_compressed_chunk cfg st i = Some (wc_runtime_chunks st ! i)"
    using assms by (simp add: mc_world_compressed_chunk_def map_loaded_def)
  from enqueues_compressed_chunk [OF this m]
  show "enqueues (mc_world_queue_compressed_spawn_chunk cfg st i) (asset_frame (assets ! i))" by (simp add: asset_frame_def)
  show "length (varint_bytes (as_raw_body_len (assets ! i)) @ asset_bytes (assets ! i)) \<le> MC_MAX_PACKET_BODY"
    using m compressed_valid_frame(3) by (simp add: chunk_matches_def)
qed

section \<open>Properties\<close>

text \<open>C33: once the compressed map has been initialised, every asset of the table can be sent: for each
  index the call queues, all or nothing, one frame that holds the asset's uncompressed length and exactly
  its compressed bytes, although they were copied one after the other into the shared arena; a client that
  reads the frame gets back the length and the bytes.\<close>

theorem compressed_map_sends_assets:
  assumes "mc_world_compressed_init cfg assets total_bytes arena_len st = (True, st')"
    and "list_all asset_ok assets" "arena_len \<le> length (wc_arena st)"
    and "length (wc_runtime_chunks st) = MC_WORLD_COMPRESSED_MAX_CHUNKS" "index < length assets"
  shows "enqueues (mc_world_queue_compressed_spawn_chunk cfg st' index)
      (packet_frame (varint_bytes (as_raw_body_len (assets ! index)) @ asset_bytes (assets ! index))) \<and>
    (\<exists>p. mc_packet_try_read (packet_frame (varint_bytes (as_raw_body_len (assets ! index)) @ asset_bytes (assets ! index)) @ rest) = Some p \<and>
      mc_packet_get_compressed_body (pk_body p) = Some (asset_bytes (assets ! index), as_raw_body_len (assets ! index)))"
proof -
  let ?a = "assets ! index"
  note loaded = init_map_loaded [OF assms(1-4)]
  note frame = enqueues_asset [OF loaded assms(5)]
  have "compressed_chunk_frame_valid (as_raw_body_len ?a) (as_compressed_len ?a)"
    using loaded(2) assms(5) by (simp add: map_loaded_def chunk_matches_def)
  from compressed_valid_frame(1,2) [OF this] have "data_len_ok (as_raw_body_len ?a)" by (rule data_len_okI)
  from get_compressed_body_payload [OF this] mc_packet_try_read_frame [OF frame(2), of rest] frame(1)
  show ?thesis by (simp add: asset_frame_def)
qed

theorem compressed_map_sends_assets_witness:
  "let a = \<lparr>as_chunk_x = 0, as_chunk_z = 0, as_raw_body_len = 9, as_compressed_len = 2, as_compressed = Some [120, 156]\<rparr>;
       c = \<lparr>wc_chunk_x = 0, wc_chunk_z = 0, wc_raw_body_len = 0, wc_compressed_len = 0, wc_compressed = 0\<rparr>;
       cfg = \<lparr>cfg_compression = True, cfg_psram_map = True, cfg_threshold = 1, cfg_keepalive_interval = 1\<rparr>;
       st = \<lparr>wc_arena = [0, 0, 0], wc_runtime_chunks = replicate 32 c, wc_runtime_chunk_count = 0, wc_runtime_ready = False\<rparr>
   in \<exists>st'. mc_world_compressed_init cfg [a] 2 3 st = (True, st') \<and>
     enqueues (mc_world_queue_compressed_spawn_chunk cfg st' 0) (packet_frame (varint_bytes 9 @ [120, 156]))"
proof -
  let ?a = "\<lparr>as_chunk_x = 0, as_chunk_z = 0, as_raw_body_len = 9, as_compressed_len = 2, as_compressed = Some [120, 156]\<rparr>"
  let ?c = "\<lparr>wc_chunk_x = 0, wc_chunk_z = 0, wc_raw_body_len = 0, wc_compressed_len = 0, wc_compressed = 0\<rparr>"
  let ?cfg = "\<lparr>cfg_compression = True, cfg_psram_map = True, cfg_threshold = 1, cfg_keepalive_interval = 1\<rparr>"
  let ?st = "\<lparr>wc_arena = [0, 0, 0], wc_runtime_chunks = replicate 32 ?c, wc_runtime_chunk_count = 0, wc_runtime_ready = False\<rparr>"
  have v: "length (varint_bytes (9 :: i32)) = 1" "length (varint_bytes (3 :: i32)) = 1"
    by (simp_all add: varint_bytes_def leb128.simps)
  have "compressed_chunk_frame_valid 9 2"
    using v by (auto simp: compressed_chunk_frame_valid_def Let_def)
  then obtain st' where i: "mc_world_compressed_init ?cfg [?a] 2 3 ?st = (True, st')"
    by (simp add: mc_world_compressed_init_def)
  have "enqueues (mc_world_queue_compressed_spawn_chunk ?cfg st' 0) (packet_frame (varint_bytes 9 @ [120, 156]))"
    using compressed_map_sends_assets [OF i, of 0 "[]"] by (simp add: asset_ok_def asset_bytes_def)
  with i show ?thesis by (simp add: Let_def)
qed

end
