(* ===== verification/ServerPackets.thy ===== *)
theory ServerPackets
  imports ChatJson ServerQueue World WorldCompressed
begin

text \<open>
  The state of the Minecraft server and the packets it sends, of core/src/mc_server.c: each builder with the
  body it produces, the batch that queues several packets or none, and the execution of a chat command.
\<close>

section \<open>State\<close>

datatype mc_conn_state = MC_CONN_HANDSHAKE | MC_CONN_STATUS | MC_CONN_LOGIN | MC_CONN_PLAY

datatype mc_trace_event_type =
    MC_TRACE_FRAME_READY | MC_TRACE_HANDSHAKE | MC_TRACE_STATUS_REQUEST | MC_TRACE_STATUS_PING
  | MC_TRACE_LOGIN_START | MC_TRACE_PLAY_ENTER | MC_TRACE_BOOTSTRAP_STAGE | MC_TRACE_BOOTSTRAP_DONE
  | MC_TRACE_QUEUE_FULL | MC_TRACE_KEEPALIVE_SEND | MC_TRACE_KEEPALIVE_ACK | MC_TRACE_PLAY_UNHANDLED

record mc_trace_event =
  te_type :: mc_trace_event_type
  te_value0 :: i32
  te_value1 :: i32
  te_text :: "byte list option"
  te_text_len :: nat

text \<open>
  \<open>rx_accum\<close> holds the first \<open>rx_accum_len\<close> bytes of the array, \<open>username\<close> the C string in its array. The
  flags of type \<open>uint8_t\<close> and \<open>int\<close> are only ever 0 or 1. The trace sink is a callback of the embedding
  program: \<open>trace\<close> is \<open>None\<close> without a sink and otherwise the events it was called with, oldest first.
\<close>

record mc_server =
  sv_state :: mc_conn_state
  sv_compression_enabled :: bool
  sv_compression_threshold :: i32
  sv_username :: "byte list"
  sv_ticks :: u32
  sv_last_keepalive_tick :: u32
  sv_keepalive_id :: i32
  sv_keepalive_pending :: bool
  sv_player_x :: f64_bits
  sv_player_y :: f64_bits
  sv_player_z :: f64_bits
  sv_player_yaw :: f32_bits
  sv_player_pitch :: f32_bits
  sv_player_on_ground :: bool
  sv_world_time :: i32
  sv_weather :: mc_weather
  sv_play_bootstrap_sent :: bool
  sv_rx_accum :: "byte list"
  sv_play_bootstrap_stage :: byte
  sv_play_bootstrap_chunk_index :: byte
  sv_tx_reset_requested :: bool
  sv_trace :: "mc_trace_event list option"

abbreviation SIZE_MAX :: nat where "SIZE_MAX \<equiv> 2 ^ 32 - 1"

section \<open>Queueing\<close>

definition queue_packet_auto :: "mc_config \<Rightarrow> mc_server \<Rightarrow> byte list \<Rightarrow> mc_ringbuf \<Rightarrow> bool \<times> mc_ringbuf" where
  "queue_packet_auto cfg server body tx =
     (if cfg_compression cfg \<and> sv_compression_enabled server then queue_packet_compressed_plain body tx
      else mc_server_queue_packet body tx)"

definition packet_auto_frame_len :: "mc_config \<Rightarrow> mc_server \<Rightarrow> nat \<Rightarrow> nat" where
  "packet_auto_frame_len cfg server body_len =
     (if cfg_compression cfg \<and> sv_compression_enabled server then mc_packet_compressed_plain_frame_len body_len
      else mc_packet_frame_len body_len)"

definition add_packet_auto_frame_len :: "mc_config \<Rightarrow> mc_server \<Rightarrow> nat \<Rightarrow> nat \<Rightarrow> nat option" where
  "add_packet_auto_frame_len cfg server body_len needed =
     (let frame_len = packet_auto_frame_len cfg server body_len in
      if frame_len = 0 \<or> SIZE_MAX - needed < frame_len then None else Some (needed + frame_len))"

record tx_checkpoint =
  cp_head :: nat
  cp_tail :: nat
  cp_len :: nat

definition tx_checkpoint_save :: "mc_ringbuf \<Rightarrow> tx_checkpoint" where
  "tx_checkpoint_save tx = \<lparr>cp_head = rb_head tx, cp_tail = rb_tail tx, cp_len = rb_len tx\<rparr>"

definition tx_checkpoint_restore :: "mc_ringbuf \<Rightarrow> tx_checkpoint \<Rightarrow> mc_ringbuf" where
  "tx_checkpoint_restore tx checkpoint =
     tx\<lparr>rb_head := cp_head checkpoint, rb_tail := cp_tail checkpoint, rb_len := cp_len checkpoint\<rparr>"

text \<open>The two loops of \<open>queue_packet_batch\<close>: adding up the frame lengths, and queueing.\<close>

fun batch_needed :: "mc_config \<Rightarrow> mc_server \<Rightarrow> byte list list \<Rightarrow> nat \<Rightarrow> nat option" where
  "batch_needed cfg server [] needed = Some needed"
| "batch_needed cfg server (body # packets) needed =
     (case add_packet_auto_frame_len cfg server (length body) needed of
        None \<Rightarrow> None
      | Some needed \<Rightarrow> batch_needed cfg server packets needed)"

fun batch_queue :: "mc_config \<Rightarrow> mc_server \<Rightarrow> tx_checkpoint \<Rightarrow> byte list list \<Rightarrow> mc_ringbuf \<Rightarrow> bool \<times> mc_ringbuf" where
  "batch_queue cfg server checkpoint [] tx = (True, tx)"
| "batch_queue cfg server checkpoint (body # packets) tx =
     (case queue_packet_auto cfg server body tx of
        (ok, tx) \<Rightarrow>
          if \<not> ok then (False, tx_checkpoint_restore tx checkpoint)
          else batch_queue cfg server checkpoint packets tx)"

definition queue_packet_batch :: "mc_config \<Rightarrow> mc_server \<Rightarrow> byte list list \<Rightarrow> mc_ringbuf \<Rightarrow> bool \<times> mc_ringbuf" where
  "queue_packet_batch cfg server packets tx =
     (case batch_needed cfg server packets 0 of
        None \<Rightarrow> (False, tx)
      | Some needed \<Rightarrow>
          if mc_ringbuf_free tx < needed then (False, tx)
          else batch_queue cfg server (tx_checkpoint_save tx) packets tx)"

section \<open>The packets\<close>

text \<open>Building a body in a local array and queueing it: \<open>build && queue\<close>.\<close>

definition and_queue ::
    "byte list option \<Rightarrow> (byte list \<Rightarrow> mc_ringbuf \<Rightarrow> bool \<times> mc_ringbuf) \<Rightarrow> mc_ringbuf \<Rightarrow> bool \<times> mc_ringbuf" where
  "and_queue built queue tx = (case built of None \<Rightarrow> (False, tx) | Some body \<Rightarrow> queue body tx)"

definition status_json :: "byte list" where
  "status_json = str_bytes
     ''{\"version\":{\"name\":\"1.8.x\",\"protocol\":47},\"players\":{\"max\":1,\"online\":0},\"description\":{\"text\":\"MC UART\"}}''"

definition queue_status_response :: "mc_ringbuf \<Rightarrow> bool \<times> mc_ringbuf" where
  "queue_status_response =
     and_queue (build_body 512 [mc_write_varint 0x00, mc_write_string status_json]) mc_server_queue_packet"

text \<open>\<open>payload\<close> points to at least eight bytes.\<close>

definition queue_pong :: "byte list \<Rightarrow> mc_ringbuf \<Rightarrow> bool \<times> mc_ringbuf" where
  "queue_pong payload =
     and_queue (build_body 16 [mc_write_varint 0x01, mc_write_bytes (take 8 payload)]) mc_server_queue_packet"

definition login_uuid :: "byte list" where
  "login_uuid = str_bytes ''00000000-0000-0000-0000-000000000001''"

definition build_login_success_body :: "nat \<Rightarrow> byte list \<Rightarrow> byte list option" where
  "build_login_success_body body_cap username =
     build_body body_cap [mc_write_varint 0x02, mc_write_string login_uuid, mc_write_string username]"

definition queue_login_success :: "byte list \<Rightarrow> mc_ringbuf \<Rightarrow> bool \<times> mc_ringbuf" where
  "queue_login_success username = and_queue (build_login_success_body 128 username) mc_server_queue_packet"

definition build_set_compression :: "nat \<Rightarrow> i32 \<Rightarrow> byte list option" where
  "build_set_compression body_cap threshold = build_body body_cap [mc_write_varint 0x03, mc_write_varint threshold]"

definition queue_join_game :: "mc_config \<Rightarrow> mc_server \<Rightarrow> mc_ringbuf \<Rightarrow> bool \<times> mc_ringbuf" where
  "queue_join_game cfg server =
     and_queue (build_body 128
       [mc_write_varint 0x01, mc_write_i32 1, mc_write_u8 1, mc_write_i8 0, mc_write_u8 0, mc_write_u8 1,
        mc_write_string (str_bytes ''flat''), mc_write_bool False]) (queue_packet_auto cfg server)"

definition queue_spawn_position :: "mc_config \<Rightarrow> mc_server \<Rightarrow> mc_ringbuf \<Rightarrow> bool \<times> mc_ringbuf" where
  "queue_spawn_position cfg server =
     and_queue (build_body 32 [mc_write_varint 0x05, mc_write_i64 0]) (queue_packet_auto cfg server)"

text \<open>\<open>mc_write_i64\<close> takes an \<open>int64_t\<close>: the \<open>int32_t\<close> argument is sign-extended.\<close>

definition build_time_body :: "nat \<Rightarrow> i32 \<Rightarrow> byte list option" where
  "build_time_body body_cap time_of_day =
     build_body body_cap [mc_write_varint 0x03, mc_write_i64 0, mc_write_i64 (scast time_of_day)]"

definition queue_time_value :: "mc_config \<Rightarrow> mc_server \<Rightarrow> i32 \<Rightarrow> mc_ringbuf \<Rightarrow> bool \<times> mc_ringbuf" where
  "queue_time_value cfg server time_of_day = and_queue (build_time_body 32 time_of_day) (queue_packet_auto cfg server)"

definition queue_time :: "mc_config \<Rightarrow> mc_server \<Rightarrow> mc_ringbuf \<Rightarrow> bool \<times> mc_ringbuf" where
  "queue_time cfg server = queue_time_value cfg server (sv_world_time server)"

text \<open>20.0f, 5.0f, 0.05f, 0.10f and 1.0f by their IEEE bits.\<close>

definition queue_health :: "mc_config \<Rightarrow> mc_server \<Rightarrow> mc_ringbuf \<Rightarrow> bool \<times> mc_ringbuf" where
  "queue_health cfg server =
     and_queue (build_body 32
       [mc_write_varint 0x06, mc_write_f32 0x41A00000, mc_write_varint 20, mc_write_f32 0x40A00000])
       (queue_packet_auto cfg server)"

definition queue_abilities :: "mc_config \<Rightarrow> mc_server \<Rightarrow> mc_ringbuf \<Rightarrow> bool \<times> mc_ringbuf" where
  "queue_abilities cfg server =
     and_queue (build_body 32
       [mc_write_varint 0x39, mc_write_u8 0x0f, mc_write_f32 0x3D4CCCCD, mc_write_f32 0x3DCCCCCD])
       (queue_packet_auto cfg server)"

definition build_position_body ::
    "nat \<Rightarrow> f64_bits \<Rightarrow> f64_bits \<Rightarrow> f64_bits \<Rightarrow> f32_bits \<Rightarrow> f32_bits \<Rightarrow> byte list option" where
  "build_position_body body_cap x y z yaw pitch =
     build_body body_cap [mc_write_varint 0x08, mc_write_f64 x, mc_write_f64 y, mc_write_f64 z,
       mc_write_f32 yaw, mc_write_f32 pitch, mc_write_i8 0]"

definition queue_position_at ::
    "mc_config \<Rightarrow> mc_server \<Rightarrow> f64_bits \<Rightarrow> f64_bits \<Rightarrow> f64_bits \<Rightarrow> f32_bits \<Rightarrow> f32_bits \<Rightarrow> mc_ringbuf \<Rightarrow> bool \<times> mc_ringbuf" where
  "queue_position_at cfg server x y z yaw pitch =
     and_queue (build_position_body 64 x y z yaw pitch) (queue_packet_auto cfg server)"

definition queue_position :: "mc_config \<Rightarrow> mc_server \<Rightarrow> mc_ringbuf \<Rightarrow> bool \<times> mc_ringbuf" where
  "queue_position cfg server =
     queue_position_at cfg server (sv_player_x server) (sv_player_y server) (sv_player_z server)
       (sv_player_yaw server) (sv_player_pitch server)"

definition build_game_state_body :: "nat \<Rightarrow> byte \<Rightarrow> f32_bits \<Rightarrow> byte list option" where
  "build_game_state_body body_cap reason v =
     build_body body_cap [mc_write_varint 0x2b, mc_write_u8 reason, mc_write_f32 v]"

text \<open>The reasons with their values; every weather is one of the three cases of the \<open>switch\<close>.\<close>

fun weather_game_state_values :: "mc_weather \<Rightarrow> (byte \<times> f32_bits) list" where
  "weather_game_state_values MC_WEATHER_CLEAR = [(1, 0), (7, 0), (8, 0)]"
| "weather_game_state_values MC_WEATHER_RAIN = [(2, 0), (7, 0x3F800000), (8, 0)]"
| "weather_game_state_values MC_WEATHER_THUNDER = [(2, 0), (7, 0x3F800000), (8, 0x3F800000)]"

text \<open>The loop over the packets: the first builder that fails ends it.\<close>

fun all_built :: "byte list option list \<Rightarrow> byte list list option" where
  "all_built [] = Some []"
| "all_built (None # bodies) = None"
| "all_built (Some body # bodies) = map_option (Cons body) (all_built bodies)"

definition build_weather_bodies :: "mc_weather \<Rightarrow> byte list list option" where
  "build_weather_bodies weather =
     all_built (map (\<lambda>(reason, v). build_game_state_body 16 reason v) (weather_game_state_values weather))"

definition queue_keepalive :: "mc_config \<Rightarrow> mc_server \<Rightarrow> i32 \<Rightarrow> mc_ringbuf \<Rightarrow> bool \<times> mc_ringbuf" where
  "queue_keepalive cfg server keepalive_id =
     and_queue (build_body 16 [mc_write_varint 0x00, mc_write_varint keepalive_id]) (queue_packet_auto cfg server)"

section \<open>Commands\<close>

definition build_command_context :: "mc_server \<Rightarrow> mc_command_context" where
  "build_command_context server =
     \<lparr>cc_position = \<lparr>cp_x = sv_player_x server, cp_y = sv_player_y server, cp_z = sv_player_z server,
        cp_yaw = sv_player_yaw server, cp_pitch = sv_player_pitch server\<rparr>,
      cc_time_of_day = sv_world_time server, cc_weather = sv_weather server\<rparr>"

definition execute_command_result ::
    "mc_config \<Rightarrow> mc_command_result \<Rightarrow> mc_server \<Rightarrow> mc_ringbuf \<Rightarrow> bool \<times> mc_server \<times> mc_ringbuf" where
  "execute_command_result cfg result server tx =
     (case build_chat_body (MC_COMMAND_TEXT_CAP * 6 + 32) (c_str (rs_chat result)) of
        None \<Rightarrow> (False, server, tx)
      | Some chat_body \<Rightarrow>
          (case rs_action result of
             MC_COMMAND_RESULT_CHAT \<Rightarrow>
               (case queue_packet_batch cfg server [chat_body] tx of (ok, tx) \<Rightarrow> (ok, server, tx))
           | MC_COMMAND_RESULT_TELEPORT p \<Rightarrow>
               (case build_position_body 64 (cp_x p) (cp_y p) (cp_z p) (cp_yaw p) (cp_pitch p) of
                  None \<Rightarrow> (False, server, tx)
                | Some action_body \<Rightarrow>
                    (case queue_packet_batch cfg server [action_body, chat_body] tx of
                       (ok, tx) \<Rightarrow>
                         if \<not> ok then (False, server, tx)
                         else (True, server\<lparr>sv_player_x := cp_x p, sv_player_y := cp_y p, sv_player_z := cp_z p,
                                sv_player_yaw := cp_yaw p, sv_player_pitch := cp_pitch p\<rparr>, tx)))
           | MC_COMMAND_RESULT_TIME t \<Rightarrow>
               (case build_time_body 64 t of
                  None \<Rightarrow> (False, server, tx)
                | Some action_body \<Rightarrow>
                    (case queue_packet_batch cfg server [action_body, chat_body] tx of
                       (ok, tx) \<Rightarrow>
                         if \<not> ok then (False, server, tx) else (True, server\<lparr>sv_world_time := t\<rparr>, tx)))
           | MC_COMMAND_RESULT_WEATHER w \<Rightarrow>
               (case build_weather_bodies w of
                  None \<Rightarrow> (False, server, tx)
                | Some weather_bodies \<Rightarrow>
                    (case queue_packet_batch cfg server (weather_bodies @ [chat_body]) tx of
                       (ok, tx) \<Rightarrow>
                         if \<not> ok then (False, server, tx) else (True, server\<lparr>sv_weather := w\<rparr>, tx)))))"

text \<open>The chunks of a build with compression but without the PSRAM map.\<close>

definition server_spawn_chunks :: "(i32 \<times> i32) list" where
  "server_spawn_chunks = [(0, 0), (1, 0), (-1, 0), (0, 1), (0, -1), (1, 1), (-1, -1), (1, -1), (-1, 1)]"

definition server_chunk_body :: "byte list" where
  "server_chunk_body = replicate (MC_CHUNK_SECTION_BYTES + 32) 0"

definition queue_spawn_chunk_auto :: "mc_config \<Rightarrow> mc_server \<Rightarrow> nat \<Rightarrow> mc_ringbuf \<Rightarrow> bool \<times> mc_ringbuf" where
  "queue_spawn_chunk_auto cfg server index tx =
     (if \<not> sv_compression_enabled server then mc_world_queue_spawn_chunk cfg index tx
      else if length server_spawn_chunks \<le> index \<or> mc_world_spawn_chunk_count \<le> index then (False, tx)
      else case server_spawn_chunks ! index of (cx, cz) \<Rightarrow>
        (case mc_world_build_chunk_body cfg cx cz server_chunk_body (length server_chunk_body) of
           (ok, body, body_len) \<Rightarrow>
             if \<not> ok then (False, tx) else queue_packet_auto cfg server (take body_len body) tx))"

section \<open>What is queued\<close>

text \<open>The frame of a body on this connection.\<close>

definition auto_frame :: "mc_config \<Rightarrow> mc_server \<Rightarrow> byte list \<Rightarrow> byte list" where
  "auto_frame cfg server body =
     packet_frame (if cfg_compression cfg \<and> sv_compression_enabled server then 0 # body else body)"

lemma enqueues_auto:
  "length body \<le> MC_MAX_PACKET_BODY \<Longrightarrow> enqueues (queue_packet_auto cfg server body) (auto_frame cfg server body)"
  using enqueues_packet [of body] enqueues_compressed_plain [of body]
  by (cases "cfg_compression cfg"; cases "sv_compression_enabled server")
    (simp_all add: queue_packet_auto_def [abs_def] auto_frame_def)

lemma queue_packet_auto_too_long:
  "MC_MAX_PACKET_BODY < length body \<Longrightarrow> queue_packet_auto cfg server body tx = (False, tx)"
  by (simp add: queue_packet_auto_def queue_compressed_too_long queue_packet_too_long)

lemma length_auto_frame: "length (auto_frame cfg server body) \<le> length body + 6" "0 < length (auto_frame cfg server body)"
proof -
  have "length (varint_bytes v) \<le> 5" "0 < length (varint_bytes v)" for v by (simp_all only: length_varint_bytes)
  from this(1) [of "of_nat (length body)"] this(1) [of "of_nat (Suc (length body))"]
    this(2) [of "of_nat (length body)"] this(2) [of "of_nat (Suc (length body))"]
  show "length (auto_frame cfg server body) \<le> length body + 6" "0 < length (auto_frame cfg server body)"
    by (simp_all add: auto_frame_def length_packet_frame del: of_nat_Suc)
qed

lemma packet_auto_frame_len_eq:
  "packet_auto_frame_len cfg server (length body) =
     (if length body \<le> MC_MAX_PACKET_BODY then length (auto_frame cfg server body) else 0)"
  by (simp add: packet_auto_frame_len_def mc_packet_compressed_plain_frame_len_eq mc_packet_frame_len_eq auto_frame_def
      length_packet_frame del: of_nat_Suc)

lemma batch_needed_eq:
  assumes "needed \<le> SIZE_MAX"
  shows "batch_needed cfg server packets needed =
    (if list_all (\<lambda>body. length body \<le> MC_MAX_PACKET_BODY) packets \<and>
        needed + length (concat (map (auto_frame cfg server) packets)) \<le> SIZE_MAX
     then Some (needed + length (concat (map (auto_frame cfg server) packets))) else None)"
  using assms
proof (induction packets arbitrary: needed)
  case (Cons body packets)
  show ?case
    using Cons.prems Cons.IH [of "needed + length (auto_frame cfg server body)"] length_auto_frame(2) [of cfg server body]
    by (auto simp: add_packet_auto_frame_len_def packet_auto_frame_len_eq Let_def split: if_splits)
qed simp

lemma batch_queue_fits:
  assumes "list_all (\<lambda>body. length body \<le> MC_MAX_PACKET_BODY) packets" "rb_ok tx"
    "length (rb_contents tx) + length (concat (map (auto_frame cfg server) packets)) \<le> rb_cap tx"
  shows "fst (batch_queue cfg server cp packets tx) \<and> rb_ok (snd (batch_queue cfg server cp packets tx)) \<and>
    rb_cap (snd (batch_queue cfg server cp packets tx)) = rb_cap tx \<and>
    rb_contents (snd (batch_queue cfg server cp packets tx)) =
      rb_contents tx @ concat (map (auto_frame cfg server) packets)"
  using assms
proof (induction packets arbitrary: tx)
  case (Cons body packets)
  from Cons.prems(1) have "enqueues (queue_packet_auto cfg server body) (auto_frame cfg server body)"
    by (simp add: enqueues_auto)
  then show ?case using Cons.prems(2)
  proof (cases rule: enqueues_cases)
    case (queued tx')
    with Cons.IH [of tx'] Cons.prems show ?thesis by (simp del: length_rb_contents)
  next
    case full
    with Cons.prems(3) show ?thesis by (simp del: length_rb_contents)
  qed
qed simp

lemma enqueues_batch:
  assumes "list_all (\<lambda>body. length body \<le> MC_MAX_PACKET_BODY) packets"
    "length (concat (map (auto_frame cfg server) packets)) \<le> SIZE_MAX"
  shows "enqueues (queue_packet_batch cfg server packets) (concat (map (auto_frame cfg server) packets))"
  unfolding enqueues_def
proof (intro allI impI)
  fix tx assume ok: "rb_ok tx"
  let ?bs = "concat (map (auto_frame cfg server) packets)"
  have "length (rb_contents tx) \<le> rb_cap tx" by (rule rb.bounded [OF ok])
  then have "queue_packet_batch cfg server packets tx =
      (if length (rb_contents tx) + length ?bs \<le> rb_cap tx then batch_queue cfg server (tx_checkpoint_save tx) packets tx
       else (False, tx))"
    using assms by (auto simp: queue_packet_batch_def batch_needed_eq rb_free_eq simp del: length_rb_contents)
  with batch_queue_fits [OF assms(1) ok, of cfg server "tx_checkpoint_save tx"]
  show "if length (rb_contents tx) + length ?bs \<le> rb_cap tx
      then fst (queue_packet_batch cfg server packets tx) \<and> rb_ok (snd (queue_packet_batch cfg server packets tx)) \<and>
        rb_cap (snd (queue_packet_batch cfg server packets tx)) = rb_cap tx \<and>
        rb_contents (snd (queue_packet_batch cfg server packets tx)) = rb_contents tx @ ?bs
      else queue_packet_batch cfg server packets tx = (False, tx)"
    by simp
qed

lemma batch_too_long:
  assumes "\<not> (list_all (\<lambda>body. length body \<le> MC_MAX_PACKET_BODY) packets \<and>
      length (concat (map (auto_frame cfg server) packets)) \<le> SIZE_MAX)"
  shows "queue_packet_batch cfg server packets tx = (False, tx)"
  using assms by (auto simp: queue_packet_batch_def batch_needed_eq)

text \<open>A builder and a queueing call.\<close>

lemma enqueues_built:
  assumes "writes (c_all calls) bs" "length bs \<le> cap" "enqueues (queue bs) frame"
  shows "enqueues (and_queue (build_body cap calls) queue) frame"
  using assms by (simp add: and_queue_def [abs_def] build_body_result)

lemma length_varint_small: "v < 128 \<Longrightarrow> length (varint_bytes v) = 1"
  by (simp add: varint_bytes_def leb128.simps word_less_nat_alt)

lemma length_mc_string: "length (mc_string str) \<le> length str + 5"
  using length_varint_bytes [of "of_nat (length str)"] by (simp add: mc_string_def)

section \<open>The bodies\<close>

definition status_packet :: "byte list" where
  "status_packet = varint_bytes 0x00 @ mc_string status_json"

definition login_packet :: "byte list \<Rightarrow> byte list" where
  "login_packet username = varint_bytes 0x02 @ mc_string login_uuid @ mc_string username"

definition join_packet :: "byte list" where
  "join_packet = varint_bytes 0x01 @ u32_be 1 @ [1] @ [0] @ [0] @ [1] @ mc_string (str_bytes ''flat'') @ [0]"

definition time_packet :: "i32 \<Rightarrow> byte list" where
  "time_packet t = varint_bytes 0x03 @ u64_be 0 @ u64_be (scast t)"

definition health_packet :: "byte list" where
  "health_packet = varint_bytes 0x06 @ u32_be 0x41A00000 @ varint_bytes 20 @ u32_be 0x40A00000"

definition abilities_packet :: "byte list" where
  "abilities_packet = varint_bytes 0x39 @ [0x0f] @ u32_be 0x3D4CCCCD @ u32_be 0x3DCCCCCD"

definition position_packet :: "mc_command_position \<Rightarrow> byte list" where
  "position_packet p = varint_bytes 0x08 @ u64_be (cp_x p) @ u64_be (cp_y p) @ u64_be (cp_z p) @
     u32_be (cp_yaw p) @ u32_be (cp_pitch p) @ [0]"

definition game_state_packet :: "byte \<times> f32_bits \<Rightarrow> byte list" where
  "game_state_packet rv = varint_bytes 0x2b @ [fst rv] @ u32_be (snd rv)"

definition keepalive_packet :: "i32 \<Rightarrow> byte list" where
  "keepalive_packet v = varint_bytes 0x00 @ varint_bytes v"

definition sv_position :: "mc_server \<Rightarrow> mc_command_position" where
  "sv_position server = \<lparr>cp_x = sv_player_x server, cp_y = sv_player_y server, cp_z = sv_player_z server,
     cp_yaw = sv_player_yaw server, cp_pitch = sv_player_pitch server\<rparr>"

lemma length_packets:
  "length status_packet = 108" "length username \<le> 16 \<Longrightarrow> length (login_packet username) \<le> 68"
  "length join_packet = 15" "length (time_packet t) = 17" "length health_packet = 10" "length abilities_packet = 10"
  "length (position_packet p) = 34" "length (game_state_packet rv) = 6" "length (keepalive_packet v) \<le> 6"
  using length_mc_string [of username] length_varint_bytes [of v]
  by (simp_all add: status_packet_def login_packet_def join_packet_def time_packet_def health_packet_def abilities_packet_def
      position_packet_def game_state_packet_def keepalive_packet_def length_varint_small mc_string_def status_json_def login_uuid_def
      varint_bytes_def leb128.simps)

text \<open>Each packet is queued whole or not at all.\<close>

lemma writes_i8_0: "writes (mc_write_bool False) [0]"
  using writes_bool [of False] by simp

lemma enqueues_status: "enqueues queue_status_response (packet_frame status_packet)"
proof -
  have "writes (c_all [mc_write_varint 0x00, mc_write_string status_json]) status_packet"
    unfolding status_packet_def by (intro wr.appends_then wr.appends_last sink_simps) (simp add: status_json_def)
  then show ?thesis unfolding queue_status_response_def
    by (rule enqueues_built) (simp_all add: length_packets enqueues_packet)
qed

lemma enqueues_pong:
  assumes "8 \<le> length payload"
  shows "enqueues (queue_pong payload) (packet_frame (varint_bytes 0x01 @ take 8 payload))"
proof -
  have "writes (c_all [mc_write_varint 0x01, mc_write_bytes (take 8 payload)]) (varint_bytes 0x01 @ take 8 payload)"
    by (intro wr.appends_then wr.appends_last sink_simps)
  then show ?thesis unfolding queue_pong_def
    by (rule enqueues_built) (simp_all add: length_varint_small enqueues_packet)
qed

lemma build_login_success: "length username \<le> 16 \<Longrightarrow> build_login_success_body 128 username = Some (login_packet username)"
proof -
  assume l: "length username \<le> 16"
  have "writes (c_all [mc_write_varint 0x02, mc_write_string login_uuid, mc_write_string username]) (login_packet username)"
    unfolding login_packet_def using l by (intro wr.appends_then wr.appends_last sink_simps) (simp_all add: login_uuid_def)
  from build_body_result [OF this] length_packets(2) [OF l] show ?thesis
    by (simp add: build_login_success_body_def)
qed

lemma enqueues_login:
  "length username \<le> 16 \<Longrightarrow> enqueues (queue_login_success username) (packet_frame (login_packet username))"
  using length_packets(2) [of username] enqueues_packet [of "login_packet username"]
  by (simp add: queue_login_success_def [abs_def] and_queue_def [abs_def] build_login_success)

lemma build_set_compression_eq:
  "build_set_compression 16 threshold = Some (varint_bytes 0x03 @ varint_bytes threshold)"
proof -
  have "writes (c_all [mc_write_varint 0x03, mc_write_varint threshold]) (varint_bytes 0x03 @ varint_bytes threshold)"
    by (intro wr.appends_then wr.appends_last sink_simps)
  from build_body_result [OF this] length_varint_bytes [of threshold] show ?thesis
    by (simp add: build_set_compression_def length_varint_small)
qed

lemma enqueues_join: "enqueues (queue_join_game cfg server) (auto_frame cfg server join_packet)"
proof -
  have "writes (c_all [mc_write_varint 0x01, mc_write_i32 1, mc_write_u8 1, mc_write_i8 0, mc_write_u8 0, mc_write_u8 1,
      mc_write_string (str_bytes ''flat''), mc_write_bool False]) join_packet"
    unfolding join_packet_def by (intro wr.appends_then wr.appends_last writes_i8_0 sink_simps) simp
  then show ?thesis unfolding queue_join_game_def
    by (rule enqueues_built) (simp_all add: length_packets enqueues_auto)
qed

lemma enqueues_spawn_position:
  "enqueues (queue_spawn_position cfg server) (auto_frame cfg server (varint_bytes 0x05 @ u64_be 0))"
proof -
  have "writes (c_all [mc_write_varint 0x05, mc_write_i64 0]) (varint_bytes 0x05 @ u64_be 0)"
    by (intro wr.appends_then wr.appends_last sink_simps)
  then show ?thesis unfolding queue_spawn_position_def
    by (rule enqueues_built) (simp_all add: length_varint_small enqueues_auto)
qed

lemma build_time_body_eq: "17 \<le> cap \<Longrightarrow> build_time_body cap t = Some (time_packet t)"
proof -
  assume c: "17 \<le> cap"
  have "writes (c_all [mc_write_varint 0x03, mc_write_i64 0, mc_write_i64 (scast t)]) (time_packet t)"
    unfolding time_packet_def by (intro wr.appends_then wr.appends_last sink_simps)
  from build_body_result [OF this] c show ?thesis by (simp add: build_time_body_def length_packets)
qed

lemma enqueues_time: "enqueues (queue_time cfg server) (auto_frame cfg server (time_packet (sv_world_time server)))"
  by (simp add: queue_time_def [abs_def] queue_time_value_def [abs_def] and_queue_def [abs_def] build_time_body_eq
      enqueues_auto length_packets)

lemma enqueues_health: "enqueues (queue_health cfg server) (auto_frame cfg server health_packet)"
proof -
  have "writes (c_all [mc_write_varint 0x06, mc_write_f32 0x41A00000, mc_write_varint 20, mc_write_f32 0x40A00000]) health_packet"
    unfolding health_packet_def by (intro wr.appends_then wr.appends_last sink_simps)
  then show ?thesis unfolding queue_health_def
    by (rule enqueues_built) (simp_all add: length_packets enqueues_auto)
qed

lemma enqueues_abilities: "enqueues (queue_abilities cfg server) (auto_frame cfg server abilities_packet)"
proof -
  have "writes (c_all [mc_write_varint 0x39, mc_write_u8 0x0f, mc_write_f32 0x3D4CCCCD, mc_write_f32 0x3DCCCCCD]) abilities_packet"
    unfolding abilities_packet_def by (intro wr.appends_then wr.appends_last sink_simps)
  then show ?thesis unfolding queue_abilities_def
    by (rule enqueues_built) (simp_all add: length_packets enqueues_auto)
qed

lemma build_position_body_eq:
  "build_position_body 64 (cp_x p) (cp_y p) (cp_z p) (cp_yaw p) (cp_pitch p) = Some (position_packet p)"
proof -
  have "writes (c_all [mc_write_varint 0x08, mc_write_f64 (cp_x p), mc_write_f64 (cp_y p), mc_write_f64 (cp_z p),
      mc_write_f32 (cp_yaw p), mc_write_f32 (cp_pitch p), mc_write_i8 0]) (position_packet p)"
    unfolding position_packet_def by (intro wr.appends_then wr.appends_last sink_simps)
  from build_body_result [OF this] show ?thesis by (simp add: build_position_body_def length_packets)
qed

lemma enqueues_position:
  "enqueues (queue_position cfg server) (auto_frame cfg server (position_packet (sv_position server)))"
  using build_position_body_eq [of "sv_position server"]
  by (simp add: queue_position_def [abs_def] queue_position_at_def [abs_def] and_queue_def [abs_def] sv_position_def
      enqueues_auto length_packets)

lemma enqueues_keepalive: "enqueues (queue_keepalive cfg server v) (auto_frame cfg server (keepalive_packet v))"
proof -
  have "writes (c_all [mc_write_varint 0x00, mc_write_varint v]) (keepalive_packet v)"
    unfolding keepalive_packet_def by (intro wr.appends_then wr.appends_last sink_simps)
  then show ?thesis unfolding queue_keepalive_def
    by (rule enqueues_built) (use length_packets(9) [of v] in \<open>auto intro: enqueues_auto\<close>)
qed

lemma build_game_state: "build_game_state_body 16 reason v = Some (game_state_packet (reason, v))"
proof -
  have "writes (c_all [mc_write_varint 0x2b, mc_write_u8 reason, mc_write_f32 v]) (game_state_packet (reason, v))"
    unfolding game_state_packet_def fst_conv snd_conv by (intro wr.appends_then wr.appends_last sink_simps)
  from build_body_result [OF this] show ?thesis by (simp add: build_game_state_body_def length_packets)
qed

lemma build_weather_bodies_eq:
  "build_weather_bodies w = Some (map game_state_packet (weather_game_state_values w))"
  by (cases w) (simp_all add: build_weather_bodies_def build_game_state)

section \<open>Commands\<close>

text \<open>What a command sends before its chat answer, and what it does to the server.\<close>

fun action_packets :: "mc_command_action \<Rightarrow> byte list list" where
  "action_packets MC_COMMAND_RESULT_CHAT = []"
| "action_packets (MC_COMMAND_RESULT_TELEPORT p) = [position_packet p]"
| "action_packets (MC_COMMAND_RESULT_TIME t) = [time_packet t]"
| "action_packets (MC_COMMAND_RESULT_WEATHER w) = map game_state_packet (weather_game_state_values w)"

fun apply_action :: "mc_command_action \<Rightarrow> mc_server \<Rightarrow> mc_server" where
  "apply_action MC_COMMAND_RESULT_CHAT server = server"
| "apply_action (MC_COMMAND_RESULT_TELEPORT p) server =
     server\<lparr>sv_player_x := cp_x p, sv_player_y := cp_y p, sv_player_z := cp_z p,
            sv_player_yaw := cp_yaw p, sv_player_pitch := cp_pitch p\<rparr>"
| "apply_action (MC_COMMAND_RESULT_TIME t) server = server\<lparr>sv_world_time := t\<rparr>"
| "apply_action (MC_COMMAND_RESULT_WEATHER w) server = server\<lparr>sv_weather := w\<rparr>"

definition command_frames :: "mc_config \<Rightarrow> mc_server \<Rightarrow> mc_command_result \<Rightarrow> byte list" where
  "command_frames cfg server result =
     concat (map (auto_frame cfg server) (action_packets (rs_action result) @ [chat_packet (c_str (rs_chat result))]))"

lemma action_packets_small: "list_all (\<lambda>body. length body \<le> 34) (action_packets a)" "length (action_packets a) \<le> 3"
proof -
  show "list_all (\<lambda>body. length body \<le> 34) (action_packets a)"
    by (cases a) (auto simp: length_packets list_all_iff)
  show "length (action_packets a) \<le> 3"
  proof (cases a)
    case (MC_COMMAND_RESULT_WEATHER w)
    then show ?thesis by (cases w) simp_all
  qed simp_all
qed

lemma length_frames_le:
  assumes "list_all (\<lambda>body. length body \<le> n) bodies"
  shows "length (concat (map (auto_frame cfg server) bodies)) \<le> (n + 6) * length bodies"
  using assms
proof (induction bodies)
  case (Cons body bodies)
  with length_auto_frame(1) [of cfg server body] show ?case by simp
qed simp

lemma enqueues_command:
  assumes "length (c_str (rs_chat result)) < MC_COMMAND_TEXT_CAP"
  shows "enqueues (queue_packet_batch cfg server (action_packets (rs_action result) @ [chat_packet (c_str (rs_chat result))]))
    (command_frames cfg server result)"
proof -
  let ?bodies = "action_packets (rs_action result) @ [chat_packet (c_str (rs_chat result))]"
  have "list_all (\<lambda>body. length body \<le> 972) ?bodies"
    using length_chat_packet [OF assms] action_packets_small(1) [of "rs_action result"] by (auto simp: list_all_iff)
  moreover from length_frames_le [OF this, of cfg server] action_packets_small(2) [of "rs_action result"]
  have "length (concat (map (auto_frame cfg server) ?bodies)) \<le> SIZE_MAX" by simp
  ultimately show ?thesis unfolding command_frames_def
    by (intro enqueues_batch) (auto simp: list_all_iff)
qed

lemma execute_command_result_eq:
  assumes "length (c_str (rs_chat result)) < MC_COMMAND_TEXT_CAP"
  shows "execute_command_result cfg result server tx =
    (case queue_packet_batch cfg server (action_packets (rs_action result) @ [chat_packet (c_str (rs_chat result))]) tx of
       (ok, tx) \<Rightarrow> (ok, if ok then apply_action (rs_action result) server else server, tx))"
  using build_chat_body_eq [OF assms]
  by (cases "rs_action result")
    (simp_all add: execute_command_result_def build_position_body_eq build_time_body_eq build_weather_bodies_eq split: prod.split)

section \<open>Properties\<close>

text \<open>C8: a batch of packets is all or nothing for any bodies whatsoever: either all frames are appended to
  the transmit ring in order, which happens exactly when every body is short enough and all frames fit
  together, or the ring is returned exactly as it was, with its positions and its bytes.\<close>

theorem packet_batch_atomic:
  assumes "rb_ok tx" "rb_cap tx \<le> SIZE_MAX"
  shows "let frames = concat (map (auto_frame cfg server) packets) in
    if list_all (\<lambda>body. length body \<le> MC_MAX_PACKET_BODY) packets \<and> length (rb_contents tx) + length frames \<le> rb_cap tx
    then \<exists>tx'. queue_packet_batch cfg server packets tx = (True, tx') \<and> rb_ok tx' \<and> rb_cap tx' = rb_cap tx \<and>
      rb_contents tx' = rb_contents tx @ frames
    else queue_packet_batch cfg server packets tx = (False, tx)"
proof (cases "list_all (\<lambda>body. length body \<le> MC_MAX_PACKET_BODY) packets \<and>
    length (concat (map (auto_frame cfg server) packets)) \<le> SIZE_MAX")
  case True
  with enqueues_batch have "enqueues (queue_packet_batch cfg server packets) (concat (map (auto_frame cfg server) packets))"
    by blast
  then show ?thesis using assms(1)
    by (cases rule: enqueues_cases) (use True in \<open>auto simp: Let_def simp del: length_rb_contents\<close>)
next
  case False
  with batch_too_long [OF False] assms(2) show ?thesis by (auto simp: Let_def simp del: length_rb_contents)
qed

theorem packet_batch_atomic_witness:
  "let cfg = \<lparr>cfg_compression = False, cfg_psram_map = False, cfg_threshold = 1, cfg_keepalive_interval = 1\<rparr>;
       tx = mc_ringbuf_init [0, 0, 0, 0] 4
   in \<forall>server. queue_packet_batch cfg server [[7], [8, 9]] tx = (False, tx)"
proof -
  have v: "length (varint_bytes (1 :: i32)) = 1" "length (varint_bytes (2 :: i32)) = 1"
    by (simp_all add: length_varint_small)
  show ?thesis
    using packet_batch_atomic [OF rb_init_ok [of 4 "[0, 0, 0, 0]"], of "\<lparr>cfg_compression = False, cfg_psram_map = False, cfg_threshold = 1, cfg_keepalive_interval = 1\<rparr>" _ "[[7], [8, 9]]"]
    by (simp add: rb_init_contents rb_init_cap auto_frame_def packet_frame_def v Let_def)
qed

text \<open>C14: executing a command is atomic. When the transmit ring has room for all packets of the command
  they are queued, the action first and the chat answer last, and the player's position, the time or the
  weather change accordingly; when it has not, nothing is queued and the server is unchanged, so the
  client and the server never disagree.\<close>

theorem command_executes_atomically:
  assumes "length (c_str (rs_chat result)) < MC_COMMAND_TEXT_CAP" "rb_ok tx"
  shows "if length (rb_contents tx) + length (command_frames cfg server result) \<le> rb_cap tx
    then \<exists>tx'. execute_command_result cfg result server tx = (True, apply_action (rs_action result) server, tx') \<and>
      rb_ok tx' \<and> rb_contents tx' = rb_contents tx @ command_frames cfg server result
    else execute_command_result cfg result server tx = (False, server, tx)"
  using enqueues_command [OF assms(1), of cfg server] assms(2)
  by (cases rule: enqueues_cases) (auto simp: execute_command_result_eq [OF assms(1)] simp del: length_rb_contents)

theorem command_executes_atomically_witness:
  "let cfg = \<lparr>cfg_compression = False, cfg_psram_map = False, cfg_threshold = 1, cfg_keepalive_interval = 1\<rparr>;
       tx = mc_ringbuf_init [0] 1
   in \<forall>server. execute_command_result cfg \<lparr>rs_chat = replicate 160 0, rs_action = MC_COMMAND_RESULT_TIME 6000\<rparr> server tx = (False, server, tx)"
proof -
  let ?r = "\<lparr>rs_chat = replicate 160 0, rs_action = MC_COMMAND_RESULT_TIME 6000\<rparr>"
  have "1 < length (command_frames cfg server ?r)" for cfg server
    using length_auto_frame(2) [of cfg server "time_packet 6000"] length_auto_frame(2) [of cfg server "chat_packet (c_str (replicate 160 0))"]
    by (simp add: command_frames_def del: length_greater_0_conv)
  then have "execute_command_result cfg ?r server (mc_ringbuf_init [0] 1) = (False, server, mc_ringbuf_init [0] 1)" for cfg server
    using command_executes_atomically [of ?r "mc_ringbuf_init [0] 1" cfg server] rb_init_ok [of 1 "[0]"]
    by (auto simp: rb_init_contents rb_init_cap c_str_def not_le simp del: length_rb_contents One_nat_def split: if_splits)
  then show ?thesis by simp
qed

end
