(* ===== verification/ServerHandler.thy ===== *)
theory ServerHandler
  imports ServerPackets
begin

text \<open>
  Handling one client packet, of core/src/mc_server.c: the readers of the body, the handshake, the login,
  chat and movement, and the resets of the logical session. A packet is the list of the bytes of its body; a
  reader takes the position and returns the value with the position behind it.
\<close>

section \<open>Readers\<close>

definition read_varint_body :: "byte list \<Rightarrow> nat \<Rightarrow> (i32 \<times> nat) option" where
  "read_varint_body body pos =
     (if length body \<le> pos then None
      else case mc_varint_decode (drop pos body) of
        None \<Rightarrow> None
      | Some (v, used) \<Rightarrow> Some (v, pos + used))"

text \<open>The bytes stored to \<open>dst\<close> in front of the terminating zero.\<close>

definition read_string_body :: "byte list \<Rightarrow> nat \<Rightarrow> nat \<Rightarrow> (byte list \<times> nat) option" where
  "read_string_body body pos dst_cap =
     (case read_varint_body body pos of
        None \<Rightarrow> None
      | Some (len, pos) \<Rightarrow>
          if sint len < 0 then None
          else if dst_cap \<le> unat len \<or> length body < pos + unat len then None
          else Some (take (unat len) (drop pos body), pos + unat len))"

definition bytes_have_c0_control :: "byte list \<Rightarrow> bool" where
  "bytes_have_c0_control bytes = list_ex (\<lambda>b. b < 0x20) bytes"

definition read_chat_body :: "byte list \<Rightarrow> nat \<Rightarrow> nat \<Rightarrow> (byte list \<times> nat) option" where
  "read_chat_body body pos dst_cap =
     (case read_varint_body body pos of
        None \<Rightarrow> None
      | Some (len, pos) \<Rightarrow>
          if sint len < 0 then None
          else if dst_cap \<le> unat len \<or> length body < pos + unat len then None
          else if bytes_have_c0_control (take (unat len) (drop pos body)) then None
          else Some (take (unat len) (drop pos body), pos + unat len))"

definition read_bool_body :: "byte list \<Rightarrow> nat \<Rightarrow> (bool \<times> nat) option" where
  "read_bool_body body pos = (if length body \<le> pos then None else Some (body ! pos \<noteq> 0, pos + 1))"

definition read_u32_body :: "byte list \<Rightarrow> nat \<Rightarrow> (u32 \<times> nat) option" where
  "read_u32_body body pos =
     (if length body < pos \<or> length body - pos < 4 then None
      else Some (push_bit 24 (ucast (body ! pos)) OR push_bit 16 (ucast (body ! (pos + 1))) OR
                 push_bit 8 (ucast (body ! (pos + 2))) OR ucast (body ! (pos + 3)), pos + 4))"

definition read_u64_body :: "byte list \<Rightarrow> nat \<Rightarrow> (u64 \<times> nat) option" where
  "read_u64_body body pos =
     (if length body < pos \<or> length body - pos < 8 then None
      else Some (fold (\<lambda>i v. push_bit 8 v OR ucast (body ! (pos + i))) [0..<8] 0, pos + 8))"

definition read_f32_body :: "byte list \<Rightarrow> nat \<Rightarrow> (f32_bits \<times> nat) option" where
  "read_f32_body body pos = read_u32_body body pos"

definition read_f64_body :: "byte list \<Rightarrow> nat \<Rightarrow> (f64_bits \<times> nat) option" where
  "read_f64_body body pos = read_u64_body body pos"

definition elapsed_ticks :: "u32 \<Rightarrow> u32 \<Rightarrow> u32" where
  "elapsed_ticks now_ticks then_ticks = now_ticks - then_ticks"

section \<open>Session state\<close>

definition reset_play_runtime_state :: "mc_server \<Rightarrow> mc_server" where
  "reset_play_runtime_state server =
     server\<lparr>sv_last_keepalive_tick := 0, sv_keepalive_id := 0, sv_keepalive_pending := False,
            sv_player_x := MC_COMMAND_DEFAULT_X, sv_player_y := MC_COMMAND_DEFAULT_Y, sv_player_z := MC_COMMAND_DEFAULT_Z,
            sv_player_yaw := MC_COMMAND_DEFAULT_YAW, sv_player_pitch := MC_COMMAND_DEFAULT_PITCH,
            sv_player_on_ground := False, sv_world_time := MC_COMMAND_DEFAULT_TIME, sv_weather := MC_WEATHER_CLEAR\<rparr>"

definition mc_server_init :: "mc_config \<Rightarrow> mc_server" where
  "mc_server_init cfg =
     reset_play_runtime_state
       \<lparr>sv_state = MC_CONN_HANDSHAKE, sv_compression_enabled = False, sv_compression_threshold = cfg_threshold cfg,
        sv_username = [], sv_ticks = 0, sv_last_keepalive_tick = 0, sv_keepalive_id = 0, sv_keepalive_pending = False,
        sv_player_x = 0, sv_player_y = 0, sv_player_z = 0, sv_player_yaw = 0, sv_player_pitch = 0,
        sv_player_on_ground = False, sv_world_time = 0, sv_weather = MC_WEATHER_CLEAR,
        sv_play_bootstrap_sent = False, sv_rx_accum = [], sv_play_bootstrap_stage = 0,
        sv_play_bootstrap_chunk_index = 0, sv_tx_reset_requested = False, sv_trace = None\<rparr>"

text \<open>Attaching a sink: the log of the events it will see starts empty; detaching it ends the log.\<close>

definition mc_server_set_trace :: "bool \<Rightarrow> mc_server \<Rightarrow> mc_server" where
  "mc_server_set_trace sink server = server\<lparr>sv_trace := (if sink then Some [] else None)\<rparr>"

definition emit_trace ::
    "mc_trace_event_type \<Rightarrow> i32 \<Rightarrow> i32 \<Rightarrow> byte list option \<Rightarrow> nat \<Rightarrow> mc_server \<Rightarrow> mc_server" where
  "emit_trace ty value0 value1 txt text_len server =
     (case sv_trace server of
        None \<Rightarrow> server
      | Some events \<Rightarrow>
          server\<lparr>sv_trace := Some (events @ [\<lparr>te_type = ty, te_value0 = value0, te_value1 = value1,
            te_text = txt, te_text_len = text_len\<rparr>])\<rparr>)"

definition reset_logical_session :: "mc_config \<Rightarrow> mc_server \<Rightarrow> mc_server" where
  "reset_logical_session cfg server =
     reset_play_runtime_state
       (server\<lparr>sv_username := [], sv_state := MC_CONN_HANDSHAKE, sv_compression_enabled := False,
               sv_compression_threshold := cfg_threshold cfg, sv_play_bootstrap_sent := False,
               sv_play_bootstrap_stage := 0, sv_play_bootstrap_chunk_index := 0, sv_tx_reset_requested := True\<rparr>)"

section \<open>The handshake\<close>

datatype mc_handshake_result = MC_HANDSHAKE_NO_MATCH | MC_HANDSHAKE_ACCEPTED | MC_HANDSHAKE_INVALID

definition try_handle_handshake :: "mc_config \<Rightarrow> byte list \<Rightarrow> mc_server \<Rightarrow> mc_handshake_result \<times> mc_server" where
  "try_handle_handshake cfg body server =
     (case read_varint_body body 0 of
        None \<Rightarrow> (MC_HANDSHAKE_INVALID, server)
      | Some (packet_id, pos) \<Rightarrow>
          if packet_id \<noteq> 0 then (MC_HANDSHAKE_NO_MATCH, server)
          else (case read_varint_body body pos of
            None \<Rightarrow> (MC_HANDSHAKE_INVALID, server)
          | Some (proto, pos) \<Rightarrow>
              (case read_string_body body pos 256 of
                 None \<Rightarrow> (MC_HANDSHAKE_INVALID, server)
               | Some (host, pos) \<Rightarrow>
                   if length body < pos + 2 then (MC_HANDSHAKE_INVALID, server)
                   else (case read_varint_body body (pos + 2) of
                     None \<Rightarrow> (MC_HANDSHAKE_INVALID, server)
                   | Some (next_state, pos) \<Rightarrow>
                       if pos \<noteq> length body then (MC_HANDSHAKE_INVALID, server)
                       else let server = reset_logical_session cfg server in
                         if next_state = 1 \<or> next_state = 2
                         then (MC_HANDSHAKE_ACCEPTED,
                               emit_trace MC_TRACE_HANDSHAKE next_state proto (Some (c_str host)) (length (c_str host))
                                 (server\<lparr>sv_state := (if next_state = 1 then MC_CONN_STATUS else MC_CONN_LOGIN)\<rparr>))
                         else (MC_HANDSHAKE_INVALID, server)))))"

section \<open>Movement\<close>

text \<open>Reading fields one after the other: \<open>read(&pos, &v) && \<dots>\<close>.\<close>

definition then_read :: "('a \<times> nat) option \<Rightarrow> ('a \<Rightarrow> nat \<Rightarrow> 'b option) \<Rightarrow> 'b option" where
  "then_read r f = (case r of None \<Rightarrow> None | Some (v, pos) \<Rightarrow> f v pos)"

text \<open>The \<open>switch\<close>: the fields after the packet is read, those it does not carry as they were.\<close>

definition movement_fields ::
    "i32 \<Rightarrow> byte list \<Rightarrow> nat \<Rightarrow> mc_server \<Rightarrow> (mc_command_position \<times> bool \<times> nat) option" where
  "movement_fields packet_id body pos server =
     (let p = sv_position server in
      if packet_id = 0x03 then
        then_read (read_bool_body body pos) (\<lambda>on_ground pos. Some (p, on_ground, pos))
      else if packet_id = 0x04 then
        then_read (read_f64_body body pos) (\<lambda>x pos. then_read (read_f64_body body pos) (\<lambda>y pos.
        then_read (read_f64_body body pos) (\<lambda>z pos. then_read (read_bool_body body pos) (\<lambda>on_ground pos.
          Some (p\<lparr>cp_x := x, cp_y := y, cp_z := z\<rparr>, on_ground, pos)))))
      else if packet_id = 0x05 then
        then_read (read_f32_body body pos) (\<lambda>yaw pos. then_read (read_f32_body body pos) (\<lambda>pitch pos.
        then_read (read_bool_body body pos) (\<lambda>on_ground pos.
          Some (p\<lparr>cp_yaw := yaw, cp_pitch := pitch\<rparr>, on_ground, pos))))
      else if packet_id = 0x06 then
        then_read (read_f64_body body pos) (\<lambda>x pos. then_read (read_f64_body body pos) (\<lambda>y pos.
        then_read (read_f64_body body pos) (\<lambda>z pos. then_read (read_f32_body body pos) (\<lambda>yaw pos.
        then_read (read_f32_body body pos) (\<lambda>pitch pos. then_read (read_bool_body body pos) (\<lambda>on_ground pos.
          Some (\<lparr>cp_x = x, cp_y = y, cp_z = z, cp_yaw = yaw, cp_pitch = pitch\<rparr>, on_ground, pos)))))))
      else None)"

definition handle_play_movement :: "i32 \<Rightarrow> byte list \<Rightarrow> nat \<Rightarrow> mc_server \<Rightarrow> bool \<times> mc_server" where
  "handle_play_movement packet_id body pos server =
     (case movement_fields packet_id body pos server of
        None \<Rightarrow> (False, server)
      | Some (p, on_ground, pos) \<Rightarrow>
          if pos \<noteq> length body then (False, server)
          else (True, server\<lparr>sv_player_x := cp_x p, sv_player_y := cp_y p, sv_player_z := cp_z p,
                             sv_player_yaw := cp_yaw p, sv_player_pitch := cp_pitch p,
                             sv_player_on_ground := on_ground\<rparr>))"

section \<open>The packet handler\<close>

definition drop_all :: "mc_ringbuf \<Rightarrow> mc_ringbuf" where
  "drop_all tx = mc_ringbuf_drop tx (mc_ringbuf_len tx)"

text \<open>Sending the login answer: with compression the threshold goes out first, as a plain frame.\<close>

definition login_answer ::
    "mc_config \<Rightarrow> byte list \<Rightarrow> mc_server \<Rightarrow> mc_ringbuf \<Rightarrow> bool \<times> mc_server \<times> mc_ringbuf" where
  "login_answer cfg username server tx =
     (if cfg_compression cfg then
        (case (build_set_compression 16 (sv_compression_threshold server), build_login_success_body 128 username) of
           (Some compression_body, Some success_body) \<Rightarrow>
             let needed = mc_packet_frame_len (length compression_body) +
                   mc_packet_compressed_plain_frame_len (length success_body) in
             if needed = 0 \<or> mc_ringbuf_free tx < needed then (False, server, tx)
             else (case mc_server_queue_packet compression_body tx of
               (ok, tx) \<Rightarrow>
                 if \<not> ok then (False, server, tx)
                 else let server = server\<lparr>sv_compression_enabled := True\<rparr> in
                   (case queue_packet_compressed_plain success_body tx of (ok, tx) \<Rightarrow> (ok, server, tx)))
         | _ \<Rightarrow> (False, server, tx))
      else (case queue_login_success username tx of (ok, tx) \<Rightarrow> (ok, server, tx)))"

definition handle_login_start ::
    "mc_config \<Rightarrow> byte list \<Rightarrow> nat \<Rightarrow> mc_server \<Rightarrow> mc_ringbuf \<Rightarrow> bool \<times> mc_server \<times> mc_ringbuf" where
  "handle_login_start cfg body pos server tx =
     (case read_string_body body pos 17 of
        None \<Rightarrow> (False, server, tx)
      | Some (name, pos) \<Rightarrow>
          let username = c_str name in
          if username = [] then (False, server, tx)
          else let server = emit_trace MC_TRACE_LOGIN_START 0 0 (Some username) (length username) server in
            (case login_answer cfg username server tx of
               (ok, server, tx) \<Rightarrow>
                 if \<not> ok then (False, server, tx)
                 else (True, emit_trace MC_TRACE_PLAY_ENTER 0 0 (Some username) (length username)
                         (server\<lparr>sv_username := username, sv_state := MC_CONN_PLAY\<rparr>), tx)))"

definition handle_keepalive_ack :: "byte list \<Rightarrow> nat \<Rightarrow> mc_server \<Rightarrow> bool \<times> mc_server" where
  "handle_keepalive_ack body pos server =
     (case read_varint_body body pos of
        None \<Rightarrow> (False, server)
      | Some (keepalive_id, pos) \<Rightarrow>
          if pos \<noteq> length body then (False, server)
          else if sv_keepalive_pending server
          then (True, (emit_trace MC_TRACE_KEEPALIVE_ACK keepalive_id 0 None 0 server)\<lparr>sv_keepalive_pending := False\<rparr>)
          else (True, server))"

text \<open>The result record is a local variable; \<open>mc_commands_handle_chat\<close> fills it.\<close>

definition handle_chat ::
    "mc_config \<Rightarrow> byte list \<Rightarrow> nat \<Rightarrow> mc_server \<Rightarrow> mc_ringbuf \<Rightarrow> bool \<times> mc_server \<times> mc_ringbuf" where
  "handle_chat cfg body pos server tx =
     (case read_chat_body body pos MC_COMMAND_TEXT_CAP of
        None \<Rightarrow> (False, server, tx)
      | Some (message, pos) \<Rightarrow>
          if pos \<noteq> length body then (False, server, tx)
          else (case mc_commands_handle_chat (sv_username server) (c_str message) (build_command_context server)
                  \<lparr>rs_chat = replicate MC_COMMAND_TEXT_CAP 0, rs_action = MC_COMMAND_RESULT_CHAT\<rparr> of
            (ok, result) \<Rightarrow>
              if \<not> ok then (False, server, tx) else execute_command_result cfg result server tx))"

text \<open>The rest of the handler, behind the attempt to read a new handshake.\<close>

definition handle_session_packet ::
    "mc_config \<Rightarrow> byte list \<Rightarrow> i32 \<Rightarrow> nat \<Rightarrow> mc_server \<Rightarrow> mc_ringbuf \<Rightarrow> bool \<times> mc_server \<times> mc_ringbuf" where
  "handle_session_packet cfg body packet_id pos server tx =
     (if sv_state server = MC_CONN_STATUS \<and> packet_id = 0x00 then
        (case queue_status_response tx of
           (ok, tx) \<Rightarrow> (ok, emit_trace MC_TRACE_STATUS_REQUEST 0 0 None 0 server, tx))
      else if sv_state server = MC_CONN_STATUS \<and> packet_id = 0x01 \<and> pos + 8 \<le> length body then
        (case queue_pong (drop pos body) tx of
           (ok, tx) \<Rightarrow> (ok, emit_trace MC_TRACE_STATUS_PING 0 0 None 0 server, tx))
      else if sv_state server = MC_CONN_LOGIN \<and> packet_id = 0x00 then handle_login_start cfg body pos server tx
      else if sv_state server = MC_CONN_PLAY \<and> packet_id = 0x00 then
        (case handle_keepalive_ack body pos server of (ok, server) \<Rightarrow> (ok, server, tx))
      else if sv_state server = MC_CONN_PLAY \<and> packet_id = 0x01 then handle_chat cfg body pos server tx
      else if sv_state server = MC_CONN_PLAY \<and>
          (packet_id = 0x03 \<or> packet_id = 0x04 \<or> packet_id = 0x05 \<or> packet_id = 0x06) then
        (case handle_play_movement packet_id body pos server of (ok, server) \<Rightarrow> (ok, server, tx))
      else if sv_state server = MC_CONN_PLAY then
        (True, emit_trace MC_TRACE_PLAY_UNHANDLED packet_id (of_nat (length body)) None 0 server, tx)
      else (True, server, tx))"

definition handle_packet :: "mc_config \<Rightarrow> byte list \<Rightarrow> mc_server \<Rightarrow> mc_ringbuf \<Rightarrow> bool \<times> mc_server \<times> mc_ringbuf" where
  "handle_packet cfg body server tx =
     (case read_varint_body body 0 of
        None \<Rightarrow> (False, server, tx)
      | Some (packet_id, pos) \<Rightarrow>
          if sv_state server = MC_CONN_HANDSHAKE \<and> packet_id = 0x00 then
            (case try_handle_handshake cfg body server of
               (handshake, server) \<Rightarrow>
                 if handshake \<noteq> MC_HANDSHAKE_ACCEPTED then (False, server, tx) else (True, server, drop_all tx))
          else if sv_state server \<noteq> MC_CONN_PLAY \<and> packet_id = 0x00 then
            (case try_handle_handshake cfg body server of
               (handshake, server) \<Rightarrow>
                 if handshake = MC_HANDSHAKE_ACCEPTED then (True, server, drop_all tx)
                 else if handshake = MC_HANDSHAKE_INVALID \<and> sv_state server \<noteq> MC_CONN_STATUS \<and>
                   sv_state server \<noteq> MC_CONN_LOGIN then (False, server, tx)
                 else handle_session_packet cfg body packet_id pos server tx)
          else handle_session_packet cfg body packet_id pos server tx)"

section \<open>Fields the handler leaves alone\<close>

lemma emit_trace_frame [simp]:
  "sv_state (emit_trace ty a b t n server) = sv_state server"
  "sv_compression_enabled (emit_trace ty a b t n server) = sv_compression_enabled server"
  "sv_compression_threshold (emit_trace ty a b t n server) = sv_compression_threshold server"
  "sv_username (emit_trace ty a b t n server) = sv_username server"
  "sv_ticks (emit_trace ty a b t n server) = sv_ticks server"
  "sv_last_keepalive_tick (emit_trace ty a b t n server) = sv_last_keepalive_tick server"
  "sv_keepalive_id (emit_trace ty a b t n server) = sv_keepalive_id server"
  "sv_keepalive_pending (emit_trace ty a b t n server) = sv_keepalive_pending server"
  "sv_world_time (emit_trace ty a b t n server) = sv_world_time server"
  "sv_weather (emit_trace ty a b t n server) = sv_weather server"
  "sv_position (emit_trace ty a b t n server) = sv_position server"
  "sv_player_on_ground (emit_trace ty a b t n server) = sv_player_on_ground server"
  "sv_play_bootstrap_sent (emit_trace ty a b t n server) = sv_play_bootstrap_sent server"
  "sv_rx_accum (emit_trace ty a b t n server) = sv_rx_accum server"
  "sv_play_bootstrap_stage (emit_trace ty a b t n server) = sv_play_bootstrap_stage server"
  "sv_play_bootstrap_chunk_index (emit_trace ty a b t n server) = sv_play_bootstrap_chunk_index server"
  "sv_tx_reset_requested (emit_trace ty a b t n server) = sv_tx_reset_requested server"
  by (simp_all add: emit_trace_def sv_position_def split: option.split)

lemma apply_action_frame [simp]:
  "sv_state (apply_action a server) = sv_state server"
  "sv_compression_enabled (apply_action a server) = sv_compression_enabled server"
  "sv_compression_threshold (apply_action a server) = sv_compression_threshold server"
  "sv_username (apply_action a server) = sv_username server"
  "sv_ticks (apply_action a server) = sv_ticks server"
  "sv_last_keepalive_tick (apply_action a server) = sv_last_keepalive_tick server"
  "sv_keepalive_id (apply_action a server) = sv_keepalive_id server"
  "sv_keepalive_pending (apply_action a server) = sv_keepalive_pending server"
  "sv_play_bootstrap_sent (apply_action a server) = sv_play_bootstrap_sent server"
  "sv_rx_accum (apply_action a server) = sv_rx_accum server"
  "sv_play_bootstrap_stage (apply_action a server) = sv_play_bootstrap_stage server"
  "sv_play_bootstrap_chunk_index (apply_action a server) = sv_play_bootstrap_chunk_index server"
  "sv_tx_reset_requested (apply_action a server) = sv_tx_reset_requested server"
  "sv_trace (apply_action a server) = sv_trace server"
  by (cases a; simp)+

text \<open>The possible outcomes of the operations on the server, whatever the packet.\<close>

lemma try_handle_handshake_cases [case_names unchanged bad_state accepted]:
  obtains r where "r \<noteq> MC_HANDSHAKE_ACCEPTED" "try_handle_handshake cfg body server = (r, server)"
  | "try_handle_handshake cfg body server = (MC_HANDSHAKE_INVALID, reset_logical_session cfg server)"
  | v proto host st where "st = MC_CONN_STATUS \<or> st = MC_CONN_LOGIN"
      "try_handle_handshake cfg body server = (MC_HANDSHAKE_ACCEPTED,
         emit_trace MC_TRACE_HANDSHAKE v proto (Some host) (length host) ((reset_logical_session cfg server)\<lparr>sv_state := st\<rparr>))"
  by (cases "try_handle_handshake cfg body server")
    (fastforce simp: try_handle_handshake_def Let_def split: option.splits prod.splits if_splits)

lemma execute_command_result_server:
  "\<exists>ok tx'. execute_command_result cfg result server tx = (ok, server, tx') \<or>
     execute_command_result cfg result server tx = (ok, apply_action (rs_action result) server, tx')"
  by (auto simp: execute_command_result_def split: option.split prod.split mc_command_action.split)

lemma handle_play_movement_cases [case_names rejected moved]:
  obtains "handle_play_movement packet_id body pos server = (False, server)"
  | p :: mc_command_position and g where "handle_play_movement packet_id body pos server = (True,
      server\<lparr>sv_player_x := cp_x p, sv_player_y := cp_y p, sv_player_z := cp_z p,
             sv_player_yaw := cp_yaw p, sv_player_pitch := cp_pitch p, sv_player_on_ground := g\<rparr>)"
  by (cases "handle_play_movement packet_id body pos server")
    (fastforce simp: handle_play_movement_def split: option.splits if_splits)

lemma handle_keepalive_ack_server:
  "\<exists>ok. handle_keepalive_ack body pos server = (ok, server) \<or>
     (\<exists>v. handle_keepalive_ack body pos server =
        (ok, (emit_trace MC_TRACE_KEEPALIVE_ACK v 0 None 0 server)\<lparr>sv_keepalive_pending := False\<rparr>))"
  by (auto simp: handle_keepalive_ack_def split: option.split)

lemma login_answer_cases [case_names same compressed]:
  obtains ok tx' where "login_answer cfg username server tx = (ok, server, tx')"
  | ok tx' where "login_answer cfg username server tx = (ok, server\<lparr>sv_compression_enabled := True\<rparr>, tx')"
  by (cases "login_answer cfg username server tx")
    (auto simp: login_answer_def Let_def split: option.splits prod.splits if_splits)

lemma handle_login_start_rx_accum [simp]: "sv_rx_accum (fst (snd (handle_login_start cfg body pos server tx))) = sv_rx_accum server"
proof -
  have "sv_rx_accum (fst (snd (login_answer cfg username s tx))) = sv_rx_accum s" for username s
    by (rule login_answer_cases [of cfg username s tx]) simp_all
  then show ?thesis
    by (auto simp: handle_login_start_def Let_def split: option.split prod.split) (metis fst_conv snd_conv emit_trace_frame)+
qed

lemma handle_chat_rx_accum [simp]: "sv_rx_accum (fst (snd (handle_chat cfg body pos server tx))) = sv_rx_accum server"
proof -
  have "sv_rx_accum (fst (snd (execute_command_result cfg result server tx))) = sv_rx_accum server" for result
    using execute_command_result_server [of cfg result server tx] by auto
  then show ?thesis by (auto simp: handle_chat_def split: option.split prod.split)
qed

lemma handle_session_packet_rx_accum [simp]:
  "sv_rx_accum (fst (snd (handle_session_packet cfg body packet_id pos server tx))) = sv_rx_accum server"
proof -
  have "sv_rx_accum (snd (handle_play_movement packet_id body pos server)) = sv_rx_accum server"
    by (rule handle_play_movement_cases [of packet_id body pos server]) simp_all
  moreover have "sv_rx_accum (snd (handle_keepalive_ack body pos server)) = sv_rx_accum server"
    using handle_keepalive_ack_server [of body pos server] by auto
  ultimately show ?thesis by (simp add: handle_session_packet_def case_prod_unfold)
qed

lemma handle_packet_rx_accum [simp]: "sv_rx_accum (fst (snd (handle_packet cfg body server tx))) = sv_rx_accum server"
proof -
  have "sv_rx_accum (snd (try_handle_handshake cfg body server)) = sv_rx_accum server"
    by (rule try_handle_handshake_cases [of cfg body server])
      (simp_all add: reset_logical_session_def reset_play_runtime_state_def)
  then show ?thesis by (auto simp: handle_packet_def case_prod_unfold split: option.split)
qed

section \<open>The connection invariant and the transmit stream\<close>

text \<open>
  Compression is on exactly in the play state of a build that has it, a player in that state has a name,
  and the progress of the bootstrap, the keep-alive and the time of day are within their ranges.
\<close>

definition conn_ok :: "mc_config \<Rightarrow> mc_server \<Rightarrow> bool" where
  "conn_ok cfg server \<longleftrightarrow>
     sv_compression_threshold server = cfg_threshold cfg \<and>
     (sv_compression_enabled server \<longleftrightarrow> cfg_compression cfg \<and> sv_state server = MC_CONN_PLAY) \<and>
     (sv_state server = MC_CONN_PLAY \<longleftrightarrow> sv_username server \<noteq> []) \<and>
     length (sv_username server) \<le> 16 \<and> 0 \<notin> set (sv_username server) \<and>
     sv_play_bootstrap_stage server \<le> 7 \<and>
     (sv_play_bootstrap_stage server \<noteq> 0 \<longrightarrow> sv_state server = MC_CONN_PLAY) \<and>
     (sv_play_bootstrap_chunk_index server \<noteq> 0 \<longrightarrow> 6 \<le> sv_play_bootstrap_stage server) \<and>
     (sv_play_bootstrap_sent server \<longleftrightarrow> sv_play_bootstrap_stage server = 7) \<and>
     0 \<le> sint (sv_keepalive_id server) \<and>
     (sv_keepalive_pending server \<longrightarrow> sv_play_bootstrap_sent server \<and> sv_keepalive_id server \<noteq> 0) \<and>
     0 \<le> sint (sv_world_time server) \<and> sint (sv_world_time server) \<le> 24000"

lemma init_conn_ok: "conn_ok cfg (mc_server_init cfg)"
  by (simp add: conn_ok_def mc_server_init_def reset_play_runtime_state_def)

lemma reset_conn_ok: "st \<noteq> MC_CONN_PLAY \<Longrightarrow> conn_ok cfg ((reset_logical_session cfg server)\<lparr>sv_state := st\<rparr>)"
  by (simp add: conn_ok_def reset_logical_session_def reset_play_runtime_state_def)

lemma reset_state: "sv_state (reset_logical_session cfg server) = MC_CONN_HANDSHAKE"
  "sv_tx_reset_requested (reset_logical_session cfg server)"
  by (simp_all add: reset_logical_session_def reset_play_runtime_state_def)

lemma emit_trace_conn_ok [simp]: "conn_ok cfg (emit_trace ty a b t n server) = conn_ok cfg server"
  by (simp add: conn_ok_def)

text \<open>Whole packets that the reader of a client accepts.\<close>

definition whole_frames :: "byte list \<Rightarrow> bool" where
  "whole_frames bs \<longleftrightarrow>
     (\<exists>bodies. list_all (\<lambda>body. length body \<le> MC_MAX_PACKET_BODY) bodies \<and> bs = concat (map packet_frame bodies))"

lemma whole_frames_Nil [simp]: "whole_frames []"
  unfolding whole_frames_def by (rule exI [of _ "[]"]) simp

lemma whole_frames_append: "whole_frames xs \<Longrightarrow> whole_frames ys \<Longrightarrow> whole_frames (xs @ ys)"
  unfolding whole_frames_def
proof (elim exE conjE)
  fix as bs
  assume "list_all (\<lambda>body. length body \<le> MC_MAX_PACKET_BODY) as" "xs = concat (map packet_frame as)"
    "list_all (\<lambda>body. length body \<le> MC_MAX_PACKET_BODY) bs" "ys = concat (map packet_frame bs)"
  then show "\<exists>bodies. list_all (\<lambda>body. length body \<le> MC_MAX_PACKET_BODY) bodies \<and>
      xs @ ys = concat (map packet_frame bodies)"
    by (intro exI [of _ "as @ bs"]) simp
qed

lemma whole_frames_frame: "length body \<le> MC_MAX_PACKET_BODY \<Longrightarrow> whole_frames (packet_frame body)"
  unfolding whole_frames_def by (rule exI [of _ "[body]"]) simp

lemma whole_frames_auto: "length body < MC_MAX_PACKET_BODY \<Longrightarrow> whole_frames (auto_frame cfg server body)"
  by (simp add: auto_frame_def whole_frames_frame)

lemma whole_frames_batch:
  "list_all (\<lambda>body. length body < MC_MAX_PACKET_BODY) bodies \<Longrightarrow> whole_frames (concat (map (auto_frame cfg server) bodies))"
  by (induction bodies) (simp_all add: whole_frames_append whole_frames_auto)

text \<open>
  What a call may do to the transmit ring: append whole packets, or replace its contents by whole packets,
  which it then reports through \<open>tx_reset_requested\<close>.
\<close>

definition tx_after :: "mc_server \<Rightarrow> mc_server \<Rightarrow> mc_ringbuf \<Rightarrow> mc_ringbuf \<Rightarrow> bool" where
  "tx_after server server' tx tx' \<longleftrightarrow> rb_ok tx' \<and> rb_cap tx' = rb_cap tx \<and>
     (\<exists>frames. whole_frames frames \<and>
        (rb_contents tx' = rb_contents tx @ frames \<and> sv_tx_reset_requested server' = sv_tx_reset_requested server \<or>
         rb_contents tx' = frames \<and> sv_tx_reset_requested server'))"

lemma tx_after_ok: "tx_after server server' tx tx' \<Longrightarrow> rb_ok tx'" "tx_after server server' tx tx' \<Longrightarrow> rb_cap tx' = rb_cap tx"
  by (simp_all add: tx_after_def)

lemma tx_after_append:
  "rb_ok tx' \<Longrightarrow> rb_cap tx' = rb_cap tx \<Longrightarrow> rb_contents tx' = rb_contents tx @ frames \<Longrightarrow> whole_frames frames \<Longrightarrow>
   sv_tx_reset_requested server' = sv_tx_reset_requested server \<Longrightarrow> tx_after server server' tx tx'"
  by (auto simp: tx_after_def)

lemma tx_after_refl: "rb_ok tx \<Longrightarrow> sv_tx_reset_requested server' = sv_tx_reset_requested server \<Longrightarrow> tx_after server server' tx tx"
  by (rule tx_after_append [of _ _ "[]"]) simp_all

lemma tx_after_trans:
  assumes "tx_after s0 s1 tx0 tx1" "tx_after s1 s2 tx1 tx2"
  shows "tx_after s0 s2 tx0 tx2"
proof -
  from assms obtain f g where "whole_frames f" "whole_frames g" "rb_ok tx2" "rb_cap tx2 = rb_cap tx0"
    and f: "rb_contents tx1 = rb_contents tx0 @ f \<and> sv_tx_reset_requested s1 = sv_tx_reset_requested s0 \<or>
      rb_contents tx1 = f \<and> sv_tx_reset_requested s1"
    and g: "rb_contents tx2 = rb_contents tx1 @ g \<and> sv_tx_reset_requested s2 = sv_tx_reset_requested s1 \<or>
      rb_contents tx2 = g \<and> sv_tx_reset_requested s2"
    by (auto simp: tx_after_def)
  then have *: "rb_ok tx2" "rb_cap tx2 = rb_cap tx0" "whole_frames (f @ g)" "whole_frames g"
    by (simp_all add: whole_frames_append)
  show ?thesis
    using f g * unfolding tx_after_def by (elim disjE conjE) force+
qed

lemma tx_after_enqueues:
  assumes "enqueues f frames" "whole_frames frames" "rb_ok tx" "f tx = (ok, tx')"
    "sv_tx_reset_requested server' = sv_tx_reset_requested server"
  shows "tx_after server server' tx tx'"
  using assms(1,3)
proof (cases rule: enqueues_cases)
  case (queued tx'')
  with assms show ?thesis by (intro tx_after_append [of _ _ frames]) simp_all
next
  case full
  with assms show ?thesis by (simp add: tx_after_refl)
qed

lemma tx_after_drop_all: "rb_ok tx \<Longrightarrow> sv_tx_reset_requested server' \<Longrightarrow> tx_after server server' tx (drop_all tx)"
  by (auto simp: tx_after_def drop_all_def rb_drop_ok rb_drop_cap rb_drop_contents rb_len_eq intro: exI [of _ "[]"])

text \<open>
  The contract of a call on the server and the ring. After a failure the ring is only known to be
  well-formed: every caller then resets the connection.
\<close>

definition sound_call :: "mc_config \<Rightarrow> mc_server \<Rightarrow> mc_ringbuf \<Rightarrow> bool \<times> mc_server \<times> mc_ringbuf \<Rightarrow> bool" where
  "sound_call cfg server tx r \<longleftrightarrow>
     (case r of (ok, server', tx') \<Rightarrow> conn_ok cfg server' \<and> rb_ok tx' \<and> rb_cap tx' = rb_cap tx \<and>
        (ok \<longrightarrow> tx_after server server' tx tx'))"

lemma sound_call_after: "conn_ok cfg server' \<Longrightarrow> tx_after server server' tx tx' \<Longrightarrow> sound_call cfg server tx (ok, server', tx')"
  by (simp add: sound_call_def tx_after_ok)

lemma sound_call_fail: "rb_ok tx \<Longrightarrow> conn_ok cfg server' \<Longrightarrow> sound_call cfg server tx (False, server', tx)"
  by (simp add: sound_call_def)

lemma sound_call_same:
  "rb_ok tx \<Longrightarrow> conn_ok cfg server' \<Longrightarrow> sv_tx_reset_requested server' = sv_tx_reset_requested server \<Longrightarrow>
   sound_call cfg server tx (ok, server', tx)"
  by (simp add: sound_call_def tx_after_refl)

lemma sound_call_queue:
  assumes "enqueues f frames" "whole_frames frames" "rb_ok tx" "conn_ok cfg server'"
    "sv_tx_reset_requested server' = sv_tx_reset_requested server"
  shows "sound_call cfg server tx (case f tx of (ok, tx') \<Rightarrow> (ok, server', tx'))"
  using tx_after_enqueues [OF assms(1-3) _ assms(5)] assms(4) by (auto intro: sound_call_after split: prod.split)

section \<open>Soundness of the handler\<close>

lemma conn_okD:
  assumes "conn_ok cfg server"
  shows "length (sv_username server) \<le> 16" "0 \<notin> set (sv_username server)"
    "sv_compression_enabled server \<longleftrightarrow> cfg_compression cfg \<and> sv_state server = MC_CONN_PLAY"
    "sv_compression_threshold server = cfg_threshold cfg"
  using assms by (simp_all add: conn_ok_def)

lemma read_string_length: "read_string_body body pos cap = Some (name, pos') \<Longrightarrow> length name < cap"
  by (auto simp: read_string_body_def split: option.splits if_splits)

lemma length_c_str: "length (c_str bs) \<le> length bs"
  by (simp add: c_str_def length_takeWhile_le)

text \<open>The login answer is all or nothing: with compression two frames, otherwise one.\<close>

definition login_frames :: "mc_config \<Rightarrow> mc_server \<Rightarrow> byte list \<Rightarrow> byte list" where
  "login_frames cfg server username =
     (if cfg_compression cfg
      then packet_frame (varint_bytes 0x03 @ varint_bytes (sv_compression_threshold server)) @ packet_frame (0 # login_packet username)
      else packet_frame (login_packet username))"

lemma whole_login_frames: "length username \<le> 16 \<Longrightarrow> whole_frames (login_frames cfg server username)"
  using length_packets(2) [of username] length_varint_bytes [of "sv_compression_threshold server"]
  by (auto simp: login_frames_def length_varint_small intro!: whole_frames_append whole_frames_frame)

lemma login_answer_cases_frames:
  assumes "length username \<le> 16" "rb_ok tx"
  obtains (sent) tx' where "login_answer cfg username server tx =
      (True, server\<lparr>sv_compression_enabled := (cfg_compression cfg \<or> sv_compression_enabled server)\<rparr>, tx')"
      "rb_ok tx'" "rb_cap tx' = rb_cap tx" "rb_contents tx' = rb_contents tx @ login_frames cfg server username"
      "length (rb_contents tx) + length (login_frames cfg server username) \<le> rb_cap tx"
  | (full) "login_answer cfg username server tx = (False, server, tx)"
      "rb_cap tx < length (rb_contents tx) + length (login_frames cfg server username)"
proof (cases "cfg_compression cfg")
  case False
  have "enqueues (queue_login_success username) (login_frames cfg server username)"
    using enqueues_login [OF assms(1)] False by (simp add: login_frames_def)
  then show thesis using assms(2)
    by (cases rule: enqueues_cases) (use False in \<open>auto simp: login_answer_def intro: sent full\<close>)
next
  case True
  let ?c = "varint_bytes 0x03 @ varint_bytes (sv_compression_threshold server)" and ?s = "login_packet username"
  have l: "length ?c \<le> MC_MAX_PACKET_BODY" "length ?s \<le> MC_MAX_PACKET_BODY"
    using length_packets(2) [OF assms(1)] length_varint_bytes [of "sv_compression_threshold server"]
    by (simp_all add: length_varint_small)
  have needed: "mc_packet_frame_len (length ?c) + mc_packet_compressed_plain_frame_len (length ?s) =
      length (login_frames cfg server username)" "0 < length (login_frames cfg server username)"
    using l True by (simp_all add: mc_packet_frame_len_eq mc_packet_compressed_plain_frame_len_eq login_frames_def
        length_packet_frame del: of_nat_Suc)
  note eq = login_answer_def build_set_compression_eq build_login_success [OF assms(1)]
  have b: "length (rb_contents tx) \<le> rb_cap tx" by (rule rb.bounded [OF assms(2)])
  show thesis
  proof (cases "length (rb_contents tx) + length (login_frames cfg server username) \<le> rb_cap tx")
    case fits: True
    have "list_all2 enqueues [mc_server_queue_packet ?c, queue_packet_compressed_plain ?s] [packet_frame ?c, packet_frame (0 # ?s)]"
      using enqueues_packet [OF l(1)] enqueues_compressed_plain [OF l(2)] by simp
    from enqueues_all_fit [OF this assms(2)] fits True obtain tx' where
      tx': "c_all [mc_server_queue_packet ?c, queue_packet_compressed_plain ?s] tx = (True, tx')" "rb_ok tx'" "rb_cap tx' = rb_cap tx"
        "rb_contents tx' = rb_contents tx @ login_frames cfg server username"
      by (cases "c_all [mc_server_queue_packet ?c, queue_packet_compressed_plain ?s] tx")
        (auto simp: login_frames_def simp del: c_all.simps length_rb_contents)
    have "login_answer cfg username server tx = (True, server\<lparr>sv_compression_enabled := True\<rparr>, tx')"
      using True needed fits b tx'(1) unfolding eq
      by (auto simp: Let_def rb_free_eq simp del: length_rb_contents length_greater_0_conv split: prod.splits if_splits)
    then show thesis using True tx' fits by (intro sent) simp_all
  next
    case nofit: False
    then have "login_answer cfg username server tx = (False, server, tx)"
      using True needed b unfolding eq by (auto simp: Let_def rb_free_eq simp del: length_rb_contents)
    then show thesis using nofit by (intro full) simp_all
  qed
qed

lemma conn_ok_ack: "conn_ok cfg server \<Longrightarrow> conn_ok cfg (server\<lparr>sv_keepalive_pending := False\<rparr>)"
  by (auto simp: conn_ok_def)

lemma conn_ok_move:
  "conn_ok cfg server \<Longrightarrow> conn_ok cfg (server\<lparr>sv_player_x := x, sv_player_y := y, sv_player_z := z,
     sv_player_yaw := yaw, sv_player_pitch := pitch, sv_player_on_ground := g\<rparr>)"
  by (auto simp: conn_ok_def)

lemma sound_call_if:
  "(c \<Longrightarrow> sound_call cfg server tx a) \<Longrightarrow> (\<not> c \<Longrightarrow> sound_call cfg server tx b) \<Longrightarrow>
   sound_call cfg server tx (if c then a else b)"
  by simp

lemma handle_login_start_sound:
  assumes "conn_ok cfg server" "rb_ok tx" "sv_state server = MC_CONN_LOGIN"
  shows "sound_call cfg server tx (handle_login_start cfg body pos server tx)"
proof (cases "read_string_body body pos 17")
  case (Some r)
  obtain name pos' where n: "read_string_body body pos 17 = Some (name, pos')" using Some by (cases r) simp
  let ?u = "c_str name"
  let ?s = "emit_trace MC_TRACE_LOGIN_START 0 0 (Some ?u) (length ?u) server"
  have u: "length ?u \<le> 16" "0 \<notin> set ?u"
    using read_string_length [OF n] length_c_str [of name] c_str_no_zero [of name] by simp_all
  show ?thesis
  proof (cases "?u = []")
    case True
    with n assms show ?thesis by (simp add: handle_login_start_def sound_call_same)
  next
    case False
    from u(1) assms(2) show ?thesis
    proof (cases rule: login_answer_cases_frames [of ?u tx cfg ?s])
      case (sent tx')
      have "tx_after server server' tx tx'" if "sv_tx_reset_requested server' = sv_tx_reset_requested server" for server'
        using sent whole_login_frames [OF u(1)] that by (intro tx_after_append) simp_all
      moreover have "conn_ok cfg (?s\<lparr>sv_compression_enabled := (cfg_compression cfg \<or> sv_compression_enabled ?s),
          sv_username := ?u, sv_state := MC_CONN_PLAY\<rparr>)"
        using assms(1,3) u False by (auto simp: conn_ok_def)
      ultimately show ?thesis
        using n False sent(1) by (simp add: handle_login_start_def sound_call_after Let_def)
    next
      case full
      with n False assms show ?thesis by (simp add: handle_login_start_def Let_def sound_call_same)
    qed
  qed
qed (use assms in \<open>simp add: handle_login_start_def sound_call_same\<close>)

lemma handle_chat_sound:
  assumes "conn_ok cfg server" "rb_ok tx"
  shows "sound_call cfg server tx (handle_chat cfg body pos server tx)"
proof -
  let ?r0 = "\<lparr>rs_chat = replicate MC_COMMAND_TEXT_CAP 0, rs_action = MC_COMMAND_RESULT_CHAT\<rparr>"
  have "sound_call cfg server tx (execute_command_result cfg result server tx)" if r: "answer_ok result" for result
  proof -
    have len: "length (c_str (rs_chat result)) < MC_COMMAND_TEXT_CAP" using r by (simp add: answer_ok_def)
    let ?q = "queue_packet_batch cfg server (action_packets (rs_action result) @ [chat_packet (c_str (rs_chat result))])"
    have ok: "conn_ok cfg (apply_action (rs_action result) server)"
      using r assms(1) by (cases "rs_action result") (auto simp: conn_ok_def answer_ok_def)
    have "list_all (\<lambda>body. length body < MC_MAX_PACKET_BODY) (action_packets (rs_action result) @ [chat_packet (c_str (rs_chat result))])"
      using action_packets_small(1) [of "rs_action result"] length_chat_packet [OF len] by (fastforce simp: list_all_iff)
    then have w: "whole_frames (command_frames cfg server result)"
      unfolding command_frames_def by (rule whole_frames_batch)
    obtain ok' tx' where q: "?q tx = (ok', tx')" by fastforce
    have "tx_after server server' tx tx'" if "sv_tx_reset_requested server' = sv_tx_reset_requested server" for server'
      using tx_after_enqueues [OF enqueues_command [OF len] w assms(2) q that] .
    with q ok assms(1) show ?thesis
      by (simp add: execute_command_result_eq [OF len] sound_call_after)
  qed
  moreover have "answer_ok (snd (mc_commands_handle_chat u m ctx ?r0))" for u m ctx
    by (rule commands_answer_ok) simp
  ultimately show ?thesis
    using assms by (auto simp: handle_chat_def case_prod_unfold sound_call_same split: option.split)
qed

lemma handle_session_packet_sound:
  assumes "conn_ok cfg server" "rb_ok tx"
  shows "sound_call cfg server tx (handle_session_packet cfg body packet_id pos server tx)"
proof -
  have status: "sound_call cfg server tx (case queue_status_response tx of
      (ok, tx) \<Rightarrow> (ok, emit_trace MC_TRACE_STATUS_REQUEST 0 0 None 0 server, tx))"
    by (rule sound_call_queue [OF enqueues_status]) (use assms in \<open>simp_all add: length_packets whole_frames_frame\<close>)
  have pong: "sound_call cfg server tx (case queue_pong (drop pos body) tx of
      (ok, tx) \<Rightarrow> (ok, emit_trace MC_TRACE_STATUS_PING 0 0 None 0 server, tx))" if "pos + 8 \<le> length body"
    by (rule sound_call_queue [OF enqueues_pong])
      (use assms that in \<open>simp_all add: length_varint_small whole_frames_frame\<close>)
  have ack: "sound_call cfg server tx (case handle_keepalive_ack body pos server of (ok, server) \<Rightarrow> (ok, server, tx))"
    using handle_keepalive_ack_server [of body pos server] assms
    by (auto simp: sound_call_same conn_ok_ack)
  have move: "sound_call cfg server tx (case handle_play_movement packet_id body pos server of (ok, server) \<Rightarrow> (ok, server, tx))"
    by (rule handle_play_movement_cases [of packet_id body pos server])
      (use assms in \<open>auto simp: sound_call_same conn_ok_move\<close>)
  have rest: "sound_call cfg server tx (ok, server, tx)" "sound_call cfg server tx (ok, emit_trace ty a b t n server, tx)" for ok ty a b t n
    using assms by (simp_all add: sound_call_same)
  show ?thesis
    unfolding handle_session_packet_def
    by (intro sound_call_if status pong ack move handle_login_start_sound [OF assms] handle_chat_sound [OF assms] rest) simp_all
qed

lemma handle_packet_sound:
  assumes "conn_ok cfg server" "rb_ok tx"
  shows "sound_call cfg server tx (handle_packet cfg body server tx)"
proof (cases rule: try_handle_handshake_cases [of cfg body server])
  case (unchanged r)
  with assms handle_session_packet_sound [OF assms] show ?thesis
    by (auto simp: handle_packet_def sound_call_same split: option.split)
next
  case bad_state
  have "conn_ok cfg (reset_logical_session cfg server)"
    by (simp add: conn_ok_def reset_logical_session_def reset_play_runtime_state_def)
  with bad_state assms handle_session_packet_sound [OF assms] reset_state [of cfg server] show ?thesis
    by (auto simp: handle_packet_def sound_call_same sound_call_fail split: option.split)
next
  case (accepted v proto host st)
  have "sv_tx_reset_requested ((reset_logical_session cfg server)\<lparr>sv_state := st\<rparr>)" using reset_state by simp
  moreover have "conn_ok cfg ((reset_logical_session cfg server)\<lparr>sv_state := st\<rparr>)"
    using accepted(1) by (auto intro: reset_conn_ok)
  ultimately show ?thesis
    using accepted(2) assms handle_session_packet_sound [OF assms]
    by (auto simp: handle_packet_def sound_call_after sound_call_fail tx_after_drop_all split: option.split)
qed

end
