(* ===== verification/Server.thy ===== *)
theory Server
  imports ServerHandler
begin

text \<open>
  The two entry points of the Minecraft server in core/src/mc_server.c: \<open>mc_server_receive\<close> cuts the bytes of
  the client into frames and handles the packets, \<open>mc_server_tick_at\<close> sends the packets of the bootstrap and
  the keep-alives. The invariant of the connection, the safety of the transmit stream and the progress of the
  bootstrap are proved here.
\<close>

section \<open>Receiving\<close>

datatype mc_frame_status = MC_FRAME_NEED_MORE | MC_FRAME_READY | MC_FRAME_INVALID

abbreviation MC_RX_ACCUM_CAP :: nat where "MC_RX_ACCUM_CAP \<equiv> MC_MAX_PACKET_BODY + 8"
abbreviation MC_MAX_SERVERBOUND_PACKET_ID :: int where "MC_MAX_SERVERBOUND_PACKET_ID \<equiv> 0x7f"

text \<open>The loop runs to the first of the first five bytes whose top bit is clear.\<close>

definition classify_frame :: "byte list \<Rightarrow> mc_frame_status \<times> nat" where
  "classify_frame src =
     (case find (\<lambda>i. src ! i AND 0x80 = 0) [0..<min (length src) 5] of
        Some i \<Rightarrow>
          (case mc_varint_decode (take (i + 1) src) of
             None \<Rightarrow> (MC_FRAME_INVALID, 0)
           | Some (body_len, prefix_len) \<Rightarrow>
               if sint body_len < 0 \<or> MC_MAX_PACKET_BODY < unat body_len then (MC_FRAME_INVALID, 0)
               else let frame_len = prefix_len + unat body_len in
                 (if frame_len \<le> length src then MC_FRAME_READY else MC_FRAME_NEED_MORE, frame_len))
      | None \<Rightarrow> (if 5 \<le> length src then MC_FRAME_INVALID else MC_FRAME_NEED_MORE, 0))"

text \<open>The check of the packet id at the start of the available bytes of a body.\<close>

definition partial_id_invalid :: "byte list \<Rightarrow> bool" where
  "partial_id_invalid available =
     (case mc_varint_decode available of
        None \<Rightarrow> 5 \<le> length available
      | Some (packet_id, used) \<Rightarrow> sint packet_id < 0 \<or> MC_MAX_SERVERBOUND_PACKET_ID < sint packet_id)"

definition partial_frame_has_invalid_packet_id :: "mc_config \<Rightarrow> mc_server \<Rightarrow> bool" where
  "partial_frame_has_invalid_packet_id cfg server =
     (case mc_varint_decode (sv_rx_accum server) of
        None \<Rightarrow> False
      | Some (body_len, prefix_len) \<Rightarrow>
          if sint body_len < 0 \<or> MC_MAX_PACKET_BODY < unat body_len then True
          else if length (sv_rx_accum server) \<le> prefix_len then False
          else let available = drop prefix_len (sv_rx_accum server) in
            if cfg_compression cfg \<and> sv_compression_enabled server then
              (case mc_varint_decode available of
                 None \<Rightarrow> 5 \<le> length available
               | Some (data_len, used) \<Rightarrow>
                   if data_len \<noteq> 0 then True
                   else if length available \<le> used then False
                   else partial_id_invalid (drop used available))
            else partial_id_invalid available)"

text \<open>Appending the received bytes; \<open>None\<close> when the array is full.\<close>

fun accumulate :: "byte list \<Rightarrow> byte list \<Rightarrow> byte list option" where
  "accumulate [] accum = Some accum"
| "accumulate (b # bytes) accum =
     (if length accum = MC_RX_ACCUM_CAP then None else accumulate bytes (accum @ [b]))"

text \<open>The body to handle: behind the data length, which must be 0, when compression is on.\<close>

definition packet_body :: "mc_server \<Rightarrow> mc_packet \<Rightarrow> byte list option" where
  "packet_body server packet =
     (if sv_compression_enabled server then
        (case mc_packet_get_compressed_body (pk_body packet) of
           None \<Rightarrow> None
         | Some (body, data_len) \<Rightarrow> if data_len \<noteq> 0 then None else Some body)
      else Some (pk_body packet))"

definition conn_number :: "mc_conn_state \<Rightarrow> i32" where
  "conn_number st = (case st of MC_CONN_HANDSHAKE \<Rightarrow> 0 | MC_CONN_STATUS \<Rightarrow> 1 | MC_CONN_LOGIN \<Rightarrow> 2 | MC_CONN_PLAY \<Rightarrow> 3)"

definition note_frame :: "nat \<Rightarrow> mc_server \<Rightarrow> mc_server" where
  "note_frame frame_len server =
     emit_trace MC_TRACE_FRAME_READY (of_nat frame_len) (conn_number (sv_state server)) None 0 server"

text \<open>One round of the loop: \<open>None\<close> to go on, \<open>Some r\<close> to return \<open>r\<close>.\<close>

definition receive_step :: "mc_config \<Rightarrow> mc_server \<Rightarrow> mc_ringbuf \<Rightarrow> bool option \<times> mc_server \<times> mc_ringbuf" where
  "receive_step cfg server tx =
     (case classify_frame (sv_rx_accum server) of
        (status, frame_len) \<Rightarrow>
          if status = MC_FRAME_NEED_MORE then
            (if partial_frame_has_invalid_packet_id cfg server then (Some False, server\<lparr>sv_rx_accum := []\<rparr>, tx)
             else (Some True, server, tx))
          else if status = MC_FRAME_INVALID then (Some False, server\<lparr>sv_rx_accum := []\<rparr>, tx)
          else let server = note_frame frame_len server in
            (case mc_packet_try_read (sv_rx_accum server) of
               None \<Rightarrow> (Some False, server\<lparr>sv_rx_accum := []\<rparr>, tx)
             | Some packet \<Rightarrow>
                 (case packet_body server packet of
                    None \<Rightarrow> (Some False, server\<lparr>sv_rx_accum := []\<rparr>, tx)
                  | Some body \<Rightarrow>
                      (case handle_packet cfg body server tx of
                         (ok, server, tx) \<Rightarrow>
                           if \<not> ok then (Some False, server\<lparr>sv_rx_accum := []\<rparr>, tx)
                           else (None, server\<lparr>sv_rx_accum := drop (pk_frame_len packet) (sv_rx_accum server)\<rparr>, tx)))))"

lemma note_frame_fields [simp]:
  "sv_rx_accum (note_frame n server) = sv_rx_accum server" "sv_state (note_frame n server) = sv_state server"
  "sv_tx_reset_requested (note_frame n server) = sv_tx_reset_requested server"
  "packet_body (note_frame n server) p = packet_body server p"
  by (simp_all add: note_frame_def packet_body_def)

text \<open>The ways a round can end.\<close>

lemma receive_step_cases [case_names wait reject handled]:
  assumes "receive_step cfg server tx = (r, server', tx')"
  obtains "r = Some True" "server' = server" "tx' = tx" "fst (classify_frame (sv_rx_accum server)) = MC_FRAME_NEED_MORE"
      "\<not> partial_frame_has_invalid_packet_id cfg server"
  | s where "r = Some False" "server' = s\<lparr>sv_rx_accum := []\<rparr>" "tx' = tx" "s = server \<or> (\<exists>n. s = note_frame n server)"
  | n p body ok s where "classify_frame (sv_rx_accum server) = (MC_FRAME_READY, n)"
      "mc_packet_try_read (sv_rx_accum server) = Some p" "packet_body server p = Some body"
      "handle_packet cfg body (note_frame n server) tx = (ok, s, tx')" "sv_rx_accum s = sv_rx_accum server"
      "r = (if ok then None else Some False)"
      "server' = s\<lparr>sv_rx_accum := (if ok then drop (pk_frame_len p) (sv_rx_accum server) else [])\<rparr>"
proof -
  obtain st n where c: "classify_frame (sv_rx_accum server) = (st, n)" by fastforce
  show thesis
  proof (cases st)
    case MC_FRAME_READY
    note ready = that(3) [OF c [unfolded MC_FRAME_READY]]
    show thesis
    proof (cases "mc_packet_try_read (sv_rx_accum server)")
      case None
      with c MC_FRAME_READY assms show thesis by (intro that(2)) (auto simp: receive_step_def Let_def)
    next
      case p: (Some p)
      show thesis
      proof (cases "packet_body server p")
        case None
        with p c MC_FRAME_READY assms show thesis by (intro that(2)) (auto simp: receive_step_def Let_def)
      next
        case b: (Some body)
        obtain ok s t where h: "handle_packet cfg body (note_frame n server) tx = (ok, s, t)" by (metis prod_cases3)
        have rx: "sv_rx_accum s = sv_rx_accum server"
          using arg_cong [OF h, of "\<lambda>r. sv_rx_accum (fst (snd r))"] by simp
        from assms c MC_FRAME_READY p b h rx have "t = tx'" "r = (if ok then None else Some False)"
          "server' = s\<lparr>sv_rx_accum := (if ok then drop (pk_frame_len p) (sv_rx_accum server) else [])\<rparr>"
          by (auto simp: receive_step_def Let_def split: if_splits)
        with ready [OF p b, of ok s] h rx show thesis by simp
      qed
    qed
  qed (use c assms in \<open>auto simp: receive_step_def split: if_splits intro: that(1,2)\<close>)
qed

lemma receive_step_shorter:
  assumes "receive_step cfg server tx = (None, server', tx')"
  shows "length (sv_rx_accum server') < length (sv_rx_accum server)"
  using assms
proof (cases rule: receive_step_cases)
  case (handled n p body ok s)
  with mc_packet_try_read_sound(3,4) [of "sv_rx_accum server" p] show ?thesis by (simp split: if_splits)
qed simp_all

function receive_loop :: "mc_config \<Rightarrow> mc_server \<Rightarrow> mc_ringbuf \<Rightarrow> bool \<times> mc_server \<times> mc_ringbuf" where
  "receive_loop cfg server tx =
     (case receive_step cfg server tx of
        (Some ok, server, tx) \<Rightarrow> (ok, server, tx)
      | (None, server, tx) \<Rightarrow> receive_loop cfg server tx)"
  by pat_completeness auto
termination
  by (relation "measure (\<lambda>(cfg, server, tx). length (sv_rx_accum server))") (auto dest: receive_step_shorter [OF sym])

declare receive_loop.simps [simp del]

definition mc_server_receive ::
    "mc_config \<Rightarrow> byte list \<Rightarrow> mc_server \<Rightarrow> mc_ringbuf \<Rightarrow> bool \<times> mc_server \<times> mc_ringbuf" where
  "mc_server_receive cfg bytes server tx =
     (case accumulate bytes (sv_rx_accum server) of
        None \<Rightarrow> (False, server\<lparr>sv_rx_accum := []\<rparr>, tx)
      | Some accum \<Rightarrow> receive_loop cfg (server\<lparr>sv_rx_accum := accum\<rparr>) tx)"

definition mc_server_take_tx_reset :: "mc_server \<Rightarrow> bool \<times> mc_server" where
  "mc_server_take_tx_reset server = (sv_tx_reset_requested server, server\<lparr>sv_tx_reset_requested := False\<rparr>)"

section \<open>Ticking\<close>

definition tick_keepalive :: "mc_config \<Rightarrow> u32 \<Rightarrow> mc_server \<Rightarrow> mc_ringbuf \<Rightarrow> bool \<times> mc_server \<times> mc_ringbuf" where
  "tick_keepalive cfg now_ticks server tx =
     (if sv_state server \<noteq> MC_CONN_PLAY \<or> \<not> sv_play_bootstrap_sent server then (True, server, tx)
      else if sv_last_keepalive_tick server \<noteq> 0 \<and>
        elapsed_ticks now_ticks (sv_last_keepalive_tick server) < cfg_keepalive_interval cfg then (True, server, tx)
      else let keepalive_id =
                 (if int INT32_MAX \<le> sint (sv_keepalive_id server) then 1 else sv_keepalive_id server + 1) in
        (case queue_keepalive cfg server keepalive_id tx of
           (ok, tx) \<Rightarrow>
             if \<not> ok then (False, server, tx)
             else (True, emit_trace MC_TRACE_KEEPALIVE_SEND keepalive_id 0 None (mc_ringbuf_len tx)
                     (server\<lparr>sv_keepalive_id := keepalive_id, sv_keepalive_pending := True,
                             sv_last_keepalive_tick := now_ticks\<rparr>), tx)))"

abbreviation MC_BOOTSTRAP_CHUNKS :: byte where "MC_BOOTSTRAP_CHUNKS \<equiv> 6"
abbreviation MC_BOOTSTRAP_DONE :: byte where "MC_BOOTSTRAP_DONE \<equiv> 7"

text \<open>Queueing the chunk with the current index: what the preprocessor selects.\<close>

definition queue_bootstrap_chunk ::
    "mc_config \<Rightarrow> world_compressed \<Rightarrow> mc_server \<Rightarrow> mc_ringbuf \<Rightarrow> bool \<times> mc_ringbuf" where
  "queue_bootstrap_chunk cfg world server tx =
     (let index = unat (sv_play_bootstrap_chunk_index server) in
      if cfg_compression cfg \<and> cfg_psram_map cfg then
        (if sv_compression_enabled server then mc_world_queue_compressed_spawn_chunk cfg world index tx
         else mc_world_queue_spawn_chunk cfg index tx)
      else if cfg_compression cfg then queue_spawn_chunk_auto cfg server index tx
      else mc_world_queue_spawn_chunk cfg index tx)"

definition bootstrap_chunk_count :: "mc_config \<Rightarrow> world_compressed \<Rightarrow> mc_server \<Rightarrow> nat" where
  "bootstrap_chunk_count cfg world server =
     (if cfg_psram_map cfg \<and> sv_compression_enabled server then mc_world_compressed_chunk_count cfg world
      else mc_world_spawn_chunk_count)"

text \<open>The \<open>switch\<close> on the stage: whether the packet was queued, and whether the stage is complete.\<close>

definition bootstrap_stage ::
    "mc_config \<Rightarrow> world_compressed \<Rightarrow> mc_server \<Rightarrow> mc_ringbuf \<Rightarrow> bool \<times> bool \<times> mc_server \<times> mc_ringbuf" where
  "bootstrap_stage cfg world server tx =
     (let stage = sv_play_bootstrap_stage server;
          single = (\<lambda>f. case f tx of (queued, tx) \<Rightarrow> (queued, True, server, tx)) in
      if stage = 0 then single (queue_join_game cfg server)
      else if stage = 1 then single (queue_spawn_position cfg server)
      else if stage = 2 then single (queue_time cfg server)
      else if stage = 3 then single (queue_health cfg server)
      else if stage = 4 then single (queue_abilities cfg server)
      else if stage = 5 then single (queue_position cfg server)
      else if stage = MC_BOOTSTRAP_CHUNKS then
        (case queue_bootstrap_chunk cfg world server tx of
           (queued, tx) \<Rightarrow>
             if \<not> queued then (False, True, server, tx)
             else let server = server\<lparr>sv_play_bootstrap_chunk_index := sv_play_bootstrap_chunk_index server + 1\<rparr> in
               (True, \<not> unat (sv_play_bootstrap_chunk_index server) < bootstrap_chunk_count cfg world server, server, tx))
      else (True, True, server, tx))"

definition stage_i32 :: "mc_server \<Rightarrow> i32" where
  "stage_i32 server = ucast (sv_play_bootstrap_stage server)"

definition chunk_i32 :: "mc_server \<Rightarrow> i32" where
  "chunk_i32 server = ucast (sv_play_bootstrap_chunk_index server)"

text \<open>One round of the bootstrap loop: \<open>None\<close> to go on, \<open>Some False\<close> to return 0 from the tick, \<open>Some True\<close> to leave
  the loop.\<close>

definition bootstrap_step ::
    "mc_config \<Rightarrow> world_compressed \<Rightarrow> mc_server \<Rightarrow> mc_ringbuf \<Rightarrow> bool option \<times> mc_server \<times> mc_ringbuf" where
  "bootstrap_step cfg world server tx =
     (if \<not> sv_play_bootstrap_stage server < MC_BOOTSTRAP_DONE then (Some True, server, tx)
      else case bootstrap_stage cfg world server tx of
        (queued, advance_stage, server, tx) \<Rightarrow>
          if \<not> queued then
            (Some False, emit_trace MC_TRACE_QUEUE_FULL (stage_i32 server) (chunk_i32 server) None 0 server, tx)
          else let server =
                 (if advance_stage
                  then (emit_trace MC_TRACE_BOOTSTRAP_STAGE (stage_i32 server) (chunk_i32 server) None 0 server)
                    \<lparr>sv_play_bootstrap_stage := sv_play_bootstrap_stage server + 1\<rparr>
                  else server)
               in (if sv_play_bootstrap_stage server = MC_BOOTSTRAP_CHUNKS then Some True else None, server, tx))"

lemma bootstrap_stage_facts:
  assumes "bootstrap_stage cfg world server tx = (queued, adv, server', tx')"
  shows "server' = server \<or> sv_play_bootstrap_stage server = 6 \<and>
      server' = server\<lparr>sv_play_bootstrap_chunk_index := sv_play_bootstrap_chunk_index server + 1\<rparr>"
    "\<not> adv \<Longrightarrow> sv_play_bootstrap_stage server = 6"
  using assms by (auto simp: bootstrap_stage_def Let_def split: if_splits prod.splits)

lemma bootstrap_step_advances:
  assumes "bootstrap_step cfg world server tx = (None, server', tx')"
  shows "sv_play_bootstrap_stage server < 7" "sv_play_bootstrap_stage server' = sv_play_bootstrap_stage server + 1"
proof -
  from assms obtain q a s t where b: "bootstrap_stage cfg world server tx = (q, a, s, t)" "sv_play_bootstrap_stage server < 7"
    and s: "server' = (if a then (emit_trace MC_TRACE_BOOTSTRAP_STAGE (stage_i32 s) (chunk_i32 s) None 0 s)
        \<lparr>sv_play_bootstrap_stage := sv_play_bootstrap_stage s + 1\<rparr> else s)" "sv_play_bootstrap_stage server' \<noteq> 6"
    by (auto simp: bootstrap_step_def Let_def split: if_splits prod.splits)
  show "sv_play_bootstrap_stage server < 7" by (fact b(2))
  show "sv_play_bootstrap_stage server' = sv_play_bootstrap_stage server + 1"
    using bootstrap_stage_facts [OF b(1)] s by (auto split: if_splits)
qed

lemma stage_next: "s < (7 :: byte) \<Longrightarrow> unat (s + 1) = unat s + 1"
  by (simp add: unat_word_ariths word_less_nat_alt)

lemma bootstrap_step_rank:
  assumes "bootstrap_step cfg world server tx = (None, server', tx')"
  shows "7 - unat (sv_play_bootstrap_stage server') < 7 - unat (sv_play_bootstrap_stage server)"
  using bootstrap_step_advances [OF assms] stage_next [of "sv_play_bootstrap_stage server"]
  by (simp add: word_less_nat_alt)

function bootstrap_loop ::
    "mc_config \<Rightarrow> world_compressed \<Rightarrow> mc_server \<Rightarrow> mc_ringbuf \<Rightarrow> bool \<times> mc_server \<times> mc_ringbuf" where
  "bootstrap_loop cfg world server tx =
     (case bootstrap_step cfg world server tx of
        (Some ok, server, tx) \<Rightarrow> (ok, server, tx)
      | (None, server, tx) \<Rightarrow> bootstrap_loop cfg world server tx)"
  by pat_completeness auto
termination
  by (relation "measure (\<lambda>(cfg, world, server, tx). 7 - unat (sv_play_bootstrap_stage server))")
    (auto dest: bootstrap_step_rank [OF sym])

declare bootstrap_loop.simps [simp del]

definition mc_server_tick_at ::
    "mc_config \<Rightarrow> world_compressed \<Rightarrow> u32 \<Rightarrow> mc_server \<Rightarrow> mc_ringbuf \<Rightarrow> bool \<times> mc_server \<times> mc_ringbuf" where
  "mc_server_tick_at cfg world now_ticks server tx =
     (let server = server\<lparr>sv_ticks := sv_ticks server + 1\<rparr> in
      if sv_state server = MC_CONN_PLAY \<and> \<not> sv_play_bootstrap_sent server then
        (case bootstrap_loop cfg world server tx of
           (ok, server, tx) \<Rightarrow>
             if \<not> ok then (False, server, tx)
             else let server =
                    (if MC_BOOTSTRAP_DONE \<le> sv_play_bootstrap_stage server
                     then emit_trace MC_TRACE_BOOTSTRAP_DONE (stage_i32 server) (chunk_i32 server) None 0
                            (server\<lparr>sv_play_bootstrap_sent := True\<rparr>)
                     else server)
                  in tick_keepalive cfg now_ticks server tx)
      else tick_keepalive cfg now_ticks server tx)"

definition mc_server_tick ::
    "mc_config \<Rightarrow> world_compressed \<Rightarrow> mc_server \<Rightarrow> mc_ringbuf \<Rightarrow> bool \<times> mc_server \<times> mc_ringbuf" where
  "mc_server_tick cfg world server tx = mc_server_tick_at cfg world (sv_ticks server + 1) server tx"

section \<open>Receiving keeps the invariant\<close>

lemma conn_ok_fields [simp]:
  "conn_ok cfg (server\<lparr>sv_rx_accum := bs\<rparr>) = conn_ok cfg server"
  "conn_ok cfg (server\<lparr>sv_ticks := t\<rparr>) = conn_ok cfg server"
  "conn_ok cfg (server\<lparr>sv_tx_reset_requested := r\<rparr>) = conn_ok cfg server"
  "conn_ok cfg (note_frame n server) = conn_ok cfg server"
  by (simp_all add: conn_ok_def note_frame_def)

lemma tx_after_fields [simp]:
  "tx_after server (server'\<lparr>sv_rx_accum := bs\<rparr>) tx tx' = tx_after server server' tx tx'"
  "tx_after (server\<lparr>sv_rx_accum := bs\<rparr>) server' tx tx' = tx_after server server' tx tx'"
  "tx_after server (server'\<lparr>sv_play_bootstrap_sent := b'\<rparr>) tx tx' = tx_after server server' tx tx'"
  "tx_after (server\<lparr>sv_play_bootstrap_sent := b'\<rparr>) server' tx tx' = tx_after server server' tx tx'"
  "tx_after (server\<lparr>sv_ticks := t\<rparr>) server' tx tx' = tx_after server server' tx tx'"
  "tx_after (emit_trace ty a b t' n server) server' tx tx' = tx_after server server' tx tx'"
  "tx_after server (emit_trace ty a b t' n server') tx tx' = tx_after server server' tx tx'"
  "tx_after (note_frame m server) server' tx tx' = tx_after server server' tx tx'"
  by (simp_all add: tx_after_def note_frame_def)

definition server_ok :: "mc_config \<Rightarrow> mc_server \<Rightarrow> bool" where
  "server_ok cfg server \<longleftrightarrow> conn_ok cfg server \<and> length (sv_rx_accum server) \<le> MC_RX_ACCUM_CAP"

lemma accumulate_eq:
  "length accum \<le> MC_RX_ACCUM_CAP \<Longrightarrow>
   accumulate bytes accum = (if length accum + length bytes \<le> MC_RX_ACCUM_CAP then Some (accum @ bytes) else None)"
  by (induction bytes arbitrary: accum) auto

lemma receive_step_sound:
  assumes "conn_ok cfg server" "rb_ok tx" "receive_step cfg server tx = (r, server', tx')"
  shows "conn_ok cfg server'" "rb_ok tx'" "rb_cap tx' = rb_cap tx" "r \<noteq> Some False \<Longrightarrow> tx_after server server' tx tx'"
    "length (sv_rx_accum server') \<le> length (sv_rx_accum server)"
proof -
  have "conn_ok cfg server' \<and> rb_ok tx' \<and> rb_cap tx' = rb_cap tx \<and> (r \<noteq> Some False \<longrightarrow> tx_after server server' tx tx') \<and>
      length (sv_rx_accum server') \<le> length (sv_rx_accum server)"
    using assms(3)
  proof (cases rule: receive_step_cases)
    case wait
    with assms show ?thesis by (simp add: tx_after_refl)
  next
    case (reject s)
    then have "conn_ok cfg s" using assms(1) by auto
    with reject assms show ?thesis by simp
  next
    case (handled n p body ok s)
    have "sound_call cfg (note_frame n server) tx (handle_packet cfg body (note_frame n server) tx)"
      using assms(1,2) by (intro handle_packet_sound) simp_all
    with handled show ?thesis by (auto simp: sound_call_def)
  qed
  then show "conn_ok cfg server'" "rb_ok tx'" "rb_cap tx' = rb_cap tx" "r \<noteq> Some False \<Longrightarrow> tx_after server server' tx tx'"
    "length (sv_rx_accum server') \<le> length (sv_rx_accum server)" by simp_all
qed

lemma receive_loop_sound:
  assumes "server_ok cfg server" "rb_ok tx" "receive_loop cfg server tx = (ok, server', tx')"
  shows "server_ok cfg server' \<and> rb_ok tx' \<and> rb_cap tx' = rb_cap tx \<and> (ok \<longrightarrow> tx_after server server' tx tx')"
  using assms
proof (induction cfg server tx rule: receive_loop.induct)
  case (1 cfg server tx)
  obtain r s t where st: "receive_step cfg server tx = (r, s, t)" by (metis prod_cases3)
  have ok: "conn_ok cfg server" using "1.prems"(1) by (simp add: server_ok_def)
  note sound = receive_step_sound [OF ok "1.prems"(2) st]
  have s_ok: "server_ok cfg s" using sound(1,5) "1.prems"(1) by (auto simp: server_ok_def)
  show ?case
  proof (cases r)
    case None
    from "1.prems"(3) st None have l: "receive_loop cfg s t = (ok, server', tx')"
      by (simp add: receive_loop.simps [of cfg server])
    from "1.IH" [OF st [symmetric] None refl s_ok sound(2) l] sound(3,4) None show ?thesis
      by (auto intro: tx_after_trans)
  next
    case (Some b)
    then show ?thesis
      using "1.prems"(3) st sound s_ok by (simp add: receive_loop.simps [of cfg server])
  qed
qed

lemma receive_sound:
  assumes "server_ok cfg server" "rb_ok tx" "mc_server_receive cfg bytes server tx = (ok, server', tx')"
  shows "server_ok cfg server' \<and> rb_ok tx' \<and> rb_cap tx' = rb_cap tx \<and> (ok \<longrightarrow> tx_after server server' tx tx')"
proof (cases "accumulate bytes (sv_rx_accum server)")
  case None
  with assms show ?thesis by (auto simp: mc_server_receive_def server_ok_def)
next
  case (Some accum)
  then have "server_ok cfg (server\<lparr>sv_rx_accum := accum\<rparr>)"
    using assms(1) by (auto simp: server_ok_def accumulate_eq split: if_splits)
  from receive_loop_sound [OF this assms(2), of ok server' tx'] assms(3) Some show ?thesis
    by (simp add: mc_server_receive_def)
qed

section \<open>The packets of the bootstrap\<close>

text \<open>The chunks that are sent: the assets of the compressed map, or the generated ones.\<close>

definition chunk_frames :: "mc_config \<Rightarrow> mc_world_compressed_asset list \<Rightarrow> mc_server \<Rightarrow> byte list list" where
  "chunk_frames cfg assets server =
     (if cfg_psram_map cfg then map asset_frame assets
      else map (\<lambda>(cx, cz). auto_frame cfg server (chunk_packet cx cz)) world_spawn_chunks)"

definition world_loaded :: "mc_config \<Rightarrow> world_compressed \<Rightarrow> mc_world_compressed_asset list \<Rightarrow> bool" where
  "world_loaded cfg world assets \<longleftrightarrow> (cfg_psram_map cfg \<longrightarrow> map_loaded world assets)"

text \<open>A player is in the game and the bootstrap is not marked as sent.\<close>

definition booting :: "mc_config \<Rightarrow> mc_server \<Rightarrow> bool" where
  "booting cfg server \<longleftrightarrow> sv_state server = MC_CONN_PLAY \<and> \<not> sv_play_bootstrap_sent server \<and>
     conn_ok cfg (server\<lparr>sv_play_bootstrap_sent := (sv_play_bootstrap_stage server = 7)\<rparr>)"

lemma booting_compression: "booting cfg server \<Longrightarrow> sv_compression_enabled server = cfg_compression cfg"
  by (simp add: booting_def conn_ok_def)

lemma length_chunk_frames:
  assumes "world_loaded cfg world assets" "booting cfg server" "config_ok cfg"
  shows "bootstrap_chunk_count cfg world server = length (chunk_frames cfg assets server)"
    "length (chunk_frames cfg assets server) \<le> 32"
  using assms booting_compression [OF assms(2)]
  by (auto simp: bootstrap_chunk_count_def chunk_frames_def world_loaded_def map_loaded_def config_ok_def
      mc_world_compressed_chunk_count_def mc_world_spawn_chunk_count_def length_spawn_chunks)

lemma whole_chunk_frames:
  assumes "world_loaded cfg world assets" "i < length (chunk_frames cfg assets server)"
  shows "whole_frames (chunk_frames cfg assets server ! i)"
proof (cases "cfg_psram_map cfg")
  case True
  with assms have "map_loaded world assets" "i < length assets" by (simp_all add: world_loaded_def chunk_frames_def)
  from enqueues_asset(2) [OF True this] True \<open>i < length assets\<close> show ?thesis
    by (simp add: chunk_frames_def asset_frame_def whole_frames_frame)
next
  case False
  with assms(2) show ?thesis
    by (auto simp: chunk_frames_def length_chunk_packet case_prod_unfold intro: whole_frames_auto)
qed

lemma queue_spawn_chunk_auto_eq:
  assumes "\<not> cfg_psram_map cfg" "sv_compression_enabled server" "i < 9"
  shows "queue_spawn_chunk_auto cfg server i =
    queue_packet_auto cfg server (chunk_packet (fst (world_spawn_chunks ! i)) (snd (world_spawn_chunks ! i)))"
proof -
  obtain cx cz where c: "server_spawn_chunks ! i = (cx, cz)" by fastforce
  have same: "world_spawn_chunks = server_spawn_chunks" by (simp add: world_spawn_chunks_def server_spawn_chunks_def)
  obtain body where "mc_world_build_chunk_body cfg cx cz server_chunk_body (length server_chunk_body) = (True, body, 12558)"
    "take 12558 body = chunk_packet cx cz"
    using build_spawn_chunk [OF assms(1), of cx cz] by (auto simp: server_chunk_body_def world_chunk_body_def)
  moreover have "length server_spawn_chunks = 9" by (simp add: server_spawn_chunks_def)
  ultimately show ?thesis
    using assms c by (intro ext) (simp add: queue_spawn_chunk_auto_def mc_world_spawn_chunk_count_def same)
qed

lemma queue_bootstrap_chunk_cases:
  assumes "config_ok cfg" "world_loaded cfg world assets" "booting cfg server"
  shows "if unat (sv_play_bootstrap_chunk_index server) < length (chunk_frames cfg assets server)
    then enqueues (queue_bootstrap_chunk cfg world server)
      (chunk_frames cfg assets server ! unat (sv_play_bootstrap_chunk_index server))
    else queue_bootstrap_chunk cfg world server tx = (False, tx)"
proof -
  let ?i = "unat (sv_play_bootstrap_chunk_index server)"
  note comp = booting_compression [OF assms(3)]
  show ?thesis
  proof (cases "cfg_psram_map cfg")
    case True
    then have c: "cfg_compression cfg" "map_loaded world assets"
      using assms(1,2) by (simp_all add: config_ok_def world_loaded_def)
    have "queue_bootstrap_chunk cfg world server = mc_world_queue_compressed_spawn_chunk cfg world ?i"
      using True c comp by (intro ext) (simp add: queue_bootstrap_chunk_def)
    moreover have "mc_world_queue_compressed_spawn_chunk cfg world ?i tx = (False, tx)" if "\<not> ?i < length assets"
      using that c True by (simp add: mc_world_queue_compressed_spawn_chunk_def mc_world_compressed_chunk_def map_loaded_def)
    ultimately show ?thesis
      using True enqueues_asset(1) [OF True c(2), of ?i] by (simp add: chunk_frames_def)
  next
    case False
    have n: "length (chunk_frames cfg assets server) = 9" using False by (simp add: chunk_frames_def length_spawn_chunks)
    have f: "chunk_frames cfg assets server ! ?i =
        auto_frame cfg server (chunk_packet (fst (world_spawn_chunks ! ?i)) (snd (world_spawn_chunks ! ?i)))" if "?i < 9"
      using False that by (simp add: chunk_frames_def length_spawn_chunks case_prod_unfold)
    show ?thesis
    proof (cases "cfg_compression cfg")
      case c: True
      have "queue_bootstrap_chunk cfg world server = queue_spawn_chunk_auto cfg server ?i"
        using c False by (intro ext) (simp add: queue_bootstrap_chunk_def)
      moreover have "queue_spawn_chunk_auto cfg server ?i tx = (False, tx)" if "\<not> ?i < 9"
        using that c comp by (simp add: queue_spawn_chunk_auto_def mc_world_spawn_chunk_count_def)
      ultimately show ?thesis
        using n f queue_spawn_chunk_auto_eq [OF False, of server ?i] c comp
        by (simp add: enqueues_auto length_chunk_packet)
    next
      case c: False
      have "queue_bootstrap_chunk cfg world server = mc_world_queue_spawn_chunk cfg ?i"
        using c by (intro ext) (simp add: queue_bootstrap_chunk_def)
      moreover have "mc_world_queue_spawn_chunk cfg ?i tx = (False, tx)" if "\<not> ?i < 9"
        using that by (simp add: mc_world_queue_spawn_chunk_def)
      ultimately show ?thesis
        using n f enqueues_spawn_chunk [OF False, of ?i] c by (simp add: chunk_frame_def auto_frame_def)
    qed
  qed
qed

text \<open>The packets of the stages before the chunks, in order.\<close>

definition boot_packets :: "mc_server \<Rightarrow> byte list list" where
  "boot_packets server = [join_packet, varint_bytes 0x05 @ u64_be 0, time_packet (sv_world_time server), health_packet,
     abilities_packet, position_packet (sv_position server)]"

definition boot_calls :: "mc_config \<Rightarrow> mc_server \<Rightarrow> (mc_ringbuf \<Rightarrow> bool \<times> mc_ringbuf) list" where
  "boot_calls cfg server = [queue_join_game cfg server, queue_spawn_position cfg server, queue_time cfg server,
     queue_health cfg server, queue_abilities cfg server, queue_position cfg server]"

lemma boot_calls_enqueue: "list_all2 enqueues (boot_calls cfg server) (map (auto_frame cfg server) (boot_packets server))"
  by (simp add: boot_calls_def boot_packets_def enqueues_join enqueues_spawn_position enqueues_time enqueues_health
      enqueues_abilities enqueues_position)

lemma boot_packets_small: "list_all (\<lambda>body. length body \<le> 34) (boot_packets server)"
  by (simp add: boot_packets_def length_packets length_varint_small)

lemma stage_split:
  assumes "s < (7 :: byte)"
  obtains "s = 6" | k where "k < 6" "s = of_nat k"
proof (cases "s = 6")
  case False
  have "unat s < 7" using assms by (simp add: word_less_nat_alt)
  moreover have "unat s \<noteq> 6" using False by (simp add: word_unat_eq_iff)
  ultimately show thesis using that(2) [of "unat s"] by simp
qed

text \<open>What one stage queues.\<close>

definition stage_frame :: "mc_config \<Rightarrow> mc_world_compressed_asset list \<Rightarrow> mc_server \<Rightarrow> byte list" where
  "stage_frame cfg assets server =
     (if sv_play_bootstrap_stage server = 6
      then chunk_frames cfg assets server ! unat (sv_play_bootstrap_chunk_index server)
      else auto_frame cfg server (boot_packets server ! unat (sv_play_bootstrap_stage server)))"

text \<open>There is still a packet to send: in the last stage, a chunk.\<close>

definition chunks_left :: "mc_config \<Rightarrow> mc_world_compressed_asset list \<Rightarrow> mc_server \<Rightarrow> bool" where
  "chunks_left cfg assets server \<longleftrightarrow>
     (sv_play_bootstrap_stage server = 6 \<longrightarrow>
        unat (sv_play_bootstrap_chunk_index server) < length (chunk_frames cfg assets server))"

text \<open>The server after a stage has queued its packet.\<close>

definition stage_advance :: "mc_config \<Rightarrow> mc_world_compressed_asset list \<Rightarrow> mc_server \<Rightarrow> mc_server" where
  "stage_advance cfg assets server =
     (if sv_play_bootstrap_stage server = 6 then
        (let i = sv_play_bootstrap_chunk_index server + 1; server = server\<lparr>sv_play_bootstrap_chunk_index := i\<rparr> in
         if unat i < length (chunk_frames cfg assets server) then server
         else (emit_trace MC_TRACE_BOOTSTRAP_STAGE (stage_i32 server) (chunk_i32 server) None 0 server)
                \<lparr>sv_play_bootstrap_stage := sv_play_bootstrap_stage server + 1\<rparr>)
      else (emit_trace MC_TRACE_BOOTSTRAP_STAGE (stage_i32 server) (chunk_i32 server) None 0 server)
             \<lparr>sv_play_bootstrap_stage := sv_play_bootstrap_stage server + 1\<rparr>)"

lemma chunk_frames_index [simp]:
  "chunk_frames cfg assets (server\<lparr>sv_play_bootstrap_chunk_index := i\<rparr>) = chunk_frames cfg assets server"
  by (simp add: chunk_frames_def auto_frame_def)

lemma booting_index [simp]:
  "bootstrap_chunk_count cfg world (server\<lparr>sv_play_bootstrap_chunk_index := i\<rparr>) = bootstrap_chunk_count cfg world server"
  by (simp add: bootstrap_chunk_count_def)

lemma bootstrap_step_cases [case_names queued full]:
  assumes "config_ok cfg" "world_loaded cfg world assets" "booting cfg server" "rb_ok tx"
    "sv_play_bootstrap_stage server < 7"
  obtains tx' where "chunks_left cfg assets server"
      "bootstrap_step cfg world server tx =
        (if sv_play_bootstrap_stage (stage_advance cfg assets server) = 6 then Some True else None, stage_advance cfg assets server, tx')"
      "rb_ok tx'" "rb_cap tx' = rb_cap tx" "rb_contents tx' = rb_contents tx @ stage_frame cfg assets server"
      "whole_frames (stage_frame cfg assets server)"
  | "bootstrap_step cfg world server tx =
        (Some False, emit_trace MC_TRACE_QUEUE_FULL (stage_i32 server) (chunk_i32 server) None 0 server, tx)"
      "chunks_left cfg assets server \<Longrightarrow> rb_cap tx < length (rb_contents tx) + length (stage_frame cfg assets server)"
  using assms(5)
proof (cases rule: stage_split)
  case 1
  note q = queue_bootstrap_chunk_cases [OF assms(1-3), of tx] and n = length_chunk_frames(1) [OF assms(2,3,1)]
  show thesis
  proof (cases "unat (sv_play_bootstrap_chunk_index server) < length (chunk_frames cfg assets server)")
    case True
    from q True have "enqueues (queue_bootstrap_chunk cfg world server) (stage_frame cfg assets server)"
      using 1 by (simp add: stage_frame_def)
    then show thesis using assms(4)
    proof (cases rule: enqueues_cases)
      case (queued tx')
      show thesis
        by (rule that(1) [of tx'])
          (use 1 n queued True whole_chunk_frames [OF assms(2) True] in
            \<open>auto simp: chunks_left_def bootstrap_step_def bootstrap_stage_def stage_advance_def stage_frame_def Let_def not_less\<close>)
    next
      case full
      show thesis by (rule that(2)) (use 1 full in \<open>auto simp: bootstrap_step_def bootstrap_stage_def\<close>)
    qed
  next
    case False
    with q 1 show thesis by (intro that(2)) (simp_all add: bootstrap_step_def bootstrap_stage_def chunks_left_def)
  qed
next
  case (2 k)
  have ks: "k \<in> {0, 1, 2, 3, 4, 5}" "unat (sv_play_bootstrap_stage server) = k" "sv_play_bootstrap_stage server \<noteq> 6"
    using 2 by (auto simp: unat_of_nat word_unat_eq_iff)
  have len: "length (boot_packets server) = 6" "length (boot_calls cfg server) = 6" by (simp_all add: boot_packets_def boot_calls_def)
  have e: "enqueues (boot_calls cfg server ! k) (stage_frame cfg assets server)"
    using boot_calls_enqueue [of cfg server] 2(1) len ks by (simp add: list_all2_conv_all_nth stage_frame_def)
  have w: "whole_frames (stage_frame cfg assets server)"
    using boot_packets_small [of server] 2(1) len ks
    by (auto simp: stage_frame_def list_all_length intro!: whole_frames_auto intro: le_less_trans [of _ 34])
  have st: "bootstrap_stage cfg world server tx = (case (boot_calls cfg server ! k) tx of (queued, tx) \<Rightarrow> (queued, True, server, tx))"
    using ks(1) 2(2) by (auto simp: bootstrap_stage_def boot_calls_def Let_def)
  from e assms(4) show thesis
  proof (cases rule: enqueues_cases)
    case (queued tx')
    show thesis
      by (rule that(1) [of tx'])
        (use queued w st ks(3) assms(5) in \<open>simp_all add: chunks_left_def bootstrap_step_def stage_advance_def Let_def\<close>)
  next
    case full
    show thesis by (rule that(2)) (use full st assms(5) in \<open>simp_all add: bootstrap_step_def\<close>)
  qed
qed

section \<open>Ticking keeps the invariant\<close>

lemma stage_word_next: "s < (7 :: byte) \<Longrightarrow> s + 1 \<le> 7" "s < (7 :: byte) \<Longrightarrow> s + 1 \<noteq> 0" "s < (7 :: byte) \<Longrightarrow> s \<noteq> 7"
  "s < (7 :: byte) \<Longrightarrow> 6 \<le> s \<Longrightarrow> s = 6"
proof -
  assume s: "s < 7"
  note n = stage_next [OF s] and u = s [unfolded word_less_nat_alt]
  show "s + 1 \<le> 7" using n u by (simp add: word_le_nat_alt)
  show "s + 1 \<noteq> 0" using n by (metis add_is_0 unat_0 zero_neq_one)
  show "s \<noteq> 7" using s by simp
  show "s = 6" if "6 \<le> s" using that u by (simp add: word_unat_eq_iff word_le_nat_alt)
qed

lemma stage_advance_frame [simp]:
  "sv_rx_accum (stage_advance cfg assets server) = sv_rx_accum server"
  "sv_state (stage_advance cfg assets server) = sv_state server"
  "sv_tx_reset_requested (stage_advance cfg assets server) = sv_tx_reset_requested server"
  "sv_play_bootstrap_sent (stage_advance cfg assets server) = sv_play_bootstrap_sent server"
  "sv_compression_enabled (stage_advance cfg assets server) = sv_compression_enabled server"
  "sv_world_time (stage_advance cfg assets server) = sv_world_time server"
  "sv_keepalive_id (stage_advance cfg assets server) = sv_keepalive_id server"
  "sv_last_keepalive_tick (stage_advance cfg assets server) = sv_last_keepalive_tick server"
  "sv_position (stage_advance cfg assets server) = sv_position server"
  by (simp_all add: stage_advance_def Let_def sv_position_def) (simp_all add: sv_position_def [symmetric] emit_trace_def split: option.split)

lemma stage_advance_booting:
  assumes "booting cfg server" "sv_play_bootstrap_stage server < 7"
  shows "booting cfg (stage_advance cfg assets server)"
proof -
  note b = assms(1) [unfolded booting_def] and n = stage_word_next [OF assms(2)]
  show ?thesis
  proof (cases "sv_play_bootstrap_stage server = 6")
    case True
    with b show ?thesis
      by (auto simp: stage_advance_def booting_def conn_ok_def Let_def)
  next
    case False
    then have "sv_play_bootstrap_chunk_index server = 0"
      using b n(4) by (auto simp: conn_ok_def)
    with b n False show ?thesis
      by (auto simp: stage_advance_def booting_def conn_ok_def Let_def)
  qed
qed

lemma booting_emit [simp]: "booting cfg (emit_trace ty a b t n server) = booting cfg server"
  by (simp add: booting_def conn_ok_def)

lemma bootstrap_loop_sound:
  assumes "config_ok cfg" "world_loaded cfg world assets" "booting cfg server" "rb_ok tx"
    "bootstrap_loop cfg world server tx = (ok, server', tx')"
  shows "booting cfg server' \<and> tx_after server server' tx tx' \<and> sv_rx_accum server' = sv_rx_accum server \<and>
    sv_tx_reset_requested server' = sv_tx_reset_requested server \<and> (\<not> ok \<longrightarrow> sv_play_bootstrap_stage server' < 7)"
  using assms
proof (induction cfg world server tx rule: bootstrap_loop.induct)
  case (1 cfg world server tx)
  note eq = bootstrap_loop.simps [of cfg world server tx]
  show ?case
  proof (cases "sv_play_bootstrap_stage server < 7")
    case False
    then have "bootstrap_step cfg world server tx = (Some True, server, tx)" by (simp add: bootstrap_step_def)
    with "1.prems" show ?thesis by (auto simp: eq tx_after_refl)
  next
    case True
    from "1.prems"(1-4) True show ?thesis
    proof (cases rule: bootstrap_step_cases)
      case (queued t)
      let ?s = "stage_advance cfg assets server"
      have b: "booting cfg ?s" by (rule stage_advance_booting [OF "1.prems"(3) True])
      have a: "tx_after server ?s tx t" by (rule tx_after_append [OF queued(3-6)]) simp
      show ?thesis
      proof (cases "sv_play_bootstrap_stage ?s = 6")
        case six: True
        with "1.prems"(5) queued(2) have "ok" "server' = ?s" "tx' = t" by (auto simp: eq)
        with a b show ?thesis by simp
      next
        case six: False
        with queued(2) have st: "bootstrap_step cfg world server tx = (None, ?s, t)" by simp
        with "1.prems"(5) have "bootstrap_loop cfg world ?s t = (ok, server', tx')" by (simp add: eq)
        from "1.IH" [OF st [symmetric] refl refl "1.prems"(1,2) b queued(3) this] a show ?thesis
          by (auto intro: tx_after_trans)
      qed
    next
      case full
      with "1.prems" True show ?thesis by (auto simp: eq tx_after_refl)
    qed
  qed
qed

lemma booting_conn_ok:
  "booting cfg server \<Longrightarrow> sv_play_bootstrap_stage server \<noteq> 7 \<Longrightarrow> conn_ok cfg server"
  "booting cfg server \<Longrightarrow> sv_play_bootstrap_stage server = 7 \<Longrightarrow> conn_ok cfg (server\<lparr>sv_play_bootstrap_sent := True\<rparr>)"
  by (auto simp: booting_def conn_ok_def)

lemma conn_ok_booting:
  assumes "conn_ok cfg server" "sv_state server = MC_CONN_PLAY" "\<not> sv_play_bootstrap_sent server"
  shows "booting cfg server" "sv_play_bootstrap_stage server < 7"
proof -
  have "sv_play_bootstrap_stage server \<noteq> 7" "sv_play_bootstrap_stage server \<le> 7" using assms(1,3) by (auto simp: conn_ok_def)
  then show "sv_play_bootstrap_stage server < 7" by simp
  show "booting cfg server" using assms by (auto simp: booting_def conn_ok_def)
qed

text \<open>The next keep-alive identifier: positive, and back to 1 after the largest.\<close>

definition next_keepalive_id :: "i32 \<Rightarrow> i32" where
  "next_keepalive_id v = (if int INT32_MAX \<le> sint v then 1 else v + 1)"

lemma next_keepalive_id_pos:
  assumes "0 \<le> sint v"
  shows "0 < sint (next_keepalive_id v)" "sint v < int INT32_MAX \<Longrightarrow> sint (next_keepalive_id v) = sint v + 1"
    "next_keepalive_id v \<noteq> 0"
proof -
  have *: "sint (v + 1) = sint v + 1" if "sint v < int INT32_MAX"
  proof -
    have u: "sint v = int (unat v)" using sint_nonneg_unat [OF assms] assms by (metis nat_0_le)
    have "of_nat (unat v + 1) = v + 1" by simp
    moreover have "sint (of_nat (unat v + 1) :: i32) = int (unat v + 1)"
      by (rule sint_of_nat_small) (use that [unfolded u of_nat_less_iff] in simp)
    ultimately have "sint (v + 1) = int (unat v + 1)" by metis
    with u show ?thesis by (simp only: of_nat_add of_nat_1)
  qed
  then show "0 < sint (next_keepalive_id v)" "sint v < int INT32_MAX \<Longrightarrow> sint (next_keepalive_id v) = sint v + 1"
    using assms by (auto simp: next_keepalive_id_def)
  then show "next_keepalive_id v \<noteq> 0" by auto
qed

lemma tick_keepalive_eq:
  "tick_keepalive cfg now server tx =
     (if sv_state server \<noteq> MC_CONN_PLAY \<or> \<not> sv_play_bootstrap_sent server \<or>
         sv_last_keepalive_tick server \<noteq> 0 \<and> now - sv_last_keepalive_tick server < cfg_keepalive_interval cfg
      then (True, server, tx)
      else case queue_keepalive cfg server (next_keepalive_id (sv_keepalive_id server)) tx of
        (ok, tx) \<Rightarrow> (ok, if ok then emit_trace MC_TRACE_KEEPALIVE_SEND (next_keepalive_id (sv_keepalive_id server)) 0 None (mc_ringbuf_len tx)
            (server\<lparr>sv_keepalive_id := next_keepalive_id (sv_keepalive_id server), sv_keepalive_pending := True,
                    sv_last_keepalive_tick := now\<rparr>) else server, tx))"
  by (simp add: tick_keepalive_def next_keepalive_id_def elapsed_ticks_def Let_def split: prod.split)

lemma tick_keepalive_sound:
  assumes "conn_ok cfg server" "rb_ok tx" "tick_keepalive cfg now server tx = (ok, server', tx')"
  shows "conn_ok cfg server' \<and> tx_after server server' tx tx' \<and> sv_rx_accum server' = sv_rx_accum server \<and>
    sv_tx_reset_requested server' = sv_tx_reset_requested server"
proof (cases "sv_state server \<noteq> MC_CONN_PLAY \<or> \<not> sv_play_bootstrap_sent server \<or>
    sv_last_keepalive_tick server \<noteq> 0 \<and> now - sv_last_keepalive_tick server < cfg_keepalive_interval cfg")
  case True
  with assms show ?thesis by (auto simp: tick_keepalive_eq tx_after_refl)
next
  case False
  let ?id = "next_keepalive_id (sv_keepalive_id server)"
  obtain ok2 t where q: "queue_keepalive cfg server ?id tx = (ok2, t)" by fastforce
  have w: "whole_frames (auto_frame cfg server (keepalive_packet ?id))"
    using length_packets(9) [of ?id] by (intro whole_frames_auto) simp
  have a: "tx_after server s tx t" if "sv_tx_reset_requested s = sv_tx_reset_requested server" for s
    using tx_after_enqueues [OF enqueues_keepalive w assms(2) q that] .
  have "conn_ok cfg (server\<lparr>sv_keepalive_id := ?id, sv_keepalive_pending := True, sv_last_keepalive_tick := now\<rparr>)"
    using assms(1) False next_keepalive_id_pos(1,3) [of "sv_keepalive_id server"] by (auto simp: conn_ok_def)
  with False q assms(1,3) a show ?thesis by (auto simp: tick_keepalive_eq split: if_splits)
qed

lemma tick_sound:
  assumes "config_ok cfg" "world_loaded cfg world assets" "server_ok cfg server" "rb_ok tx"
    "mc_server_tick_at cfg world now server tx = (ok, server', tx')"
  shows "server_ok cfg server' \<and> tx_after server server' tx tx' \<and>
    sv_tx_reset_requested server' = sv_tx_reset_requested server"
proof -
  let ?s = "server\<lparr>sv_ticks := sv_ticks server + 1\<rparr>"
  have s: "conn_ok cfg ?s" "length (sv_rx_accum ?s) \<le> MC_RX_ACCUM_CAP" using assms(3) by (simp_all add: server_ok_def)
  show ?thesis
  proof (cases "sv_state ?s = MC_CONN_PLAY \<and> \<not> sv_play_bootstrap_sent ?s")
    case False
    then have "tick_keepalive cfg now ?s tx = (ok, server', tx')" using assms(5) by (auto simp: mc_server_tick_at_def Let_def)
    from tick_keepalive_sound [OF s(1) assms(4) this] s show ?thesis by (simp add: server_ok_def)
  next
    case True
    obtain ok1 s1 t1 where l: "bootstrap_loop cfg world ?s tx = (ok1, s1, t1)" by (metis prod_cases3)
    have "booting cfg ?s" using conn_ok_booting [OF s(1)] True by blast
    note b = bootstrap_loop_sound [OF assms(1,2) this assms(4) l]
    show ?thesis
    proof (cases ok1)
      case False
      with True l assms(5) have r: "server' = s1" "tx' = t1" by (auto simp: mc_server_tick_at_def Let_def)
      have "conn_ok cfg s1" using b False by (auto intro!: booting_conn_ok(1))
      with b r s show ?thesis by (auto simp: server_ok_def)
    next
      case ok: True
      let ?s2 = "if 7 \<le> sv_play_bootstrap_stage s1
        then emit_trace MC_TRACE_BOOTSTRAP_DONE (stage_i32 s1) (chunk_i32 s1) None 0 (s1\<lparr>sv_play_bootstrap_sent := True\<rparr>) else s1"
      have "stage_i32 (s1\<lparr>sv_play_bootstrap_sent := True\<rparr>) = stage_i32 s1" "chunk_i32 (s1\<lparr>sv_play_bootstrap_sent := True\<rparr>) = chunk_i32 s1"
        by (simp_all add: stage_i32_def chunk_i32_def)
      then have t: "tick_keepalive cfg now ?s2 t1 = (ok, server', tx')"
        using True l ok assms(5) by (simp add: mc_server_tick_at_def Let_def)
      have le7: "sv_play_bootstrap_stage s1 \<le> 7" using b by (auto simp: booting_def conn_ok_def)
      have c: "conn_ok cfg ?s2" using b le7 booting_conn_ok [of cfg s1] by auto
      have "tx_after server ?s2 tx t1" using b by auto
      with tick_keepalive_sound [OF c _ t] b s tx_after_ok(1) show ?thesis
        by (auto simp: server_ok_def intro: tx_after_trans split: if_splits)
    qed
  qed
qed

section \<open>Runs of the server\<close>

text \<open>
  The server as its callers drive it: bytes of the client are received, ticks are made, and the transport
  takes bytes from the transmit ring. After a failed receive the connection is set up anew, and after a
  successful one \<open>mc_server_take_tx_reset\<close> tells whether the client starts a new stream. \<open>sent\<close> holds the
  bytes the transport has taken from the current stream.
\<close>

inductive server_step ::
    "mc_config \<Rightarrow> world_compressed \<Rightarrow> mc_server \<times> mc_ringbuf \<times> byte list \<Rightarrow> mc_server \<times> mc_ringbuf \<times> byte list \<Rightarrow> bool"
  for cfg world where
  receive: "mc_server_receive cfg bytes server tx = (True, server1, tx') \<Longrightarrow>
    mc_server_take_tx_reset server1 = (reset, server') \<Longrightarrow>
    server_step cfg world (server, tx, sent) (server', tx', if reset then [] else sent)"
| fail: "mc_server_receive cfg bytes server tx = (False, server1, tx1) \<Longrightarrow>
    server_step cfg world (server, tx, sent) (mc_server_init cfg, mc_ringbuf_init (rb_data tx1) (rb_cap tx1), [])"
| tick: "mc_server_tick_at cfg world now server tx = (ok, server', tx') \<Longrightarrow>
    server_step cfg world (server, tx, sent) (server', tx', sent)"
| transmit: "mc_ringbuf_read tx n = (bs, tx') \<Longrightarrow> server_step cfg world (server, tx, sent) (server, tx', sent @ bs)"

inductive server_reaches ::
    "mc_config \<Rightarrow> world_compressed \<Rightarrow> mc_server \<times> mc_ringbuf \<times> byte list \<Rightarrow> mc_server \<times> mc_ringbuf \<times> byte list \<Rightarrow> bool"
  for cfg world where
  refl: "server_reaches cfg world c c"
| step: "server_reaches cfg world c d \<Longrightarrow> server_step cfg world d e \<Longrightarrow> server_reaches cfg world c e"

definition run_ok :: "mc_config \<Rightarrow> mc_server \<times> mc_ringbuf \<times> byte list \<Rightarrow> bool" where
  "run_ok cfg c \<longleftrightarrow> (case c of (server, tx, sent) \<Rightarrow> server_ok cfg server \<and> \<not> sv_tx_reset_requested server \<and>
     rb_ok tx \<and> whole_frames (sent @ rb_contents tx))"

lemma tx_after_stream:
  assumes "tx_after server server' tx tx'" "\<not> sv_tx_reset_requested server" "whole_frames (sent @ rb_contents tx)"
  shows "whole_frames ((if sv_tx_reset_requested server' then [] else sent) @ rb_contents tx')"
  using assms(1) unfolding tx_after_def
proof (elim conjE exE disjE)
  fix frames
  assume f: "whole_frames frames" "rb_contents tx' = rb_contents tx @ frames"
    "sv_tx_reset_requested server' = sv_tx_reset_requested server"
  have "whole_frames ((sent @ rb_contents tx) @ frames)" by (rule whole_frames_append [OF assms(3) f(1)])
  with assms(2) f(2,3) show ?thesis by simp
qed simp

lemma server_step_ok:
  assumes "config_ok cfg" "world_loaded cfg world assets" "server_step cfg world c d" "run_ok cfg c"
  shows "run_ok cfg d"
  using assms(3,4)
proof (cases rule: server_step.cases)
  case (receive bytes server tx server1 tx' reset server' sent)
  have ok: "server_ok cfg server" "rb_ok tx" "\<not> sv_tx_reset_requested server" "whole_frames (sent @ rb_contents tx)"
    using assms(4) receive by (simp_all add: run_ok_def)
  from receive_sound [OF ok(1,2) receive(3)] have s: "server_ok cfg server1" "rb_ok tx'" "tx_after server server1 tx tx'" by simp_all
  from tx_after_stream [OF s(3) ok(3,4)] s receive(2,4) show ?thesis
    by (auto simp: run_ok_def mc_server_take_tx_reset_def server_ok_def)
next
  case (fail bytes server tx server1 tx1 sent)
  have "server_ok cfg server" "rb_ok tx" using assms(4) fail by (simp_all add: run_ok_def)
  from receive_sound [OF this fail(3)] have "rb_ok tx1" by simp
  then have r: "rb_ok (mc_ringbuf_init (rb_data tx1) (rb_cap tx1))" by (intro rb_init_ok) (simp_all add: rb_okD)
  have "server_ok cfg (mc_server_init cfg)" "\<not> sv_tx_reset_requested (mc_server_init cfg)"
    using init_conn_ok [of cfg] by (simp_all add: server_ok_def mc_server_init_def reset_play_runtime_state_def)
  with r fail(2) show ?thesis by (simp add: run_ok_def rb_init_contents)
next
  case (tick now server tx ok server' tx' sent)
  have ok: "server_ok cfg server" "rb_ok tx" "\<not> sv_tx_reset_requested server" "whole_frames (sent @ rb_contents tx)"
    using assms(4) tick by (simp_all add: run_ok_def)
  note s = tick_sound [OF assms(1,2) ok(1,2) tick(3)]
  with tx_after_stream [of server server' tx tx' sent] ok tick(2) tx_after_ok(1) show ?thesis
    by (auto simp: run_ok_def)
next
  case (transmit tx n bs tx' server sent)
  have ok: "rb_ok tx" using assms(4) transmit by (simp add: run_ok_def)
  have "rb_ok tx'" "bs @ rb_contents tx' = rb_contents tx"
    using transmit(3) rb.read_invar [OF ok, of n] rb.read_contents [OF ok, of n] rb.read_remaining [OF ok, of n] by simp_all
  with assms(4) transmit show ?thesis by (simp add: run_ok_def)
qed

lemma server_reaches_ok:
  assumes "config_ok cfg" "world_loaded cfg world assets" "server_reaches cfg world c d" "run_ok cfg c"
  shows "run_ok cfg d"
  using assms(3,4) by (induction rule: server_reaches.induct) (auto intro: server_step_ok [OF assms(1,2)])

lemma init_run_ok: "0 < cap \<Longrightarrow> length storage = cap \<Longrightarrow> run_ok cfg (mc_server_init cfg, mc_ringbuf_init storage cap, [])"
  using init_conn_ok [of cfg] rb_init_ok [of cap storage]
  by (simp add: run_ok_def server_ok_def rb_init_contents) (simp add: mc_server_init_def reset_play_runtime_state_def)

lemma server_ok_trace: "server_ok cfg (s\<lparr>sv_trace := t\<rparr>) = server_ok cfg s"
  by (simp add: server_ok_def conn_ok_def)

section \<open>The contract for drivers\<close>

text \<open>
  What a program that drives the server relies on, the socket loop as well as the firmware: an invariant over
  the server, its transmit queue and the bytes taken from the current stream that receiving, ticking and taking
  bytes keep, and from which it follows that the stream consists of whole packets.
\<close>

datatype driver_event = Receive "byte list" | Tick u32 | Take nat

text \<open>The bytes a driver hands to the server.\<close>

fun driver_input :: "driver_event list \<Rightarrow> byte list" where
  "driver_input [] = []"
| "driver_input (Receive bytes # es) = bytes @ driver_input es"
| "driver_input (Tick now # es) = driver_input es"
| "driver_input (Take n # es) = driver_input es"

lemma driver_input_append [simp]: "driver_input (es @ es') = driver_input es @ driver_input es'"
  by (induction es rule: driver_input.induct) simp_all

locale stream_server =
  fixes good :: "'s \<times> 'q \<times> byte list \<Rightarrow> bool"
    and queued :: "'q \<Rightarrow> byte list"
    and drop_front :: "'q \<Rightarrow> nat \<Rightarrow> 'q"
    and receive :: "byte list \<Rightarrow> 's \<Rightarrow> 'q \<Rightarrow> bool \<times> 's \<times> 'q"
    and take_reset :: "'s \<Rightarrow> bool \<times> 's"
    and tick :: "u32 \<Rightarrow> 's \<Rightarrow> 'q \<Rightarrow> bool \<times> 's \<times> 'q"
  assumes receive_good: "good (s, q, sent) \<Longrightarrow> receive bytes s q = (True, s1, q') \<Longrightarrow> take_reset s1 = (reset, s') \<Longrightarrow>
      good (s', q', if reset then [] else sent)"
    and tick_good: "good (s, q, sent) \<Longrightarrow> tick now s q = (ok, s', q') \<Longrightarrow> good (s', q', sent)"
    and take_good: "good (s, q, sent) \<Longrightarrow> n \<le> length (queued q) \<Longrightarrow>
      good (s, drop_front q n, sent @ take n (queued q))"
    and good_whole: "good (s, q, sent) \<Longrightarrow> whole_frames (sent @ queued q)"
begin

text \<open>One action of a driver; \<open>None\<close> when the server refuses what it received, or to take more than there is.\<close>

fun drive :: "driver_event \<Rightarrow> 's \<times> 'q \<times> byte list \<Rightarrow> ('s \<times> 'q \<times> byte list) option" where
  "drive (Receive bytes) (s, q, sent) =
     (case receive bytes s q of
        (ok, s, q) \<Rightarrow>
          if \<not> ok then None
          else (case take_reset s of (reset, s) \<Rightarrow> Some (s, q, if reset then [] else sent)))"
| "drive (Tick now) (s, q, sent) = (case tick now s q of (ok, s, q) \<Rightarrow> Some (s, q, sent))"
| "drive (Take n) (s, q, sent) =
     (if n \<le> length (queued q) then Some (s, drop_front q n, sent @ take n (queued q)) else None)"

fun drives :: "driver_event list \<Rightarrow> 's \<times> 'q \<times> byte list \<Rightarrow> ('s \<times> 'q \<times> byte list) option" where
  "drives [] c = Some c"
| "drives (e # es) c = Option.bind (drive e c) (drives es)"

lemma drive_good: "good c \<Longrightarrow> drive e c = Some c' \<Longrightarrow> good c'"
  by (cases "(e, c)" rule: drive.cases)
    (auto dest: receive_good intro: tick_good take_good split: prod.splits if_splits)

lemma drives_good: "good c \<Longrightarrow> drives es c = Some c' \<Longrightarrow> good c'"
  by (induction es c rule: drives.induct) (auto simp: bind_eq_Some_conv dest: drive_good)

lemma drives_append: "drives (es @ es') c = Option.bind (drives es c) (drives es')"
  by (induction es arbitrary: c) (auto split: bind_split)

lemma drives_whole: "good c \<Longrightarrow> drives es c = Some (s, q, sent) \<Longrightarrow> whole_frames (sent @ queued q)"
  using drives_good good_whole by blast

text \<open>All bytes taken, over the dropped streams too.\<close>

fun outputs :: "driver_event list \<Rightarrow> 's \<times> 'q \<times> byte list \<Rightarrow> byte list" where
  "outputs [] c = []"
| "outputs (e # es) c =
     (case e of Take n \<Rightarrow> take n (queued (fst (snd c))) | _ \<Rightarrow> []) @
     (case drive e c of None \<Rightarrow> [] | Some c \<Rightarrow> outputs es c)"

lemma outputs_append: "drives es c = Some c' \<Longrightarrow> outputs (es @ es') c = outputs es c @ outputs es' c'"
  by (induction es arbitrary: c) (auto simp: bind_eq_Some_conv)

lemma drives_snoc: "drives es c = Some c' \<Longrightarrow> drives (es @ [e]) c = drive e c'"
  by (cases "drive e c'") (simp_all add: drives_append)

lemma outputs_snoc:
  "drives es c = Some c' \<Longrightarrow>
     outputs (es @ [e]) c = outputs es c @ (case e of Take n \<Rightarrow> take n (queued (fst (snd c'))) | _ \<Rightarrow> [])"
  by (auto simp: outputs_append split: option.split)

text \<open>
  A stream ends when the server, receiving, accepts a new handshake. For every stream that has ended: what was taken of
  it, and what was queued when the call came that ended it.
\<close>

fun ends_stream :: "driver_event \<Rightarrow> 's \<times> 'q \<times> byte list \<Rightarrow> bool" where
  "ends_stream (Receive bytes) (s, q, sent) = (case receive bytes s q of (ok, s, q) \<Rightarrow> ok \<and> fst (take_reset s))"
| "ends_stream (Tick now) c = False"
| "ends_stream (Take n) c = False"

fun streams :: "driver_event list \<Rightarrow> 's \<times> 'q \<times> byte list \<Rightarrow> (byte list \<times> byte list) list" where
  "streams [] c = []"
| "streams (e # es) (s, q, sent) =
     (if ends_stream e (s, q, sent) then [(sent, queued q)] else []) @
     (case drive e (s, q, sent) of None \<Rightarrow> [] | Some c \<Rightarrow> streams es c)"

text \<open>So the bytes taken are these streams, and of each only whole packets, or what was queued at its end, are missing.\<close>

lemma drive_sent:
  assumes "drive e (s, q, sent) = Some (s', q', sent')"
  shows "sent' = (if ends_stream e (s, q, sent) then [] else sent @ (case e of Take n \<Rightarrow> take n (queued q) | _ \<Rightarrow> []))"
  using assms by (cases e) (auto split: prod.splits if_splits)

lemma outputs_streams:
  assumes "good (s, q, sent)" "drives es (s, q, sent) = Some (s', q', fresh)"
  shows "sent @ outputs es (s, q, sent) = concat (map fst (streams es (s, q, sent))) @ fresh \<and>
    (\<forall>(taken, dropped) \<in> set (streams es (s, q, sent)). whole_frames (taken @ dropped))"
  using assms
proof (induction es arbitrary: s q sent)
  case (Cons e es)
  obtain s1 q1 sent1 where d: "drive e (s, q, sent) = Some (s1, q1, sent1)" "drives es (s1, q1, sent1) = Some (s', q', fresh)"
    using Cons.prems(2) by (auto simp: bind_eq_Some_conv)
  note IH = Cons.IH [OF drive_good [OF Cons.prems(1) d(1)] d(2)]
  show ?case
  proof (cases "ends_stream e (s, q, sent)")
    case True
    moreover from True obtain bytes where "e = Receive bytes" by (cases e) simp_all
    ultimately show ?thesis
      using IH d(1) drive_sent [OF d(1)] good_whole [OF Cons.prems(1)] by (simp del: drive.simps ends_stream.simps)
  next
    case False
    with IH d(1) drive_sent [OF d(1)] show ?thesis by (simp del: drive.simps ends_stream.simps cong: driver_event.case_cong)
  qed
qed simp

end

definition driven_ok ::
    "mc_config \<Rightarrow> world_compressed \<Rightarrow> mc_world_compressed_asset list \<Rightarrow> mc_server \<times> mc_ringbuf \<times> byte list \<Rightarrow> bool" where
  "driven_ok cfg world assets c \<longleftrightarrow> config_ok cfg \<and> world_loaded cfg world assets \<and> run_ok cfg c"

interpretation srv: stream_server "driven_ok cfg world assets" rb_contents mc_ringbuf_drop "mc_server_receive cfg"
    mc_server_take_tx_reset "mc_server_tick_at cfg world" for cfg world assets
proof (unfold_locales, goal_cases)
  case (1 s q sent bytes s1 q' reset s')
  then show ?case using server_step_ok [OF _ _ server_step.receive [OF 1(2,3)]] unfolding driven_ok_def by blast
next
  case (2 s q sent now ok s' q')
  then show ?case using server_step_ok [OF _ _ server_step.tick [OF 2(2)]] unfolding driven_ok_def by blast
next
  case (3 s q sent n)
  then have "take n (rb_contents q) @ drop n (rb_contents q) = rb_contents q" "rb_ok q"
    by (simp_all add: driven_ok_def run_ok_def)
  with 3 show ?case by (simp add: driven_ok_def run_ok_def rb_drop_ok rb_drop_contents)
qed (simp add: driven_ok_def run_ok_def)

text \<open>The driver's actions on this server, by name.\<close>

definition server_drives ::
    "mc_config \<Rightarrow> world_compressed \<Rightarrow> driver_event list \<Rightarrow> mc_server \<times> mc_ringbuf \<times> byte list \<Rightarrow>
     (mc_server \<times> mc_ringbuf \<times> byte list) option" where
  "server_drives cfg world = srv.drives cfg world"

definition server_outputs ::
    "mc_config \<Rightarrow> world_compressed \<Rightarrow> driver_event list \<Rightarrow> mc_server \<times> mc_ringbuf \<times> byte list \<Rightarrow> byte list" where
  "server_outputs cfg world = srv.outputs cfg world"

definition server_streams ::
    "mc_config \<Rightarrow> world_compressed \<Rightarrow> driver_event list \<Rightarrow> mc_server \<times> mc_ringbuf \<times> byte list \<Rightarrow>
     (byte list \<times> byte list) list" where
  "server_streams cfg world = srv.streams cfg world"

lemmas server_drives_snoc = srv.drives_snoc [folded server_drives_def]
lemmas server_outputs_snoc = srv.outputs_snoc [folded server_drives_def server_outputs_def]
lemmas server_outputs_streams = srv.outputs_streams [folded server_drives_def server_outputs_def server_streams_def]
lemmas server_drives_good = srv.drives_good [folded server_drives_def]

section \<open>Properties\<close>

text \<open>C6: the state machine keeps its invariant in every reachable state: compression is on exactly in the play
  state of a build that has it, a player has a name of 1 to 16 bytes without zero exactly in the play state,
  the bootstrap is marked as sent exactly when all stages are done and never outside the play state, keep-alives
  wait for an answer only after the bootstrap, the time of day is valid, and the receive buffer never exceeds
  its array.\<close>

theorem server_state_invariant:
  assumes "config_ok cfg" "world_loaded cfg world assets" "0 < cap" "length storage = cap"
    "server_reaches cfg world (mc_server_init cfg, mc_ringbuf_init storage cap, []) (server, tx, sent)"
  shows "length (sv_rx_accum server) \<le> MC_RX_ACCUM_CAP \<and>
    (sv_compression_enabled server \<longleftrightarrow> cfg_compression cfg \<and> sv_state server = MC_CONN_PLAY) \<and>
    (sv_state server = MC_CONN_PLAY \<longleftrightarrow> sv_username server \<noteq> []) \<and>
    length (sv_username server) \<le> 16 \<and> 0 \<notin> set (sv_username server) \<and>
    sv_play_bootstrap_stage server \<le> MC_BOOTSTRAP_DONE \<and>
    (sv_play_bootstrap_sent server \<longleftrightarrow> sv_play_bootstrap_stage server = MC_BOOTSTRAP_DONE) \<and>
    (sv_play_bootstrap_stage server \<noteq> 0 \<longrightarrow> sv_state server = MC_CONN_PLAY) \<and>
    (sv_keepalive_pending server \<longrightarrow> sv_play_bootstrap_sent server \<and> 0 < sint (sv_keepalive_id server)) \<and>
    0 \<le> sint (sv_world_time server) \<and> sint (sv_world_time server) \<le> 24000"
proof -
  from server_reaches_ok [OF assms(1,2,5) init_run_ok [OF assms(3,4)]]
  have ok: "server_ok cfg server" by (simp add: run_ok_def)
  have "0 < sint (sv_keepalive_id server)" if "sv_keepalive_pending server"
  proof -
    have "sint (sv_keepalive_id server) \<noteq> 0" "0 \<le> sint (sv_keepalive_id server)"
      using ok that by (auto simp: server_ok_def conn_ok_def signed_eq_0_iff)
    then show ?thesis by simp
  qed
  then show ?thesis using ok by (auto simp: server_ok_def conn_ok_def)
qed

theorem server_state_invariant_witness:
  "let cfg = \<lparr>cfg_compression = True, cfg_psram_map = False, cfg_threshold = 1, cfg_keepalive_interval = 1\<rparr>
   in \<not> sv_compression_enabled (mc_server_init cfg) \<and> sv_username (mc_server_init cfg) = []"
  using server_state_invariant [OF _ _ _ _ server_reaches.refl,
      of "\<lparr>cfg_compression = True, cfg_psram_map = False, cfg_threshold = 1, cfg_keepalive_interval = 1\<rparr>" undefined "[]" 1 "[0]"]
  by (simp add: config_ok_def world_loaded_def mc_server_init_def reset_play_runtime_state_def)

end
