(* ===== verification/Firmware.thy ===== *)
theory Firmware
  imports Log Psram LinkSession Server "HOL-Library.Monad_Syntax"
begin

text \<open>
  The main program of the firmware, firmware/main.c: boot, the three pumps of the main loop and the
  resets that tie link session and server together. The state holds the static variables of the file
  and of the modules it drives; \<open>rx_ring\<close> is the ring the session points to. A call that the
  components leave undefined makes the result \<open>None\<close>. The server's trace callback only logs and notes
  the last back-pressure, so the events a call emits are passed to it when the call returns.
\<close>

section \<open>State\<close>

text \<open>The build: options of the firmware and of the core, the tick rate and the generated map assets.\<close>

record build =
  bd_firmware :: firmware_config
  bd_core :: mc_config
  bd_ticks_per_second :: u32
  bd_assets :: "mc_world_compressed_asset list"
  bd_assets_total_bytes :: nat

record firmware =
  fw_platform :: platform
  fw_led :: activity_led
  fw_world :: world_compressed
  fw_tx_ring :: mc_ringbuf
  fw_server :: mc_server
  fw_link_session :: mc_link_session
  fw_link_pending :: "byte list"
  fw_link_pending_pos :: nat
  fw_rx_parse_error_count :: u32
  fw_tx_backpressure_count :: u32
  fw_link_rx_error_count :: u32
  fw_link_tx_backpressure_count :: u32
  fw_tx_backpressure_stage :: i32
  fw_tx_backpressure_chunk :: i32
  fw_link_m2c_queue_count :: u32
  fw_link_uart_tx_bytes :: u32

abbreviation MC_RX_RING_CAP :: nat where "MC_RX_RING_CAP \<equiv> 8192"
abbreviation MC_TX_RING_CAP :: nat where "MC_TX_RING_CAP \<equiv> 49152"
abbreviation MC_TICK_BUDGET_RX_BYTES :: nat where "MC_TICK_BUDGET_RX_BYTES \<equiv> 512"

abbreviation fw_bus :: "firmware \<Rightarrow> bus" where "fw_bus fw \<equiv> pf_bus (fw_platform fw)"

definition set_bus :: "bus \<Rightarrow> firmware \<Rightarrow> firmware" where
  "set_bus b fw = fw\<lparr>fw_platform := (fw_platform fw)\<lparr>pf_bus := b\<rparr>\<rparr>"

definition fw_log :: "(bus \<Rightarrow> bus option) \<Rightarrow> firmware \<Rightarrow> firmware option" where
  "fw_log f fw = map_option (\<lambda>b. set_bus b fw) (f (fw_bus fw))"

definition logi :: "build \<Rightarrow> string \<Rightarrow> log_arg list \<Rightarrow> firmware \<Rightarrow> firmware option" where
  "logi bd fmt args = fw_log (MC_LOGI (bd_firmware bd) (str_bytes fmt) args)"

definition logd :: "build \<Rightarrow> string \<Rightarrow> log_arg list \<Rightarrow> firmware \<Rightarrow> firmware option" where
  "logd bd fmt args = fw_log (MC_LOGD (bd_firmware bd) (str_bytes fmt) args)"

definition should_log_count :: "u32 \<Rightarrow> bool" where
  "should_log_count count \<longleftrightarrow> count = 1 \<or> (count \<noteq> 0 \<and> count AND (count - 1) = 0)"

section \<open>Trace events\<close>

definition server_trace :: "build \<Rightarrow> mc_trace_event \<Rightarrow> firmware \<Rightarrow> firmware option" where
  "server_trace bd event fw =
     (case te_type event of
        MC_TRACE_FRAME_READY \<Rightarrow>
          logd bd ''frame ready len=%u state=%d'' [Arg_unsigned (te_value0 event), Arg_int (te_value1 event)] fw
      | MC_TRACE_HANDSHAKE \<Rightarrow>
          logd bd ''handshake next_state=%d proto=%d'' [Arg_int (te_value0 event), Arg_int (te_value1 event)] fw
      | MC_TRACE_STATUS_REQUEST \<Rightarrow> logd bd ''status request'' [] fw
      | MC_TRACE_STATUS_PING \<Rightarrow> logd bd ''status ping'' [] fw
      | MC_TRACE_LOGIN_START \<Rightarrow>
          logi bd ''login username=%s'' [Arg_str (case te_text event of None \<Rightarrow> Some [] | Some text \<Rightarrow> Some text)] fw
      | MC_TRACE_PLAY_ENTER \<Rightarrow> logi bd ''play enter'' [] fw
      | MC_TRACE_BOOTSTRAP_STAGE \<Rightarrow>
          logd bd ''bootstrap stage=%d chunk=%d'' [Arg_int (te_value0 event), Arg_int (te_value1 event)] fw
      | MC_TRACE_BOOTSTRAP_DONE \<Rightarrow> logi bd ''world bootstrap complete chunks=%d'' [Arg_int (te_value1 event)] fw
      | MC_TRACE_QUEUE_FULL \<Rightarrow>
          Some (fw\<lparr>fw_tx_backpressure_stage := te_value0 event, fw_tx_backpressure_chunk := te_value1 event\<rparr>)
      | MC_TRACE_KEEPALIVE_SEND \<Rightarrow>
          logd bd ''keepalive send id=%d tx_len=%u''
            [Arg_int (te_value0 event), Arg_unsigned (of_nat (te_text_len event))] fw
      | MC_TRACE_KEEPALIVE_ACK \<Rightarrow> logd bd ''keepalive ack id=%d'' [Arg_int (te_value0 event)] fw
      | MC_TRACE_PLAY_UNHANDLED \<Rightarrow>
          logd bd ''play unhandled packet id=%d len=%d'' [Arg_int (te_value0 event), Arg_int (te_value1 event)] fw)"

fun trace_events :: "build \<Rightarrow> mc_trace_event list \<Rightarrow> firmware \<Rightarrow> firmware option" where
  "trace_events bd [] fw = Some fw"
| "trace_events bd (event # events) fw = do { fw \<leftarrow> server_trace bd event fw; trace_events bd events fw }"

text \<open>The callbacks of the server call that just returned.\<close>

definition run_trace :: "build \<Rightarrow> firmware \<Rightarrow> firmware option" where
  "run_trace bd fw =
     (case sv_trace (fw_server fw) of
        None \<Rightarrow> Some fw
      | Some events \<Rightarrow> trace_events bd events (fw\<lparr>fw_server := (fw_server fw)\<lparr>sv_trace := Some []\<rparr>\<rparr>))"

section \<open>Stale data and resets\<close>

definition link_pending_is_data_m2c :: "build \<Rightarrow> firmware \<Rightarrow> bool" where
  "link_pending_is_data_m2c bd fw =
     (let pending = fw_link_pending fw in
      if length pending = 0 \<or> fw_link_pending_pos fw > 0 \<or>
         length pending > fc_link_tx_pending_bytes (bd_firmware bd) then False
      else case mc_link_decode_frame pending of
             None \<Rightarrow> False
           | Some frame \<Rightarrow> fr_type frame = MC_LINK_DATA_M2C)"

definition drop_stale_link_tx_data :: "build \<Rightarrow> firmware \<Rightarrow> firmware" where
  "drop_stale_link_tx_data bd fw =
     (let fw = fw\<lparr>fw_link_session := mc_link_session_drop_queued_data (fw_link_session fw)\<rparr>
      in if fw_link_pending_pos fw = 0 \<and> s_active_tx_queue (fw_link_session fw) \<noteq> MC_LINK_SESSION_TX_DATA \<and>
            link_pending_is_data_m2c bd fw
         then fw\<lparr>fw_link_pending := [], fw_link_pending_pos := 0\<rparr>
         else fw)"

definition reset_connection_quiet :: "build \<Rightarrow> firmware \<Rightarrow> firmware option" where
  "reset_connection_quiet bd fw =
     (case s_rx (fw_link_session fw) of
        None \<Rightarrow> None
      | Some rx \<Rightarrow>
          Some (drop_stale_link_tx_data bd
            (fw\<lparr>fw_link_session := (fw_link_session fw)\<lparr>s_rx := Some (mc_ringbuf_init (rb_data rx) MC_RX_RING_CAP)\<rparr>,
                fw_tx_ring := mc_ringbuf_init (rb_data (fw_tx_ring fw)) MC_TX_RING_CAP,
                fw_server := mc_server_set_trace True (mc_server_init (bd_core bd))\<rparr>)))"

definition reset_connection :: "build \<Rightarrow> string \<Rightarrow> firmware \<Rightarrow> firmware option" where
  "reset_connection bd reason fw =
     do { fw \<leftarrow> reset_connection_quiet bd fw;
          logi bd ''connection reset reason=%s'' [Arg_str (Some (str_bytes reason))] fw }"

section \<open>The pumps\<close>

definition observe :: "build \<Rightarrow> nat \<Rightarrow> firmware \<Rightarrow> firmware" where
  "observe bd n fw =
     fw\<lparr>fw_led := mc_activity_led_observe_bytes (fc_uart_activity_led_enable (bd_firmware bd)) n (fw_led fw)\<rparr>"

definition when_opt :: "bool \<Rightarrow> (firmware \<Rightarrow> firmware option) \<Rightarrow> firmware \<Rightarrow> firmware option" where
  "when_opt c f fw = (if c then f fw else Some fw)"

definition link_rx_failed :: "build \<Rightarrow> firmware \<Rightarrow> firmware option" where
  "link_rx_failed bd fw =
     (let fw = fw\<lparr>fw_link_rx_error_count := fw_link_rx_error_count fw + 1\<rparr>;
          reparse = (\<lambda>fw. fw\<lparr>fw_link_session := (fw_link_session fw)\<lparr>s_parser := mc_link_parser_init\<rparr>\<rparr>)
      in if should_log_count (fw_link_rx_error_count fw)
         then do { fw \<leftarrow> logi bd ''link rx error count=%u'' [Arg_unsigned (fw_link_rx_error_count fw)] fw;
                   reset_connection bd ''link_rx_error'' (reparse fw) }
         else reset_connection_quiet bd (reparse fw))"

definition pump_link_rx :: "build \<Rightarrow> firmware \<Rightarrow> firmware option" where
  "pump_link_rx bd fw =
     (let fc = bd_firmware bd in
      case platform_bridge_read fc MC_TICK_BUDGET_RX_BYTES (fw_bus fw) of
        (buf, b) \<Rightarrow>
          let fw = set_bus b fw in
          if buf = [] then Some fw
          else do {
            fw \<leftarrow> when_opt (fc_log_link_uart_io fc)
                   (logd bd ''link rx uart bytes=%u'' [Arg_unsigned (of_nat (length buf))]) (observe bd (length buf) fw);
            fw \<leftarrow> when_opt (fc_trace_link_uart_rx_data fc)
                   (fw_log (MC_LOGT_HEXDUMP fc (str_bytes ''link rx uart data'') buf)) fw;
            (ok, session) \<leftarrow> mc_link_session_receive_bytes (fw_link_session fw) buf;
            fw \<leftarrow> when_opt (\<not> ok) (link_rx_failed bd) (fw\<lparr>fw_link_session := session\<rparr>);
            case mc_link_session_take_reset_requested (fw_link_session fw) of
              (reset, session) \<Rightarrow> when_opt reset (reset_connection bd ''link_reset'') (fw\<lparr>fw_link_session := session\<rparr>) })"

text \<open>What both calls of \<open>mc_server_take_tx_reset\<close> in \<open>pump_server\<close> lead to.\<close>

definition take_server_reset :: "build \<Rightarrow> firmware \<Rightarrow> firmware option" where
  "take_server_reset bd fw =
     (case mc_server_take_tx_reset (fw_server fw) of
        (reset, server) \<Rightarrow>
          let fw = fw\<lparr>fw_server := server\<rparr> in
          if reset then
            map_option (drop_stale_link_tx_data bd)
              (logd bd ''link pending preserved len=%u pos=%u''
                [Arg_unsigned (of_nat (length (fw_link_pending fw))), Arg_unsigned (of_nat (fw_link_pending_pos fw))] fw)
          else Some fw)"

definition server_failed :: "build \<Rightarrow> firmware \<Rightarrow> firmware option" where
  "server_failed bd fw =
     do { fw \<leftarrow> logi bd ''parse error count=%u'' [Arg_unsigned (fw_rx_parse_error_count fw + 1)]
                  (fw\<lparr>fw_rx_parse_error_count := fw_rx_parse_error_count fw + 1\<rparr>);
          reset_connection bd ''parse_error''
            (fw\<lparr>fw_link_session :=
                  snd (mc_link_session_reset_after_error (fw_link_session fw) MC_LINK_ERR_PROTOCOL_STATE 0)\<rparr>) }"

text \<open>The first half of \<open>pump_server\<close>: whether it goes on to the tick.\<close>

definition pump_server_rx :: "build \<Rightarrow> firmware \<Rightarrow> (bool \<times> firmware) option" where
  "pump_server_rx bd fw =
     do { rx \<leftarrow> s_rx (fw_link_session fw);
          case mc_ringbuf_read rx MC_TICK_BUDGET_RX_BYTES of
            (buf, rx) \<Rightarrow>
              let fw = fw\<lparr>fw_link_session := (fw_link_session fw)\<lparr>s_rx := Some rx\<rparr>\<rparr> in
              if buf = [] then Some (True, fw)
              else case mc_server_receive (bd_core bd) buf (fw_server fw) (fw_tx_ring fw) of
                (ok, server, tx) \<Rightarrow>
                  do { fw \<leftarrow> run_trace bd (fw\<lparr>fw_server := server, fw_tx_ring := tx\<rparr>);
                       if \<not> ok then map_option (Pair False) (server_failed bd fw)
                       else map_option (Pair True) (take_server_reset bd
                         (fw\<lparr>fw_link_session :=
                               mc_link_session_credit_consumed (fw_link_session fw) (length buf)\<rparr>)) } }"

definition fw_ticks :: "firmware \<Rightarrow> u32 \<times> firmware" where
  "fw_ticks fw = (case platform_ticks (fw_platform fw) of (ticks, p) \<Rightarrow> (ticks, fw\<lparr>fw_platform := p\<rparr>))"

definition tick_failed :: "build \<Rightarrow> firmware \<Rightarrow> firmware option" where
  "tick_failed bd fw =
     (let fw = fw\<lparr>fw_tx_backpressure_count := fw_tx_backpressure_count fw + 1\<rparr>
      in when_opt (should_log_count (fw_tx_backpressure_count fw))
           (logi bd ''tx backpressure count=%u stage=%d chunk=%d''
             [Arg_unsigned (fw_tx_backpressure_count fw), Arg_int (fw_tx_backpressure_stage fw),
              Arg_int (fw_tx_backpressure_chunk fw)]) fw)"

definition pump_server :: "build \<Rightarrow> firmware \<Rightarrow> firmware option" where
  "pump_server bd fw =
     do { (continue, fw) \<leftarrow> pump_server_rx bd fw;
          if \<not> continue then Some fw
          else case fw_ticks fw of
            (now_ticks, fw) \<Rightarrow>
              (case mc_server_tick_at (bd_core bd) (fw_world fw) now_ticks (fw_server fw) (fw_tx_ring fw) of
                 (ok, server, tx) \<Rightarrow>
                   do { fw \<leftarrow> run_trace bd (fw\<lparr>fw_server := server, fw_tx_ring := tx\<rparr>);
                        fw \<leftarrow> when_opt (\<not> ok) (tick_failed bd) fw;
                        take_server_reset bd fw }) }"

text \<open>A write to the bridge with what follows it when bytes were taken.\<close>

definition bridge_write :: "build \<Rightarrow> byte list \<Rightarrow> firmware \<Rightarrow> (nat \<times> firmware) option" where
  "bridge_write bd bs fw =
     (let fc = bd_firmware bd in
      case platform_bridge_write fc bs (fw_bus fw) of
        (written, b) \<Rightarrow>
          let fw = set_bus b fw in
          if written = 0 then Some (0, fw)
          else do {
            fw \<leftarrow> when_opt (MC_LOG_DEBUG \<le> fc_log_level fc)
                   (\<lambda>fw. let fw = fw\<lparr>fw_link_uart_tx_bytes := fw_link_uart_tx_bytes fw + of_nat written\<rparr>
                         in when_opt (should_log_count (fw_link_uart_tx_bytes fw))
                              (logd bd ''link uart tx bytes=%u'' [Arg_unsigned (fw_link_uart_tx_bytes fw)]) fw)
                   (observe bd written fw);
            fw \<leftarrow> when_opt (fc_log_link_uart_io fc)
                   (logd bd ''link tx uart bytes=%u'' [Arg_unsigned (of_nat written)]) fw;
            Some (written, fw) })"

text \<open>The pending frame goes out first; the result says how much budget is left, if any.\<close>

definition pump_link_pending :: "build \<Rightarrow> firmware \<Rightarrow> (nat \<times> firmware) option" where
  "pump_link_pending bd fw =
     (let budget = fc_link_tx_max_bytes_per_loop (bd_firmware bd);
          pending = fw_link_pending fw; pos = fw_link_pending_pos fw
      in if pos < length pending then
           do { (written, fw) \<leftarrow> bridge_write bd (take (min (length pending - pos) budget) (drop pos pending)) fw;
                let fw = fw\<lparr>fw_link_pending_pos := pos + written\<rparr>
                in if pos + written < length pending then Some (0, fw)
                   else Some (budget - written, fw\<lparr>fw_link_pending := [], fw_link_pending_pos := 0\<rparr>) }
         else Some (budget, fw))"

definition queue_server_tx :: "build \<Rightarrow> firmware \<Rightarrow> firmware option" where
  "queue_server_tx bd fw =
     (let m2c_frames_before = s_data_m2c_frames (fw_link_session fw) in
      case mc_link_session_queue_server_tx (fw_link_session fw) (fw_tx_ring fw) of
        (ok, session, tx) \<Rightarrow>
          do { fw \<leftarrow> when_opt (\<not> ok)
                 (\<lambda>fw. let fw = fw\<lparr>fw_link_tx_backpressure_count := fw_link_tx_backpressure_count fw + 1\<rparr>
                       in when_opt (should_log_count (fw_link_tx_backpressure_count fw))
                            (logi bd ''link tx backpressure count=%u''
                              [Arg_unsigned (fw_link_tx_backpressure_count fw)]) fw)
                 (fw\<lparr>fw_link_session := session, fw_tx_ring := tx\<rparr>);
               when_opt (MC_LOG_DEBUG \<le> fc_log_level (bd_firmware bd) \<and>
                         s_data_m2c_frames (fw_link_session fw) \<noteq> m2c_frames_before)
                 (\<lambda>fw. let fw = fw\<lparr>fw_link_m2c_queue_count := fw_link_m2c_queue_count fw + 1\<rparr>
                       in when_opt (should_log_count (fw_link_m2c_queue_count fw))
                            (logd bd ''link m2c queued frames=%u tx_ring=%u''
                              [Arg_unsigned (s_data_m2c_frames (fw_link_session fw)),
                               Arg_unsigned (of_nat (mc_ringbuf_len (fw_tx_ring fw)))]) fw) fw })"

text \<open>The last part: fetch the next chunk from the session and begin to send it.\<close>

definition send_next_pending :: "build \<Rightarrow> nat \<Rightarrow> firmware \<Rightarrow> firmware option" where
  "send_next_pending bd budget fw =
     (case mc_link_session_read_tx (fw_link_session fw) (fc_link_tx_pending_bytes (bd_firmware bd)) of
        (pending, session) \<Rightarrow>
          let fw = fw\<lparr>fw_link_session := session, fw_link_pending := pending\<rparr> in
          if pending = [] then Some fw
          else do { (written, fw) \<leftarrow> bridge_write bd (take (min (length pending) budget) pending) fw;
                    if length pending \<le> written
                    then Some (fw\<lparr>fw_link_pending := [], fw_link_pending_pos := 0\<rparr>)
                    else Some (fw\<lparr>fw_link_pending_pos := written\<rparr>) })"

definition pump_link_tx :: "build \<Rightarrow> firmware \<Rightarrow> firmware option" where
  "pump_link_tx bd fw =
     do { (budget, fw) \<leftarrow> pump_link_pending bd fw;
          if budget = 0 then Some fw
          else do { fw \<leftarrow> queue_server_tx bd fw; send_next_pending bd budget fw } }"

section \<open>Boot and main loop\<close>

text \<open>The flag tells whether the boot goes on; otherwise the firmware halts in an endless loop.\<close>

definition init_compressed_map_or_halt :: "build \<Rightarrow> firmware \<Rightarrow> (bool \<times> firmware) option" where
  "init_compressed_map_or_halt bd fw =
     (if \<not> cfg_psram_map (bd_core bd) then Some (True, fw)
      else case platform_psram_init (bd_firmware bd) (fw_bus fw) (activity_led_port (fw_led fw)) of
        (ok, b, g) \<Rightarrow>
          let fw = set_bus b (fw\<lparr>fw_led := (fw_led fw)\<lparr>activity_led_port := g\<rparr>\<rparr>) in
          if \<not> ok then map_option (Pair False) (logi bd ''psram init failed; halted'' [] fw)
          else case mc_world_compressed_init (bd_core bd) (bd_assets bd) (bd_assets_total_bytes bd)
                      platform_psram_size (fw_world fw) of
            (ok, world) \<Rightarrow>
              let fw = fw\<lparr>fw_world := world\<rparr> in
              if \<not> ok then map_option (Pair False) (logi bd ''compressed map psram init failed; halted'' [] fw)
              else map_option (Pair True)
                (logi bd ''compressed map psram ready chunks=%u''
                  [Arg_unsigned (of_nat (mc_world_compressed_chunk_count (bd_core bd) world))] fw))"

definition led_init :: "build \<Rightarrow> firmware \<Rightarrow> firmware" where
  "led_init bd fw =
     (case fw_ticks fw of
        (ticks, fw) \<Rightarrow>
          fw\<lparr>fw_led := mc_activity_led_init (fc_uart_activity_led_enable (bd_firmware bd)) ticks (fw_led fw)\<rparr>)"

definition main_boot :: "build \<Rightarrow> mc_ringbuf \<Rightarrow> firmware \<Rightarrow> (bool \<times> firmware) option" where
  "main_boot bd rx_ring fw =
     (let fc = bd_firmware bd;
          fw = fw\<lparr>fw_platform := platform_init fc (fw_platform fw),
                  fw_link_session := mc_link_session_init (Some rx_ring)\<rparr>
      in do { fw \<leftarrow> logi bd ''mc-uart boot'' [] fw;
              fw \<leftarrow> logi bd ''uart0_baud=%u uart1_baud=%u bridge_uart=%u log_uart=%u''
                     [Arg_unsigned (of_nat (fc_uart0_baud fc)), Arg_unsigned (of_nat (fc_uart1_baud fc)),
                      Arg_unsigned (of_nat (fc_bridge_uart_id fc)), Arg_unsigned (of_nat (fc_log_uart_id fc))] fw;
              (ok, fw) \<leftarrow> init_compressed_map_or_halt bd fw;
              if \<not> ok then Some (False, fw)
              else map_option (Pair True) (reset_connection bd ''boot'' (led_init bd fw)) })"

definition main_round :: "build \<Rightarrow> firmware \<Rightarrow> firmware option" where
  "main_round bd fw =
     do { fw \<leftarrow> pump_link_rx bd fw;
          fw \<leftarrow> pump_server bd fw;
          fw \<leftarrow> pump_link_tx bd fw;
          case fw_ticks fw of
            (ticks, fw) \<Rightarrow>
              Some (fw\<lparr>fw_led := mc_activity_led_tick (fc_uart_activity_led_enable (bd_firmware bd))
                                   (bd_ticks_per_second bd) ticks (fw_led fw)\<rparr>) }"

fun main_rounds :: "build \<Rightarrow> nat \<Rightarrow> firmware \<Rightarrow> firmware option" where
  "main_rounds bd 0 fw = Some fw"
| "main_rounds bd (Suc n) fw = do { fw \<leftarrow> main_round bd fw; main_rounds bd n fw }"

section \<open>More about the session\<close>

text \<open>The session never changes the size of the receive ring it was given.\<close>

definition rx_cap :: "mc_link_session \<Rightarrow> nat option" where
  "rx_cap s = map_option rb_cap (s_rx s)"

lemma queue_control_frame_rx: "s_rx (snd (queue_control_frame s t seq ack pl)) = s_rx s"
  by (simp add: queue_control_frame_def queue_frame_def case_prod_unfold split: option.splits)

lemma queue_ready_rx: "s_rx (snd (queue_ready s)) = s_rx s"
  by (simp add: queue_ready_def queue_control_frame_rx)

lemmas session_rx = queue_control_frame_rx queue_ready_rx queue_ack_c2m_frame(1) queue_error_frame(1)

lemma reset_preserving_rx:
  assumes "session_ok s" shows "rx_cap (reset_link_state_preserving_control_tx s) = rx_cap s"
  using session_okD(7) [OF assms]
  by (cases "s_rx s") (simp_all add: rx_cap_def reset_link_state_preserving_control_tx_def rb_drop_cap)

lemma reset_link_state_rx: "session_ok s \<Longrightarrow> rx_cap (reset_link_state s) = rx_cap s"
  using reset_preserving_rx [of s] by (simp add: reset_link_state_def Let_def clear_active_tx_def rx_cap_def)

lemma handle_data_c2m_rx: "session_ok s \<Longrightarrow> rx_cap (snd (handle_data_c2m s frame)) = rx_cap s"
  using session_okD(7) [of s]
  by (auto simp: handle_data_c2m_def rx_cap_def Let_def session_rx case_prod_unfold rb.write_capacity split: option.split)

lemma handle_frame_rx: "session_ok s \<Longrightarrow> rx_cap (snd (handle_frame s frame)) = rx_cap s"
  using reset_link_state_rx [of s] handle_data_c2m_rx [of s frame]
  by (auto simp: handle_frame_def handle_hello_def handle_reset_def rx_cap_def session_rx case_prod_unfold Let_def)

lemma receive_frames_rx:
  assumes "session_ok s" "receive_frames s frame = Some (ok, s')" shows "rx_cap s' = rx_cap s"
  using assms
proof (induction s frame arbitrary: ok s' rule: receive_frames.induct)
  case (1 s frame)
  obtain ok1 s1 where h: "handle_frame s frame = (ok1, s1)" by fastforce
  have k: "session_ok s1" "rx_cap s1 = rx_cap s"
    using keeps_tx_ok [OF handle_frame_keeps [OF 1(2), of frame]] handle_frame_rx [OF 1(2), of frame] h by simp_all
  obtain r p where f: "mc_link_parser_feed (s_parser s1) [] = Some (r, p)" "parser_ok p"
    using parser_feed_ok [OF session_okD(6) [OF k(1)]] by blast
  have k': "session_ok (s1\<lparr>s_parser := p\<rparr>)" "rx_cap (s1\<lparr>s_parser := p\<rparr>) = rx_cap s"
    using keeps_tx_ok [OF keeps_tx_counters(8) [OF k(1) f(2)]] k(2) by (simp_all add: rx_cap_def)
  show ?case
  proof (cases "ok1 \<and> (\<exists>frame'. r = MC_LINK_PARSE_FRAME frame')")
    case True
    then obtain frame' where r: "ok1" "r = MC_LINK_PARSE_FRAME frame'" by blast
    have "receive_frames (s1\<lparr>s_parser := p\<rparr>) frame' = Some (ok, s')"
      using 1(3) r h f by (subst (asm) receive_frames.simps) simp
    with 1(1) [OF h [symmetric] _ f(1)] k' r show ?thesis by simp
  next
    case False
    with 1(3) h f k k' show ?thesis
      by (subst (asm) receive_frames.simps) (cases ok1; cases r; auto)
  qed
qed

lemma receive_bytes_rx:
  assumes "session_ok s" "mc_link_session_receive_bytes s src = Some (ok, s')" shows "rx_cap s' = rx_cap s"
proof -
  obtain r p where f: "mc_link_parser_feed (s_parser s) src = Some (r, p)" "parser_ok p"
    using parser_feed_ok [OF session_okD(6) [OF assms(1)]] by blast
  have "session_ok (s\<lparr>s_parser := p\<rparr>)" "rx_cap (s\<lparr>s_parser := p\<rparr>) = rx_cap s"
    using keeps_tx_ok [OF keeps_tx_counters(8) [OF assms(1) f(2)]] by (simp_all add: rx_cap_def)
  with assms(2) f receive_frames_rx show ?thesis
    by (cases r) (fastforce simp: mc_link_session_receive_bytes_def)+
qed

lemma reset_after_error_rx:
  "session_ok s \<Longrightarrow> rx_cap (snd (mc_link_session_reset_after_error s code detail)) = rx_cap s"
  using reset_preserving_rx [OF keeps_tx_ok [OF queue_error_keeps, of s code detail]]
  by (auto simp: mc_link_session_reset_after_error_def rx_cap_def session_rx case_prod_unfold)

text \<open>A buffer that holds the longest frame is always filled with one whole frame, or with nothing.\<close>

lemma frames_only_first_length:
  assumes "frames_only bs" "delimiter_index bs = Some i"
  shows "Suc i \<le> MC_LINK_MAX_ENCODED_LEN"
proof -
  obtain frs where frs: "list_all device_frame frs" "bs = concat (map frame_bytes frs)"
    using assms(1) by (auto simp: frames_only_def)
  then obtain fr frs' where cons: "frs = fr # frs'"
    using assms(2) by (cases frs) auto
  let ?c = "cobs_ref (link_body (fr_type fr) (fr_seq fr) (fr_ack fr) (fr_payload fr))"
  have "i = length ?c"
    using assms(2) frs(2) cons
    by (simp add: frame_bytes_def link_frame_bytes_def delimiter_index_append cobs_ref_no_zero)
  moreover have "length (fr_payload fr) \<le> MC_LINK_MAX_PAYLOAD"
    using frs(1) cons by (simp add: device_frame_def encodable_frame_def)
  ultimately show ?thesis
    using link_frame_length [of "fr_payload fr" "fr_type fr" "fr_seq fr" "fr_ack fr"]
    by (simp add: link_frame_bytes_def)
qed

lemma select_active_tx_first:
  assumes ok: "session_ok s" and idle: "s_active_tx_queue s = MC_LINK_SESSION_TX_NONE"
    and sel: "select_active_tx s = Some t"
  shows "s_active_tx_remaining t \<le> MC_LINK_MAX_ENCODED_LEN \<and> s_rx t = s_rx s"
proof -
  have fo: "frames_only (rb_contents (s_control_tx s))" "frames_only (rb_contents (s_tx s))"
    using ok idle frames_of_only by (auto simp: session_defs)
  show ?thesis
    using sel idle frames_only_first_length [OF fo(1)] frames_only_first_length [OF fo(2)]
    by (auto simp: select_active_tx_def next_frame_len simp del: length_rb_contents split: option.splits)
qed

lemma read_active_tx_all:
  assumes "rb_ok tx" "s_active_tx_remaining (put tx) \<le> n" "0 < s_active_tx_remaining (put tx)"
    "s_active_tx_remaining (put tx) \<le> length (rb_contents tx)" "\<And>tx'. s_rx (put tx') = rx"
    "read_active_tx tx put n = (bs, s')"
  shows "s_active_tx_queue s' = MC_LINK_SESSION_TX_NONE \<and> s_rx s' = rx \<and> length bs \<le> s_active_tx_remaining (put tx)"
proof -
  obtain tx' where "read_active_tx tx put n = (take (min n (s_active_tx_remaining (put tx))) (rb_contents tx),
       if s_active_tx_remaining (put tx) \<le> n then clear_active_tx ((put tx')\<lparr>s_active_tx_remaining := 0\<rparr>)
       else (put tx')\<lparr>s_active_tx_remaining := s_active_tx_remaining (put tx) - n\<rparr>)"
    using read_active_tx_result [OF assms(1) _ assms(3,4), of put n] by blast
  with assms show ?thesis by (auto simp: clear_active_tx_def)
qed

lemma read_tx_whole:
  assumes ok: "session_ok s" and idle: "s_active_tx_queue s = MC_LINK_SESSION_TX_NONE"
    and n: "MC_LINK_MAX_ENCODED_LEN \<le> n" and rd: "mc_link_session_read_tx s n = (bs, s')"
  shows "session_ok s' \<and> s_active_tx_queue s' = MC_LINK_SESSION_TX_NONE \<and> frames_only bs \<and>
    length bs \<le> MC_LINK_MAX_ENCODED_LEN \<and> s_rx s' = s_rx s"
proof (cases "select_active_tx s")
  case None
  with ok idle rd show ?thesis by (auto simp: mc_link_session_read_tx_def split: if_splits)
next
  case (Some t)
  note sel = select_active_tx_ok [OF ok Some] select_active_tx_first [OF ok idle Some]
  then have q: "s_active_tx_queue t = MC_LINK_SESSION_TX_CONTROL \<or> s_active_tx_queue t = MC_LINK_SESSION_TX_DATA"
    by (auto simp: session_ok_def active_ok_def split: if_splits)
  have t: "session_ok t" "s_active_tx_remaining t \<le> n" using sel n by simp_all
  have act: "s_active_tx_queue s' = MC_LINK_SESSION_TX_NONE \<and> s_rx s' = s_rx s \<and> length bs \<le> s_active_tx_remaining t"
    using q
  proof
    assume c: "s_active_tx_queue t = MC_LINK_SESSION_TX_CONTROL"
    then have "read_active_tx (s_control_tx t) (\<lambda>tx. t\<lparr>s_control_tx := tx\<rparr>) n = (bs, s')"
      using rd n Some by (simp add: mc_link_session_read_tx_def)
    from read_active_tx_all [OF session_okD(2) [OF t(1)] _ _ _ _ this, of "s_rx s"] c t sel show ?thesis
      by (simp add: session_ok_def active_ok_def)
  next
    assume d: "s_active_tx_queue t = MC_LINK_SESSION_TX_DATA"
    then have "read_active_tx (s_tx t) (\<lambda>tx. t\<lparr>s_tx := tx\<rparr>) n = (bs, s')"
      using rd n Some by (simp add: mc_link_session_read_tx_def)
    from read_active_tx_all [OF session_okD(1) [OF t(1)] _ _ _ _ this, of "s_rx s"] d t sel show ?thesis
      by (simp add: session_ok_def active_ok_def)
  qed
  then have "in_flight s' = []" "in_flight s = []" using idle by (simp_all add: in_flight_def)
  with read_tx_ok [OF ok rd] act sel show ?thesis by auto
qed

section \<open>The invariant\<close>

text \<open>Between two calls of the main loop no frame is left half-fetched in the session.\<close>

definition link_ok :: "mc_link_session \<Rightarrow> bool" where
  "link_ok s \<longleftrightarrow> session_ok s \<and> s_active_tx_queue s = MC_LINK_SESSION_TX_NONE \<and> rx_cap s = Some MC_RX_RING_CAP"

lemma link_ok_keeps:
  assumes "link_ok s" "keeps_tx s s'" "rx_cap s' = rx_cap s" shows "link_ok s'"
proof -
  have "session_ok s'" "in_flight s' = []" using assms by (simp_all add: keeps_tx_def link_ok_def in_flight_def)
  then have "s_active_tx_queue s' = MC_LINK_SESSION_TX_NONE"
    by (auto simp: session_ok_def active_ok_def in_flight_def simp del: length_rb_contents split: if_splits)
  with assms \<open>session_ok s'\<close> show ?thesis by (simp add: link_ok_def)
qed

lemma link_okD: "link_ok s \<Longrightarrow> session_ok s"
  by (simp add: link_ok_def)

lemma link_ok_rx:
  assumes "link_ok s" obtains rx where "s_rx s = Some rx" "rb_ok rx" "rb_cap rx = MC_RX_RING_CAP"
  using assms session_okD(7) [of s] by (auto simp: link_ok_def rx_cap_def)

lemma link_ok_new_rx: "link_ok s \<Longrightarrow> rb_ok rx \<Longrightarrow> rb_cap rx = MC_RX_RING_CAP \<Longrightarrow> link_ok (s\<lparr>s_rx := Some rx\<rparr>)"
  by (rule link_ok_keeps [OF _ keeps_tx_counters(7)]) (auto simp: link_ok_def rx_cap_def)

definition build_ok :: "build \<Rightarrow> bool" where
  "build_ok bd \<longleftrightarrow> firmware_config_ok (bd_firmware bd) \<and> config_ok (bd_core bd) \<and>
     MC_LINK_MAX_ENCODED_LEN \<le> fc_link_tx_pending_bytes (bd_firmware bd)"

text \<open>What was sent on the bridge: whole frames and the sent part of the pending one.\<close>

definition wire_ok :: "byte list \<Rightarrow> byte list \<Rightarrow> nat \<Rightarrow> bool" where
  "wire_ok sent pending pos \<longleftrightarrow> frames_only pending \<and> (pos < length pending \<or> pos = 0 \<and> pending = []) \<and>
     (\<exists>whole. frames_only whole \<and> sent = whole @ take pos pending)"

abbreviation fw_sent :: "build \<Rightarrow> firmware \<Rightarrow> byte list" where
  "fw_sent bd fw \<equiv> bridge_sent (bd_firmware bd) (fw_bus fw)"

definition fw_ok :: "build \<Rightarrow> firmware \<Rightarrow> bool" where
  "fw_ok bd fw \<longleftrightarrow> link_ok (fw_link_session fw) \<and> server_ok (bd_core bd) (fw_server fw) \<and>
     rb_ok (fw_tx_ring fw) \<and> rb_cap (fw_tx_ring fw) = MC_TX_RING_CAP \<and>
     world_loaded (bd_core bd) (fw_world fw) (bd_assets bd) \<and>
     wire_ok (fw_sent bd fw) (fw_link_pending fw) (fw_link_pending_pos fw) \<and>
     length (fw_link_pending fw) \<le> MC_LINK_MAX_ENCODED_LEN"

text \<open>The part of the state the invariant looks at.\<close>

definition fw_view :: "build \<Rightarrow> firmware \<Rightarrow> mc_link_session \<times> mc_server \<times> mc_ringbuf \<times> world_compressed \<times> byte list \<times> byte list \<times> nat" where
  "fw_view bd fw = (fw_link_session fw, (fw_server fw)\<lparr>sv_trace := None\<rparr>, fw_tx_ring fw, fw_world fw,
     fw_sent bd fw, fw_link_pending fw, fw_link_pending_pos fw)"

lemma server_ok_trace_cong: "s\<lparr>sv_trace := t\<rparr> = s'\<lparr>sv_trace := t\<rparr> \<Longrightarrow> server_ok cfg s = server_ok cfg s'"
  by (metis server_ok_trace)

lemma fw_ok_view: "fw_view bd fw' = fw_view bd fw \<Longrightarrow> fw_ok bd fw' = fw_ok bd fw"
  by (auto simp: fw_view_def fw_ok_def dest: server_ok_trace_cong)

section \<open>Steps that keep the invariant\<close>

text \<open>A step that is always defined and keeps the invariant; steps compose.\<close>

definition safe_step :: "build \<Rightarrow> (firmware \<Rightarrow> firmware option) \<Rightarrow> bool" where
  "safe_step bd f \<longleftrightarrow> (\<forall>fw. fw_ok bd fw \<longrightarrow> (\<exists>fw'. f fw = Some fw' \<and> fw_ok bd fw'))"

lemma safe_stepD: "safe_step bd f \<Longrightarrow> fw_ok bd fw \<Longrightarrow> \<exists>fw'. f fw = Some fw' \<and> fw_ok bd fw'"
  by (simp add: safe_step_def)

lemma safe_step_bind: "safe_step bd f \<Longrightarrow> safe_step bd g \<Longrightarrow> safe_step bd (\<lambda>fw. f fw \<bind> g)"
  unfolding safe_step_def by fastforce

lemma safe_step_when: "safe_step bd f \<Longrightarrow> safe_step bd (when_opt c f)"
  by (auto simp: safe_step_def when_opt_def)

text \<open>A step that only logs and counts.\<close>

definition quiet_step :: "build \<Rightarrow> (firmware \<Rightarrow> firmware option) \<Rightarrow> bool" where
  "quiet_step bd f \<longleftrightarrow> (\<forall>fw. \<exists>fw'. f fw = Some fw' \<and> fw_view bd fw' = fw_view bd fw)"

lemma quiet_safe: "quiet_step bd f \<Longrightarrow> safe_step bd f"
  unfolding quiet_step_def safe_step_def using fw_ok_view by blast

lemma quiet_step_when: "quiet_step bd f \<Longrightarrow> quiet_step bd (when_opt c f)"
  by (auto simp: quiet_step_def when_opt_def)

lemma quiet_step_bind: "quiet_step bd f \<Longrightarrow> quiet_step bd g \<Longrightarrow> quiet_step bd (\<lambda>fw. f fw \<bind> g)"
  unfolding quiet_step_def by (metis bind.bind_lunit)

lemma quiet_step_pre:
  "(\<And>fw. fw_view bd (h fw) = fw_view bd fw) \<Longrightarrow> (\<And>fw. \<exists>fw'. g fw (h fw) = Some fw' \<and> fw_view bd fw' = fw_view bd (h fw)) \<Longrightarrow>
   quiet_step bd (\<lambda>fw. g fw (h fw))"
  unfolding quiet_step_def by metis

lemma fw_log_quiet:
  assumes "log_safe (bd_firmware bd) f" shows "quiet_step bd (fw_log f)"
proof -
  have "\<exists>b. f (fw_bus fw) = Some b \<and> bridge_sent (bd_firmware bd) b = fw_sent bd fw" for fw
    using assms by (simp add: log_safe_def)
  then show ?thesis
    unfolding quiet_step_def fw_log_def by (fastforce simp: fw_view_def set_bus_def)
qed

lemma log_quiet:
  assumes "build_ok bd" "format_text (str_bytes fmt) args \<noteq> None"
  shows "quiet_step bd (logi bd fmt args)" "quiet_step bd (logd bd fmt args)"
  using assms unfolding logi_def logd_def build_ok_def
  by (auto intro!: fw_log_quiet MC_LOGI_safe MC_LOGD_safe)

lemma quiet_at:
  "quiet_step bd f \<Longrightarrow> \<exists>fw'. f fw = Some fw' \<and> fw_view bd fw' = fw_view bd fw"
  by (simp add: quiet_step_def)

lemma view_counters [simp]:
  "fw_view bd (fw\<lparr>fw_rx_parse_error_count := a\<rparr>) = fw_view bd fw"
  "fw_view bd (fw\<lparr>fw_tx_backpressure_count := a\<rparr>) = fw_view bd fw"
  "fw_view bd (fw\<lparr>fw_link_rx_error_count := a\<rparr>) = fw_view bd fw"
  "fw_view bd (fw\<lparr>fw_link_tx_backpressure_count := a\<rparr>) = fw_view bd fw"
  "fw_view bd (fw\<lparr>fw_tx_backpressure_stage := c, fw_tx_backpressure_chunk := d\<rparr>) = fw_view bd fw"
  "fw_view bd (fw\<lparr>fw_link_m2c_queue_count := a\<rparr>) = fw_view bd fw"
  "fw_view bd (fw\<lparr>fw_link_uart_tx_bytes := a\<rparr>) = fw_view bd fw"
  "fw_view bd (fw\<lparr>fw_led := l\<rparr>) = fw_view bd fw"
  "fw_view bd (fw\<lparr>fw_server := (fw_server fw)\<lparr>sv_trace := t\<rparr>\<rparr>) = fw_view bd fw"
  "fw_view bd (observe bd' n fw) = fw_view bd fw"
  by (simp_all add: fw_view_def observe_def)

lemma server_trace_quiet:
  assumes "build_ok bd" shows "quiet_step bd (server_trace bd event)"
proof -
  have "quiet_step bd (logd bd ''frame ready len=%u state=%d'' [Arg_unsigned a, Arg_int b])"
    "quiet_step bd (logd bd ''handshake next_state=%d proto=%d'' [Arg_int a, Arg_int b])"
    "quiet_step bd (logd bd ''status request'' [])" "quiet_step bd (logd bd ''status ping'' [])"
    "quiet_step bd (logi bd ''login username=%s'' [Arg_str s])" "quiet_step bd (logi bd ''play enter'' [])"
    "quiet_step bd (logd bd ''bootstrap stage=%d chunk=%d'' [Arg_int a, Arg_int b])"
    "quiet_step bd (logi bd ''world bootstrap complete chunks=%d'' [Arg_int a])"
    "quiet_step bd (logd bd ''keepalive send id=%d tx_len=%u'' [Arg_int a, Arg_unsigned b])"
    "quiet_step bd (logd bd ''keepalive ack id=%d'' [Arg_int a])"
    "quiet_step bd (logd bd ''play unhandled packet id=%d len=%d'' [Arg_int a, Arg_int b])" for a b s
    by (rule log_quiet [OF assms], simp add: conversion_text_def)+
  note logs = this [THEN quiet_at]
  show ?thesis unfolding quiet_step_def server_trace_def
    by (cases "te_type event") (simp_all add: logs)
qed

lemma trace_events_quiet: "build_ok bd \<Longrightarrow> quiet_step bd (trace_events bd events)"
proof (induction events)
  case (Cons event events)
  have "trace_events bd (event # events) = (\<lambda>fw. server_trace bd event fw \<bind> trace_events bd events)"
    by (simp add: fun_eq_iff)
  with Cons show ?case by (simp add: quiet_step_bind server_trace_quiet)
qed (simp add: quiet_step_def)

lemma run_trace_quiet: "build_ok bd \<Longrightarrow> quiet_step bd (run_trace bd)"
  using quiet_at [OF trace_events_quiet, of bd]
  unfolding quiet_step_def run_trace_def by (auto split: option.split) (metis view_counters(9))

lemma fw_ok_session:
  "fw_ok bd fw \<Longrightarrow> link_ok s \<Longrightarrow> fw_ok bd (fw\<lparr>fw_link_session := s\<rparr>)"
  by (simp add: fw_ok_def)

lemma drop_queued_data_link: "link_ok s \<Longrightarrow> link_ok (mc_link_session_drop_queued_data s)"
  by (rule link_ok_keeps [OF _ drop_queued_data_keeps])
    (simp_all add: link_okD mc_link_session_drop_queued_data_def Let_def clear_active_tx_def rx_cap_def)

lemma wire_ok_drop: "wire_ok sent pending 0 \<Longrightarrow> wire_ok sent [] 0"
  by (auto simp: wire_ok_def)

lemma drop_stale_ok: "fw_ok bd fw \<Longrightarrow> fw_ok bd (drop_stale_link_tx_data bd fw)"
  using drop_queued_data_link [of "fw_link_session fw"] wire_ok_drop
  by (auto simp: drop_stale_link_tx_data_def Let_def fw_ok_def)

lemma init_server_ok: "server_ok cfg (mc_server_set_trace True (mc_server_init cfg))"
  using init_run_ok [of 1 "[0]" cfg] by (simp add: run_ok_def mc_server_set_trace_def server_ok_trace)

lemma reset_quiet_safe: "safe_step bd (reset_connection_quiet bd)"
  unfolding safe_step_def
proof (intro allI impI)
  fix fw assume ok: "fw_ok bd fw"
  then obtain rx where rx: "s_rx (fw_link_session fw) = Some rx" "rb_ok rx" "rb_cap rx = MC_RX_RING_CAP"
    by (auto simp: fw_ok_def elim: link_ok_rx)
  then have "rb_ok (mc_ringbuf_init (rb_data rx) MC_RX_RING_CAP)" by (intro rb_init_ok) (simp_all add: rb_ok_def)
  then have l: "link_ok ((fw_link_session fw)\<lparr>s_rx := Some (mc_ringbuf_init (rb_data rx) MC_RX_RING_CAP)\<rparr>)"
    using ok by (intro link_ok_new_rx) (simp_all add: fw_ok_def rb_init_cap)
  have t: "rb_ok (mc_ringbuf_init (rb_data (fw_tx_ring fw)) MC_TX_RING_CAP)"
    using ok by (intro rb_init_ok) (simp_all add: fw_ok_def rb_ok_def)
  have "fw_ok bd (fw\<lparr>fw_link_session := (fw_link_session fw)\<lparr>s_rx := Some (mc_ringbuf_init (rb_data rx) MC_RX_RING_CAP)\<rparr>,
      fw_tx_ring := mc_ringbuf_init (rb_data (fw_tx_ring fw)) MC_TX_RING_CAP,
      fw_server := mc_server_set_trace True (mc_server_init (bd_core bd))\<rparr>)"
    using ok l t by (simp add: fw_ok_def init_server_ok rb_init_cap)
  from drop_stale_ok [OF this] rx(1) show "\<exists>fw'. reset_connection_quiet bd fw = Some fw' \<and> fw_ok bd fw'"
    by (simp add: reset_connection_quiet_def)
qed

lemma reset_safe:
  assumes "build_ok bd" shows "safe_step bd (reset_connection bd reason)"
proof -
  have "quiet_step bd (logi bd ''connection reset reason=%s'' [Arg_str s])" for s
    by (rule log_quiet [OF assms]) (simp add: conversion_text_def)
  from safe_step_bind [OF reset_quiet_safe quiet_safe [OF this]] show ?thesis
    by (simp add: safe_step_def reset_connection_def)
qed

lemma parser_reset_link: "link_ok s \<Longrightarrow> link_ok (s\<lparr>s_parser := mc_link_parser_init\<rparr>)"
  by (rule link_ok_keeps [OF _ keeps_tx_counters(8)]) (simp_all add: link_okD rx_cap_def)

lemma link_rx_failed_safe:
  assumes "build_ok bd" shows "safe_step bd (link_rx_failed bd)"
  unfolding safe_step_def
proof (intro allI impI)
  fix fw assume ok: "fw_ok bd fw"
  let ?n = "fw_link_rx_error_count fw + 1"
  let ?fw = "fw\<lparr>fw_link_rx_error_count := ?n\<rparr>"
  let ?parse = "\<lambda>fw. fw\<lparr>fw_link_session := (fw_link_session fw)\<lparr>s_parser := mc_link_parser_init\<rparr>\<rparr>"
  have ok': "fw_ok bd ?fw" using ok fw_ok_view [of bd ?fw fw] by simp
  have p: "fw_ok bd (?parse f)" if "fw_ok bd f" for f
    using that by (intro fw_ok_session parser_reset_link) (simp_all add: fw_ok_def)
  have "quiet_step bd (logi bd ''link rx error count=%u'' [Arg_unsigned ?n])"
    by (rule log_quiet [OF assms]) (simp add: conversion_text_def)
  from safe_stepD [OF quiet_safe [OF this] ok'] obtain fw1 where
    fw1: "logi bd ''link rx error count=%u'' [Arg_unsigned ?n] ?fw = Some fw1" "fw_ok bd fw1" by blast
  show "\<exists>fw'. link_rx_failed bd fw = Some fw' \<and> fw_ok bd fw'"
    using safe_stepD [OF reset_safe [OF assms] p [OF fw1(2)], of "''link_rx_error''"] fw1(1)
      safe_stepD [OF reset_quiet_safe p [OF ok']]
    by (simp add: link_rx_failed_def Let_def)
qed

lemma take_reset_link: "link_ok s \<Longrightarrow> link_ok (snd (mc_link_session_take_reset_requested s))"
  by (rule link_ok_keeps) (simp_all add: link_okD keeps_tx_counters(4) rx_cap_def mc_link_session_take_reset_requested_def)

lemma set_bus_ok:
  "fw_ok bd fw \<Longrightarrow> bridge_sent (bd_firmware bd) b = fw_sent bd fw \<Longrightarrow> fw_ok bd (set_bus b fw)"
  by (simp add: fw_ok_def set_bus_def)

lemma pump_link_rx_safe:
  assumes bd: "build_ok bd" shows "safe_step bd (pump_link_rx bd)"
  unfolding safe_step_def
proof (intro allI impI)
  fix fw assume ok: "fw_ok bd fw"
  let ?fc = "bd_firmware bd"
  obtain buf b where rd: "platform_bridge_read ?fc MC_TICK_BUDGET_RX_BYTES (fw_bus fw) = (buf, b)" by fastforce
  have ok1: "fw_ok bd (observe bd (length buf) (set_bus b fw))"
    using set_bus_ok [OF ok bridge_read_facts(2) [OF rd]] fw_ok_view [of bd "observe bd (length buf) (set_bus b fw)" "set_bus b fw"]
    by simp
  have q1: "quiet_step bd (logd bd ''link rx uart bytes=%u'' [Arg_unsigned (of_nat (length buf))])"
    by (rule log_quiet [OF bd]) (simp add: conversion_text_def)
  have q2: "quiet_step bd (fw_log (MC_LOGT_HEXDUMP ?fc (str_bytes ''link rx uart data'') buf))"
    using bd by (intro fw_log_quiet MC_LOGT_HEXDUMP_safe) (simp add: build_ok_def)
  obtain fw1 where fw1: "when_opt (fc_log_link_uart_io ?fc)
      (logd bd ''link rx uart bytes=%u'' [Arg_unsigned (of_nat (length buf))]) (observe bd (length buf) (set_bus b fw)) = Some fw1"
      "fw_ok bd fw1"
    using safe_stepD [OF safe_step_when [OF quiet_safe [OF q1]] ok1] by blast
  obtain fw2 where fw2: "when_opt (fc_trace_link_uart_rx_data ?fc)
      (fw_log (MC_LOGT_HEXDUMP ?fc (str_bytes ''link rx uart data'') buf)) fw1 = Some fw2" "fw_ok bd fw2"
    using safe_stepD [OF safe_step_when [OF quiet_safe [OF q2]] fw1(2)] by blast
  have s2: "link_ok (fw_link_session fw2)" using fw2(2) by (simp add: fw_ok_def)
  obtain r s3 where s3: "mc_link_session_receive_bytes (fw_link_session fw2) buf = Some (r, s3)"
    "keeps_tx (fw_link_session fw2) s3"
    using receive_bytes_keeps [OF link_okD [OF s2]] by blast
  have l3: "link_ok s3" using link_ok_keeps [OF s2 s3(2) receive_bytes_rx [OF link_okD [OF s2] s3(1)]] .
  obtain fw4 where fw4: "when_opt (\<not> r) (link_rx_failed bd) (fw2\<lparr>fw_link_session := s3\<rparr>) = Some fw4" "fw_ok bd fw4"
    using safe_stepD [OF safe_step_when [OF link_rx_failed_safe [OF bd]] fw_ok_session [OF fw2(2) l3]] by blast
  have l4: "link_ok (snd (mc_link_session_take_reset_requested (fw_link_session fw4)))"
    using fw4(2) by (intro take_reset_link) (simp add: fw_ok_def)
  note fw5 = safe_stepD [OF safe_step_when [OF reset_safe [OF bd]] fw_ok_session [OF fw4(2) l4]]
  show "\<exists>fw'. pump_link_rx bd fw = Some fw' \<and> fw_ok bd fw'"
    using rd fw1(1) fw2(1) s3(1) fw4(1) fw5 set_bus_ok [OF ok bridge_read_facts(2) [OF rd]]
    by (simp add: pump_link_rx_def Let_def case_prod_unfold)
qed

lemma fw_ok_server:
  "fw_ok bd fw \<Longrightarrow> server_ok (bd_core bd) server \<Longrightarrow> rb_ok tx \<Longrightarrow> rb_cap tx = rb_cap (fw_tx_ring fw) \<Longrightarrow>
   fw_ok bd (fw\<lparr>fw_server := server, fw_tx_ring := tx\<rparr>)"
  by (simp add: fw_ok_def)

lemma take_server_reset_safe:
  assumes bd: "build_ok bd" shows "safe_step bd (take_server_reset bd)"
  unfolding safe_step_def
proof (intro allI impI)
  fix fw assume ok: "fw_ok bd fw"
  let ?fw = "fw\<lparr>fw_server := (fw_server fw)\<lparr>sv_tx_reset_requested := False\<rparr>\<rparr>"
  have ok': "fw_ok bd ?fw" using ok by (simp add: fw_ok_def server_ok_def)
  have "quiet_step bd (logd bd ''link pending preserved len=%u pos=%u'' [Arg_unsigned a, Arg_unsigned b])" for a b
    by (rule log_quiet [OF bd]) (simp add: conversion_text_def)
  from safe_stepD [OF quiet_safe [OF this] ok'] show "\<exists>fw'. take_server_reset bd fw = Some fw' \<and> fw_ok bd fw'"
    using ok' by (auto simp: take_server_reset_def mc_server_take_tx_reset_def Let_def) (metis drop_stale_ok option.simps(9))
qed

lemma reset_after_error_link: "link_ok s \<Longrightarrow> link_ok (snd (mc_link_session_reset_after_error s code detail))"
  by (rule link_ok_keeps) (simp_all add: link_okD reset_after_error_keeps reset_after_error_rx)

lemma server_failed_safe:
  assumes bd: "build_ok bd" shows "safe_step bd (server_failed bd)"
  unfolding safe_step_def
proof (intro allI impI)
  fix fw assume ok: "fw_ok bd fw"
  let ?n = "fw_rx_parse_error_count fw + 1"
  let ?fw = "fw\<lparr>fw_rx_parse_error_count := ?n\<rparr>"
  have ok': "fw_ok bd ?fw" using ok fw_ok_view [of bd ?fw fw] by simp
  have "quiet_step bd (logi bd ''parse error count=%u'' [Arg_unsigned ?n])"
    by (rule log_quiet [OF bd]) (simp add: conversion_text_def)
  from safe_stepD [OF quiet_safe [OF this] ok'] obtain fw1 where
    fw1: "logi bd ''parse error count=%u'' [Arg_unsigned ?n] ?fw = Some fw1" "fw_ok bd fw1" by blast
  have "fw_ok bd (fw1\<lparr>fw_link_session :=
      snd (mc_link_session_reset_after_error (fw_link_session fw1) MC_LINK_ERR_PROTOCOL_STATE 0)\<rparr>)"
    using fw1(2) by (intro fw_ok_session reset_after_error_link) (simp_all add: fw_ok_def)
  from safe_stepD [OF reset_safe [OF bd] this, of "''parse_error''"] fw1(1)
  show "\<exists>fw'. server_failed bd fw = Some fw' \<and> fw_ok bd fw'" by (simp add: server_failed_def)
qed

lemma credit_consumed_link: "link_ok s \<Longrightarrow> link_ok (mc_link_session_credit_consumed s n)"
  by (rule link_ok_keeps)
    (simp_all add: link_okD mc_link_session_credit_consumed_def queue_ack_c2m_keeps rx_cap_def session_rx)

lemma pump_server_rx_safe:
  assumes bd: "build_ok bd" and ok: "fw_ok bd fw"
  shows "\<exists>c fw'. pump_server_rx bd fw = Some (c, fw') \<and> fw_ok bd fw'"
proof -
  obtain rx where rx: "s_rx (fw_link_session fw) = Some rx" "rb_ok rx" "rb_cap rx = MC_RX_RING_CAP"
    using ok by (auto simp: fw_ok_def elim: link_ok_rx)
  obtain buf rx' where rd: "mc_ringbuf_read rx MC_TICK_BUDGET_RX_BYTES = (buf, rx')" by fastforce
  let ?fw = "fw\<lparr>fw_link_session := (fw_link_session fw)\<lparr>s_rx := Some rx'\<rparr>\<rparr>"
  have rx': "rb_ok rx'" "rb_cap rx' = MC_RX_RING_CAP"
    using rb.read_invar [OF rx(2), of 512] rb.read_capacity [OF rx(2), of 512] rx(3) rd by simp_all
  then have ok1: "fw_ok bd ?fw" using ok by (intro fw_ok_session link_ok_new_rx) (simp_all add: fw_ok_def)
  obtain r server tx where r: "mc_server_receive (bd_core bd) buf (fw_server fw) (fw_tx_ring fw) = (r, server, tx)"
    by (metis prod_cases3)
  have "fw_ok bd (?fw\<lparr>fw_server := server, fw_tx_ring := tx\<rparr>)"
    using receive_sound [OF _ _ r] ok by (intro fw_ok_server [OF ok1]) (simp_all add: fw_ok_def)
  from safe_stepD [OF quiet_safe [OF run_trace_quiet [OF bd]] this] obtain fw2 where
    fw2: "run_trace bd (?fw\<lparr>fw_server := server, fw_tx_ring := tx\<rparr>) = Some fw2" "fw_ok bd fw2" by blast
  have "fw_ok bd (fw2\<lparr>fw_link_session := mc_link_session_credit_consumed (fw_link_session fw2) (length buf)\<rparr>)"
    using fw2(2) by (intro fw_ok_session credit_consumed_link) (simp_all add: fw_ok_def)
  from safe_stepD [OF take_server_reset_safe [OF bd] this] safe_stepD [OF server_failed_safe [OF bd] fw2(2)]
  show ?thesis using rx(1) rd r fw2(1) ok1 by (auto simp: pump_server_rx_def Let_def)
qed

lemma fw_ticks_ok: "fw_ok bd fw \<Longrightarrow> fw_ok bd (snd (fw_ticks fw))"
  by (simp add: fw_ok_def fw_ticks_def platform_ticks_def case_prod_unfold)

lemma tick_failed_safe:
  assumes bd: "build_ok bd" shows "safe_step bd (tick_failed bd)"
  unfolding safe_step_def
proof (intro allI impI)
  fix fw assume ok: "fw_ok bd fw"
  let ?fw = "fw\<lparr>fw_tx_backpressure_count := fw_tx_backpressure_count fw + 1\<rparr>"
  have ok': "fw_ok bd ?fw" using ok fw_ok_view [of bd ?fw fw] by simp
  have "quiet_step bd (logi bd ''tx backpressure count=%u stage=%d chunk=%d'' [Arg_unsigned a, Arg_int b, Arg_int c])"
    for a b c by (rule log_quiet [OF bd]) (simp add: conversion_text_def)
  from safe_stepD [OF safe_step_when [OF quiet_safe [OF this]] ok']
  show "\<exists>fw'. tick_failed bd fw = Some fw' \<and> fw_ok bd fw'" by (simp add: tick_failed_def Let_def)
qed

lemma pump_server_safe:
  assumes bd: "build_ok bd" shows "safe_step bd (pump_server bd)"
  unfolding safe_step_def
proof (intro allI impI)
  fix fw assume "fw_ok bd fw"
  from pump_server_rx_safe [OF bd this] obtain c fw1 where
    fw1: "pump_server_rx bd fw = Some (c, fw1)" "fw_ok bd fw1" by blast
  obtain now fw2 where fw2: "fw_ticks fw1 = (now, fw2)" by fastforce
  have ok2: "fw_ok bd fw2" using fw_ticks_ok [OF fw1(2)] fw2 by simp
  obtain r server tx where
    r: "mc_server_tick_at (bd_core bd) (fw_world fw2) now (fw_server fw2) (fw_tx_ring fw2) = (r, server, tx)"
    by (metis prod_cases3)
  have "server_ok (bd_core bd) server \<and> rb_ok tx \<and> rb_cap tx = rb_cap (fw_tx_ring fw2)"
    using tick_sound [OF _ _ _ _ r, of "bd_assets bd"] ok2 bd by (simp add: fw_ok_def build_ok_def tx_after_def)
  then have "fw_ok bd (fw2\<lparr>fw_server := server, fw_tx_ring := tx\<rparr>)" by (intro fw_ok_server [OF ok2]) simp_all
  from safe_stepD [OF safe_step_bind [OF quiet_safe [OF run_trace_quiet [OF bd]]
      safe_step_bind [OF safe_step_when [OF tick_failed_safe [OF bd]] take_server_reset_safe [OF bd]]] this]
  show "\<exists>fw'. pump_server bd fw = Some fw' \<and> fw_ok bd fw'"
    using fw1 fw2 r by (cases c) (simp_all add: pump_server_def)
qed

lemma bridge_write_view:
  assumes bd: "build_ok bd"
  shows "\<exists>written b fw'. bridge_write bd bs fw = Some (written, fw') \<and> written \<le> length bs \<and>
    bridge_sent (bd_firmware bd) b = fw_sent bd fw @ take written bs \<and> fw_view bd fw' = fw_view bd (set_bus b fw)"
proof -
  let ?fc = "bd_firmware bd"
  obtain written b where w: "platform_bridge_write ?fc bs (fw_bus fw) = (written, b)" by fastforce
  note sent = bridge_write_sent [OF w]
  have l: "quiet_step bd (logd bd ''link uart tx bytes=%u'' [Arg_unsigned a])"
    "quiet_step bd (logd bd ''link tx uart bytes=%u'' [Arg_unsigned a])" for a
    by (rule log_quiet [OF bd], simp add: conversion_text_def)+
  let ?count = "\<lambda>fw. let fw = fw\<lparr>fw_link_uart_tx_bytes := fw_link_uart_tx_bytes fw + of_nat written\<rparr>
      in when_opt (should_log_count (fw_link_uart_tx_bytes fw))
           (logd bd ''link uart tx bytes=%u'' [Arg_unsigned (fw_link_uart_tx_bytes fw)]) fw"
  have "quiet_step bd ?count"
    unfolding quiet_step_def Let_def
  proof
    fix fw :: firmware
    let ?fw = "fw\<lparr>fw_link_uart_tx_bytes := fw_link_uart_tx_bytes fw + of_nat written\<rparr>"
    show "\<exists>fw'. when_opt (should_log_count (fw_link_uart_tx_bytes ?fw))
        (logd bd ''link uart tx bytes=%u'' [Arg_unsigned (fw_link_uart_tx_bytes ?fw)]) ?fw = Some fw' \<and>
        fw_view bd fw' = fw_view bd fw"
      using quiet_at [OF quiet_step_when [OF l(1)], of _ "fw_link_uart_tx_bytes ?fw" ?fw] by simp
  qed
  then have "quiet_step bd (\<lambda>fw. when_opt (MC_LOG_DEBUG \<le> fc_log_level ?fc) ?count fw \<bind>
      when_opt (fc_log_link_uart_io ?fc) (logd bd ''link tx uart bytes=%u'' [Arg_unsigned (of_nat written)]))"
    by (intro quiet_step_bind quiet_step_when l(2))
  from quiet_at [OF this, of "observe bd written (set_bus b fw)"]
  obtain fw' where
    fw': "when_opt (MC_LOG_DEBUG \<le> fc_log_level ?fc) ?count (observe bd written (set_bus b fw)) \<bind>
        when_opt (fc_log_link_uart_io ?fc) (logd bd ''link tx uart bytes=%u'' [Arg_unsigned (of_nat written)]) = Some fw'"
      "fw_view bd fw' = fw_view bd (set_bus b fw)" by auto
  show ?thesis
  proof (cases "written = 0")
    case True
    with w sent show ?thesis by (simp add: bridge_write_def Let_def) metis
  next
    case False
    have "bridge_write bd bs fw = Some (written, fw')"
      using False w fw'(1) by (auto simp: bridge_write_def Let_def bind_eq_Some_conv)
    with sent fw'(2) show ?thesis by blast
  qed
qed

lemma wire_ok_advance:
  assumes "wire_ok sent pending pos" "pos < length pending" "n \<le> length pending - pos"
  shows "pos + n < length pending \<Longrightarrow> wire_ok (sent @ take n (drop pos pending)) pending (pos + n)"
    "\<not> pos + n < length pending \<Longrightarrow> wire_ok (sent @ take n (drop pos pending)) [] 0"
proof -
  obtain whole where whole: "frames_only whole" "sent @ take n (drop pos pending) = whole @ take (pos + n) pending"
    using assms(1) by (auto simp: wire_ok_def take_add)
  then show "pos + n < length pending \<Longrightarrow> wire_ok (sent @ take n (drop pos pending)) pending (pos + n)"
    using assms(1) by (auto simp: wire_ok_def)
  assume "\<not> pos + n < length pending"
  then have "sent @ take n (drop pos pending) = whole @ pending" using whole(2) assms(3) by simp
  with whole(1) assms(1) show "wire_ok (sent @ take n (drop pos pending)) [] 0"
    by (auto simp: wire_ok_def intro: exI [of _ "whole @ pending"])
qed

text \<open>The pending frame advances by the bytes the UART took.\<close>

lemma bridge_write_pending:
  assumes bd: "build_ok bd" and ok: "fw_ok bd fw" and pos: "pos = fw_link_pending_pos fw" "pos < length (fw_link_pending fw)"
  shows "\<exists>written fw'. bridge_write bd (take k (drop pos (fw_link_pending fw))) fw = Some (written, fw') \<and> 
    (if pos + written < length (fw_link_pending fw) then fw_ok bd (fw'\<lparr>fw_link_pending_pos := pos + written\<rparr>)
     else fw_ok bd (fw'\<lparr>fw_link_pending := [], fw_link_pending_pos := 0\<rparr>))"
proof -
  let ?p = "fw_link_pending fw"
  obtain n b fw' where w: "bridge_write bd (take k (drop pos ?p)) fw = Some (n, fw')" "n \<le> length (take k (drop pos ?p))"
    "bridge_sent (bd_firmware bd) b = fw_sent bd fw @ take n (take k (drop pos ?p))" "fw_view bd fw' = fw_view bd (set_bus b fw)"
    using bridge_write_view [OF bd] by blast
  then have n: "n \<le> length ?p - pos" "take n (take k (drop pos ?p)) = take n (drop pos ?p)"
    by (simp_all add: min_def split: if_splits)
  have v: "fw_sent bd fw' = fw_sent bd fw @ take n (drop pos ?p)" "fw_link_session fw' = fw_link_session fw"
    "server_ok (bd_core bd) (fw_server fw') = server_ok (bd_core bd) (fw_server fw)"
    "fw_tx_ring fw' = fw_tx_ring fw" "fw_world fw' = fw_world fw" "fw_link_pending fw' = ?p"
    using w(3,4) n(2) by (auto simp: fw_view_def set_bus_def dest: server_ok_trace_cong)
  have "wire_ok (fw_sent bd fw) ?p pos" using ok pos(1) by (simp add: fw_ok_def)
  from wire_ok_advance [OF this pos(2) n(1)] ok w(1) show ?thesis by (auto simp: fw_ok_def v)
qed

lemma pump_link_pending_safe:
  assumes bd: "build_ok bd" and ok: "fw_ok bd fw"
  shows "\<exists>budget fw'. pump_link_pending bd fw = Some (budget, fw') \<and> fw_ok bd fw' \<and>
    (0 < budget \<longrightarrow> fw_link_pending fw' = [] \<and> fw_link_pending_pos fw' = 0)"
proof (cases "fw_link_pending_pos fw < length (fw_link_pending fw)")
  case True
  let ?pos = "fw_link_pending_pos fw" and ?p = "fw_link_pending fw"
  obtain n fw' where "bridge_write bd (take (min (length ?p - ?pos) (fc_link_tx_max_bytes_per_loop (bd_firmware bd)))
      (drop ?pos ?p)) fw = Some (n, fw')"
    "if ?pos + n < length ?p then fw_ok bd (fw'\<lparr>fw_link_pending_pos := ?pos + n\<rparr>)
     else fw_ok bd (fw'\<lparr>fw_link_pending := [], fw_link_pending_pos := 0\<rparr>)"
    using bridge_write_pending [OF bd ok HOL.refl True] by blast
  with True show ?thesis by (auto simp: pump_link_pending_def Let_def split: if_splits)
next
  case False
  with ok show ?thesis by (auto simp: pump_link_pending_def Let_def fw_ok_def wire_ok_def)
qed

lemma queue_server_tx_link:
  assumes "link_ok s" "rb_ok tx" "mc_link_session_queue_server_tx s tx = (ok, s', tx')"
  shows "link_ok s'" "rb_ok tx' \<and> rb_cap tx' = rb_cap tx"
proof -
  have "s_rx s' = s_rx s"
    using assms(3) by (auto simp: mc_link_session_queue_server_tx_def queue_data_frame_def queue_frame_def Let_def
        split: if_splits option.splits prod.splits)
  then show "link_ok s'"
    using assms(1,3) queue_server_tx_keeps [OF link_okD [OF assms(1)], of tx]
    by (intro link_ok_keeps [OF assms(1)]) (simp_all add: rx_cap_def)
  show "rb_ok tx' \<and> rb_cap tx' = rb_cap tx"
    using assms(2,3) by (auto simp: mc_link_session_queue_server_tx_def Let_def rb_drop_ok rb_drop_cap
        split: if_splits option.splits prod.splits)
qed

lemma queue_server_tx_view:
  assumes bd: "build_ok bd"
    and q: "mc_link_session_queue_server_tx (fw_link_session fw) (fw_tx_ring fw) = (r, s, tx)"
  shows "\<exists>fw'. queue_server_tx bd fw = Some fw' \<and> fw_view bd fw' = fw_view bd (fw\<lparr>fw_link_session := s, fw_tx_ring := tx\<rparr>)"
proof -
  let ?fw = "fw\<lparr>fw_link_session := s, fw_tx_ring := tx\<rparr>"
  have l: "quiet_step bd (logi bd ''link tx backpressure count=%u'' [Arg_unsigned a])"
    "quiet_step bd (logd bd ''link m2c queued frames=%u tx_ring=%u'' [Arg_unsigned a, Arg_unsigned b])" for a b
    by (rule log_quiet [OF bd], simp add: conversion_text_def)+
  have q1: "quiet_step bd (\<lambda>fw. let fw = fw\<lparr>fw_link_tx_backpressure_count := fw_link_tx_backpressure_count fw + 1\<rparr>
      in when_opt (should_log_count (fw_link_tx_backpressure_count fw))
           (logi bd ''link tx backpressure count=%u'' [Arg_unsigned (fw_link_tx_backpressure_count fw)]) fw)"
    unfolding quiet_step_def Let_def using quiet_at [OF quiet_step_when [OF l(1)]] by (metis view_counters(4))
  have q2: "quiet_step bd (\<lambda>fw. let fw = fw\<lparr>fw_link_m2c_queue_count := fw_link_m2c_queue_count fw + 1\<rparr>
      in when_opt (should_log_count (fw_link_m2c_queue_count fw))
           (logd bd ''link m2c queued frames=%u tx_ring=%u'' [Arg_unsigned (s_data_m2c_frames (fw_link_session fw)),
              Arg_unsigned (of_nat (mc_ringbuf_len (fw_tx_ring fw)))]) fw)"
    unfolding quiet_step_def Let_def using quiet_at [OF quiet_step_when [OF l(2)]] by (metis view_counters(6))
  obtain fw1 where fw1: "when_opt (\<not> r) (\<lambda>fw. let fw = fw\<lparr>fw_link_tx_backpressure_count := fw_link_tx_backpressure_count fw + 1\<rparr>
      in when_opt (should_log_count (fw_link_tx_backpressure_count fw))
           (logi bd ''link tx backpressure count=%u'' [Arg_unsigned (fw_link_tx_backpressure_count fw)]) fw) ?fw = Some fw1"
    "fw_view bd fw1 = fw_view bd ?fw"
    using quiet_at [OF quiet_step_when [OF q1]] by blast
  obtain fw2 where fw2: "queue_server_tx bd fw = Some fw2" "fw_view bd fw2 = fw_view bd fw1"
    using quiet_at [OF quiet_step_when [OF q2], of "MC_LOG_DEBUG \<le> fc_log_level (bd_firmware bd) \<and>
        s_data_m2c_frames (fw_link_session fw1) \<noteq> s_data_m2c_frames (fw_link_session fw)" fw1] q fw1(1)
    by (auto simp: queue_server_tx_def Let_def)
  with fw1(2) show ?thesis by simp
qed

lemma queue_server_tx_safe:
  assumes bd: "build_ok bd" and ok: "fw_ok bd fw" and idle: "fw_link_pending fw = []" "fw_link_pending_pos fw = 0"
  shows "\<exists>fw'. queue_server_tx bd fw = Some fw' \<and> fw_ok bd fw' \<and> fw_link_pending fw' = [] \<and> fw_link_pending_pos fw' = 0"
proof -
  obtain r s tx where q: "mc_link_session_queue_server_tx (fw_link_session fw) (fw_tx_ring fw) = (r, s, tx)"
    by (metis prod_cases3)
  let ?fw = "fw\<lparr>fw_link_session := s, fw_tx_ring := tx\<rparr>"
  have ok1: "fw_ok bd ?fw" using queue_server_tx_link [OF _ _ q] ok by (simp add: fw_ok_def)
  obtain fw2 where fw2: "queue_server_tx bd fw = Some fw2" and v: "fw_view bd fw2 = fw_view bd ?fw"
    using queue_server_tx_view [OF bd q] by blast
  then have "fw_link_pending fw2 = []" "fw_link_pending_pos fw2 = 0" using idle by (simp_all add: fw_view_def)
  with fw2 ok1 fw_ok_view [OF v] show ?thesis by simp
qed

lemma send_next_pending_safe:
  assumes bd: "build_ok bd" and ok: "fw_ok bd fw" and idle: "fw_link_pending fw = []" "fw_link_pending_pos fw = 0"
  shows "\<exists>fw'. send_next_pending bd budget fw = Some fw' \<and> fw_ok bd fw'"
proof -
  let ?n = "fc_link_tx_pending_bytes (bd_firmware bd)"
  obtain p s where rd: "mc_link_session_read_tx (fw_link_session fw) ?n = (p, s)" by fastforce
  let ?fw = "fw\<lparr>fw_link_session := s, fw_link_pending := p\<rparr>"
  have lk: "session_ok (fw_link_session fw)" "s_active_tx_queue (fw_link_session fw) = MC_LINK_SESSION_TX_NONE"
    "MC_LINK_MAX_ENCODED_LEN \<le> ?n"
    using ok bd by (simp_all add: fw_ok_def link_ok_def build_ok_def)
  note w = read_tx_whole [OF lk rd]
  have "link_ok s" using w ok by (simp add: link_ok_def fw_ok_def rx_cap_def)
  with w ok idle have ok1: "fw_ok bd ?fw" by (auto simp: fw_ok_def wire_ok_def)
  show ?thesis
  proof (cases "p = []")
    case True
    with ok1 rd show ?thesis by (simp add: send_next_pending_def Let_def)
  next
    case False
    then obtain n fw' where "bridge_write bd (take (min (length p) budget) p) ?fw = Some (n, fw')"
      "if n < length p then fw_ok bd (fw'\<lparr>fw_link_pending_pos := n\<rparr>)
       else fw_ok bd (fw'\<lparr>fw_link_pending := [], fw_link_pending_pos := 0\<rparr>)"
      using bridge_write_pending [OF bd ok1, of 0 "min (length p) budget"] idle unfolding add_0 by auto
    with rd False show ?thesis by (auto simp: send_next_pending_def Let_def split: if_splits)
  qed
qed

lemma pump_link_tx_safe:
  assumes bd: "build_ok bd" shows "safe_step bd (pump_link_tx bd)"
  unfolding safe_step_def
proof (intro allI impI)
  fix fw assume "fw_ok bd fw"
  from pump_link_pending_safe [OF bd this] obtain budget fw1 where fw1: "pump_link_pending bd fw = Some (budget, fw1)"
    "fw_ok bd fw1" "0 < budget \<longrightarrow> fw_link_pending fw1 = [] \<and> fw_link_pending_pos fw1 = 0" by blast
  show "\<exists>fw'. pump_link_tx bd fw = Some fw' \<and> fw_ok bd fw'"
  proof (cases "budget = 0")
    case False
    then obtain fw2 where fw2: "queue_server_tx bd fw1 = Some fw2" "fw_ok bd fw2" "fw_link_pending fw2 = []"
      "fw_link_pending_pos fw2 = 0"
      using queue_server_tx_safe [OF bd fw1(2)] fw1(3) by auto
    with False fw1(1) send_next_pending_safe [OF bd fw2(2-4), of budget] show ?thesis by (simp add: pump_link_tx_def)
  qed (use fw1 in \<open>simp add: pump_link_tx_def\<close>)
qed

lemma led_ok_irrelevant: "fw_ok bd (fw\<lparr>fw_led := l\<rparr>) = fw_ok bd fw"
  using fw_ok_view [of bd "fw\<lparr>fw_led := l\<rparr>" fw] by simp

lemma main_round_safe:
  assumes bd: "build_ok bd" shows "safe_step bd (main_round bd)"
proof -
  have "safe_step bd (\<lambda>fw. case fw_ticks fw of (ticks, fw) \<Rightarrow>
      Some (fw\<lparr>fw_led := mc_activity_led_tick (fc_uart_activity_led_enable (bd_firmware bd))
        (bd_ticks_per_second bd) ticks (fw_led fw)\<rparr>))"
    using fw_ticks_ok by (auto simp: safe_step_def case_prod_unfold led_ok_irrelevant)
  from safe_step_bind [OF pump_link_rx_safe [OF bd] safe_step_bind [OF pump_server_safe [OF bd]
      safe_step_bind [OF pump_link_tx_safe [OF bd] this]]]
  show ?thesis by (simp add: main_round_def [abs_def])
qed

lemma main_rounds_safe: "build_ok bd \<Longrightarrow> safe_step bd (main_rounds bd n)"
proof (induction n)
  case (Suc n)
  then have "safe_step bd (\<lambda>fw. main_round bd fw \<bind> main_rounds bd n)"
    by (intro safe_step_bind main_round_safe) simp_all
  then show ?case by (simp add: safe_step_def)
qed (simp add: safe_step_def)

section \<open>Boot\<close>

text \<open>The state at power-on: empty static variables over storage of the right size.\<close>

definition powered_on :: "build \<Rightarrow> mc_ringbuf \<Rightarrow> firmware \<Rightarrow> bool" where
  "powered_on bd rx_ring fw \<longleftrightarrow> length (rb_data rx_ring) = MC_RX_RING_CAP \<and>
     length (rb_data (fw_tx_ring fw)) = MC_TX_RING_CAP \<and> bus_writes (fw_bus fw) = [] \<and>
     fw_link_pending fw = [] \<and> fw_link_pending_pos fw = 0 \<and>
     length (wc_arena (fw_world fw)) = platform_psram_size \<and>
     length (wc_runtime_chunks (fw_world fw)) = MC_WORLD_COMPRESSED_MAX_CHUNKS \<and>
     list_all asset_ok (bd_assets bd)"

text \<open>Before the first reset: nothing sent, nothing pending, the session fresh.\<close>

definition boot_ok :: "build \<Rightarrow> mc_ringbuf \<Rightarrow> firmware \<Rightarrow> bool" where
  "boot_ok bd rx_ring fw \<longleftrightarrow> length (rb_data rx_ring) = MC_RX_RING_CAP \<and>
     fw_link_session fw = mc_link_session_init (Some rx_ring) \<and>
     length (rb_data (fw_tx_ring fw)) = MC_TX_RING_CAP \<and> fw_sent bd fw = [] \<and>
     fw_link_pending fw = [] \<and> fw_link_pending_pos fw = 0"

lemma boot_ok_view: "fw_view bd fw' = fw_view bd fw \<Longrightarrow> boot_ok bd rx_ring fw' = boot_ok bd rx_ring fw"
  by (simp add: fw_view_def boot_ok_def)

lemma wait_qspi_sent: "uart_sent u (snd (wait_qspi_ready n b)) = uart_sent u b"
proof (induction n arbitrary: b)
  case (Suc n)
  obtain st b1 where r: "reg_read REG_QSPI_0_STATUS b = (st, b1)" by fastforce
  then have "uart_sent u b1 = uart_sent u b" using uart_sent_read [of u REG_QSPI_0_STATUS b] by simp
  with Suc r show ?case by simp
qed simp

lemma qspi_write8_sent: "uart_sent u (snd (platform_psram_qspi_write8 c b)) = uart_sent u b"
  by (simp add: platform_psram_qspi_write8_def platform_psram_wait_qspi_ready_def wait_qspi_sent)

lemma qspi_commands_sent: "uart_sent u (snd (c_all (map platform_psram_qspi_write8 cs) b)) = uart_sent u b"
proof (induction cs arbitrary: b)
  case (Cons c cs)
  obtain ok b1 where r: "platform_psram_qspi_write8 c b = (ok, b1)" by fastforce
  then have "uart_sent u b1 = uart_sent u b" using qspi_write8_sent [of u c b] by simp
  with Cons r show ?case by simp
qed simp

lemma psram_init_sent:
  assumes "platform_psram_init fc b g = (ok, b', g')" shows "uart_sent u b' = uart_sent u b"
proof (cases "fc_psram_enable fc \<or> fc_psram_flow_test fc")
  case True
  let ?b = "reg_write REG_PSRAM_0_CHD 4 (reg_write REG_PSRAM_0_WC 18 (reg_write REG_QSPI_0_CLKDIV 1
    (reg_write REG_QSPI_0_DUM 0 (reg_write REG_QSPI_0_INTCFG 0 (reg_write REG_QSPI_0_STATUS 0
      (reg_write REG_QSPI_0_STATUS 16 b))))))"
  obtain ok1 b1 where c: "c_all (map platform_psram_qspi_write8 [0x66, 0x99, 0x35]) ?b = (ok1, b1)" by fastforce
  have "uart_sent u b1 = uart_sent u b"
    using qspi_commands_sent [of u "[0x66, 0x99, 0x35]" ?b] unfolding c by simp
  moreover have "b' = (if ok1 then reg_write REG_PSRAM_0_CHD 0 (reg_write REG_PSRAM_0_WC 8 b1) else b1)"
    using assms True c unfolding platform_psram_init_def Let_def by (simp split: if_splits)
  ultimately show ?thesis by simp
qed (use assms in \<open>simp add: platform_psram_init_def\<close>)

lemma init_map_safe:
  assumes bd: "build_ok bd" and ok: "boot_ok bd rx_ring fw"
    and w: "list_all asset_ok (bd_assets bd)" "length (wc_arena (fw_world fw)) = platform_psram_size"
      "length (wc_runtime_chunks (fw_world fw)) = MC_WORLD_COMPRESSED_MAX_CHUNKS"
  shows "\<exists>r fw'. init_compressed_map_or_halt bd fw = Some (r, fw') \<and> boot_ok bd rx_ring fw' \<and>
    (r \<longrightarrow> world_loaded (bd_core bd) (fw_world fw') (bd_assets bd))"
proof (cases "cfg_psram_map (bd_core bd)")
  case False
  with ok show ?thesis by (auto simp: init_compressed_map_or_halt_def world_loaded_def)
next
  case True
  obtain p b g where p: "platform_psram_init (bd_firmware bd) (fw_bus fw) (activity_led_port (fw_led fw)) = (p, b, g)"
    by (metis prod_cases3)
  let ?fw = "set_bus b (fw\<lparr>fw_led := (fw_led fw)\<lparr>activity_led_port := g\<rparr>\<rparr>)"
  have ok1: "boot_ok bd rx_ring ?fw" using ok psram_init_sent [OF p] by (simp add: boot_ok_def set_bus_def)
  obtain m world where m: "mc_world_compressed_init (bd_core bd) (bd_assets bd) (bd_assets_total_bytes bd)
      platform_psram_size (fw_world fw) = (m, world)" by fastforce
  have ok2: "boot_ok bd rx_ring (?fw\<lparr>fw_world := world\<rparr>)" using ok1 by (simp add: boot_ok_def)
  have loaded: "map_loaded world (bd_assets bd)" if m using init_map_loaded(2) [of "bd_core bd"] m that w by simp
  have l: "quiet_step bd (logi bd ''psram init failed; halted'' [])"
    "quiet_step bd (logi bd ''compressed map psram init failed; halted'' [])"
    "quiet_step bd (logi bd ''compressed map psram ready chunks=%u'' [Arg_unsigned a])" for a
    by (rule log_quiet [OF bd], simp add: conversion_text_def)+
  let ?n = "of_nat (mc_world_compressed_chunk_count (bd_core bd) world) :: u32"
  obtain fw1 fw2 fw3 where
    1: "logi bd ''psram init failed; halted'' [] ?fw = Some fw1" "fw_view bd fw1 = fw_view bd ?fw" and
    2: "logi bd ''compressed map psram init failed; halted'' [] (?fw\<lparr>fw_world := world\<rparr>) = Some fw2"
      "fw_view bd fw2 = fw_view bd (?fw\<lparr>fw_world := world\<rparr>)" and
    3: "logi bd ''compressed map psram ready chunks=%u'' [Arg_unsigned ?n] (?fw\<lparr>fw_world := world\<rparr>) = Some fw3"
      "fw_view bd fw3 = fw_view bd (?fw\<lparr>fw_world := world\<rparr>)"
    using quiet_at [OF l(1)] quiet_at [OF l(2)] quiet_at [OF l(3)] by metis
  have "fw_world fw3 = world" using 3(2) by (simp add: fw_view_def)
  moreover have "boot_ok bd rx_ring fw1" "boot_ok bd rx_ring fw2" "boot_ok bd rx_ring fw3"
    using ok1 ok2 boot_ok_view [OF 1(2)] boot_ok_view [OF 2(2)] boot_ok_view [OF 3(2)] by simp_all
  moreover have "init_compressed_map_or_halt bd fw =
      Some (p \<and> m, if \<not> p then fw1 else if \<not> m then fw2 else fw3)"
    using True p m 1(1) 2(1) 3(1) by (cases p; cases m) (simp_all add: init_compressed_map_or_halt_def Let_def set_bus_def)
  ultimately show ?thesis using loaded by (auto simp: world_loaded_def)
qed

lemma session_init_rx: "(mc_link_session_init (Some rx))\<lparr>s_rx := Some rx'\<rparr> = mc_link_session_init (Some rx')"
  by (simp add: mc_link_session_init_def reset_capabilities_def)

lemma boot_reset:
  assumes ok: "boot_ok bd rx_ring fw" and w: "world_loaded (bd_core bd) (fw_world fw) (bd_assets bd)"
  shows "\<exists>fw'. reset_connection_quiet bd fw = Some fw' \<and> fw_ok bd fw'"
proof -
  let ?rx = "mc_ringbuf_init (rb_data rx_ring) MC_RX_RING_CAP" and ?s = "fw_link_session fw"
  have s: "s_rx ?s = Some rx_ring" "?s\<lparr>s_rx := Some ?rx\<rparr> = mc_link_session_init (Some ?rx)"
    using ok session_init_rx by (simp_all add: boot_ok_def) (simp add: mc_link_session_init_def reset_capabilities_def)
  have rx: "rb_ok ?rx" using ok by (intro rb_init_ok) (simp_all add: boot_ok_def)
  then have "session_ok (mc_link_session_init (Some ?rx))" using init_session_ok [of "Some ?rx"] by simp
  then have l: "link_ok (mc_link_session_init (Some ?rx))"
    by (simp add: link_ok_def rx_cap_def mc_link_session_init_def reset_capabilities_def rb_init_cap)
  have t: "rb_ok (mc_ringbuf_init (rb_data (fw_tx_ring fw)) MC_TX_RING_CAP)"
    using ok by (intro rb_init_ok) (simp_all add: boot_ok_def)
  have "fw_ok bd (fw\<lparr>fw_link_session := ?s\<lparr>s_rx := Some ?rx\<rparr>,
      fw_tx_ring := mc_ringbuf_init (rb_data (fw_tx_ring fw)) MC_TX_RING_CAP,
      fw_server := mc_server_set_trace True (mc_server_init (bd_core bd))\<rparr>)"
    using ok l t w s(2) by (simp add: fw_ok_def boot_ok_def init_server_ok rb_init_cap wire_ok_def)
  from drop_stale_ok [OF this] s(1) show ?thesis by (simp add: reset_connection_quiet_def)
qed

lemma platform_init_sent: "uart_sent u (pf_bus (platform_init fc p)) = uart_sent u (pf_bus p)"
  by (simp add: platform_init_def uart0_init_def uart1_init_def)

lemma led_init_view: "fw_view bd (led_init bd fw) = fw_view bd fw"
  by (simp add: led_init_def fw_ticks_def platform_ticks_def case_prod_unfold fw_view_def)

lemma main_boot_safe:
  assumes bd: "build_ok bd" and on: "powered_on bd rx_ring fw"
  shows "\<exists>r fw'. main_boot bd rx_ring fw = Some (r, fw') \<and> (r \<longrightarrow> fw_ok bd fw')"
proof -
  let ?fw = "fw\<lparr>fw_platform := platform_init (bd_firmware bd) (fw_platform fw),
      fw_link_session := mc_link_session_init (Some rx_ring)\<rparr>"
  have "uart_sent u (fw_bus fw) = []" for u using on by (simp add: powered_on_def uart_sent_def)
  then have b0: "boot_ok bd rx_ring ?fw" using on by (simp add: boot_ok_def powered_on_def platform_init_sent)
  have l: "quiet_step bd (logi bd ''mc-uart boot'' [])"
    "quiet_step bd (logi bd ''uart0_baud=%u uart1_baud=%u bridge_uart=%u log_uart=%u''
       [Arg_unsigned a, Arg_unsigned b, Arg_unsigned c, Arg_unsigned d])"
    "quiet_step bd (logi bd ''connection reset reason=%s'' [Arg_str s])" for a b c d s
    by (rule log_quiet [OF bd], simp add: conversion_text_def)+
  obtain fw1 where fw1: "logi bd ''mc-uart boot'' [] ?fw = Some fw1" "fw_view bd fw1 = fw_view bd ?fw"
    using quiet_at [OF l(1)] by blast
  let ?args = "[Arg_unsigned (of_nat (fc_uart0_baud (bd_firmware bd))), Arg_unsigned (of_nat (fc_uart1_baud (bd_firmware bd))),
      Arg_unsigned (of_nat (fc_bridge_uart_id (bd_firmware bd))), Arg_unsigned (of_nat (fc_log_uart_id (bd_firmware bd)))]"
  obtain fw2 where fw2: "logi bd ''uart0_baud=%u uart1_baud=%u bridge_uart=%u log_uart=%u'' ?args fw1 = Some fw2"
    "fw_view bd fw2 = fw_view bd fw1"
    using quiet_at [OF l(2)] by blast
  have b2: "boot_ok bd rx_ring fw2" using b0 boot_ok_view [OF fw1(2)] boot_ok_view [OF fw2(2)] by simp
  have w2: "fw_world fw2 = fw_world fw" using fw1(2) fw2(2) by (simp add: fw_view_def)
  obtain r fw3 where fw3: "init_compressed_map_or_halt bd fw2 = Some (r, fw3)" "boot_ok bd rx_ring fw3"
    "r \<longrightarrow> world_loaded (bd_core bd) (fw_world fw3) (bd_assets bd)"
    using init_map_safe [OF bd b2] on w2 by (auto simp: powered_on_def)
  have "boot_ok bd rx_ring (led_init bd fw3)" "fw_world (led_init bd fw3) = fw_world fw3"
    using fw3(2) boot_ok_view [OF led_init_view] led_init_view [of bd fw3] by (simp_all add: fw_view_def)
  then have "\<exists>fw'. reset_connection bd ''boot'' (led_init bd fw3) = Some fw' \<and> fw_ok bd fw'" if r
    using boot_reset [of bd rx_ring "led_init bd fw3"] fw3(3) that
      safe_stepD [OF quiet_safe [OF l(3)], of _ "Some (str_bytes ''boot'')"]
    by (fastforce simp: reset_connection_def simp del: str_bytes_Cons)
  with fw1(1) fw2(1) fw3(1) show ?thesis by (cases r) (auto simp: main_boot_def Let_def)
qed

section \<open>Properties\<close>

text \<open>C2: from power-on, whatever the registers of the hardware read and for any number of rounds of the
  main loop, boot and rounds are defined, and what was sent on the bridge UART together with the unsent
  rest of the pending frame is a sequence of whole link frames of the device, each with the payload that the
  protocol gives its type: no log line, connection
  reset, stale-data drop, partial write or parse error ever cuts or mixes frames. It needs a pending
  buffer that holds the longest frame, as in the default configuration.\<close>

theorem firmware_sends_whole_frames:
  assumes "build_ok bd" "powered_on bd rx_ring fw0"
  shows "\<exists>booted fw1. main_boot bd rx_ring fw0 = Some (booted, fw1) \<and>
    (booted \<longrightarrow> (\<exists>fw frames. main_rounds bd n fw1 = Some fw \<and> list_all device_frame frames \<and>
       fw_sent bd fw @ drop (fw_link_pending_pos fw) (fw_link_pending fw) = concat (map frame_bytes frames) \<and>
       length (fw_link_pending fw) \<le> MC_LINK_MAX_ENCODED_LEN \<and>
       fw_link_pending_pos fw \<le> length (fw_link_pending fw) \<and>
       server_ok (bd_core bd) (fw_server fw) \<and> rb_ok (fw_tx_ring fw)))"
proof -
  obtain r fw1 where boot: "main_boot bd rx_ring fw0 = Some (r, fw1)" "r \<longrightarrow> fw_ok bd fw1"
    using main_boot_safe [OF assms] by blast
  have "\<exists>fw frames. main_rounds bd n fw1 = Some fw \<and> list_all device_frame frames \<and>
       fw_sent bd fw @ drop (fw_link_pending_pos fw) (fw_link_pending fw) = concat (map frame_bytes frames) \<and>
       length (fw_link_pending fw) \<le> MC_LINK_MAX_ENCODED_LEN \<and> fw_link_pending_pos fw \<le> length (fw_link_pending fw) \<and>
       server_ok (bd_core bd) (fw_server fw) \<and> rb_ok (fw_tx_ring fw)" if booted: r
  proof -
    obtain fw where fw: "main_rounds bd n fw1 = Some fw" "fw_ok bd fw"
      using safe_stepD [OF main_rounds_safe [OF assms(1)]] boot(2) booted by blast
    then obtain whole where w: "frames_only whole" "frames_only (fw_link_pending fw)"
      "fw_sent bd fw = whole @ take (fw_link_pending_pos fw) (fw_link_pending fw)"
      by (auto simp: fw_ok_def wire_ok_def)
    then have "frames_only (fw_sent bd fw @ drop (fw_link_pending_pos fw) (fw_link_pending fw))" by auto
    with fw show ?thesis by (auto simp: frames_only_def fw_ok_def wire_ok_def)
  qed
  with boot(1) show ?thesis by blast
qed

theorem firmware_sends_whole_frames_witness:
  "let bd = \<lparr>bd_firmware = default_firmware_config 72 False,
         bd_core = \<lparr>cfg_compression = False, cfg_psram_map = False, cfg_threshold = 8192, cfg_keepalive_interval = 720000000\<rparr>,
         bd_ticks_per_second = 72000000, bd_assets = [], bd_assets_total_bytes = 0\<rparr>;
       ring = (\<lambda>n. \<lparr>rb_data = replicate n 0, rb_cap = 0, rb_head = 0, rb_tail = 0, rb_len = 0\<rparr>);
       gpio = \<lparr>gpio0_ddr_shadow = 0, gpio0_dr_shadow = 0, gpio0_data_writes = 0, reg_gpio_0_ddr = 0, reg_gpio_0_dr = 0\<rparr>;
       fw0 = \<lparr>fw_platform = \<lparr>pf_bus = \<lparr>bus_values = (\<lambda>r k. 0x180), bus_reads = (\<lambda>r. 0), bus_writes = []\<rparr>,
           pf_tick_extender = mc_tick_extender_init, pf_sys_tick = of_nat, pf_tick_reads = 0, pf_timer_starts = 0\<rparr>,
         fw_led = \<lparr>activity_led_sample_start_ticks = 0, activity_led_phase_start_ticks = 0, activity_led_window_bytes = 0,
           activity_led_class = MC_ACTIVITY_LED_CLASS_IDLE, activity_led_on = False, activity_led_port = gpio\<rparr>,
         fw_world = \<lparr>wc_arena = replicate platform_psram_size 0, wc_runtime_chunks =
             replicate MC_WORLD_COMPRESSED_MAX_CHUNKS \<lparr>wc_chunk_x = 0, wc_chunk_z = 0, wc_raw_body_len = 0,
               wc_compressed_len = 0, wc_compressed = 0\<rparr>,
           wc_runtime_chunk_count = 0, wc_runtime_ready = False\<rparr>,
         fw_tx_ring = ring MC_TX_RING_CAP, fw_server = mc_server_init (bd_core bd),
         fw_link_session = mc_link_session_init None, fw_link_pending = [], fw_link_pending_pos = 0,
         fw_rx_parse_error_count = 0, fw_tx_backpressure_count = 0, fw_link_rx_error_count = 0,
         fw_link_tx_backpressure_count = 0, fw_tx_backpressure_stage = 0, fw_tx_backpressure_chunk = 0,
         fw_link_m2c_queue_count = 0, fw_link_uart_tx_bytes = 0\<rparr>
   in \<exists>fw1 fw. main_boot bd (ring MC_RX_RING_CAP) fw0 = Some (True, fw1) \<and> main_rounds bd 3 fw1 = Some fw"
proof -
  have boot: "\<not> cfg_psram_map (bd_core bd) \<Longrightarrow> main_boot bd rx fw0 = Some (r, fw1) \<Longrightarrow> r" for bd rx fw0 r fw1
    by (auto simp: main_boot_def init_compressed_map_or_halt_def Let_def bind_eq_Some_conv)
  have "\<exists>fw1 fw. main_boot bd rx fw0 = Some (True, fw1) \<and> main_rounds bd 3 fw1 = Some fw"
    if "build_ok bd" "powered_on bd rx fw0" "\<not> cfg_psram_map (bd_core bd)" for bd rx fw0
    using firmware_sends_whole_frames [OF that(1,2), of 3] boot [OF that(3)] by metis
  then show ?thesis
    by (simp add: Let_def build_ok_def powered_on_def firmware_config_ok_def default_firmware_config_def config_ok_def)
qed

end
