(* ===== verification/FirmwareStream.thy ===== *)
theory FirmwareStream
  imports Firmware "HOL-Library.Sublist"
begin

text \<open>
  The server's stream on its way through the firmware: from the transmit ring of the server through the data
  queue of the link session and the pending buffer of the main program to the bridge UART. What the bridge on
  the other side makes of the wire is the reference: it decodes the link frames and joins the payloads of those
  that carry data.
\<close>

section \<open>The stream a receiver of the wire sees\<close>

definition m2c_payloads :: "byte list \<Rightarrow> byte list" where
  "m2c_payloads bs =
     concat (map fr_payload (filter (\<lambda>fr. fr_type fr = MC_LINK_DATA_M2C) (fst (decode_stream link_stream_decode bs))))"

lemma m2c_payloads_frames:
  assumes "list_all encodable_frame frs"
  shows "m2c_payloads (concat (map frame_bytes frs) @ ys) =
    concat (map fr_payload (filter (\<lambda>fr. fr_type fr = MC_LINK_DATA_M2C) frs)) @ m2c_payloads ys"
  by (simp add: m2c_payloads_def link_code.decode_stream_concat [OF assms])

lemma m2c_payloads_Nil [simp]: "m2c_payloads [] = []"
  using m2c_payloads_frames [of "[]" "[]"] link_code.decode_stream_all [of "[]"] by (simp add: m2c_payloads_def)

lemma m2c_payloads_append:
  assumes "frames_only xs" shows "m2c_payloads (xs @ ys) = m2c_payloads xs @ m2c_payloads ys"
proof -
  obtain frs where frs: "list_all encodable_frame frs" "xs = concat (map frame_bytes frs)"
    using assms device_frames_encodable by (auto simp: frames_only_def)
  show ?thesis using m2c_payloads_frames [OF frs(1), of ys] m2c_payloads_frames [OF frs(1), of "[]"] frs(2) by simp
qed

lemma m2c_payloads_control: "frames_of is_control xs \<Longrightarrow> m2c_payloads xs = []"
proof -
  assume "frames_of is_control xs"
  then obtain frs where frs: "list_all encodable_frame frs" "list_all (\<lambda>fr. is_control (fr_type fr)) frs"
    "xs = concat (map frame_bytes frs)" by (auto simp: frames_of_def list_all_iff device_frame_def)
  then have "filter (\<lambda>fr. fr_type fr = MC_LINK_DATA_M2C) frs = []" by (simp add: list_all_iff filter_empty_conv)
  with m2c_payloads_frames [OF frs(1), of "[]"] frs(3) show ?thesis by simp
qed

lemma m2c_payloads_data:
  "length payload \<le> MC_LINK_MAX_PAYLOAD \<Longrightarrow> m2c_payloads (link_frame_bytes MC_LINK_DATA_M2C seq ack payload) = payload"
  using m2c_payloads_frames [of "[link_frame MC_LINK_DATA_M2C seq ack payload]" "[]"]
  by (simp add: link_frame_def [of MC_LINK_DATA_M2C seq ack payload, THEN arg_cong, of fr_type]
      link_frame_def [of MC_LINK_DATA_M2C seq ack payload, THEN arg_cong, of fr_payload])

section \<open>The link session\<close>

text \<open>Moving bytes from the server's ring into a data frame keeps the stream.\<close>

lemma queue_server_tx_stream:
  assumes ok: "session_ok s" "rb_ok tx" "s_active_tx_queue s = MC_LINK_SESSION_TX_NONE"
    and q: "mc_link_session_queue_server_tx s tx = (r, s', tx')"
  shows "m2c_payloads (rb_contents (s_tx s')) @ rb_contents tx' = m2c_payloads (rb_contents (s_tx s)) @ rb_contents tx"
proof -
  let ?n = "min (length (rb_contents tx)) (unat (s_negotiated_payload s))"
  let ?p = "take ?n (rb_contents tx)"
  let ?f = "link_frame_bytes MC_LINK_DATA_M2C (s_tx_seq_next s) (s_rx_seq_expected s) ?p"
  have "unat (s_negotiated_payload s) \<le> MC_LINK_MAX_PAYLOAD"
    using ok(1) by (simp add: session_ok_def capabilities_ok_def word_le_nat_alt)
  then have f: "m2c_payloads ?f = ?p" by (intro m2c_payloads_data) simp
  have "frames_only (rb_contents (s_tx s))" using ok(1,3) by (auto simp: session_ok_def data_waiting_def)
  from m2c_payloads_append [OF this, of ?f] f
  have "m2c_payloads (rb_contents (s_tx s) @ ?f) @ drop ?n (rb_contents tx) = m2c_payloads (rb_contents (s_tx s)) @ rb_contents tx"
    by (simp only: append_assoc append_take_drop_id)
  moreover have "rb_contents tx' = drop ?n (rb_contents tx) \<and> rb_contents (s_tx s') = rb_contents (s_tx s) @ ?f \<or>
      tx' = tx \<and> s_tx s' = s_tx s"
    using queue_server_tx_effect [OF ok(1,2) HOL.refl HOL.refl] q by (auto split: if_splits)
  ultimately show ?thesis by auto
qed

text \<open>Fetching a whole frame takes it off the data queue or off the control queue.\<close>

lemma read_tx_stream:
  assumes ok: "session_ok s" and idle: "s_active_tx_queue s = MC_LINK_SESSION_TX_NONE"
    and n: "MC_LINK_MAX_ENCODED_LEN \<le> n" and rd: "mc_link_session_read_tx s n = (bs, s')"
  shows "m2c_payloads bs @ m2c_payloads (rb_contents (s_tx s')) = m2c_payloads (rb_contents (s_tx s))"
proof (cases "select_active_tx s")
  case None
  with rd n show ?thesis by (simp add: mc_link_session_read_tx_def)
next
  case (Some t)
  have fo: "frames_of is_control (rb_contents (s_control_tx s))" "frames_of is_data (rb_contents (s_tx s))"
    using ok idle by (auto simp: session_defs)
  note sel = select_active_tx_ok [OF ok Some] select_active_tx_first [OF ok idle Some]
  have r: "s_active_tx_remaining t \<le> n" using sel n by simp
  show ?thesis
  proof (cases "next_frame_len (s_control_tx s)")
    case (Some k)
    then have t: "t = s\<lparr>s_active_tx_queue := MC_LINK_SESSION_TX_CONTROL, s_active_tx_remaining := k\<rparr>"
      using \<open>select_active_tx s = Some t\<close> idle by (simp add: select_active_tx_def)
    obtain i where i: "delimiter_index (rb_contents (s_control_tx s)) = Some i" "k = Suc i"
      using Some by (auto simp: next_frame_len)
    have k: "0 < k" "k \<le> length (rb_contents (s_control_tx s))" "frames_of is_control (take k (rb_contents (s_control_tx s)))"
      using frames_of_first [OF fo(1) i(1)] i(2) by auto
    obtain tx' where "read_active_tx (s_control_tx t) (\<lambda>tx. t\<lparr>s_control_tx := tx\<rparr>) n =
        (take (min n k) (rb_contents (s_control_tx s)), clear_active_tx (t\<lparr>s_control_tx := tx', s_active_tx_remaining := 0\<rparr>))"
      using read_active_tx_result [OF session_okD(2) [OF ok], of "\<lambda>tx. t\<lparr>s_control_tx := tx\<rparr>" k n] k r t by auto
    then have "bs = take k (rb_contents (s_control_tx s))" "s_tx s' = s_tx s"
      using rd n \<open>select_active_tx s = Some t\<close> t r by (auto simp: mc_link_session_read_tx_def clear_active_tx_def min_def)
    with m2c_payloads_control [OF k(3)] show ?thesis by simp
  next
    case None
    then obtain k where kt: "next_frame_len (s_tx s) = Some k"
      "t = s\<lparr>s_active_tx_queue := MC_LINK_SESSION_TX_DATA, s_active_tx_remaining := k\<rparr>"
      using \<open>select_active_tx s = Some t\<close> idle by (auto simp: select_active_tx_def split: option.splits)
    obtain i where i: "delimiter_index (rb_contents (s_tx s)) = Some i" "k = Suc i"
      using kt(1) by (auto simp: next_frame_len)
    have k: "0 < k" "k \<le> length (rb_contents (s_tx s))" "frames_of is_data (take k (rb_contents (s_tx s)))"
      using frames_of_first [OF fo(2) i(1)] i(2) by auto
    obtain tx' where "rb_contents tx' = drop (min n k) (rb_contents (s_tx s))"
      "read_active_tx (s_tx t) (\<lambda>tx. t\<lparr>s_tx := tx\<rparr>) n =
        (take (min n k) (rb_contents (s_tx s)), clear_active_tx (t\<lparr>s_tx := tx', s_active_tx_remaining := 0\<rparr>))"
      using read_active_tx_result [OF session_okD(1) [OF ok], of "\<lambda>tx. t\<lparr>s_tx := tx\<rparr>" k n] k r kt(2) by auto
    then have "bs = take k (rb_contents (s_tx s))" "rb_contents (s_tx s') = drop k (rb_contents (s_tx s))"
      using rd n \<open>select_active_tx s = Some t\<close> kt(2) r by (auto simp: mc_link_session_read_tx_def clear_active_tx_def min_def)
    with m2c_payloads_append [OF frames_of_only [OF k(3)], of "drop k (rb_contents (s_tx s))"] show ?thesis by simp
  qed
qed

section \<open>The pumps\<close>

text \<open>What a receiver has or is about to get from the wire, and what is still on its way to it.\<close>

definition on_wire :: "build \<Rightarrow> firmware \<Rightarrow> byte list" where
  "on_wire bd fw = m2c_payloads (fw_sent bd fw @ drop (fw_link_pending_pos fw) (fw_link_pending fw))"

definition on_the_way :: "firmware \<Rightarrow> byte list" where
  "on_the_way fw = m2c_payloads (rb_contents (s_tx (fw_link_session fw))) @ rb_contents (fw_tx_ring fw)"

text \<open>Both depend only on what the view shows.\<close>

lemma stream_view: "fw_view bd fw' = fw_view bd fw \<Longrightarrow> on_wire bd fw' = on_wire bd fw \<and> on_the_way fw' = on_the_way fw"
  by (simp add: fw_view_def on_wire_def on_the_way_def)

lemma wire_whole: "fw_ok bd fw \<Longrightarrow> frames_only (fw_sent bd fw @ drop (fw_link_pending_pos fw) (fw_link_pending fw))"
  by (auto simp: fw_ok_def wire_ok_def)

lemma bridge_write_stream:
  assumes "build_ok bd" "bridge_write bd bs fw = Some (written, fw')"
  shows "written \<le> length bs \<and> fw_sent bd fw' = fw_sent bd fw @ take written bs \<and> fw_link_session fw' = fw_link_session fw \<and>
    fw_tx_ring fw' = fw_tx_ring fw \<and> fw_link_pending fw' = fw_link_pending fw \<and> fw_link_pending_pos fw' = fw_link_pending_pos fw"
  using bridge_write_view [OF assms(1), of bs fw] assms(2) by (auto simp: fw_view_def set_bus_def)

lemma pump_link_pending_stream:
  assumes "build_ok bd" "fw_ok bd fw" "pump_link_pending bd fw = Some (budget, fw')"
  shows "on_wire bd fw' = on_wire bd fw \<and> on_the_way fw' = on_the_way fw"
proof (cases "fw_link_pending_pos fw < length (fw_link_pending fw)")
  case True
  let ?pos = "fw_link_pending_pos fw" and ?p = "fw_link_pending fw"
  let ?bs = "take (min (length ?p - ?pos) (fc_link_tx_max_bytes_per_loop (bd_firmware bd))) (drop ?pos ?p)"
  obtain n fw1 where w: "bridge_write bd ?bs fw = Some (n, fw1)"
    using assms(3) True by (auto simp: pump_link_pending_def Let_def bind_eq_Some_conv)
  note b = bridge_write_stream [OF assms(1) w]
  then have n: "n \<le> length ?p - ?pos" "take n ?bs = take n (drop ?pos ?p)" by (simp_all add: min_def split: if_splits)
  have "fw_sent bd fw1 @ drop (?pos + n) ?p = fw_sent bd fw @ drop ?pos ?p"
    using b n(2) by (simp add: add.commute) (metis append_take_drop_id drop_drop add.commute)
  moreover have "fw' = (if ?pos + n < length ?p then fw1\<lparr>fw_link_pending_pos := ?pos + n\<rparr>
      else fw1\<lparr>fw_link_pending := [], fw_link_pending_pos := 0\<rparr>)"
    using assms(3) True w by (auto simp: pump_link_pending_def Let_def split: if_splits)
  ultimately show ?thesis using b n(1) by (auto simp: on_wire_def on_the_way_def)
qed (use assms(3) in \<open>auto simp: pump_link_pending_def Let_def\<close>)

lemma send_next_pending_stream:
  assumes bd: "build_ok bd" and ok: "fw_ok bd fw" and idle: "fw_link_pending fw = []" "fw_link_pending_pos fw = 0"
    and s: "send_next_pending bd budget fw = Some fw'"
  shows "on_wire bd fw' @ on_the_way fw' = on_wire bd fw @ on_the_way fw \<and> prefix (on_wire bd fw) (on_wire bd fw')"
proof -
  let ?n = "fc_link_tx_pending_bytes (bd_firmware bd)"
  obtain p t where rd: "mc_link_session_read_tx (fw_link_session fw) ?n = (p, t)" by fastforce
  let ?fw = "fw\<lparr>fw_link_session := t, fw_link_pending := p\<rparr>"
  have d: "m2c_payloads p @ m2c_payloads (rb_contents (s_tx t)) = m2c_payloads (rb_contents (s_tx (fw_link_session fw)))"
    using ok bd by (intro read_tx_stream [OF _ _ _ rd]) (simp_all add: fw_ok_def link_ok_def build_ok_def)
  have w: "m2c_payloads (fw_sent bd fw @ p) = on_wire bd fw @ m2c_payloads p"
    using m2c_payloads_append [of "fw_sent bd fw" p] wire_whole [OF ok] idle by (simp add: on_wire_def)
  have "fw_sent bd fw' @ drop (fw_link_pending_pos fw') (fw_link_pending fw') = fw_sent bd fw @ p \<and>
      fw_link_session fw' = t \<and> fw_tx_ring fw' = fw_tx_ring fw"
  proof (cases "p = []")
    case True
    with s rd idle show ?thesis by (auto simp: send_next_pending_def Let_def)
  next
    case False
    then obtain n fw1 where b: "bridge_write bd (take (min (length p) budget) p) ?fw = Some (n, fw1)"
      "fw' = (if length p \<le> n then fw1\<lparr>fw_link_pending := [], fw_link_pending_pos := 0\<rparr> else fw1\<lparr>fw_link_pending_pos := n\<rparr>)"
      using s rd by (auto simp: send_next_pending_def Let_def bind_eq_Some_conv split: if_splits)
    note v = bridge_write_stream [OF bd b(1)]
    then have "take n (take (min (length p) budget) p) = take n p" by (simp add: min_def split: if_splits)
    with v b(2) show ?thesis by auto
  qed
  then have "on_wire bd fw' = on_wire bd fw @ m2c_payloads p"
    "on_the_way fw' = m2c_payloads (rb_contents (s_tx t)) @ rb_contents (fw_tx_ring fw)"
    using w by (simp_all add: on_wire_def on_the_way_def)
  with d show ?thesis by (simp add: on_the_way_def)
qed

lemma pump_link_tx_stream:
  assumes bd: "build_ok bd" and ok: "fw_ok bd fw" and p: "pump_link_tx bd fw = Some fw'"
  shows "on_wire bd fw' @ on_the_way fw' = on_wire bd fw @ on_the_way fw \<and> prefix (on_wire bd fw) (on_wire bd fw')"
proof -
  obtain budget fw1 where fw1: "pump_link_pending bd fw = Some (budget, fw1)" "fw_ok bd fw1"
    "0 < budget \<longrightarrow> fw_link_pending fw1 = [] \<and> fw_link_pending_pos fw1 = 0"
    using pump_link_pending_safe [OF bd ok] by blast
  note 1 = pump_link_pending_stream [OF bd ok fw1(1)]
  show ?thesis
  proof (cases "budget = 0")
    case True
    with p fw1(1) 1 show ?thesis by (simp add: pump_link_tx_def)
  next
    case False
    obtain r s tx where q: "mc_link_session_queue_server_tx (fw_link_session fw1) (fw_tx_ring fw1) = (r, s, tx)"
      by (metis prod_cases3)
    obtain fw2 where fw2: "queue_server_tx bd fw1 = Some fw2" "fw_ok bd fw2" "fw_link_pending fw2 = []" "fw_link_pending_pos fw2 = 0"
      using queue_server_tx_safe [OF bd fw1(2)] fw1(3) False by auto
    have v: "fw_view bd fw2 = fw_view bd (fw1\<lparr>fw_link_session := s, fw_tx_ring := tx\<rparr>)"
      using queue_server_tx_view [OF bd q] fw2(1) by auto
    have "on_the_way (fw1\<lparr>fw_link_session := s, fw_tx_ring := tx\<rparr>) = on_the_way fw1"
      using queue_server_tx_stream [OF _ _ _ q] fw1(2) by (simp add: on_the_way_def fw_ok_def link_ok_def)
    then have 2: "on_wire bd fw2 = on_wire bd fw1" "on_the_way fw2 = on_the_way fw1"
      using stream_view [OF v] by (simp_all add: on_wire_def)
    have "send_next_pending bd budget fw2 = Some fw'" using p fw1(1) fw2(1) False by (simp add: pump_link_tx_def)
    from send_next_pending_stream [OF bd fw2(2-4) this] 1 2 show ?thesis by simp
  qed
qed

section \<open>Rounds without input\<close>

lemma pump_link_rx_quiet:
  assumes "platform_bridge_read (bd_firmware bd) MC_TICK_BUDGET_RX_BYTES (fw_bus fw) = ([], b)"
  shows "pump_link_rx bd fw = Some (set_bus b fw) \<and> fw_view bd (set_bus b fw) = fw_view bd fw"
  using bridge_read_facts(2) [OF assms] assms by (simp add: pump_link_rx_def Let_def fw_view_def set_bus_def)

lemma pump_server_rx_quiet:
  assumes "s_rx (fw_link_session fw) = Some rx" "rb_ok rx" "rb_contents rx = []"
  shows "\<exists>rx'. pump_server_rx bd fw = Some (True, fw\<lparr>fw_link_session := (fw_link_session fw)\<lparr>s_rx := Some rx'\<rparr>\<rparr>)"
proof -
  obtain buf rx' where rd: "mc_ringbuf_read rx MC_TICK_BUDGET_RX_BYTES = (buf, rx')" by fastforce
  have "buf = []" using rb.read_contents [OF assms(2), of MC_TICK_BUDGET_RX_BYTES] rd assms(3) by simp
  with assms(1) rd show ?thesis by (auto simp: pump_server_rx_def)
qed

lemma tick_failed_quiet:
  assumes bd: "build_ok bd" shows "quiet_step bd (tick_failed bd)"
  unfolding quiet_step_def
proof
  fix fw :: firmware
  let ?fw = "fw\<lparr>fw_tx_backpressure_count := fw_tx_backpressure_count fw + 1\<rparr>"
  have "quiet_step bd (logi bd ''tx backpressure count=%u stage=%d chunk=%d''
      [Arg_unsigned (fw_tx_backpressure_count ?fw), Arg_int (fw_tx_backpressure_stage ?fw), Arg_int (fw_tx_backpressure_chunk ?fw)])"
    by (rule log_quiet [OF bd]) (simp add: conversion_text_def)
  from quiet_at [OF quiet_step_when [OF this, of "should_log_count (fw_tx_backpressure_count ?fw)"], of ?fw]
  show "\<exists>fw'. tick_failed bd fw = Some fw' \<and> fw_view bd fw' = fw_view bd fw" by (simp add: tick_failed_def Let_def)
qed

text \<open>Without a pending reset the tick only appends whole packets to the server's ring.\<close>

lemma pump_server_quiet:
  assumes bd: "build_ok bd" and ok: "fw_ok bd fw" and nr: "\<not> sv_tx_reset_requested (fw_server fw)"
    and rx: "s_rx (fw_link_session fw) = Some rx" "rb_contents rx = []"
    and p: "pump_server bd fw = Some fw'"
  shows "on_wire bd fw' = on_wire bd fw \<and> (\<exists>new. whole_frames new \<and> on_the_way fw' = on_the_way fw @ new)"
proof -
  have "rb_ok rx" using ok rx(1) session_okD(7) [OF link_okD] by (fastforce simp: fw_ok_def)
  from pump_server_rx_quiet [OF rx(1) this rx(2)] obtain rx' where
    r: "pump_server_rx bd fw = Some (True, fw\<lparr>fw_link_session := (fw_link_session fw)\<lparr>s_rx := Some rx'\<rparr>\<rparr>)" by blast
  obtain now fw1 where t: "fw_ticks (fw\<lparr>fw_link_session := (fw_link_session fw)\<lparr>s_rx := Some rx'\<rparr>\<rparr>) = (now, fw1)" by fastforce
  then have fw1: "on_wire bd fw1 = on_wire bd fw" "on_the_way fw1 = on_the_way fw" "fw_server fw1 = fw_server fw"
    "fw_tx_ring fw1 = fw_tx_ring fw" "fw_world fw1 = fw_world fw" "fw_link_session fw1 = (fw_link_session fw)\<lparr>s_rx := Some rx'\<rparr>"
    by (auto simp: fw_ticks_def platform_ticks_def on_wire_def on_the_way_def case_prod_unfold)
  obtain k server tx where
    k: "mc_server_tick_at (bd_core bd) (fw_world fw1) now (fw_server fw1) (fw_tx_ring fw1) = (k, server, tx)" by (metis prod_cases3)
  have "tx_after (fw_server fw) server (fw_tx_ring fw) tx \<and> \<not> sv_tx_reset_requested server"
    using tick_sound [OF _ _ _ _ k, of "bd_assets bd"] ok bd nr fw1 by (simp add: fw_ok_def build_ok_def)
  then obtain new where new: "whole_frames new" "rb_contents tx = rb_contents (fw_tx_ring fw) @ new"
    "\<not> sv_tx_reset_requested server" by (auto simp: tx_after_def)
  let ?fw = "fw1\<lparr>fw_server := server, fw_tx_ring := tx\<rparr>"
  from quiet_at [OF quiet_step_bind [OF run_trace_quiet [OF bd] quiet_step_when [OF tick_failed_quiet [OF bd]]], of ?fw "\<not> k"]
  obtain fw2 where fw2: "run_trace bd ?fw \<bind> when_opt (\<not> k) (tick_failed bd) = Some fw2" "fw_view bd fw2 = fw_view bd ?fw"
    by blast
  have "(fw_server fw2)\<lparr>sv_trace := None\<rparr> = server\<lparr>sv_trace := None\<rparr>" using fw2(2) by (simp add: fw_view_def)
  from arg_cong [OF this, of sv_tx_reset_requested] have "\<not> sv_tx_reset_requested (fw_server fw2)" using new(3) by simp
  then have "fw' = fw2\<lparr>fw_server := (fw_server fw2)\<lparr>sv_tx_reset_requested := False\<rparr>\<rparr>"
    using p r t k fw2(1) by (auto simp: pump_server_def take_server_reset_def mc_server_take_tx_reset_def bind_eq_Some_conv)
  moreover have "on_wire bd fw2 = on_wire bd ?fw" "on_the_way fw2 = on_the_way ?fw" using stream_view [OF fw2(2)] by simp_all
  ultimately show ?thesis using new(1,2) fw1 by (auto simp: on_wire_def on_the_way_def)
qed

section \<open>Properties\<close>

text \<open>C5: the serial link is transparent for the server's stream. In a round of the main loop in which nothing
  arrives and no reset is pending, whatever the UART takes and whatever is half sent, the bytes a receiver decodes
  from the wire together with those still on their way (in queued link frames and in the server's ring) are
  extended by whole packets of the server and otherwise the same: none is lost, repeated, reordered or mixed with
  the control frames that share the wire, and what the receiver already had is a prefix of what it has then. The
  invariant \<open>fw_ok\<close> holds after every boot and every round.\<close>

theorem link_carries_server_stream:
  assumes "build_ok bd" "fw_ok bd fw" "\<not> sv_tx_reset_requested (fw_server fw)"
    "fst (platform_bridge_read (bd_firmware bd) MC_TICK_BUDGET_RX_BYTES (fw_bus fw)) = []"
    "s_rx (fw_link_session fw) = Some rx" "rb_contents rx = []"
  shows "\<exists>fw' new. main_round bd fw = Some fw' \<and> fw_ok bd fw' \<and> whole_frames new \<and>
    on_wire bd fw' @ on_the_way fw' = on_wire bd fw @ on_the_way fw @ new \<and> prefix (on_wire bd fw) (on_wire bd fw')"
proof -
  obtain b where "platform_bridge_read (bd_firmware bd) MC_TICK_BUDGET_RX_BYTES (fw_bus fw) = ([], b)"
    using assms(4) by (metis prod.collapse)
  note 1 = pump_link_rx_quiet [OF this]
  let ?fw = "set_bus b fw"
  have ok1: "fw_ok bd ?fw" using fw_ok_view [of bd ?fw fw] 1 assms(2) by simp
  have s1: "fw_server ?fw = fw_server fw" "fw_link_session ?fw = fw_link_session fw" by (simp_all add: set_bus_def)
  obtain fw2 where 2: "pump_server bd ?fw = Some fw2" "fw_ok bd fw2"
    using safe_stepD [OF pump_server_safe [OF assms(1)] ok1] by blast
  obtain new where new: "on_wire bd fw2 = on_wire bd ?fw" "whole_frames new" "on_the_way fw2 = on_the_way ?fw @ new"
    using pump_server_quiet [OF assms(1) ok1 _ _ assms(6) 2(1)] assms(3,5) s1 by auto
  obtain fw3 where 3: "pump_link_tx bd fw2 = Some fw3" "fw_ok bd fw3"
    using safe_stepD [OF pump_link_tx_safe [OF assms(1)] 2(2)] by blast
  obtain ticks fw4 where 4: "fw_ticks fw3 = (ticks, fw4)" by fastforce
  then have v4: "fw_view bd fw4 = fw_view bd fw3"
    by (auto simp: fw_ticks_def platform_ticks_def fw_view_def case_prod_unfold)
  let ?fw' = "fw4\<lparr>fw_led := mc_activity_led_tick (fc_uart_activity_led_enable (bd_firmware bd)) (bd_ticks_per_second bd) ticks (fw_led fw4)\<rparr>"
  have v: "fw_view bd ?fw' = fw_view bd fw3" using v4 by simp
  have "main_round bd fw = Some ?fw'" using 1 2(1) 3(1) 4 by (simp add: main_round_def)
  moreover have "fw_ok bd ?fw'" using fw_ok_view [OF v] 3(2) by simp
  moreover have "on_wire bd ?fw' @ on_the_way ?fw' = on_wire bd fw @ on_the_way fw @ new" "prefix (on_wire bd fw) (on_wire bd ?fw')"
    using pump_link_tx_stream [OF assms(1) 2(2) 3(1)] stream_view [OF v] stream_view [OF conjunct2 [OF 1]] new by simp_all
  ultimately show ?thesis using new(2) by blast
qed

theorem link_carries_server_stream_witness:
  "let bd = \<lparr>bd_firmware = default_firmware_config 72 False,
         bd_core = \<lparr>cfg_compression = False, cfg_psram_map = False, cfg_threshold = 8192, cfg_keepalive_interval = 720000000\<rparr>,
         bd_ticks_per_second = 72000000, bd_assets = [], bd_assets_total_bytes = 0\<rparr>;
       gpio = \<lparr>gpio0_ddr_shadow = 0, gpio0_dr_shadow = 0, gpio0_data_writes = 0, reg_gpio_0_ddr = 0, reg_gpio_0_dr = 0\<rparr>;
       fw = \<lparr>fw_platform = \<lparr>pf_bus = \<lparr>bus_values = (\<lambda>r k. 0x180), bus_reads = (\<lambda>r. 0), bus_writes = []\<rparr>,
           pf_tick_extender = mc_tick_extender_init, pf_sys_tick = of_nat, pf_tick_reads = 0, pf_timer_starts = 0\<rparr>,
         fw_led = \<lparr>activity_led_sample_start_ticks = 0, activity_led_phase_start_ticks = 0, activity_led_window_bytes = 0,
           activity_led_class = MC_ACTIVITY_LED_CLASS_IDLE, activity_led_on = False, activity_led_port = gpio\<rparr>,
         fw_world = \<lparr>wc_arena = [], wc_runtime_chunks = [], wc_runtime_chunk_count = 0, wc_runtime_ready = False\<rparr>,
         fw_tx_ring = snd (mc_ringbuf_write (mc_ringbuf_init (replicate MC_TX_RING_CAP 0) MC_TX_RING_CAP) [1, 7]),
         fw_server = mc_server_init (bd_core bd),
         fw_link_session = mc_link_session_init (Some (mc_ringbuf_init (replicate MC_RX_RING_CAP 0) MC_RX_RING_CAP)),
         fw_link_pending = [], fw_link_pending_pos = 0,
         fw_rx_parse_error_count = 0, fw_tx_backpressure_count = 0, fw_link_rx_error_count = 0,
         fw_link_tx_backpressure_count = 0, fw_tx_backpressure_stage = 0, fw_tx_backpressure_chunk = 0,
         fw_link_m2c_queue_count = 0, fw_link_uart_tx_bytes = 0\<rparr>
   in \<exists>fw' new. main_round bd fw = Some fw' \<and> whole_frames new \<and> on_wire bd fw' @ on_the_way fw' = [1, 7] @ new"
proof -
  let ?rx = "mc_ringbuf_init (replicate MC_RX_RING_CAP 0) MC_RX_RING_CAP"
  let ?tx = "mc_ringbuf_init (replicate MC_TX_RING_CAP 0) MC_TX_RING_CAP"
  have tx: "rb_ok ?tx" "rb_contents ?tx = []" "rb_cap ?tx = MC_TX_RING_CAP" and rx: "rb_ok ?rx" "rb_contents ?rx = []" "rb_cap ?rx = MC_RX_RING_CAP"
    by (simp_all add: rb_init_ok rb_init_contents rb_init_cap)
  let ?tx1 = "snd (mc_ringbuf_write ?tx [1, 7])"
  have tx1: "rb_ok ?tx1" "rb_cap ?tx1 = MC_TX_RING_CAP" "rb_contents ?tx1 = [1, 7]"
    using rb.write_invar [OF tx(1), of "[1, 7]"] rb.write_capacity [OF tx(1), of "[1, 7]"] rb.write_contents [OF tx(1), of "[1, 7]"] tx
    by (simp_all del: mc_ringbuf_write.simps)
  have s: "link_ok (mc_link_session_init (Some ?rx))" "s_rx (mc_link_session_init (Some ?rx)) = Some ?rx"
    "s_tx (mc_link_session_init (Some ?rx)) = mc_ringbuf_init (replicate MC_LINK_SESSION_TX_CAP 0) MC_LINK_SESSION_TX_CAP"
    using init_session_ok [of "Some ?rx"] rx
    by (simp_all add: link_ok_def mc_link_session_init_def reset_capabilities_def rx_cap_def)
  have "\<exists>fw' new. main_round bd fw = Some fw' \<and> whole_frames new \<and> on_wire bd fw' @ on_the_way fw' = [1, 7] @ new"
    if "build_ok bd" "fw_server fw = mc_server_init (bd_core bd)" "fw_tx_ring fw = ?tx1"
      "fw_link_session fw = mc_link_session_init (Some ?rx)" "fw_link_pending fw = []" "fw_link_pending_pos fw = 0"
      "world_loaded (bd_core bd) (fw_world fw) (bd_assets bd)" "fw_sent bd fw = []"
      "fst (platform_bridge_read (bd_firmware bd) MC_TICK_BUDGET_RX_BYTES (fw_bus fw)) = []" for bd fw
  proof -
    have "server_ok (bd_core bd) (mc_server_init (bd_core bd))" "\<not> sv_tx_reset_requested (mc_server_init (bd_core bd))"
      using init_run_ok [of 1 "[0]" "bd_core bd"] by (simp_all add: run_ok_def)
    moreover from this have "fw_ok bd fw" using that s tx1 by (simp add: fw_ok_def wire_ok_def)
    moreover have "on_wire bd fw @ on_the_way fw = [1, 7]"
      using that(3-6,8) tx1 s by (simp add: on_wire_def on_the_way_def rb_init_contents)
    ultimately show ?thesis
      using link_carries_server_stream [OF that(1), of fw ?rx] that s rx by (metis append.assoc)
  qed
  moreover have "fst (platform_bridge_read fc 512 b) = []" if "bus_values b = (\<lambda>r k. 0x180)" for fc b
  proof -
    have "fst (uart0_read (Suc n) b) = []" "fst (uart1_read (Suc n) b) = []" for n
      using that by (simp_all add: reg_read_def platform_uart0_decode_rx_def)
    from this [of 511] show ?thesis by (simp add: platform_bridge_read_def eval_nat_numeral)
  qed
  ultimately show ?thesis
    by (simp add: Let_def build_ok_def firmware_config_ok_def default_firmware_config_def config_ok_def world_loaded_def
        uart_sent_def del: mc_ringbuf_write.simps)
qed

end
