(* ===== verification/ServerBootstrap.thy ===== *)
theory ServerBootstrap
  imports Server
begin

text \<open>
  The bootstrap of core/src/mc_server.c over many ticks: what the client receives after a login while the transport
  takes the queued bytes at its own pace, and how soon the bootstrap is done.
\<close>

section \<open>Progress of the bootstrap\<close>

text \<open>The fields that decide what the bootstrap sends.\<close>

definition boot_view :: "mc_server \<Rightarrow> i32 \<times> mc_command_position \<times> bool \<times> i32 \<times> u32" where
  "boot_view server = (sv_world_time server, sv_position server, sv_compression_enabled server, sv_keepalive_id server,
     sv_last_keepalive_tick server)"

lemma boot_view_frames:
  assumes "boot_view s = boot_view server"
  shows "boot_packets s = boot_packets server" "auto_frame cfg s = auto_frame cfg server"
    "chunk_frames cfg assets s = chunk_frames cfg assets server"
proof -
  have "auto_frame cfg s body = auto_frame cfg server body" for body
    using assms by (simp add: boot_view_def auto_frame_def)
  then show "auto_frame cfg s = auto_frame cfg server" by blast
  then show "chunk_frames cfg assets s = chunk_frames cfg assets server" by (simp add: chunk_frames_def)
  show "boot_packets s = boot_packets server" using assms by (simp add: boot_view_def boot_packets_def)
qed

lemma stage_advance_view [simp]: "boot_view (stage_advance cfg assets server) = boot_view server"
  by (simp add: boot_view_def)

lemma stage_advance_early:
  assumes "sv_play_bootstrap_stage server \<noteq> 6"
  shows "sv_play_bootstrap_stage (stage_advance cfg assets server) = sv_play_bootstrap_stage server + 1"
    "sv_play_bootstrap_chunk_index (stage_advance cfg assets server) = sv_play_bootstrap_chunk_index server"
  using assms by (simp_all add: stage_advance_def)

lemma bootstrap_loop_early:
  assumes "config_ok cfg" "world_loaded cfg world assets" "booting cfg server" "rb_ok tx"
    "sv_play_bootstrap_stage server = of_nat k" "k < 6"
    "length (rb_contents tx) + length (concat (map (auto_frame cfg server) (drop k (boot_packets server)))) \<le> rb_cap tx"
  shows "\<exists>s t. bootstrap_loop cfg world server tx = (True, s, t) \<and> booting cfg s \<and> boot_view s = boot_view server \<and>
    sv_play_bootstrap_stage s = 6 \<and> sv_play_bootstrap_chunk_index s = sv_play_bootstrap_chunk_index server \<and>
    rb_ok t \<and> rb_cap t = rb_cap tx \<and>
    rb_contents t = rb_contents tx @ concat (map (auto_frame cfg server) (drop k (boot_packets server)))"
  using assms(3-)
proof (induction "6 - k" arbitrary: k server tx)
  case (Suc d)
  have len: "length (boot_packets server) = 6" by (simp add: boot_packets_def)
  have u: "unat (sv_play_bootstrap_stage server) = k" using Suc.prems(3,4) by (simp add: unat_of_nat)
  have n6: "sv_play_bootstrap_stage server \<noteq> 6" "sv_play_bootstrap_stage server < 7"
    using u Suc.prems(4) by (auto simp: word_unat_eq_iff word_less_nat_alt)
  let ?f = "auto_frame cfg server (boot_packets server ! k)" and ?s = "stage_advance cfg assets server"
  have fr: "stage_frame cfg assets server = ?f" using n6(1) u by (simp add: stage_frame_def)
  have dr: "drop k (boot_packets server) = boot_packets server ! k # drop (Suc k) (boot_packets server)"
    using len Suc.prems(4) by (simp add: Cons_nth_drop_Suc)
  from assms(1,2) Suc.prems(1,2) n6(2) show ?case
  proof (cases rule: bootstrap_step_cases)
    case full
    with Suc.prems(5) fr dr n6(1) show ?thesis by (simp add: chunks_left_def del: length_rb_contents)
  next
    case (queued t)
    note adv = stage_advance_early [OF n6(1), of cfg assets]
    have st: "sv_play_bootstrap_stage ?s = of_nat (Suc k)" using adv(1) Suc.prems(3) by simp
    have b: "booting cfg ?s" by (rule stage_advance_booting [OF Suc.prems(1) n6(2)])
    show ?thesis
    proof (cases "k = 5")
      case True
      with st have six: "sv_play_bootstrap_stage ?s = 6" by simp
      have "bootstrap_loop cfg world server tx = (True, ?s, t)"
        using queued(2) six by (simp add: bootstrap_loop.simps [of cfg world server])
      moreover have "drop (Suc k) (boot_packets server) = []" using len True by simp
      ultimately show ?thesis
        using six b adv(2) queued fr dr by (intro exI [of _ ?s] exI [of _ t]) simp
    next
      case False
      with st Suc.prems(4) have six: "sv_play_bootstrap_stage ?s \<noteq> 6"
        by (auto simp: word_unat_eq_iff unat_of_nat simp del: of_nat_Suc)
      have l: "bootstrap_loop cfg world server tx = bootstrap_loop cfg world ?s t"
        using queued(2) six by (simp add: bootstrap_loop.simps [of cfg world server])
      note v = boot_view_frames [OF stage_advance_view [of cfg assets server]]
      have k: "d = 6 - Suc k" "Suc k < 6" using Suc.hyps(2) False Suc.prems(4) by simp_all
      have "length (rb_contents t) + length (concat (map (auto_frame cfg ?s) (drop (Suc k) (boot_packets ?s)))) \<le> rb_cap t"
        using Suc.prems(5) queued(4,5) fr dr v by (simp del: length_rb_contents)
      from Suc.hyps(1) [OF k(1) b queued(3) st k(2) this]
      obtain s' t' where "bootstrap_loop cfg world ?s t = (True, s', t')" "booting cfg s'" "boot_view s' = boot_view ?s"
        "sv_play_bootstrap_stage s' = 6" "sv_play_bootstrap_chunk_index s' = sv_play_bootstrap_chunk_index ?s"
        "rb_ok t'" "rb_cap t' = rb_cap t"
        "rb_contents t' = rb_contents t @ concat (map (auto_frame cfg ?s) (drop (Suc k) (boot_packets ?s)))"
        by blast
      with l queued(4,5) fr dr v adv(2) show ?thesis by (intro exI [of _ s'] exI [of _ t']) simp
    qed
  qed
qed simp

text \<open>One chunk: the index moves on, and behind the last chunk the bootstrap is done.\<close>

lemma bootstrap_loop_chunk:
  assumes "config_ok cfg" "world_loaded cfg world assets" "booting cfg server" "rb_ok tx"
    "sv_play_bootstrap_stage server = 6" "unat (sv_play_bootstrap_chunk_index server) = i"
    "i < length (chunk_frames cfg assets server)"
    "length (rb_contents tx) + length (chunk_frames cfg assets server ! i) \<le> rb_cap tx"
  shows "\<exists>s t. bootstrap_loop cfg world server tx = (True, s, t) \<and> booting cfg s \<and> boot_view s = boot_view server \<and>
    unat (sv_play_bootstrap_chunk_index s) = Suc i \<and>
    sv_play_bootstrap_stage s = (if Suc i < length (chunk_frames cfg assets server) then 6 else 7) \<and>
    rb_ok t \<and> rb_cap t = rb_cap tx \<and> rb_contents t = rb_contents tx @ chunk_frames cfg assets server ! i"
proof -
  let ?s = "stage_advance cfg assets server"
  have lt: "sv_play_bootstrap_stage server < 7" using assms(5) by simp
  have fr: "stage_frame cfg assets server = chunk_frames cfg assets server ! i" using assms(5,6) by (simp add: stage_frame_def)
  have i32: "i < 32" using assms(7) length_chunk_frames(2) [OF assms(2,3,1)] by simp
  then have ui: "unat (sv_play_bootstrap_chunk_index server + 1) = Suc i" using assms(6) by (simp add: unat_word_ariths)
  then have adv: "unat (sv_play_bootstrap_chunk_index ?s) = Suc i"
    "sv_play_bootstrap_stage ?s = (if Suc i < length (chunk_frames cfg assets server) then 6 else 7)"
    using assms(5) by (simp_all add: stage_advance_def Let_def)
  from assms(1-4) lt show ?thesis
  proof (cases rule: bootstrap_step_cases)
    case full
    with assms(5-8) fr show ?thesis by (simp add: chunks_left_def del: length_rb_contents)
  next
    case (queued t)
    have l: "bootstrap_loop cfg world server tx = (True, ?s, t)"
    proof (cases "sv_play_bootstrap_stage ?s = 6")
      case True
      with queued(2) show ?thesis by (simp add: bootstrap_loop.simps [of cfg world server])
    next
      case False
      then have s7: "sv_play_bootstrap_stage ?s = 7" using adv(2) by (simp split: if_splits)
      then have "bootstrap_loop cfg world ?s t = (True, ?s, t)"
        by (simp add: bootstrap_loop.simps [of cfg world ?s] bootstrap_step_def)
      with queued(2) False show ?thesis by (simp add: bootstrap_loop.simps [of cfg world server])
    qed
    from stage_advance_booting [OF assms(3) lt] queued fr adv l show ?thesis
      by (intro exI [of _ ?s] exI [of _ t]) simp
  qed
qed

lemma boot_view_ticks [simp]: "boot_view (server\<lparr>sv_ticks := t\<rparr>) = boot_view server"
  by (simp add: boot_view_def sv_position_def)

lemma booting_ticks [simp]: "booting cfg (server\<lparr>sv_ticks := t\<rparr>) = booting cfg server"
  by (simp add: booting_def conn_ok_def)

lemma keepalive_frame_small: "length (auto_frame cfg s (keepalive_packet v)) \<le> 12"
  using length_auto_frame(1) [of cfg s "keepalive_packet v"] length_packets(9) [of v] by simp

lemma boot_frames_small: "length (concat (map (auto_frame cfg server) (boot_packets server))) \<le> 240"
  using length_frames_le [OF boot_packets_small, of cfg server server] by (simp add: boot_packets_def)

section \<open>Ticks under backpressure\<close>

text \<open>The frames that the bootstrap queues, and how many of them a server in the middle of it has queued.\<close>

definition boot_plan :: "mc_config \<Rightarrow> mc_world_compressed_asset list \<Rightarrow> mc_server \<Rightarrow> byte list list" where
  "boot_plan cfg assets server = map (auto_frame cfg server) (boot_packets server) @ chunk_frames cfg assets server"

definition boot_at :: "mc_config \<Rightarrow> mc_world_compressed_asset list \<Rightarrow> nat \<Rightarrow> mc_server \<Rightarrow> bool" where
  "boot_at cfg assets p server \<longleftrightarrow> booting cfg server \<and> chunk_frames cfg assets server \<noteq> [] \<and>
     (p < 6 \<and> sv_play_bootstrap_stage server = of_nat p \<and> sv_play_bootstrap_chunk_index server = 0 \<or>
      6 \<le> p \<and> p < length (boot_plan cfg assets server) \<and> sv_play_bootstrap_stage server = 6 \<and>
        unat (sv_play_bootstrap_chunk_index server) = p - 6 \<or>
      p = length (boot_plan cfg assets server) \<and> sv_play_bootstrap_stage server = 7)"

lemma length_boot_packets [simp]: "length (boot_packets server) = 6"
  by (simp add: boot_packets_def)

lemma length_boot_plan: "length (boot_plan cfg assets server) = 6 + length (chunk_frames cfg assets server)"
  by (simp add: boot_plan_def)

lemma boot_plan_view: "boot_view s = boot_view server \<Longrightarrow> boot_plan cfg assets s = boot_plan cfg assets server"
  unfolding boot_plan_def by (simp only: boot_view_frames [of s server])

lemma boot_at_cases:
  assumes "boot_at cfg assets p server"
  obtains (early) "p < 6" "sv_play_bootstrap_stage server = of_nat p" "unat (sv_play_bootstrap_stage server) = p"
      "sv_play_bootstrap_chunk_index server = 0"
  | (chunks) "6 \<le> p" "p < length (boot_plan cfg assets server)" "sv_play_bootstrap_stage server = 6"
      "unat (sv_play_bootstrap_chunk_index server) = p - 6"
  | (finished) "p = length (boot_plan cfg assets server)" "sv_play_bootstrap_stage server = 7"
proof -
  have "unat (of_nat p :: byte) = p" if "p < 6" using that by (simp add: unat_of_nat take_bit_nat_eq_self)
  with assms that show thesis unfolding boot_at_def by metis
qed

lemma boot_at_booting:
  "boot_at cfg assets p server \<Longrightarrow> booting cfg server"
  "boot_at cfg assets p server \<Longrightarrow> chunk_frames cfg assets server \<noteq> []"
  by (simp_all add: boot_at_def)

lemma boot_at_stage:
  assumes "boot_at cfg assets p server"
  shows "sv_play_bootstrap_stage server < 7 \<longleftrightarrow> p < length (boot_plan cfg assets server)"
    "p \<le> length (boot_plan cfg assets server)"
    "sv_play_bootstrap_stage server = 6 \<longleftrightarrow> 6 \<le> p \<and> p < length (boot_plan cfg assets server)"
    "sv_play_bootstrap_stage server = 7 \<longleftrightarrow> p = length (boot_plan cfg assets server)"
  using assms by (cases rule: boot_at_cases; auto simp: length_boot_plan word_less_nat_alt word_unat_eq_iff)+

lemma boot_at_frame [simp]:
  "boot_at cfg assets p (emit_trace ty a b t n server) = boot_at cfg assets p server"
  "boot_at cfg assets p (server\<lparr>sv_ticks := k\<rparr>) = boot_at cfg assets p server"
  by (simp_all add: boot_at_def boot_plan_def boot_packets_def chunk_frames_def auto_frame_def [abs_def] sv_position_def [symmetric])

lemma boot_at_stage_frame:
  assumes "boot_at cfg assets p server" "p < length (boot_plan cfg assets server)"
  shows "stage_frame cfg assets server = boot_plan cfg assets server ! p \<and> chunks_left cfg assets server"
  using assms(1)
proof (cases rule: boot_at_cases)
  case early
  then have "sv_play_bootstrap_stage server \<noteq> 6" by (auto simp: word_unat_eq_iff)
  with early show ?thesis
    by (simp_all add: stage_frame_def boot_plan_def nth_append chunks_left_def)
next
  case chunks
  then show ?thesis
    by (auto simp add: stage_frame_def boot_plan_def nth_append chunks_left_def)
qed (use assms(2) in simp_all)

lemma boot_at_advance:
  assumes "config_ok cfg" "world_loaded cfg world assets" "boot_at cfg assets p server" "p < length (boot_plan cfg assets server)"
  shows "boot_at cfg assets (Suc p) (stage_advance cfg assets server)"
proof -
  let ?s = "stage_advance cfg assets server"
  note b = boot_at_booting [OF assms(3)]
  have b': "booting cfg ?s" using stage_advance_booting [OF b(1)] assms(4) boot_at_stage(1) [OF assms(3)] by simp
  have pl: "boot_plan cfg assets ?s = boot_plan cfg assets server" "chunk_frames cfg assets ?s = chunk_frames cfg assets server"
    using boot_plan_view [OF stage_advance_view] boot_view_frames(3) [OF stage_advance_view] by simp_all
  have ne: "0 < length (chunk_frames cfg assets server)" using b(2) by simp
  from assms(3) show ?thesis
  proof (cases rule: boot_at_cases)
    case early
    then have "sv_play_bootstrap_stage server \<noteq> 6" by (auto simp: word_unat_eq_iff)
    note adv = stage_advance_early [OF this, of cfg assets]
    have st: "sv_play_bootstrap_stage ?s = of_nat (Suc p)" "sv_play_bootstrap_chunk_index ?s = 0"
      using adv early(2,4) by simp_all
    show ?thesis
    proof (cases "p = 5")
      case True
      with b' b(2) pl st ne show ?thesis by (simp add: boot_at_def length_boot_plan del: length_greater_0_conv)
    next
      case False
      with b' b(2) pl st early(1) show ?thesis by (simp add: boot_at_def)
    qed
  next
    case chunks
    have "p < 38" using length_chunk_frames(2) [OF assms(2) b(1) assms(1)] assms(4) by (simp add: length_boot_plan)
    then have u: "unat (sv_play_bootstrap_chunk_index server + 1) = Suc p - 6"
      using chunks(1,4) by (simp add: unat_word_ariths)
    with chunks b' b(2) pl show ?thesis
      by (auto simp: boot_at_def length_boot_plan stage_advance_def Let_def)
  qed (use assms(4) in simp)
qed

text \<open>Whatever room the ring has, the loop queues the next frames of the plan, in order, and stops where it is full.\<close>

lemma boot_loop_run:
  assumes "config_ok cfg" "world_loaded cfg world assets" "boot_at cfg assets p server" "rb_ok tx"
    "bootstrap_loop cfg world server tx = (ok, s, t)"
  shows "\<exists>p'. p \<le> p' \<and> boot_at cfg assets p' s \<and> boot_view s = boot_view server \<and> rb_ok t \<and> rb_cap t = rb_cap tx \<and>
    rb_contents t @ concat (drop p' (boot_plan cfg assets server)) = rb_contents tx @ concat (drop p (boot_plan cfg assets server)) \<and>
    (if ok then 6 \<le> p' else p' < length (boot_plan cfg assets server))"
  using assms
proof (induction cfg world server tx arbitrary: p rule: bootstrap_loop.induct)
  case (1 cfg world server tx)
  let ?plan = "boot_plan cfg assets server"
  note eq = bootstrap_loop.simps [of cfg world server tx] and b = boot_at_booting(1) [OF "1.prems"(3)]
  show ?case
  proof (cases "p < length ?plan")
    case False
    with boot_at_stage(2,4) [OF "1.prems"(3)] have "p = length ?plan" "sv_play_bootstrap_stage server = 7" by simp_all
    moreover from this(2) have "bootstrap_step cfg world server tx = (Some True, server, tx)" by (simp add: bootstrap_step_def)
    ultimately show ?thesis using "1.prems" by (auto simp: eq length_boot_plan)
  next
    case True
    then have lt: "sv_play_bootstrap_stage server < 7" using boot_at_stage(1) [OF "1.prems"(3)] by simp
    have dr: "drop p ?plan = ?plan ! p # drop (Suc p) ?plan" using True by (simp add: Cons_nth_drop_Suc)
    note st = boot_at_stage_frame [OF "1.prems"(3) True]
    from "1.prems"(1,2) b "1.prems"(4) lt show ?thesis
    proof (cases rule: bootstrap_step_cases)
      case (queued t1)
      let ?s = "stage_advance cfg assets server"
      have at: "boot_at cfg assets (Suc p) ?s" by (rule boot_at_advance [OF "1.prems"(1,2,3) True])
      have pl: "boot_plan cfg assets ?s = ?plan" by (rule boot_plan_view) simp
      have c: "rb_contents t1 @ concat (drop (Suc p) ?plan) = rb_contents tx @ concat (drop p ?plan)"
        using queued(5) st dr by simp
      show ?thesis
      proof (cases "sv_play_bootstrap_stage ?s = 6")
        case six: True
        with "1.prems"(5) queued(2) have "ok" "s = ?s" "t = t1" by (auto simp: eq)
        with at c queued(3,4) boot_at_stage(3) [OF at] six show ?thesis by (intro exI [of _ "Suc p"]) simp
      next
        case six: False
        with queued(2) have step: "bootstrap_step cfg world server tx = (None, ?s, t1)" by simp
        with "1.prems"(5) have "bootstrap_loop cfg world ?s t1 = (ok, s, t)" by (simp add: eq)
        from "1.IH" [OF step [symmetric] HOL.refl HOL.refl "1.prems"(1,2) at queued(3) this] c pl queued(4)
        show ?thesis by (auto intro: Suc_leD)
      qed
    next
      case full
      with "1.prems" True show ?thesis by (intro exI [of _ p]) (auto simp: eq boot_view_def)
    qed
  qed
qed

text \<open>With room for the next frames it gets to the chunks, or on by one chunk.\<close>

lemma boot_loop_room:
  assumes "config_ok cfg" "world_loaded cfg world assets" "boot_at cfg assets p server" "rb_ok tx"
    "p < length (boot_plan cfg assets server)" "\<forall>f \<in> set (chunk_frames cfg assets server). length f \<le> room" "240 \<le> room"
    "length (rb_contents tx) + room \<le> rb_cap tx"
    "bootstrap_loop cfg world server tx = (ok, s, t)" "boot_at cfg assets p' s" "boot_view s = boot_view server"
  shows "ok \<and> p' = (if p < 6 then 6 else Suc p)"
proof -
  let ?plan = "boot_plan cfg assets server"
  note b = boot_at_booting [OF assms(3)]
  have pl: "boot_plan cfg assets s = ?plan" by (rule boot_plan_view [OF assms(11)])
  from assms(3) show ?thesis
  proof (cases rule: boot_at_cases)
    case early
    have "length (concat (map (auto_frame cfg server) (drop p (boot_packets server)))) \<le>
        length (concat (map (auto_frame cfg server) (boot_packets server)))"
      by (metis append_take_drop_id concat_append le_add2 length_append map_append)
    then have "length (rb_contents tx) + length (concat (map (auto_frame cfg server) (drop p (boot_packets server)))) \<le> rb_cap tx"
      using assms(7,8) boot_frames_small [of cfg server] by linarith
    from bootstrap_loop_early [OF assms(1,2) b(1) assms(4) early(2,1) this] assms(9) early(4)
    have "ok" "sv_play_bootstrap_stage s = 6" "sv_play_bootstrap_chunk_index s = 0" by auto
    with assms(10) early(1) show ?thesis by (cases rule: boot_at_cases) (auto simp: word_unat_eq_iff)
  next
    case chunks
    let ?i = "p - 6" and ?cs = "chunk_frames cfg assets server"
    have i: "?i < length ?cs" using chunks(1,2) by (simp add: length_boot_plan)
    then have "length (rb_contents tx) + length (?cs ! ?i) \<le> rb_cap tx" using assms(6,8) by (meson nth_mem add_left_mono order_trans)
    from bootstrap_loop_chunk [OF assms(1,2) b(1) assms(4) chunks(3,4) i this] assms(9)
    have s: "ok" "unat (sv_play_bootstrap_chunk_index s) = Suc ?i" "sv_play_bootstrap_stage s = (if Suc ?i < length ?cs then 6 else 7)"
      by auto
    from assms(10) chunks(1,2) s pl i show ?thesis
      by (cases rule: boot_at_cases) (auto simp: length_boot_plan word_unat_eq_iff split: if_splits)
  qed (use assms(5) in simp)
qed

text \<open>
  The run of the bootstrap from \<open>server0\<close>, whose ring held \<open>old\<close>: what has been sent and what is queued is an initial part
  of the plan and \<open>left\<close> ticks with room remain, or all of the plan is queued and \<open>m\<close> keep-alives behind it.
\<close>

definition keepalive_after :: "mc_config \<Rightarrow> mc_server \<Rightarrow> nat \<Rightarrow> byte list" where
  "keepalive_after cfg server0 i = auto_frame cfg server0 (keepalive_packet ((next_keepalive_id ^^ Suc i) (sv_keepalive_id server0)))"

definition boot_run ::
    "mc_config \<Rightarrow> mc_world_compressed_asset list \<Rightarrow> mc_server \<Rightarrow> byte list \<Rightarrow> nat \<Rightarrow> mc_server \<times> mc_ringbuf \<times> byte list \<Rightarrow> bool" where
  "boot_run cfg assets server0 old left c \<longleftrightarrow>
     (case c of (server, tx, out) \<Rightarrow>
        rb_ok tx \<and> sv_state server = MC_CONN_PLAY \<and>
        (if sv_play_bootstrap_sent server
         then left = 0 \<and> sv_compression_enabled server = sv_compression_enabled server0 \<and>
           (\<exists>m. sv_keepalive_id server = (next_keepalive_id ^^ m) (sv_keepalive_id server0) \<and>
              out @ rb_contents tx = old @ concat (boot_plan cfg assets server0) @ concat (map (keepalive_after cfg server0) [0..<m]))
         else boot_view server = boot_view server0 \<and>
           (\<exists>p < length (boot_plan cfg assets server0). boot_at cfg assets p server \<and>
              left = length (boot_plan cfg assets server0) - (if p < 6 then 5 else p) \<and>
              out @ rb_contents tx @ concat (drop p (boot_plan cfg assets server0)) = old @ concat (boot_plan cfg assets server0))))"

lemma boot_run_keepalive:
  assumes "boot_run cfg assets server0 old left (server, tx, out)" "sv_play_bootstrap_sent server"
    "tick_keepalive cfg now server tx = (ok, server', tx')"
  shows "boot_run cfg assets server0 old 0 (server', tx', out)"
proof -
  obtain m where m: "rb_ok tx" "sv_state server = MC_CONN_PLAY" "sv_compression_enabled server = sv_compression_enabled server0"
    "sv_keepalive_id server = (next_keepalive_id ^^ m) (sv_keepalive_id server0)"
    "out @ rb_contents tx = old @ concat (boot_plan cfg assets server0) @ concat (map (keepalive_after cfg server0) [0..<m])"
    using assms(1,2) by (auto simp: boot_run_def)
  let ?id = "next_keepalive_id (sv_keepalive_id server)"
  have f: "auto_frame cfg server (keepalive_packet ?id) = keepalive_after cfg server0 m"
    using m(3,4) by (simp add: keepalive_after_def auto_frame_def)
  have keep: ?thesis if "server' = server" "tx' = tx" using m assms(2) that by (auto simp: boot_run_def)
  show ?thesis
  proof (cases "sv_last_keepalive_tick server \<noteq> 0 \<and> now - sv_last_keepalive_tick server < cfg_keepalive_interval cfg")
    case True
    with keep assms(3) show ?thesis by (simp add: tick_keepalive_eq)
  next
    case False
    from enqueues_keepalive [of cfg server ?id] m(1) show ?thesis
    proof (cases rule: enqueues_cases)
      case (queued t)
      have "out @ rb_contents t = old @ concat (boot_plan cfg assets server0) @ concat (map (keepalive_after cfg server0) [0..<Suc m])"
        using m(5) queued f by simp
      moreover have "sv_state server' = MC_CONN_PLAY" "sv_play_bootstrap_sent server'" "sv_keepalive_id server' = ?id" "tx' = t"
        "sv_compression_enabled server' = sv_compression_enabled server"
        using assms(2,3) False queued(1) m(2) by (auto simp: tick_keepalive_eq)
      ultimately show ?thesis
        unfolding boot_run_def using queued(2) m(3,4) by (auto intro!: exI [of _ "Suc m"])
    next
      case full
      with keep assms(2,3) m(2) False show ?thesis by (simp add: tick_keepalive_eq)
    qed
  qed
qed

lemma boot_run_ticks [simp]:
  "boot_run cfg assets server0 old left (server\<lparr>sv_ticks := k\<rparr>, tx, out) = boot_run cfg assets server0 old left (server, tx, out)"
  by (simp add: boot_run_def)

lemma boot_run_tick:
  assumes "config_ok cfg" "world_loaded cfg world assets" "boot_run cfg assets server0 old left (server, tx, out)"
    "\<forall>f \<in> set (chunk_frames cfg assets server0). length f \<le> room" "240 \<le> room"
    "mc_server_tick_at cfg world now server tx = (ok, server', tx')"
  shows "\<exists>left' \<le> left. boot_run cfg assets server0 old left' (server', tx', out) \<and>
    (length (rb_contents tx) + room \<le> rb_cap tx \<longrightarrow> left' < left \<or> left' = 0)"
proof (cases "sv_play_bootstrap_sent server")
  case True
  then have "tick_keepalive cfg now (server\<lparr>sv_ticks := sv_ticks server + 1\<rparr>) tx = (ok, server', tx')"
    using assms(6) by (simp add: mc_server_tick_at_def Let_def)
  from boot_run_keepalive [OF _ _ this] assms(3) True show ?thesis by (intro exI [of _ 0]) simp
next
  case False
  let ?s = "server\<lparr>sv_ticks := sv_ticks server + 1\<rparr>" and ?plan = "boot_plan cfg assets server0"
  obtain p where p: "rb_ok tx" "sv_state server = MC_CONN_PLAY" "boot_view server = boot_view server0" "p < length ?plan"
    "boot_at cfg assets p ?s" "left = length ?plan - (if p < 6 then 5 else p)"
    "out @ rb_contents tx @ concat (drop p ?plan) = old @ concat ?plan"
    using assms(3) False by (auto simp: boot_run_def)
  obtain ok1 s t where l: "bootstrap_loop cfg world ?s tx = (ok1, s, t)" by (metis prod_cases3)
  have v: "boot_view ?s = boot_view server0" using p(3) by simp
  note pl = boot_plan_view [OF v, of cfg assets] and cf = boot_view_frames(3) [OF v, of cfg assets]
  obtain p' where q: "p \<le> p'" "boot_at cfg assets p' s" "boot_view s = boot_view ?s" "rb_ok t"
    "rb_contents t @ concat (drop p' ?plan) = rb_contents tx @ concat (drop p ?plan)"
    "if ok1 then 6 \<le> p' else p' < length ?plan"
    using boot_loop_run [OF assms(1,2) p(5,1) l] unfolding pl by blast
  have pl': "boot_plan cfg assets s = ?plan" using boot_plan_view [OF q(3)] pl by simp
  have b: "sv_state s = MC_CONN_PLAY" "\<not> sv_play_bootstrap_sent s" using boot_at_booting(1) [OF q(2)] by (simp_all add: booting_def)
  have sent: "out @ rb_contents t @ concat (drop p' ?plan) = old @ concat ?plan" using p(7) q(5) by simp
  let ?left = "if p' < length ?plan then length ?plan - (if p' < 6 then 5 else p') else 0"
  have le: "?left \<le> left" using q(1) p(4,6) by auto
  have room: "?left < left \<or> ?left = 0" if "length (rb_contents tx) + room \<le> rb_cap tx"
    using boot_loop_room [OF assms(1,2) p(5,1) _ _ assms(5) that l q(2,3)] assms(4) p(4,6) pl cf by (auto split: if_splits)
  have "boot_run cfg assets server0 old ?left (server', tx', out)"
  proof (cases "p' < length ?plan")
    case True
    have "sv_play_bootstrap_stage s < 7" using boot_at_stage(1) [OF q(2)] True pl' by simp
    then have "\<not> 7 \<le> sv_play_bootstrap_stage s" by simp
    with l False p(2) assms(6) b have "server' = s" "tx' = t"
      by (auto simp: mc_server_tick_at_def Let_def tick_keepalive_def split: if_splits)
    with True b q(2-4) v sent show ?thesis by (auto simp: boot_run_def)
  next
    case final: False
    then have p': "p' = length ?plan" "sv_play_bootstrap_stage s = 7" "ok1"
      using boot_at_stage(2,4) [OF q(2)] pl' q(6) by (auto split: if_splits)
    let ?s2 = "emit_trace MC_TRACE_BOOTSTRAP_DONE (stage_i32 (s\<lparr>sv_play_bootstrap_sent := True\<rparr>))
      (chunk_i32 (s\<lparr>sv_play_bootstrap_sent := True\<rparr>)) None 0 (s\<lparr>sv_play_bootstrap_sent := True\<rparr>)"
    have "tick_keepalive cfg now ?s2 t = (ok, server', tx')"
      using l False p(2) p' assms(6) by (simp add: mc_server_tick_at_def Let_def stage_i32_def chunk_i32_def)
    moreover have "sv_compression_enabled s = sv_compression_enabled server0" "sv_keepalive_id s = sv_keepalive_id server0"
      using q(3) v by (simp_all add: boot_view_def)
    then have "boot_run cfg assets server0 old 0 (?s2, t, out)"
      using b(1) q(4) sent p'(1) by (auto simp: boot_run_def intro!: exI [of _ 0])
    ultimately show ?thesis using boot_run_keepalive [of cfg assets server0 old 0 ?s2 t out now] p'(1) by simp
  qed
  with le room show ?thesis by blast
qed

text \<open>A tick, behind which the transport takes up to \<open>n\<close> bytes; \<open>out\<close> collects what it took.\<close>

definition tick_and_take ::
    "mc_config \<Rightarrow> world_compressed \<Rightarrow> u32 \<times> nat \<Rightarrow> mc_server \<times> mc_ringbuf \<times> byte list \<Rightarrow> mc_server \<times> mc_ringbuf \<times> byte list" where
  "tick_and_take cfg world step c =
     (case step of (now, n) \<Rightarrow> case c of (server, tx, out) \<Rightarrow>
        (case mc_server_tick_at cfg world now server tx of
           (ok, server', tx') \<Rightarrow> (case mc_ringbuf_read tx' n of (bs, tx'') \<Rightarrow> (server', tx'', out @ bs))))"

text \<open>How many of the ticks find \<open>room\<close> bytes free in the ring.\<close>

fun roomy_ticks ::
    "mc_config \<Rightarrow> world_compressed \<Rightarrow> nat \<Rightarrow> (u32 \<times> nat) list \<Rightarrow> mc_server \<times> mc_ringbuf \<times> byte list \<Rightarrow> nat" where
  "roomy_ticks cfg world room [] c = 0"
| "roomy_ticks cfg world room (step # steps) c =
     (if room \<le> mc_ringbuf_free (fst (snd c)) then 1 else 0) + roomy_ticks cfg world room steps (tick_and_take cfg world step c)"

lemma boot_run_steps:
  assumes "config_ok cfg" "world_loaded cfg world assets" "boot_run cfg assets server0 old left c"
    "\<forall>f \<in> set (chunk_frames cfg assets server0). length f \<le> room" "240 \<le> room"
  shows "\<exists>left'. boot_run cfg assets server0 old left' (fold (tick_and_take cfg world) steps c) \<and>
    (left' = 0 \<or> left' + roomy_ticks cfg world room steps c \<le> left)"
  using assms(3)
proof (induction steps arbitrary: c left)
  case (Cons step steps)
  obtain now n where step: "step = (now, n)" by fastforce
  obtain server tx out where c: "c = (server, tx, out)" by (metis prod_cases3)
  obtain ok server' tx' where t: "mc_server_tick_at cfg world now server tx = (ok, server', tx')" by (metis prod_cases3)
  obtain bs tx'' where r: "mc_ringbuf_read tx' n = (bs, tx'')" by fastforce
  let ?c' = "(server', tx'', out @ bs)"
  have st: "tick_and_take cfg world step c = ?c'" by (simp add: tick_and_take_def step c t r)
  have ok: "rb_ok tx" using Cons.prems by (simp add: boot_run_def c)
  have free: "room \<le> mc_ringbuf_free tx \<longleftrightarrow> length (rb_contents tx) + room \<le> rb_cap tx"
    using rb.bounded [OF ok] by (auto simp: rb_free_eq simp del: length_rb_contents)
  obtain left' where l: "left' \<le> left" "boot_run cfg assets server0 old left' (server', tx', out)"
    "room \<le> mc_ringbuf_free tx \<Longrightarrow> left' < left \<or> left' = 0"
    using boot_run_tick [OF assms(1,2) Cons.prems [unfolded c] assms(4,5) t] free by blast
  have ok': "rb_ok tx'" using l(2) by (simp add: boot_run_def)
  have "rb_ok tx''" "bs @ rb_contents tx'' = rb_contents tx'"
    using rb.read_invar [OF ok', of n] rb.read_contents [OF ok', of n] rb.read_remaining [OF ok', of n] r by simp_all
  then have "boot_run cfg assets server0 old left' ?c'"
    using l(2) unfolding boot_run_def prod.case by (metis append.assoc)
  from Cons.IH [OF this] obtain left2 where
    "boot_run cfg assets server0 old left2 (fold (tick_and_take cfg world) steps ?c')"
    "left2 = 0 \<or> left2 + roomy_ticks cfg world room steps ?c' \<le> left'" by blast
  with l st c show ?case by (intro exI [of _ left2]) auto
qed auto

text \<open>In particular every tick finds room when the transport empties the ring each time.\<close>

lemma roomy_ticks_drained:
  assumes "config_ok cfg" "world_loaded cfg world assets" "server_ok cfg server" "rb_ok tx" "rb_contents tx = []"
    "room \<le> rb_cap tx" "\<forall>(now, n) \<in> set steps. rb_cap tx \<le> n"
  shows "roomy_ticks cfg world room steps (server, tx, out) = length steps"
  using assms(3-)
proof (induction steps arbitrary: server tx out)
  case (Cons step steps)
  obtain now n where step: "step = (now, n)" by fastforce
  obtain ok server' tx' where t: "mc_server_tick_at cfg world now server tx = (ok, server', tx')" by (metis prod_cases3)
  obtain bs tx'' where r: "mc_ringbuf_read tx' n = (bs, tx'')" by fastforce
  have s: "server_ok cfg server'" "rb_ok tx'" "rb_cap tx' = rb_cap tx"
    using tick_sound [OF assms(1,2) Cons.prems(1,2) t] tx_after_ok by blast+
  have n: "rb_cap tx \<le> n" using Cons.prems(5) step by simp
  then have "length (rb_contents tx') \<le> n" using rb.bounded [OF s(2)] s(3) by linarith
  then have "rb_ok tx''" "rb_contents tx'' = []" "rb_cap tx'' = rb_cap tx"
    using rb.read_invar [OF s(2), of n] rb.read_remaining [OF s(2), of n] rb.read_capacity [OF s(2), of n] s(3) r by simp_all
  then have "roomy_ticks cfg world room steps (server', tx'', out @ bs) = length steps"
    using Cons.prems(4,5) by (intro Cons.IH [OF s(1)]) simp_all
  moreover have "room \<le> mc_ringbuf_free tx" using Cons.prems(2-4) by (simp add: rb_free_eq)
  ultimately show ?case using r t by (simp add: step tick_and_take_def)
qed simp

section \<open>Properties\<close>

text \<open>C7: after a login the bootstrap makes progress and ends, under any backpressure. Between ticks the transport takes as
  many bytes as it likes. Until the bootstrap is done, what the transport has taken and what is queued are the old
  contents of the ring and then the first of these packets, whole and in this order: join game, spawn position, time,
  health, abilities, position, and every chunk of the map once; afterwards they are all of them and then keep-alives
  numbered one after the other. It is done at the latest when one tick, and one more for each chunk, has found room in
  the ring for the longest chunk (and for the 240 bytes of the first six packets).\<close>

theorem bootstrap_completes:
  assumes "config_ok cfg" "world_loaded cfg world assets" "conn_ok cfg server" "sv_state server = MC_CONN_PLAY"
    "sv_play_bootstrap_stage server = 0" "rb_ok tx" "chunk_frames cfg assets server \<noteq> []"
    and room: "\<forall>f \<in> set (chunk_frames cfg assets server). length f \<le> room" "240 \<le> room"
    and run: "fold (tick_and_take cfg world) steps (server, tx, []) = (server', tx', out)"
    and plan: "plan = map (auto_frame cfg server) (boot_packets server) @ chunk_frames cfg assets server"
  shows "if sv_play_bootstrap_sent server'
    then \<exists>m. out @ rb_contents tx' = rb_contents tx @ concat plan @
      concat (map (\<lambda>i. auto_frame cfg server (keepalive_packet ((next_keepalive_id ^^ Suc i) (sv_keepalive_id server)))) [0..<m])
    else (\<exists>p < length plan. out @ rb_contents tx' = rb_contents tx @ concat (take p plan)) \<and>
      roomy_ticks cfg world room steps (server, tx, []) < 1 + length (chunk_frames cfg assets server)"
proof -
  have pl: "plan = boot_plan cfg assets server" by (simp add: plan boot_plan_def)
  have ci: "sv_play_bootstrap_chunk_index server = 0" "\<not> sv_play_bootstrap_sent server"
    using assms(3,5) by (auto simp: conn_ok_def)
  have "boot_at cfg assets 0 server"
    using conn_ok_booting(1) [OF assms(3,4) ci(2)] assms(5,7) ci(1) by (simp add: boot_at_def)
  moreover have "0 < length (boot_plan cfg assets server)" by (simp add: length_boot_plan)
  ultimately have start: "boot_run cfg assets server (rb_contents tx) (length plan - 5) (server, tx, [])"
    unfolding boot_run_def prod.case using assms(4,6) ci(2) by (intro conjI) (simp_all add: pl exI [of _ "0 :: nat"])
  obtain left where left: "boot_run cfg assets server (rb_contents tx) left (server', tx', out)"
    "left = 0 \<or> left + roomy_ticks cfg world room steps (server, tx, []) \<le> length plan - 5"
    using boot_run_steps [OF assms(1,2) start room, of steps] run by auto
  show ?thesis
  proof (cases "sv_play_bootstrap_sent server'")
    case True
    with left(1) show ?thesis by (auto simp: boot_run_def pl keepalive_after_def [abs_def])
  next
    case False
    with left(1) obtain p where p: "p < length plan" "left = length plan - (if p < 6 then 5 else p)"
      "out @ rb_contents tx' @ concat (drop p plan) = rb_contents tx @ concat plan"
      by (auto simp: boot_run_def pl)
    have "concat plan = concat (take p plan) @ concat (drop p plan)" by (metis append_take_drop_id concat_append)
    with p(3) have "out @ rb_contents tx' = rb_contents tx @ concat (take p plan)" by simp
    moreover have "roomy_ticks cfg world room steps (server, tx, []) < 1 + length (chunk_frames cfg assets server)"
      using left(2) p(1,2) by (auto simp: pl length_boot_plan split: if_splits)
    ultimately show ?thesis using False p(1) by auto
  qed
qed

theorem bootstrap_completes_witness:
  "let cfg = \<lparr>cfg_compression = False, cfg_psram_map = False, cfg_threshold = 1, cfg_keepalive_interval = 1\<rparr>;
       server = (mc_server_init cfg)\<lparr>sv_state := MC_CONN_PLAY, sv_username := [0x42]\<rparr>;
       tx = mc_ringbuf_init (replicate 49152 0) 49152
   in \<forall>world. sv_play_bootstrap_sent (fst (fold (tick_and_take cfg world) (map (\<lambda>now. (now, 49152)) [1, 2, 3, 4, 5, 6, 7, 8, 9, 10]) (server, tx, [])))"
proof -
  let ?cfg = "\<lparr>cfg_compression = False, cfg_psram_map = False, cfg_threshold = 1, cfg_keepalive_interval = 1\<rparr>"
  let ?server = "(mc_server_init ?cfg)\<lparr>sv_state := MC_CONN_PLAY, sv_username := [0x42]\<rparr>"
  let ?tx = "mc_ringbuf_init (replicate 49152 0) 49152" and ?steps = "map (\<lambda>now. (now :: u32, 49152 :: nat)) [1, 2, 3, 4, 5, 6, 7, 8, 9, 10]"
  have ok: "config_ok ?cfg" "world_loaded ?cfg world []" "rb_ok ?tx" "rb_contents ?tx = []" "rb_cap ?tx = 49152" for world
    by (simp_all add: config_ok_def world_loaded_def rb_init_ok rb_init_contents rb_init_cap)
  have c: "conn_ok ?cfg ?server" using init_conn_ok [of ?cfg] by (simp add: conn_ok_def mc_server_init_def reset_play_runtime_state_def)
  have s: "server_ok ?cfg ?server" using c by (simp add: server_ok_def) (simp add: mc_server_init_def reset_play_runtime_state_def)
  have f: "sv_state ?server = MC_CONN_PLAY" "sv_play_bootstrap_stage ?server = 0"
    by (simp_all add: mc_server_init_def reset_play_runtime_state_def)
  have n: "length (chunk_frames ?cfg [] ?server) = 9" by (simp add: chunk_frames_def length_spawn_chunks)
  then have ne: "chunk_frames ?cfg [] ?server \<noteq> []" by auto
  have room: "\<forall>f \<in> set (chunk_frames ?cfg [] ?server). length f \<le> 12564" "240 \<le> (12564 :: nat)"
    using length_auto_frame(1) [of ?cfg ?server "chunk_packet cx cz" for cx cz]
    by (auto simp: chunk_frames_def length_chunk_packet intro: order_trans)
  have "sv_play_bootstrap_sent (fst (fold (tick_and_take ?cfg world) ?steps (?server, ?tx, [])))" for world
  proof -
    obtain server' tx' out where run: "fold (tick_and_take ?cfg world) ?steps (?server, ?tx, []) = (server', tx', out)"
      by (metis prod_cases3)
    have "roomy_ticks ?cfg world 12564 ?steps (?server, ?tx, []) = 10"
      using roomy_ticks_drained [OF ok(1,2) s ok(3,4), of 12564 ?steps world "[]"] ok(5) by simp
    then show ?thesis
      using bootstrap_completes [OF ok(1,2) c f ok(3) ne room run HOL.refl] n run by (auto split: if_splits)
  qed
  then show ?thesis unfolding Let_def by blast
qed

end
