(* ===== verification/ServerSession.thy ===== *)
theory ServerSession
  imports ServerBootstrap
begin

text \<open>
  What a client and the clock see of the server of core/src/mc_server.c over several calls: a login
  packet enters the play state, keep-alives follow a schedule over unbounded time, and where the
  acceptance of a packet depends on how the stream was cut.
\<close>

section \<open>Whole packets\<close>

lemma small_byte:
  assumes "n < 128" shows "(of_nat n :: byte) AND 0x80 = 0" "(of_nat n :: byte) AND 0x7F = of_nat n"
proof -
  have b: "n \<le> 127" using assms by simp
  have m: "(of_nat n :: byte) AND 0x7F = take_bit 7 (of_nat n)"
    by (simp add: take_bit_eq_mask mask_eq_exp_minus_1)
  also have "\<dots> = of_nat n"
    using assms by (simp add: take_bit_of_nat take_bit_nat_eq_self)
  finally show 1: "(of_nat n :: byte) AND 0x7F = of_nat n" .
  have "(of_nat n :: byte) AND 0x80 = (of_nat n AND 0x7F) AND 0x80" by (simp only: 1)
  also have "\<dots> = of_nat n AND (0x7F AND 0x80)" by (simp only: and.assoc)
  finally show "(of_nat n :: byte) AND 0x80 = 0" by simp
qed

lemma decode_small:
  assumes "n < 128" shows "mc_varint_decode (of_nat n # rest) = Some (of_nat n, 1)"
proof -
  have "ucast (of_nat n :: byte) = (of_nat n :: i32)"
    using assms by (simp add: unsigned_of_nat take_bit_nat_eq_self)
  then show ?thesis using small_byte [OF assms] by (simp add: mc_varint_decode_def Let_def)
qed

lemma of_nat_sint: "n < 128 \<Longrightarrow> sint (of_nat n :: i32) = int n" "n < 128 \<Longrightarrow> unat (of_nat n :: i32) = n"
  by (simp_all add: sint_of_nat_small unat_of_nat take_bit_nat_eq_self)

lemma packet_frame_small:
  assumes "length body < 128" shows "packet_frame body = of_nat (length body) # body"
proof -
  have "varint_bytes (of_nat (length body)) = [of_nat (length body)]"
    using assms by (simp add: varint_bytes_def of_nat_sint) (subst leb128.simps, simp)
  then show ?thesis by (simp add: packet_frame_def)
qed

text \<open>Only the last byte of an encoding has its top bit clear, so what is read of a stream that starts with one is decided.\<close>

lemma leb128_complete_top:
  "leb128_complete p \<Longrightarrow> i < length p \<Longrightarrow> (p ! i AND 0x80 = 0) \<longleftrightarrow> Suc i = length p"
proof (induction p arbitrary: i rule: leb128_complete.induct)
  case (2 b bs)
  then show ?case by (cases i) (auto simp: byte_bit7 split: if_splits)
qed simp

lemma varint_top: "i < length (varint_bytes v) \<Longrightarrow> (varint_bytes v ! i AND 0x80 = 0) \<longleftrightarrow> Suc i = length (varint_bytes v)"
  using leb128_complete_top [of "varint_bytes v" i] by (simp add: varint_bytes_def leb128_complete_leb128)

lemma decode_take_varint:
  "mc_varint_decode (take n (varint_bytes v @ rest)) =
     (if n < length (varint_bytes v) then None else Some (v, length (varint_bytes v)))"
proof (cases "n < length (varint_bytes v)")
  case True
  let ?p = "varint_bytes v"
  have "mc_varint_decode (take n ?p) \<noteq> Some (w, m)" for w m
  proof
    assume s: "mc_varint_decode (take n ?p) = Some (w, m)"
    then have m: "0 < m" "m \<le> n" using mc_varint_decode_used [OF s] True by auto
    have "leb128_complete (take m ?p)" using s m by (simp add: mc_varint_decode_iff min_def)
    from leb128_complete_top [OF this, of "m - 1"] m True have "?p ! (m - 1) AND 0x80 = 0" by simp
    with varint_top [of "m - 1" v] m True show False by simp
  qed
  with True show ?thesis by (cases "mc_varint_decode (take n ?p)") auto
next
  case False
  then show ?thesis using mc_varint_decode_varint_bytes [of v "take (n - length (varint_bytes v)) rest"] by simp
qed

lemma find_upt: "k < m \<Longrightarrow> (\<And>i. i \<le> k \<Longrightarrow> P i \<longleftrightarrow> i = k) \<Longrightarrow> find P [0..<m] = Some k"
  by (auto simp: find_Some_iff)

lemma find_varint:
  "find (\<lambda>i. take n (varint_bytes v @ rest) ! i AND 0x80 = 0) [0..<min (length (take n (varint_bytes v @ rest))) 5] =
     (if n < length (varint_bytes v) then None else Some (length (varint_bytes v) - 1))"
proof -
  let ?p = "varint_bytes v"
  have l: "0 < length ?p" "length ?p \<le> 5" by (rule length_varint_bytes)+
  have top: "take n (?p @ rest) ! i AND 0x80 = 0 \<longleftrightarrow> Suc i = length ?p" if "i < length ?p" "i < n" for i
    using that varint_top [of i v] by (simp add: nth_append)
  show ?thesis
  proof (cases "n < length ?p")
    case True
    then show ?thesis using top l by (auto simp: find_None_iff)
  next
    case False
    moreover have "length ?p - 1 < min (length (take n (?p @ rest))) 5"
      using l False by (simp del: length_greater_0_conv) linarith
    then have "find (\<lambda>i. take n (?p @ rest) ! i AND 0x80 = 0) [0..<min (length (take n (?p @ rest))) 5] = Some (length ?p - 1)"
      by (rule find_upt) (subst top; use l False in linarith)
    ultimately show ?thesis by simp
  qed
qed

lemma classify_take_frame:
  assumes "length body \<le> MC_MAX_PACKET_BODY"
  shows "classify_frame (take n (packet_frame body)) =
    (if n < length (varint_bytes (of_nat (length body))) then (MC_FRAME_NEED_MORE, 0)
     else (if length (packet_frame body) \<le> n then MC_FRAME_READY else MC_FRAME_NEED_MORE, length (packet_frame body)))"
proof -
  let ?p = "varint_bytes (of_nat (length body))"
  have l: "0 < length ?p" "length ?p \<le> 5" by (rule length_varint_bytes)+
  note f = find_varint [of n "of_nat (length body)" body, folded packet_frame_def]
  show ?thesis
  proof (cases "n < length ?p")
    case True
    with l f show ?thesis by (simp add: classify_frame_def)
  next
    case False
    have "take (length ?p) (take n (packet_frame body)) = ?p" using False by (simp add: packet_frame_def min_def)
    moreover have "mc_varint_decode ?p = Some (of_nat (length body), length ?p)"
      using mc_varint_decode_varint_bytes [of "of_nat (length body)" "[]"] by simp
    ultimately show ?thesis
      unfolding classify_frame_def f
      using False l of_nat_body_len [of "length body"] assms length_packet_frame [of body] by (simp add: Let_def)
  qed
qed

text \<open>A whole packet on an empty receive buffer is handled, and the buffer is empty again.\<close>

lemma receive_frame:
  assumes "length framed \<le> MC_MAX_PACKET_BODY" "sv_rx_accum server = []"
    "\<And>s n. sv_compression_enabled s = sv_compression_enabled server \<Longrightarrow>
       packet_body s \<lparr>pk_body = framed, pk_body_len = length framed, pk_frame_len = n\<rparr> = Some body"
    "handle_packet cfg body (note_frame (length (packet_frame framed)) (server\<lparr>sv_rx_accum := packet_frame framed\<rparr>)) tx = (ok, s, tx')"
  shows "mc_server_receive cfg (packet_frame framed) server tx = (ok, s\<lparr>sv_rx_accum := []\<rparr>, tx')"
proof -
  let ?s = "server\<lparr>sv_rx_accum := packet_frame framed\<rparr>"
  have "length (packet_frame framed) \<le> MC_RX_ACCUM_CAP" using assms(1) length_packet_frame_le [of framed] by simp
  then have acc: "accumulate (packet_frame framed) [] = Some (packet_frame framed)" by (simp add: accumulate_eq)
  have p: "mc_packet_try_read (packet_frame framed) =
      Some \<lparr>pk_body = framed, pk_body_len = length framed, pk_frame_len = length (packet_frame framed)\<rparr>"
    using mc_packet_try_read_frame [of framed "[]"] assms(1) by simp
  have rx: "sv_rx_accum s = packet_frame framed"
    using arg_cong [OF assms(4), of "\<lambda>r. sv_rx_accum (fst (snd r))"] by simp
  have "classify_frame (packet_frame framed) = (MC_FRAME_READY, length (packet_frame framed))"
    using classify_take_frame [OF assms(1), of "length (packet_frame framed)"] by (simp add: length_packet_frame)
  with assms(3) [of ?s] assms(4) p rx have step: "receive_step cfg ?s tx = (if ok then None else Some False, s\<lparr>sv_rx_accum := []\<rparr>, tx')"
    by (simp add: receive_step_def Let_def)
  have idle: "receive_step cfg (s\<lparr>sv_rx_accum := []\<rparr>) tx' = (Some True, s\<lparr>sv_rx_accum := []\<rparr>, tx')"
    by (simp add: receive_step_def classify_frame_def partial_frame_has_invalid_packet_id_def mc_varint_decode_Nil)
  show ?thesis
    using acc step idle assms(2)
    by (simp add: mc_server_receive_def receive_loop.simps [of cfg ?s] receive_loop.simps [of cfg "s\<lparr>sv_rx_accum := []\<rparr>"])
qed

lemma receive_packet:
  assumes "length body < 128" "sv_rx_accum server = []" "\<not> sv_compression_enabled server"
    "handle_packet cfg body (note_frame (1 + length body) (server\<lparr>sv_rx_accum := packet_frame body\<rparr>)) tx = (ok, s, tx')"
  shows "mc_server_receive cfg (packet_frame body) server tx = (ok, s\<lparr>sv_rx_accum := []\<rparr>, tx')"
  using assms by (intro receive_frame) (simp_all add: packet_body_def packet_frame_small)

section \<open>Streams on the wire\<close>

text \<open>
  A transport over any time: \<open>wi_taken\<close> are all the bytes it has been handed, \<open>wi_sent\<close> those of the current stream,
  and \<open>wi_ended\<close> lists for every stream that has ended what was taken of it and what was still queued in the moment
  it ended, which is thrown away. A stream ends when a call of \<open>mc_server_receive\<close> accepts a new handshake, as
  \<open>mc_server_take_tx_reset\<close> tells, or fails, upon which the server and the ring are set up anew.
\<close>

record wire =
  wi_server :: mc_server
  wi_tx :: mc_ringbuf
  wi_taken :: "byte list"
  wi_sent :: "byte list"
  wi_ended :: "(byte list \<times> byte list) list"

definition end_stream :: "wire \<Rightarrow> wire" where
  "end_stream w = w\<lparr>wi_ended := wi_ended w @ [(wi_sent w, rb_contents (wi_tx w))], wi_sent := []\<rparr>"

definition wire_step :: "mc_config \<Rightarrow> world_compressed \<Rightarrow> driver_event \<Rightarrow> wire \<Rightarrow> wire" where
  "wire_step cfg world e w =
     (case e of
        Receive bytes \<Rightarrow>
          (case mc_server_receive cfg bytes (wi_server w) (wi_tx w) of
             (ok, server, tx) \<Rightarrow>
               if \<not> ok then (end_stream w)\<lparr>wi_server := mc_server_init cfg, wi_tx := mc_ringbuf_init (rb_data tx) (rb_cap tx)\<rparr>
               else (case mc_server_take_tx_reset server of
                  (reset, server) \<Rightarrow> (if reset then end_stream w else w)\<lparr>wi_server := server, wi_tx := tx\<rparr>))
      | Tick now \<Rightarrow>
          (case mc_server_tick_at cfg world now (wi_server w) (wi_tx w) of
             (ok, server, tx) \<Rightarrow> w\<lparr>wi_server := server, wi_tx := tx\<rparr>)
      | Take n \<Rightarrow>
          (case mc_ringbuf_read (wi_tx w) n of
             (bs, tx) \<Rightarrow> w\<lparr>wi_tx := tx, wi_taken := wi_taken w @ bs, wi_sent := wi_sent w @ bs\<rparr>))"

definition wire_start :: "mc_config \<Rightarrow> byte list \<Rightarrow> wire" where
  "wire_start cfg storage =
     \<lparr>wi_server = mc_server_init cfg, wi_tx = mc_ringbuf_init storage (length storage), wi_taken = [], wi_sent = [], wi_ended = []\<rparr>"

definition wire_ok :: "mc_config \<Rightarrow> wire \<Rightarrow> bool" where
  "wire_ok cfg w \<longleftrightarrow> run_ok cfg (wi_server w, wi_tx w, wi_sent w) \<and>
     wi_taken w = concat (map fst (wi_ended w)) @ wi_sent w \<and>
     (\<forall>(taken, dropped) \<in> set (wi_ended w). whole_frames (taken @ dropped))"

lemma wire_step_ok:
  assumes "config_ok cfg" "world_loaded cfg world assets" "wire_ok cfg w"
  shows "wire_ok cfg (wire_step cfg world e w)"
proof -
  let ?c = "(wi_server w, wi_tx w, wi_sent w)"
  have run: "run_ok cfg ?c" using assms(3) by (simp add: wire_ok_def)
  then have whole: "whole_frames (wi_sent w @ rb_contents (wi_tx w))" by (simp add: run_ok_def)
  note step = server_step_ok [OF assms(1,2) _ run]
  show ?thesis
  proof (cases e)
    case (Receive bytes)
    obtain ok server tx where r: "mc_server_receive cfg bytes (wi_server w) (wi_tx w) = (ok, server, tx)" by (metis prod_cases3)
    obtain reset server' where t: "mc_server_take_tx_reset server = (reset, server')" by fastforce
    show ?thesis
    proof (cases ok)
      case True
      have "mc_server_receive cfg bytes (wi_server w) (wi_tx w) = (True, server, tx)" using r True by simp
      from step [OF server_step.receive [OF this t]] Receive r t True assms(3) whole show ?thesis
        by (auto simp: wire_step_def wire_ok_def end_stream_def)
    next
      case False
      have "mc_server_receive cfg bytes (wi_server w) (wi_tx w) = (False, server, tx)" using r False by simp
      from step [OF server_step.fail [OF this]] Receive r False assms(3) whole show ?thesis
        by (auto simp: wire_step_def wire_ok_def end_stream_def)
    qed
  next
    case (Tick now)
    obtain ok server tx where t: "mc_server_tick_at cfg world now (wi_server w) (wi_tx w) = (ok, server, tx)" by (metis prod_cases3)
    from step [OF server_step.tick [OF t]] Tick t assms(3) show ?thesis by (auto simp: wire_step_def wire_ok_def)
  next
    case (Take n)
    obtain bs tx where t: "mc_ringbuf_read (wi_tx w) n = (bs, tx)" by fastforce
    from step [OF server_step.transmit [OF t]] Take t assms(3) show ?thesis by (auto simp: wire_step_def wire_ok_def)
  qed
qed

lemma wire_run_ok:
  assumes "config_ok cfg" "world_loaded cfg world assets" "storage \<noteq> []"
  shows "wire_ok cfg (fold (wire_step cfg world) es (wire_start cfg storage))"
proof -
  have "wire_ok cfg w \<Longrightarrow> wire_ok cfg (fold (wire_step cfg world) es w)" for w
    by (induction es arbitrary: w) (simp_all add: wire_step_ok [OF assms(1,2)])
  moreover have "wire_ok cfg (wire_start cfg storage)"
    using init_run_ok [of "length storage" storage cfg] assms(3) by (simp add: wire_ok_def wire_start_def)
  ultimately show ?thesis .
qed

lemma drop_all_facts: "rb_ok tx \<Longrightarrow> rb_ok (drop_all tx) \<and> rb_contents (drop_all tx) = [] \<and> rb_cap (drop_all tx) = rb_cap tx"
  by (simp add: drop_all_def rb_drop_ok rb_drop_cap rb_drop_contents rb_len_eq del: length_rb_contents)


text \<open>Single steps of a connection that is not yet in the play state, between two packets.\<close>

definition wire_at :: "mc_conn_state \<Rightarrow> (byte list \<times> byte list) list \<Rightarrow> byte list \<Rightarrow> byte list \<Rightarrow> byte list \<Rightarrow> wire \<Rightarrow> bool" where
  "wire_at state ended taken sent queue w \<longleftrightarrow>
     sv_rx_accum (wi_server w) = [] \<and> \<not> sv_compression_enabled (wi_server w) \<and> \<not> sv_tx_reset_requested (wi_server w) \<and>
     sv_state (wi_server w) = state \<and> wi_ended w = ended \<and> wi_taken w = taken \<and> wi_sent w = sent \<and>
     rb_ok (wi_tx w) \<and> rb_cap (wi_tx w) = 20 \<and> rb_contents (wi_tx w) = queue"

lemma status_handshake_packet:
  assumes "sv_state server = MC_CONN_HANDSHAKE \<or> sv_state server = MC_CONN_STATUS"
  shows "\<exists>server'. handle_packet cfg [0, 47, 1, 0x61, 0x63, 0xdd, 1] server tx = (True, server', drop_all tx) \<and>
    sv_state server' = MC_CONN_STATUS \<and> \<not> sv_compression_enabled server' \<and> sv_tx_reset_requested server'"
proof -
  let ?body = "[0, 47, 1, 0x61, 0x63, 0xdd, 1]"
  have v: "read_varint_body ?body 0 = Some (0, 1)" "read_varint_body ?body (Suc 0) = Some (47, 2)"
    "read_varint_body ?body 2 = Some (1, 3)" "read_varint_body ?body 6 = Some (1, 7)"
    using decode_small [of 0] decode_small [of 47] decode_small [of 1] by (simp_all add: read_varint_body_def)
  have s: "read_string_body ?body 2 256 = Some ([0x61], 4)"
    unfolding read_string_body_def v by simp
  have "try_handle_handshake cfg ?body server = (MC_HANDSHAKE_ACCEPTED,
      emit_trace MC_TRACE_HANDSHAKE 1 47 (Some (c_str [0x61])) (length (c_str [0x61]))
        ((reset_logical_session cfg server)\<lparr>sv_state := MC_CONN_STATUS\<rparr>))"
    by (simp add: try_handle_handshake_def v s Let_def)
  with assms v(1) show ?thesis
    by (auto simp: handle_packet_def reset_logical_session_def reset_play_runtime_state_def)
qed

lemma status_ping_packet:
  assumes "sv_state server = MC_CONN_STATUS" "rb_ok tx" "length (rb_contents tx) + 10 \<le> rb_cap tx"
  shows "\<exists>tx'. handle_packet cfg [1, 1, 2, 3, 4, 5, 6, 7, 8] server tx =
      (True, emit_trace MC_TRACE_STATUS_PING 0 0 None 0 server, tx') \<and> rb_ok tx' \<and> rb_cap tx' = rb_cap tx \<and>
    rb_contents tx' = rb_contents tx @ [9, 1, 1, 2, 3, 4, 5, 6, 7, 8]"
proof -
  let ?body = "[1, 1, 2, 3, 4, 5, 6, 7, 8]"
  have v: "read_varint_body ?body 0 = Some (1, 1)" using decode_small [of 1] by (simp add: read_varint_body_def)
  have f: "packet_frame (varint_bytes 0x01 @ take 8 (drop 1 ?body)) = [9, 1, 1, 2, 3, 4, 5, 6, 7, 8]"
    by (simp add: packet_frame_def varint_bytes_def leb128.simps)
  have e: "enqueues (queue_pong (drop 1 ?body)) [9, 1, 1, 2, 3, 4, 5, 6, 7, 8]"
    using enqueues_pong [of "drop 1 ?body"] unfolding f by simp
  from e assms(2) show ?thesis
  proof (cases rule: enqueues_cases)
    case (queued tx')
    with assms(1) v show ?thesis by (simp add: handle_packet_def handle_session_packet_def)
  next
    case full
    with assms(3) show ?thesis by (simp del: length_rb_contents)
  qed
qed

lemma wire_handshake:
  assumes "wire_at state ended taken sent queue w" "state = MC_CONN_HANDSHAKE \<or> state = MC_CONN_STATUS"
  shows "wire_at MC_CONN_STATUS (ended @ [(sent, queue)]) taken [] []
    (wire_step cfg world (Receive (packet_frame [0, 47, 1, 0x61, 0x63, 0xdd, 1])) w)"
proof -
  let ?body = "[0, 47, 1, 0x61, 0x63, 0xdd, 1] :: byte list"
  let ?s = "note_frame (1 + length ?body) ((wi_server w)\<lparr>sv_rx_accum := packet_frame ?body\<rparr>)"
  have "sv_state ?s = MC_CONN_HANDSHAKE \<or> sv_state ?s = MC_CONN_STATUS"
    using assms by (simp add: wire_at_def note_frame_def)
  from status_handshake_packet [OF this, of cfg "wi_tx w"] obtain server' where
    h: "handle_packet cfg ?body ?s (wi_tx w) = (True, server', drop_all (wi_tx w))" "sv_state server' = MC_CONN_STATUS"
      "\<not> sv_compression_enabled server'" "sv_tx_reset_requested server'" by blast
  from receive_packet [OF _ _ _ h(1)] assms(1) h(2-4) drop_all_facts [of "wi_tx w"] show ?thesis
    by (simp add: wire_step_def wire_at_def mc_server_take_tx_reset_def end_stream_def)
qed

lemma wire_ping:
  assumes "wire_at MC_CONN_STATUS ended taken sent [] w"
  shows "wire_at MC_CONN_STATUS ended taken sent [9, 1, 1, 2, 3, 4, 5, 6, 7, 8]
    (wire_step cfg world (Receive (packet_frame [1, 1, 2, 3, 4, 5, 6, 7, 8])) w)"
proof -
  let ?body = "[1, 1, 2, 3, 4, 5, 6, 7, 8] :: byte list"
  let ?s = "note_frame (1 + length ?body) ((wi_server w)\<lparr>sv_rx_accum := packet_frame ?body\<rparr>)"
  have "sv_state ?s = MC_CONN_STATUS" "rb_ok (wi_tx w)" "length (rb_contents (wi_tx w)) + 10 \<le> rb_cap (wi_tx w)"
    using assms by (simp_all add: wire_at_def note_frame_def del: length_rb_contents)
  from status_ping_packet [OF this, of cfg] obtain tx' where
    h: "handle_packet cfg ?body ?s (wi_tx w) = (True, emit_trace MC_TRACE_STATUS_PING 0 0 None 0 ?s, tx')"
      "rb_ok tx'" "rb_cap tx' = rb_cap (wi_tx w)" "rb_contents tx' = rb_contents (wi_tx w) @ [9, 1, 1, 2, 3, 4, 5, 6, 7, 8]" by blast
  from receive_packet [OF _ _ _ h(1)] assms h(2-4) show ?thesis
    by (simp add: wire_step_def wire_at_def mc_server_take_tx_reset_def note_frame_def)
qed

lemma wire_take:
  assumes "wire_at state ended taken sent queue w"
  shows "wire_at state ended (taken @ take n queue) (sent @ take n queue) (drop n queue) (wire_step cfg world (Take n) w)"
proof -
  have "rb_ok (wi_tx w)" using assms by (simp add: wire_at_def)
  then show ?thesis
    using assms rb.read_contents [of "wi_tx w" n] rb.read_remaining [of "wi_tx w" n] rb.read_invar [of "wi_tx w" n]
      rb.read_capacity [of "wi_tx w" n]
    by (simp add: wire_step_def wire_at_def case_prod_unfold)
qed

section \<open>Login\<close>

text \<open>A user name as a client sends it: up to 16 bytes, no zero, the first one an ASCII character
  from the space on.\<close>

definition plain_name :: "byte list \<Rightarrow> bool" where
  "plain_name name \<longleftrightarrow> name \<noteq> [] \<and> length name \<le> 16 \<and> 0 \<notin> set name \<and> 0x20 \<le> hd name \<and> hd name < 0x80"

definition login_start_body :: "byte list \<Rightarrow> byte list" where
  "login_start_body name = 0 # of_nat (length name) # name"

text \<open>Such a packet is not a handshake: its name would be a host name that is too long.\<close>

lemma login_start_fields:
  assumes "plain_name name"
  shows "read_varint_body (login_start_body name) 0 = Some (0, 1)"
    "read_string_body (login_start_body name) 1 17 = Some (name, length (login_start_body name))"
    "try_handle_handshake cfg (login_start_body name) server = (MC_HANDSHAKE_INVALID, server)"
proof -
  let ?n = "length name"
  have n: "?n < 128" using assms by (simp add: plain_name_def)
  show 0: "read_varint_body (login_start_body name) 0 = Some (0, 1)"
    using decode_small [of 0] by (simp add: read_varint_body_def login_start_body_def)
  have 1: "read_varint_body (login_start_body name) 1 = Some (of_nat ?n, 2)"
    using decode_small [OF n, of name] by (simp add: read_varint_body_def login_start_body_def)
  show "read_string_body (login_start_body name) 1 17 = Some (name, length (login_start_body name))"
    using assms n unfolding read_string_body_def 1
    by (simp add: of_nat_sint login_start_body_def plain_name_def)
  obtain c rest where c: "name = c # rest" using assms by (cases name) (simp_all add: plain_name_def)
  have u: "32 \<le> unat c" "unat c < 128"
    using assms c by (simp_all add: plain_name_def word_le_nat_alt word_less_nat_alt)
  have "read_varint_body (login_start_body name) 2 = Some (of_nat (unat c), 3)"
    using decode_small [OF u(2), of rest] by (simp add: read_varint_body_def login_start_body_def c)
  then have "read_string_body (login_start_body name) 2 256 = None"
    using assms u of_nat_sint [OF u(2)] by (simp add: read_string_body_def login_start_body_def c plain_name_def)
  then show "try_handle_handshake cfg (login_start_body name) server = (MC_HANDSHAKE_INVALID, server)"
    by (simp add: try_handle_handshake_def 0 1 del: One_nat_def)
qed

lemma handle_login_packet:
  assumes "plain_name name" "sv_state server = MC_CONN_LOGIN"
  shows "handle_packet cfg (login_start_body name) server tx = handle_login_start cfg (login_start_body name) 1 server tx"
  using login_start_fields(1) [OF assms(1)] login_start_fields(3) [OF assms(1), of cfg server] assms(2)
  by (simp add: handle_packet_def handle_session_packet_def)

lemma login_frames_trace [simp]:
  "login_frames cfg (emit_trace ty a b t n server) = login_frames cfg server"
  "login_frames cfg (note_frame n server) = login_frames cfg server"
  "login_frames cfg (server\<lparr>sv_rx_accum := accum\<rparr>) = login_frames cfg server"
  "sv_compression_enabled (note_frame n server) = sv_compression_enabled server"
  by (simp_all add: login_frames_def note_frame_def fun_eq_iff)

section \<open>The keep-alive schedule\<close>

text \<open>
  On unbounded time: a keep-alive is due when the interval has passed since the last one at \<open>t0\<close>. The code keeps the
  time of the last one in 32 bits, where 0 means that there was none: behind one that was sent at a multiple of \<open>2^32\<close>
  the next one is due at once.
\<close>

fun keepalives_due :: "nat \<Rightarrow> nat \<Rightarrow> nat list \<Rightarrow> bool list" where
  "keepalives_due interval t0 [] = []"
| "keepalives_due interval t0 (t # ts) =
     (if 2 ^ 32 dvd t0 \<or> interval \<le> t - t0 then True # keepalives_due interval t ts
      else False # keepalives_due interval t0 ts)"

text \<open>What the ring holds after each tick, when it is \<open>tx\<close> before the tick at time \<open>t\<close>.\<close>

fun ticks_hold :: "mc_config \<Rightarrow> world_compressed \<Rightarrow> mc_server \<Rightarrow> (nat \<times> mc_ringbuf) list \<Rightarrow> byte list list" where
  "ticks_hold cfg world server [] = []"
| "ticks_hold cfg world server ((t, tx) # steps) =
     (case mc_server_tick_at cfg world (of_nat t) server tx of
        (ok, server, tx) \<Rightarrow> rb_contents tx # ticks_hold cfg world server steps)"

text \<open>The frames of the due keep-alives, numbered from the last one on.\<close>

fun keepalive_frames :: "mc_config \<Rightarrow> mc_server \<Rightarrow> i32 \<Rightarrow> bool list \<Rightarrow> byte list list" where
  "keepalive_frames cfg server v [] = []"
| "keepalive_frames cfg server v (due # dues) =
     (if due then auto_frame cfg server (keepalive_packet (next_keepalive_id v)) #
          keepalive_frames cfg server (next_keepalive_id v) dues
      else [] # keepalive_frames cfg server v dues)"

lemma keepalive_frames_cong:
  "sv_compression_enabled server' = sv_compression_enabled server \<Longrightarrow>
   keepalive_frames cfg server' v dues = keepalive_frames cfg server v dues"
  by (induction dues arbitrary: v) (simp_all add: auto_frame_def)

lemma tick_playing:
  assumes "sv_state server = MC_CONN_PLAY" "sv_play_bootstrap_sent server" "rb_ok tx" "length (rb_contents tx) + 12 \<le> rb_cap tx"
  shows "\<exists>server' tx'. mc_server_tick_at cfg world now server tx = (True, server', tx') \<and>
    sv_state server' = MC_CONN_PLAY \<and> sv_play_bootstrap_sent server' \<and>
    sv_compression_enabled server' = sv_compression_enabled server \<and>
    (if sv_last_keepalive_tick server \<noteq> 0 \<and> now - sv_last_keepalive_tick server < cfg_keepalive_interval cfg
     then rb_contents tx' = rb_contents tx \<and> sv_keepalive_id server' = sv_keepalive_id server \<and>
       sv_last_keepalive_tick server' = sv_last_keepalive_tick server
     else rb_contents tx' = rb_contents tx @ auto_frame cfg server (keepalive_packet (next_keepalive_id (sv_keepalive_id server))) \<and>
       sv_keepalive_id server' = next_keepalive_id (sv_keepalive_id server) \<and> sv_last_keepalive_tick server' = now)"
proof -
  let ?s = "server\<lparr>sv_ticks := sv_ticks server + 1\<rparr>" and ?id = "next_keepalive_id (sv_keepalive_id server)"
  have t: "mc_server_tick_at cfg world now server tx = tick_keepalive cfg now ?s tx"
    using assms(1,2) by (simp add: mc_server_tick_at_def Let_def)
  have f: "auto_frame cfg ?s = auto_frame cfg server" by (intro ext) (simp add: auto_frame_def)
  have "enqueues (queue_keepalive cfg ?s ?id) (auto_frame cfg server (keepalive_packet ?id))"
    using enqueues_keepalive [of cfg ?s ?id] f by simp
  then show ?thesis using assms(3)
  proof (cases rule: enqueues_cases)
    case (queued tx')
    with t assms show ?thesis by (auto simp: tick_keepalive_eq)
  next
    case full
    with keepalive_frame_small [of cfg server ?id] assms(4) show ?thesis by (simp del: length_rb_contents)
  qed
qed

lemma keepalive_schedule:
  assumes "sv_state server = MC_CONN_PLAY" "sv_play_bootstrap_sent server"
    "list_all (\<lambda>(t, tx). rb_ok tx \<and> length (rb_contents tx) + 12 \<le> rb_cap tx) steps"
    "sv_last_keepalive_tick server = of_nat t0" "t0 \<le> prev"
    "prev - t0 < unat (cfg_keepalive_interval cfg)" "unat (cfg_keepalive_interval cfg) \<le> 2 ^ 31"
    "sorted (prev # map fst steps)" "successively (\<lambda>a b. b - a < 2 ^ 31) (prev # map fst steps)"
  shows "ticks_hold cfg world server steps = map2 (\<lambda>(t, tx) frame. rb_contents tx @ frame) steps
    (keepalive_frames cfg server (sv_keepalive_id server)
       (keepalives_due (unat (cfg_keepalive_interval cfg)) t0 (map fst steps)))"
  using assms
proof (induction steps arbitrary: server t0 prev)
  case (Cons step steps)
  obtain t tx where step: "step = (t, tx)" by fastforce
  let ?k = "unat (cfg_keepalive_interval cfg)" and ?now = "of_nat t :: u32"
  have le: "t0 \<le> t" "t - t0 < 2 ^ 32" using Cons.prems(5-9) by (auto simp: step)
  have "?now - of_nat t0 = of_nat (t - t0)" using le(1) by (simp add: of_nat_diff)
  then have el: "unat (?now - sv_last_keepalive_tick server) = t - t0"
    using le(2) Cons.prems(4) by (simp add: unat_of_nat take_bit_nat_eq_self del: of_nat_diff)
  have z: "sv_last_keepalive_tick server \<noteq> 0 \<longleftrightarrow> \<not> 2 ^ 32 dvd t0" using Cons.prems(4) by (simp add: word_of_nat_eq_0_iff)
  have due: "sv_last_keepalive_tick server \<noteq> 0 \<and> ?now - sv_last_keepalive_tick server < cfg_keepalive_interval cfg \<longleftrightarrow>
      \<not> (2 ^ 32 dvd t0 \<or> ?k \<le> t - t0)"
    unfolding z by (simp add: word_less_nat_alt el not_le)
  have tx: "rb_ok tx" "length (rb_contents tx) + 12 \<le> rb_cap tx"
    using Cons.prems(3) by (simp_all add: step del: length_rb_contents)
  obtain server' tx' where s': "mc_server_tick_at cfg world ?now server tx = (True, server', tx')"
    "sv_state server' = MC_CONN_PLAY" "sv_play_bootstrap_sent server'"
    "sv_compression_enabled server' = sv_compression_enabled server"
    "if \<not> (2 ^ 32 dvd t0 \<or> ?k \<le> t - t0) then rb_contents tx' = rb_contents tx \<and> sv_keepalive_id server' = sv_keepalive_id server \<and>
       sv_last_keepalive_tick server' = sv_last_keepalive_tick server
     else rb_contents tx' = rb_contents tx @ auto_frame cfg server (keepalive_packet (next_keepalive_id (sv_keepalive_id server))) \<and>
       sv_keepalive_id server' = next_keepalive_id (sv_keepalive_id server) \<and> sv_last_keepalive_tick server' = ?now"
    using tick_playing [OF Cons.prems(1,2) tx, of cfg world ?now] unfolding due by blast
  have rest: "list_all (\<lambda>(t, tx). rb_ok tx \<and> length (rb_contents tx) + 12 \<le> rb_cap tx) steps"
    "sorted (t # map fst steps)" "successively (\<lambda>a b. b - a < 2 ^ 31) (t # map fst steps)"
    using Cons.prems(3,8,9) by (simp_all add: step)
  show ?case
  proof (cases "2 ^ 32 dvd t0 \<or> ?k \<le> t - t0")
    case False
    have "ticks_hold cfg world server' steps = map2 (\<lambda>(t, tx) frame. rb_contents tx @ frame) steps
        (keepalive_frames cfg server' (sv_keepalive_id server') (keepalives_due ?k t0 (map fst steps)))"
      by (rule Cons.IH [OF s'(2,3) rest(1) _ le(1)]) (use s'(5) False Cons.prems(4,7) rest in simp_all)
    with s' False keepalive_frames_cong [OF s'(4)] show ?thesis by (simp add: step)
  next
    case True
    have "ticks_hold cfg world server' steps = map2 (\<lambda>(t, tx) frame. rb_contents tx @ frame) steps
        (keepalive_frames cfg server' (sv_keepalive_id server') (keepalives_due ?k t (map fst steps)))"
      by (rule Cons.IH [OF s'(2,3) rest(1), of t t]) (use s'(5) True Cons.prems(6,7) rest in simp_all)
    with s' True keepalive_frames_cong [OF s'(4)] show ?thesis by (simp add: step)
  qed
qed simp

section \<open>Packets with unknown identifiers\<close>

text \<open>Identifiers that no packet of the game has, and a packet in play as the server wants it, behind a zero data
  length when compression is on.\<close>

definition unknown_id :: "i32 \<Rightarrow> bool" where
  "unknown_id v \<longleftrightarrow> sint v < 0 \<or> MC_MAX_SERVERBOUND_PACKET_ID < sint v"

definition play_packet :: "mc_server \<Rightarrow> i32 \<Rightarrow> byte list \<Rightarrow> byte list" where
  "play_packet server v rest = (if sv_compression_enabled server then [0] else []) @ varint_bytes v @ rest"

lemma handle_unknown_id:
  assumes "unknown_id v" "sv_state server = MC_CONN_PLAY"
  shows "handle_packet cfg (varint_bytes v @ rest) server tx =
    (True, emit_trace MC_TRACE_PLAY_UNHANDLED v (of_nat (length (varint_bytes v @ rest))) None 0 server, tx)"
proof -
  have "read_varint_body (varint_bytes v @ rest) 0 = Some (v, length (varint_bytes v))"
    using mc_varint_decode_varint_bytes [of v rest] length_varint_bytes [of v] by (simp add: read_varint_body_def)
  moreover have "v \<notin> {0x00, 0x01, 0x03, 0x04, 0x05, 0x06}" using assms(1) by (auto simp: unknown_id_def)
  ultimately show ?thesis using assms(2) by (simp add: handle_packet_def handle_session_packet_def)
qed

lemma partial_id_invalid_take:
  assumes "unknown_id v" "n < length (varint_bytes v @ rest)"
  shows "partial_id_invalid (take n (varint_bytes v @ rest)) \<longleftrightarrow> length (varint_bytes v) \<le> n"
  using assms length_varint_bytes(2) [of v] unfolding partial_id_invalid_def decode_take_varint
  by (auto simp: unknown_id_def)

lemma partial_unknown_id:
  fixes v rest server
  defines "body \<equiv> play_packet server v rest"
  assumes "server_ok cfg server" "unknown_id v" "length body \<le> MC_MAX_PACKET_BODY"
    "length (varint_bytes (of_nat (length body))) \<le> n" "n < length (packet_frame body)"
  shows "partial_frame_has_invalid_packet_id cfg (server\<lparr>sv_rx_accum := take n (packet_frame body)\<rparr>) \<longleftrightarrow>
    length (packet_frame body) - length rest \<le> n"
proof -
  let ?p = "varint_bytes (of_nat (length body))"
  obtain m where m: "n = length ?p + m" using assms(5) le_Suc_ex by blast
  have d: "mc_varint_decode (take n (packet_frame body)) = Some (of_nat (length body), length ?p)"
    using decode_take_varint [of n "of_nat (length body)" body] assms(5) by (simp add: packet_frame_def)
  have t: "drop (length ?p) (take n (packet_frame body)) = take m body"
    by (simp add: packet_frame_def m)
  have n: "min (length (packet_frame body)) n = length ?p + m" "m < length body" using assms(5,6) by (simp_all add: length_packet_frame m)
  have comp: "sv_compression_enabled server \<Longrightarrow> cfg_compression cfg" using assms(2) by (simp add: server_ok_def conn_ok_def)
  have z: "mc_varint_decode (take k (0 # bs)) = (if k = 0 then None else Some (0, 1))" for k bs
    using decode_take_varint [of k 0 bs] by (simp add: varint_bytes_def leb128.simps)
  have v: "0 < length (varint_bytes v)" by (rule length_varint_bytes)
  let ?s = "server\<lparr>sv_rx_accum := take n (packet_frame body)\<rparr>"
  have eval: "partial_frame_has_invalid_packet_id cfg ?s \<longleftrightarrow> 0 < m \<and>
      (if sv_compression_enabled server then
         (case mc_varint_decode (take m body) of
            None \<Rightarrow> 5 \<le> m
          | Some (data_len, used) \<Rightarrow> data_len \<noteq> 0 \<or> used < m \<and> partial_id_invalid (drop used (take m body)))
       else partial_id_invalid (take m body))"
    using comp n assms(4,5) of_nat_body_len [of "length body"]
    by (simp add: partial_frame_has_invalid_packet_id_def Let_def d t not_le split: option.split) auto
  have l: "length (packet_frame body) - length rest \<le> n \<longleftrightarrow> length body - length rest \<le> m"
    by (simp add: length_packet_frame body_def play_packet_def m)
  show ?thesis
  proof (cases "sv_compression_enabled server")
    case True
    then have body: "body = 0 # varint_bytes v @ rest" by (simp add: body_def play_packet_def)
    have "partial_id_invalid (take (m - 1) (varint_bytes v @ rest)) \<longleftrightarrow> length (varint_bytes v) \<le> m - 1"
    proof (rule partial_id_invalid_take [OF assms(3)])
      show "m - 1 < length (varint_bytes v @ rest)" using n(2) v unfolding body length_append list.size by linarith
    qed
    then have "partial_id_invalid (drop 1 (take m body)) \<longleftrightarrow> length (varint_bytes v) \<le> m - 1"
      by (simp add: body drop_take)
    moreover have "Suc (length (varint_bytes v)) \<le> m \<longleftrightarrow> Suc 0 < m \<and> length (varint_bytes v) \<le> m - 1" using v by linarith
    ultimately show ?thesis
      unfolding eval l using True v z [of m "varint_bytes v @ rest", folded body]
      by (auto simp: body)
  next
    case False
    then have body: "body = varint_bytes v @ rest" by (simp add: body_def play_packet_def)
    have "partial_id_invalid (take m (varint_bytes v @ rest)) \<longleftrightarrow> length (varint_bytes v) \<le> m"
      using n(2) by (intro partial_id_invalid_take [OF assms(3)]) (simp add: body)
    moreover have "length (varint_bytes v) \<le> m \<longleftrightarrow> 0 < m \<and> length (varint_bytes v) \<le> m" using v by linarith
    ultimately show ?thesis unfolding eval l using False by (auto simp: body)
  qed
qed

section \<open>Properties\<close>

text \<open>C1: whatever a client sends, however its bytes are cut, whenever the server ticks and whatever of its queue the
  transport takes, all the bytes ever taken are those of the streams that have ended, one behind the other, and then
  those of the current stream. What was taken of the current stream and what is queued of it are whole packets of at
  most 32768 bytes each, which a reader with the server's own packet reader gets back one by one. A stream ends only
  when the server accepts a new handshake or fails: what was taken of it and what is thrown away with its queue are
  whole packets as well, so that the one place where a packet can be cut on the wire is the end of a stream whose
  queue was not empty.\<close>

theorem server_sends_whole_packets:
  assumes "config_ok cfg" "world_loaded cfg world assets" "storage \<noteq> []"
    and w: "w = fold (wire_step cfg world) es (wire_start cfg storage)"
  shows "wi_taken w = concat (map fst (wi_ended w)) @ wi_sent w \<and>
    (\<exists>bodies. list_all (\<lambda>body. length body \<le> MC_MAX_PACKET_BODY) bodies \<and>
       wi_sent w @ rb_contents (wi_tx w) = concat (map packet_frame bodies) \<and>
       decode_stream read_body (wi_sent w @ rb_contents (wi_tx w)) = (bodies, [])) \<and>
    (\<forall>(taken, dropped) \<in> set (wi_ended w). \<exists>bodies. list_all (\<lambda>body. length body \<le> MC_MAX_PACKET_BODY) bodies \<and>
       taken @ dropped = concat (map packet_frame bodies))"
proof -
  have ok: "wire_ok cfg w" unfolding w by (rule wire_run_ok [OF assms(1-3)])
  then have "whole_frames (wi_sent w @ rb_contents (wi_tx w))" by (simp add: wire_ok_def run_ok_def)
  with ok show ?thesis
    using packets.decode_stream_all [OF _ read_body_Nil] unfolding whole_frames_def wire_ok_def by fastforce
qed

theorem server_sends_whole_packets_witness:
  "let cfg = \<lparr>cfg_compression = False, cfg_psram_map = False, cfg_threshold = 1, cfg_keepalive_interval = 1\<rparr>;
       world = \<lparr>wc_arena = [], wc_runtime_chunks = [], wc_runtime_chunk_count = 0, wc_runtime_ready = False\<rparr>;
       handshake = packet_frame [0, 47, 1, 0x61, 0x63, 0xdd, 1]; ping = packet_frame [1, 1, 2, 3, 4, 5, 6, 7, 8];
       w = fold (wire_step cfg world) [Receive handshake, Receive ping, Take 4, Receive handshake] (wire_start cfg (replicate 20 0))
   in wi_taken w = [9, 1, 1, 2] \<and> wi_ended w = [([], []), ([9, 1, 1, 2], [3, 4, 5, 6, 7, 8])] \<and>
      (\<exists>bodies. [9, 1, 1, 2] @ [3, 4, 5, 6, 7, 8] = concat (map packet_frame bodies))"
proof -
  let ?cfg = "\<lparr>cfg_compression = False, cfg_psram_map = False, cfg_threshold = 1, cfg_keepalive_interval = 1\<rparr>"
  let ?world = "\<lparr>wc_arena = [], wc_runtime_chunks = [], wc_runtime_chunk_count = 0, wc_runtime_ready = False\<rparr>"
  let ?handshake = "Receive (packet_frame [0, 47, 1, 0x61, 0x63, 0xdd, 1])" and ?ping = "Receive (packet_frame [1, 1, 2, 3, 4, 5, 6, 7, 8])"
  define w where "w = fold (wire_step ?cfg ?world) [?handshake, ?ping, Take 4, ?handshake] (wire_start ?cfg (replicate 20 0))"
  have "wire_at MC_CONN_HANDSHAKE [] [] [] [] (wire_start ?cfg (replicate 20 0))"
    by (simp add: wire_at_def wire_start_def mc_server_init_def reset_play_runtime_state_def rb_init_ok rb_init_contents rb_init_cap)
  note wire_handshake [OF wire_take [OF wire_ping [OF wire_handshake [OF this]]], of 4 ?cfg ?world ?cfg ?world ?cfg ?world ?cfg ?world]
  then have w: "wi_taken w = [9, 1, 1, 2]" "wi_ended w = [([], []), ([9, 1, 1, 2], [3, 4, 5, 6, 7, 8])]"
    by (simp_all add: wire_at_def w_def)
  have ok: "config_ok ?cfg" "world_loaded ?cfg ?world []" "replicate 20 (0 :: byte) \<noteq> []"
    by (simp_all add: config_ok_def world_loaded_def)
  from server_sends_whole_packets [OF ok w_def] w have
    "\<exists>bodies. [9, 1, 1, 2] @ [3, 4, 5, 6, 7, 8] = concat (map packet_frame bodies)" by auto
  with w show ?thesis unfolding Let_def w_def [symmetric] by blast
qed

text \<open>C15: a login packet with an ordinary user name logs the player in: it is never mistaken for a new
  handshake, which the server tries to read first, and when the answer fits the transmit ring the
  server is in the play state under that name, compression is on if the build has it, and exactly the
  login answer was queued. When the answer does not fit the call reports an error.\<close>

theorem login_enters_play:
  assumes "server_ok cfg server" "sv_state server = MC_CONN_LOGIN" "sv_rx_accum server = []" "rb_ok tx"
    "plain_name name"
  shows "if length (rb_contents tx) + length (login_frames cfg server name) \<le> rb_cap tx
    then \<exists>server' tx'. mc_server_receive cfg (packet_frame (login_start_body name)) server tx = (True, server', tx') \<and>
      sv_state server' = MC_CONN_PLAY \<and> sv_username server' = name \<and>
      sv_compression_enabled server' = cfg_compression cfg \<and> sv_rx_accum server' = [] \<and>
      rb_contents tx' = rb_contents tx @ login_frames cfg server name
    else fst (mc_server_receive cfg (packet_frame (login_start_body name)) server tx) = False"
proof -
  let ?body = "login_start_body name"
  let ?s = "note_frame (1 + length ?body) (server\<lparr>sv_rx_accum := packet_frame ?body\<rparr>)"
  have nc: "\<not> sv_compression_enabled server" using assms(1,2) by (simp add: server_ok_def conn_ok_def)
  have b: "length ?body < 128" using assms(5) by (simp add: login_start_body_def plain_name_def)
  let ?e = "emit_trace MC_TRACE_LOGIN_START 0 0 (Some name) (length name) ?s"
  have name: "c_str name = name" "name \<noteq> []" "length name \<le> 16"
    using assms(5) by (simp_all add: plain_name_def c_str_id)
  have h: "handle_packet cfg ?body ?s tx = (case login_answer cfg name ?e tx of
      (ok, s, tx) \<Rightarrow> if \<not> ok then (False, s, tx)
        else (True, emit_trace MC_TRACE_PLAY_ENTER 0 0 (Some name) (length name)
           (s\<lparr>sv_username := name, sv_state := MC_CONN_PLAY\<rparr>), tx))"
    using handle_login_packet [OF assms(5), of ?s cfg tx] login_start_fields(2) [OF assms(5)] name assms(2)
    by (simp add: handle_login_start_def Let_def del: One_nat_def split: prod.split)
  show ?thesis
    using name(3) assms(4)
  proof (cases rule: login_answer_cases_frames [of name tx cfg ?e])
    case (sent tx')
    then show ?thesis
      using receive_packet [OF b assms(3) nc h [unfolded sent(1) prod.case not_True_eq_False if_False]] nc by simp
  next
    case full
    then show ?thesis
      using receive_packet [OF b assms(3) nc h [unfolded full(1) prod.case not_False_eq_True if_True]] by simp
  qed
qed

theorem login_enters_play_witness:
  "let cfg = \<lparr>cfg_compression = False, cfg_psram_map = False, cfg_threshold = 1, cfg_keepalive_interval = 1\<rparr>;
       server = (mc_server_init cfg)\<lparr>sv_state := MC_CONN_LOGIN\<rparr>
   in \<exists>server' tx'. mc_server_receive cfg (packet_frame (login_start_body [0x42, 0x6f, 0x62])) server
        (mc_ringbuf_init (replicate 1000 0) 1000) = (True, server', tx') \<and> sv_state server' = MC_CONN_PLAY"
proof -
  let ?cfg = "\<lparr>cfg_compression = False, cfg_psram_map = False, cfg_threshold = 1, cfg_keepalive_interval = 1\<rparr>"
  let ?s = "(mc_server_init ?cfg)\<lparr>sv_state := MC_CONN_LOGIN\<rparr>" and ?tx = "mc_ringbuf_init (replicate 1000 0) 1000"
  have s: "server_ok ?cfg ?s"
    using init_run_ok [of 1 "[0]" ?cfg] by (simp add: run_ok_def server_ok_def conn_ok_def) (simp add: mc_server_init_def reset_play_runtime_state_def)
  have r: "sv_rx_accum ?s = []" by (simp add: mc_server_init_def reset_play_runtime_state_def)
  have t: "rb_ok ?tx" by (rule rb_init_ok) simp_all
  have n: "plain_name [0x42, 0x6f, 0x62]" by (simp add: plain_name_def)
  have "length (login_frames ?cfg ?s [0x42, 0x6f, 0x62]) \<le> 1000"
    using length_packet_frame_le [of "login_packet [0x42, 0x6f, 0x62]"] length_packets(2) [of "[0x42, 0x6f, 0x62]"]
    by (simp add: login_frames_def)
  with login_enters_play [OF s _ r t n] show ?thesis
    by (auto simp: Let_def rb_init_contents rb_init_cap simp del: length_rb_contents)
qed

text \<open>C13: keep-alives follow the schedule of a clock that never wraps, although the tick counter wraps around: once
  the world is sent, a tick at time \<open>t\<close> with room for a keep-alive queues one exactly when the interval has passed
  since the last one, numbered one after the other, and leaves the queue alone otherwise. Ticks may come at any times
  less than \<open>2^31\<close> apart, for an interval of up to \<open>2^31\<close>, and the transport may take any bytes between them. One
  exception is part of the schedule: behind a keep-alive sent at a multiple of \<open>2^32\<close>, where the counter is 0, the code
  takes the mark for that of none sent and the next tick sends another one at once.\<close>

theorem keepalives_on_schedule:
  assumes "sv_state server = MC_CONN_PLAY" "sv_play_bootstrap_sent server" "sv_last_keepalive_tick server = of_nat t0"
    and "config_ok cfg" "unat (cfg_keepalive_interval cfg) \<le> 2 ^ 31"
    and "sorted (t0 # map fst steps)" "successively (\<lambda>a b. b - a < 2 ^ 31) (t0 # map fst steps)"
    and "list_all (\<lambda>(t, tx). rb_ok tx \<and> length (rb_contents tx) + 12 \<le> rb_cap tx) steps"
  shows "ticks_hold cfg world server steps = map2 (\<lambda>(t, tx) frame. rb_contents tx @ frame) steps
    (keepalive_frames cfg server (sv_keepalive_id server)
       (keepalives_due (unat (cfg_keepalive_interval cfg)) t0 (map fst steps)))"
proof (rule keepalive_schedule [of server steps t0 t0])
  show "t0 - t0 < unat (cfg_keepalive_interval cfg)" using assms(4) by (simp add: config_ok_def word_less_nat_alt)
qed (use assms in simp_all)

theorem keepalives_on_schedule_witness:
  "let cfg = \<lparr>cfg_compression = False, cfg_psram_map = False, cfg_threshold = 1, cfg_keepalive_interval = 10\<rparr>;
       server = (mc_server_init cfg)\<lparr>sv_state := MC_CONN_PLAY, sv_play_bootstrap_sent := True,
         sv_last_keepalive_tick := - 6, sv_keepalive_id := 7\<rparr>;
       world = \<lparr>wc_arena = [], wc_runtime_chunks = [], wc_runtime_chunk_count = 0, wc_runtime_ready = False\<rparr>;
       tx = mc_ringbuf_init (replicate 20 0) 20
   in ticks_hold cfg world server (map (\<lambda>t. (t, tx)) [2 ^ 32 - 1, 2 ^ 32 + 3, 2 ^ 32 + 4, 2 ^ 32 + 14]) =
     [[], [], auto_frame cfg server (keepalive_packet 8), auto_frame cfg server (keepalive_packet 9)]"
proof -
  let ?cfg = "\<lparr>cfg_compression = False, cfg_psram_map = False, cfg_threshold = 1, cfg_keepalive_interval = 10\<rparr>"
  let ?s = "(mc_server_init ?cfg)\<lparr>sv_state := MC_CONN_PLAY, sv_play_bootstrap_sent := True,
         sv_last_keepalive_tick := - 6, sv_keepalive_id := 7\<rparr>"
  let ?w = "\<lparr>wc_arena = [], wc_runtime_chunks = [], wc_runtime_chunk_count = 0, wc_runtime_ready = False\<rparr>"
  let ?tx = "mc_ringbuf_init (replicate 20 0) 20"
  let ?steps = "map (\<lambda>t :: nat. (t, ?tx)) [2 ^ 32 - 1, 2 ^ 32 + 3, 2 ^ 32 + 4, 2 ^ 32 + 14]"
  have tx: "rb_ok ?tx" "rb_contents ?tx = []" "rb_cap ?tx = 20" by (simp_all add: rb_init_ok rb_init_contents rb_init_cap)
  have "sv_last_keepalive_tick ?s = of_nat (2 ^ 32 - 6)" by simp
  moreover have "list_all (\<lambda>(t, tx). rb_ok tx \<and> length (rb_contents tx) + 12 \<le> rb_cap tx) ?steps" using tx by (simp del: length_rb_contents)
  ultimately have "ticks_hold ?cfg ?w ?s ?steps = map2 (\<lambda>(t, tx) frame. rb_contents tx @ frame) ?steps
      (keepalive_frames ?cfg ?s (sv_keepalive_id ?s) (keepalives_due (unat (cfg_keepalive_interval ?cfg)) (2 ^ 32 - 6) (map fst ?steps)))"
    by (intro keepalives_on_schedule) (simp_all add: config_ok_def)
  with tx show ?thesis by (simp add: Let_def next_keepalive_id_def)
qed

text \<open>C40: whether a packet with an unknown identifier is accepted depends on how the stream was cut. For every
  identifier that is negative or above 127 and any contents, with compression on or off: the whole packet is accepted
  in the play state, and so is a first part of it that ends before its identifier does, but a first part that
  contains the identifier and lacks some of the rest is an error, upon which both drivers end the connection.\<close>

theorem unknown_packet_depends_on_split:
  fixes v rest server
  defines "frame \<equiv> packet_frame (play_packet server v rest)"
  assumes "server_ok cfg server" "sv_state server = MC_CONN_PLAY" "sv_rx_accum server = []" "unknown_id v"
    and "length (play_packet server v rest) \<le> MC_MAX_PACKET_BODY"
  shows "fst (mc_server_receive cfg (take n frame) server tx) \<longleftrightarrow> n < length frame - length rest \<or> length frame \<le> n"
proof (cases "length frame \<le> n")
  case True
  let ?body = "play_packet server v rest"
  have "packet_body s \<lparr>pk_body = ?body, pk_body_len = length ?body, pk_frame_len = k\<rparr> = Some (varint_bytes v @ rest)"
    if "sv_compression_enabled s = sv_compression_enabled server" for s k
    using that get_compressed_body_plain [of "varint_bytes v @ rest"] by (simp add: packet_body_def play_packet_def)
  with assms(3,4) True show ?thesis
    by (simp add: frame_def receive_frame [OF assms(6) _ _ handle_unknown_id [OF assms(5)]])
next
  case False
  let ?body = "play_packet server v rest" and ?s = "server\<lparr>sv_rx_accum := take n frame\<rparr>"
  have "length frame \<le> MC_RX_ACCUM_CAP" using assms(6) length_packet_frame_le [of ?body] by (simp add: frame_def)
  then have acc: "accumulate (take n frame) [] = Some (take n frame)" by (simp add: accumulate_eq)
  have c: "fst (classify_frame (take n frame)) = MC_FRAME_NEED_MORE"
    using False classify_take_frame [OF assms(6), of n] by (simp add: frame_def)
  have "partial_frame_has_invalid_packet_id cfg ?s \<longleftrightarrow> length frame - length rest \<le> n"
  proof (cases "n < length (varint_bytes (of_nat (length ?body)))")
    case True
    have "mc_varint_decode (take n frame) = None"
      using decode_take_varint [of n "of_nat (length ?body)" ?body] True by (simp add: frame_def packet_frame_def)
    then show ?thesis using True
      by (simp add: partial_frame_has_invalid_packet_id_def frame_def length_packet_frame play_packet_def)
  next
    case prefix: False
    with False show ?thesis
      using partial_unknown_id [OF assms(2,5,6), of n] by (simp add: frame_def)
  qed
  then have "fst (receive_step cfg ?s tx) = Some (n < length frame - length rest)"
    using c by (auto simp: receive_step_def split: prod.splits)
  then obtain s' t' where "receive_step cfg ?s tx = (Some (n < length frame - length rest), s', t')"
    by (metis prod.collapse)
  with acc assms(4) False show ?thesis by (simp add: mc_server_receive_def receive_loop.simps [of cfg ?s])
qed

theorem unknown_packet_depends_on_split_witness:
  "let cfg = \<lparr>cfg_compression = True, cfg_psram_map = False, cfg_threshold = 1, cfg_keepalive_interval = 1\<rparr>;
       server = (mc_server_init cfg)\<lparr>sv_state := MC_CONN_PLAY, sv_username := [0x41], sv_compression_enabled := True\<rparr>;
       tx = mc_ringbuf_init [0] 1
   in fst (mc_server_receive cfg [4, 0, 0xC8, 1, 7] server tx) \<and> fst (mc_server_receive cfg [4, 0, 0xC8] server tx) \<and>
      \<not> fst (mc_server_receive cfg [4, 0, 0xC8, 1] server tx)"
proof -
  let ?cfg = "\<lparr>cfg_compression = True, cfg_psram_map = False, cfg_threshold = 1, cfg_keepalive_interval = 1\<rparr>"
  let ?s = "(mc_server_init ?cfg)\<lparr>sv_state := MC_CONN_PLAY, sv_username := [0x41], sv_compression_enabled := True\<rparr>"
  have s: "server_ok ?cfg ?s" "sv_state ?s = MC_CONN_PLAY" "sv_rx_accum ?s = []"
    by (simp_all add: server_ok_def conn_ok_def mc_server_init_def reset_play_runtime_state_def)
  have p: "play_packet ?s 200 [7] = [0, 0xC8, 1, 7]"
    by (simp add: play_packet_def varint_bytes_def leb128.simps)
  have u: "unknown_id 200" by (simp add: unknown_id_def)
  note t = unknown_packet_depends_on_split [OF s u, of "[7]", unfolded p packet_frame_small [of "[0, 0xC8, 1, 7]", simplified]]
  let ?tx = "mc_ringbuf_init [0] 1"
  from t [of 5 ?tx] t [of 3 ?tx] t [of 4 ?tx] show ?thesis by (simp add: Let_def)
qed

end
