(* ===== verification/LinuxServer.thy ===== *)
theory LinuxServer
  imports Server LinkSession
begin

text \<open>
  The hosted server, linux/mc_linux_server.c: the socket loop of one client around the core server. The
  operating system is a script: what the calls of \<open>poll\<close>, \<open>send\<close>, \<open>recv\<close> and \<open>clock_gettime\<close> return one
  after the other, and the values the volatile flag \<open>shutdown_requested\<close> is read with. A call beyond the
  end of its script has not returned yet; the flag is then clear and the clock fails. The calls on
  descriptors are logged with the descriptor they name. The messages on standard error are not modelled.
\<close>

section \<open>The operating system\<close>

datatype errno = EINTR | EAGAIN | EWOULDBLOCK | EPIPE | ECONNRESET | ECONNABORTED | E_other

text \<open>\<open>Poll_ready nval wanted err\<close>: some events, among them \<open>POLLNVAL\<close>, the wanted ones, an error or hang-up.\<close>

datatype poll_outcome = Poll_ready bool bool bool | Poll_timeout | Poll_failed errno

text \<open>\<open>send\<close> takes at most the bytes it is given, \<open>recv\<close> delivers at most what fits the buffer.\<close>

datatype send_outcome = Send_takes nat | Send_failed errno

datatype recv_outcome = Recv_bytes "byte list" | Recv_failed errno

text \<open>\<open>os_io\<close> is the log of the calls on descriptors.\<close>

datatype io_call = Io_poll (io_fd: int) | Io_send (io_fd: int) | Io_recv (io_fd: int)

record os =
  os_polls :: "poll_outcome list"
  os_sends :: "send_outcome list"
  os_recvs :: "recv_outcome list"
  os_clock :: "(u64 \<times> u64) option list"
  os_shutdown :: "bool list"
  os_io :: "io_call list"

datatype 'a outcome = Returned 'a | Waiting

definition log_io :: "io_call list \<Rightarrow> os \<Rightarrow> os" where
  "log_io calls os = os\<lparr>os_io := os_io os @ calls\<rparr>"

text \<open>Every call takes one outcome off its script, but for one that has not returned.\<close>

definition calls_made :: "'a list \<Rightarrow> 'b outcome \<Rightarrow> 'a list \<Rightarrow> nat" where
  "calls_made script r rest = length script - length rest + (case r of Returned _ \<Rightarrow> 0 | Waiting \<Rightarrow> 1)"

lemma log_io_fields [simp]:
  "os_polls (log_io calls os) = os_polls os" "os_sends (log_io calls os) = os_sends os"
  "os_recvs (log_io calls os) = os_recvs os" "os_clock (log_io calls os) = os_clock os"
  "os_shutdown (log_io calls os) = os_shutdown os" "os_io (log_io calls os) = os_io os @ calls"
  by (simp_all add: log_io_def)

definition shutdown_requested :: "os \<Rightarrow> bool \<times> os" where
  "shutdown_requested os =
     (case os_shutdown os of [] \<Rightarrow> (False, os) | flag # flags \<Rightarrow> (flag, os\<lparr>os_shutdown := flags\<rparr>))"

abbreviation MC_LINUX_IO_BUF :: nat where "MC_LINUX_IO_BUF \<equiv> 2048"

datatype mc_linux_client_reason =
    MC_LINUX_CLIENT_PEER_CLOSE
  | MC_LINUX_CLIENT_RECV_ERROR
  | MC_LINUX_CLIENT_SEND_ERROR
  | MC_LINUX_CLIENT_PROTOCOL_RECEIVE_FAILURE
  | MC_LINUX_CLIENT_BACKPRESSURE_OR_TICK_FAILURE
  | MC_LINUX_CLIENT_SHUTDOWN
  | MC_LINUX_CLIENT_TX_DRAIN_WRITE_FAILURE
  | MC_LINUX_CLIENT_WORLD_INIT_FAILURE

definition client_reason_text :: "mc_linux_client_reason \<Rightarrow> string" where
  "client_reason_text reason =
     (case reason of
        MC_LINUX_CLIENT_PEER_CLOSE \<Rightarrow> ''peer close''
      | MC_LINUX_CLIENT_RECV_ERROR \<Rightarrow> ''recv error''
      | MC_LINUX_CLIENT_SEND_ERROR \<Rightarrow> ''send error''
      | MC_LINUX_CLIENT_PROTOCOL_RECEIVE_FAILURE \<Rightarrow> ''protocol receive failure''
      | MC_LINUX_CLIENT_BACKPRESSURE_OR_TICK_FAILURE \<Rightarrow> ''backpressure/tick failure''
      | MC_LINUX_CLIENT_SHUTDOWN \<Rightarrow> ''shutdown''
      | MC_LINUX_CLIENT_TX_DRAIN_WRITE_FAILURE \<Rightarrow> ''TX drain/write failure''
      | MC_LINUX_CLIENT_WORLD_INIT_FAILURE \<Rightarrow> ''world init failure'')"

definition trace_type_name :: "mc_trace_event_type \<Rightarrow> string" where
  "trace_type_name type =
     (case type of
        MC_TRACE_FRAME_READY \<Rightarrow> ''frame''
      | MC_TRACE_HANDSHAKE \<Rightarrow> ''handshake''
      | MC_TRACE_STATUS_REQUEST \<Rightarrow> ''status_request''
      | MC_TRACE_STATUS_PING \<Rightarrow> ''status_ping''
      | MC_TRACE_LOGIN_START \<Rightarrow> ''login_start''
      | MC_TRACE_PLAY_ENTER \<Rightarrow> ''play_enter''
      | MC_TRACE_BOOTSTRAP_STAGE \<Rightarrow> ''bootstrap_stage''
      | MC_TRACE_BOOTSTRAP_DONE \<Rightarrow> ''bootstrap_done''
      | MC_TRACE_QUEUE_FULL \<Rightarrow> ''queue_full''
      | MC_TRACE_KEEPALIVE_SEND \<Rightarrow> ''keepalive_send''
      | MC_TRACE_KEEPALIVE_ACK \<Rightarrow> ''keepalive_ack''
      | MC_TRACE_PLAY_UNHANDLED \<Rightarrow> ''play_unhandled'')"

section \<open>Command line\<close>

text \<open>
  \<open>strtoul\<close> in base 10 with a 64-bit \<open>unsigned long\<close>: white space, a sign, digits. A number with a minus sign
  is negated in the unsigned type, and only a magnitude beyond the type is a range error. The result is the
  value, the text behind the number and whether \<open>errno\<close> was set; without digits nothing is consumed.
\<close>

definition isspace :: "char \<Rightarrow> bool" where
  "isspace c \<longleftrightarrow> c = CHR '' '' \<or> 9 \<le> (of_char c :: nat) \<and> (of_char c :: nat) \<le> 13"

definition isdigit :: "char \<Rightarrow> bool" where
  "isdigit c \<longleftrightarrow> 48 \<le> (of_char c :: nat) \<and> (of_char c :: nat) \<le> 57"

definition digits_value :: "string \<Rightarrow> nat" where
  "digits_value ds = foldl (\<lambda>v c. 10 * v + (of_char c - 48)) 0 ds"

definition strtoul :: "string \<Rightarrow> u64 \<times> string \<times> bool" where
  "strtoul s =
     (let t = dropWhile isspace s;
          (negative, t) = (case t of c # cs \<Rightarrow> if c = CHR ''-'' then (True, cs) else if c = CHR ''+'' then (False, cs) else (False, t)
                                   | [] \<Rightarrow> (False, t));
          v = digits_value (takeWhile isdigit t);
          rest = dropWhile isdigit t
      in if takeWhile isdigit t = [] then (0, s, False)
         else if v \<ge> 2 ^ 64 then (- 1, rest, True)
         else (if negative then - of_nat v else of_nat v, rest, False))"

record sockaddr_in =
  sin_port :: u16
  sin_addr :: u32

text \<open>The text before and behind the last occurrence of \<open>c\<close>, for \<open>strrchr\<close>.\<close>

fun strrchr :: "string \<Rightarrow> char \<Rightarrow> (string \<times> string) option" where
  "strrchr [] c = None"
| "strrchr (x # xs) c =
     (case strrchr xs c of
        Some (before, after) \<Rightarrow> Some (x # before, after)
      | None \<Rightarrow> if x = c then Some ([], xs) else None)"

text \<open>\<open>inet_pton\<close> is a parameter: the address of a numeric IPv4 text. The port is kept in host order.\<close>

definition parse_listen :: "(string \<Rightarrow> u32 option) \<Rightarrow> string \<Rightarrow> sockaddr_in option" where
  "parse_listen inet_pton text =
     (case strrchr text (CHR '':'') of
        None \<Rightarrow> None
      | Some (host, after) \<Rightarrow>
          if host = [] \<or> after = [] then None
          else if length host \<ge> 16 then None
          else case strtoul after of
            (port, rest, errno) \<Rightarrow>
              if errno \<or> rest = after \<or> rest \<noteq> [] \<or> port = 0 \<or> port > 65535 then None
              else case inet_pton host of
                None \<Rightarrow> None
              | Some addr \<Rightarrow> Some \<lparr>sin_port = ucast port, sin_addr = addr\<rparr>)"

record mc_linux_config =
  lc_addr :: sockaddr_in
  lc_listen_text :: string
  lc_verbose :: bool

datatype parsed_args = Args_failed | Args_help | Args_ok mc_linux_config

fun parse_args_loop :: "(string \<Rightarrow> u32 option) \<Rightarrow> string list \<Rightarrow> mc_linux_config \<Rightarrow> parsed_args" where
  "parse_args_loop inet_pton [] config = Args_ok config"
| "parse_args_loop inet_pton (arg # args) config =
     (if arg = ''--listen'' then
        (case args of
           [] \<Rightarrow> Args_failed
         | listen # args \<Rightarrow>
             (case parse_listen inet_pton listen of
                None \<Rightarrow> Args_failed
              | Some addr \<Rightarrow> parse_args_loop inet_pton args (config\<lparr>lc_listen_text := listen, lc_addr := addr\<rparr>)))
      else if arg = ''--verbose'' then parse_args_loop inet_pton args (config\<lparr>lc_verbose := True\<rparr>)
      else if arg = ''--help'' \<or> arg = ''-h'' then Args_help
      else Args_failed)"

abbreviation MC_LINUX_DEFAULT_LISTEN :: string where "MC_LINUX_DEFAULT_LISTEN \<equiv> ''127.0.0.1:25565''"

definition parse_args :: "(string \<Rightarrow> u32 option) \<Rightarrow> string list \<Rightarrow> parsed_args" where
  "parse_args inet_pton args =
     (case parse_listen inet_pton MC_LINUX_DEFAULT_LISTEN of
        None \<Rightarrow> Args_failed
      | Some addr \<Rightarrow>
          parse_args_loop inet_pton args \<lparr>lc_addr = addr, lc_listen_text = MC_LINUX_DEFAULT_LISTEN, lc_verbose = False\<rparr>)"

lemma strrchr_last: "c \<notin> set after \<Longrightarrow> strrchr (before @ c # after) c = Some (before, after)"
proof (induction before)
  case Nil
  have "strrchr after c = None" using Nil by (induction after) auto
  then show ?case by simp
qed simp

lemma strtoul_numeral:
  assumes "list_all isdigit ds" "ds \<noteq> []" "digits_value ds < 2 ^ 64"
  shows "strtoul ds = (of_nat (digits_value ds), [], False)"
proof -
  obtain d rest where ds: "ds = d # rest" by (cases ds) (use assms(2) in auto)
  have d: "\<not> isspace d" "d \<noteq> CHR ''-''" "d \<noteq> CHR ''+''" using assms(1) ds by (auto simp: isdigit_def isspace_def)
  have all: "takeWhile isdigit ds = ds" "dropWhile isdigit ds = []" using assms(1) by (simp_all add: list_all_iff)
  have "dropWhile isspace ds = ds" using d ds by simp
  with assms(2,3) all d show ?thesis by (simp add: strtoul_def Let_def ds)
qed

lemma parse_listen_numeral:
  assumes "inet_pton host = Some addr" "host \<noteq> []" "length host < 16"
    "list_all isdigit ds" "ds \<noteq> []" "0 < digits_value ds" "digits_value ds \<le> 65535"
  shows "parse_listen inet_pton (host @ '':'' @ ds) = Some \<lparr>sin_port = of_nat (digits_value ds), sin_addr = addr\<rparr>"
proof -
  have "CHR '':'' \<notin> set ds" using assms(4) by (auto simp: list_all_iff isdigit_def)
  note r = strrchr_last [OF this, of host]
  have v: "unat (of_nat (digits_value ds) :: u64) = digits_value ds"
    using assms(7) by (simp add: unat_of_nat take_bit_nat_eq_self)
  then have "(of_nat (digits_value ds) :: u64) \<noteq> 0" "(of_nat (digits_value ds) :: u64) \<le> 65535"
    using assms(6,7) by (auto simp: word_le_nat_alt)
  moreover have "ucast (of_nat (digits_value ds) :: u64) = (of_nat (digits_value ds) :: u16)"
    using v by (metis of_nat_unat)
  ultimately show ?thesis using strtoul_numeral [OF assms(4,5)] assms r by (simp add: parse_listen_def)
qed

lemma parse_listen_default:
  "inet_pton ''127.0.0.1'' = Some addr \<Longrightarrow>
     parse_listen inet_pton MC_LINUX_DEFAULT_LISTEN = Some \<lparr>sin_port = 25565, sin_addr = addr\<rparr>"
  using parse_listen_numeral [of inet_pton "''127.0.0.1''" addr "''25565''"] by (simp add: isdigit_def digits_value_def)

text \<open>A numeric address and a port from 1 to 65535 in decimal digits, leading zeros included, are what
  \<open>--listen\<close> makes of them, after any number of \<open>--verbose\<close>.\<close>

theorem parse_args_listen:
  assumes "inet_pton ''127.0.0.1'' = Some lo" "inet_pton host = Some addr" "host \<noteq> []" "length host < 16"
    "list_all isdigit ds" "ds \<noteq> []" "0 < digits_value ds" "digits_value ds \<le> 65535"
  shows "parse_args inet_pton (replicate n ''--verbose'' @ [''--listen'', host @ '':'' @ ds]) =
      Args_ok \<lparr>lc_addr = \<lparr>sin_port = of_nat (digits_value ds), sin_addr = addr\<rparr>, lc_listen_text = host @ '':'' @ ds,
        lc_verbose = (0 < n)\<rparr>"
proof -
  note l = parse_listen_numeral [of inet_pton host addr ds, OF assms(2-8)]
  have "parse_args_loop inet_pton (replicate n ''--verbose'' @ [''--listen'', host @ '':'' @ ds]) c =
      Args_ok (c\<lparr>lc_addr := \<lparr>sin_port = of_nat (digits_value ds), sin_addr = addr\<rparr>, lc_listen_text := host @ '':'' @ ds,
        lc_verbose := (0 < n \<or> lc_verbose c)\<rparr>)" for c
    using l by (induction n arbitrary: c) simp_all
  with parse_listen_default [of inet_pton lo, OF assms(1)] show ?thesis by (simp add: parse_args_def)
qed

text \<open>A negative number is accepted as a port too, when its value modulo the 64-bit type is a port.\<close>

theorem parse_listen_negative_port:
  "parse_listen (\<lambda>host. Some a) ''127.0.0.1:-18446744073709551615'' = Some \<lparr>sin_port = 1, sin_addr = a\<rparr>"
  by (simp add: parse_listen_def strtoul_def isspace_def isdigit_def digits_value_def)

section \<open>Waiting and the clock\<close>

text \<open>What \<open>wait_for_fd\<close> returns after a \<open>poll\<close>, or \<open>None\<close> to poll again: no wanted event, or a signal.\<close>

definition poll_result :: "poll_outcome \<Rightarrow> int option" where
  "poll_result poll =
     (case poll of
        Poll_ready nval wanted err \<Rightarrow>
          if nval then Some (-1) else if wanted then Some 1 else if err then Some (-1) else None
      | Poll_timeout \<Rightarrow> Some 0
      | Poll_failed e \<Rightarrow> if e \<noteq> EINTR then Some (-1) else None)"

function wait_for_fd :: "int \<Rightarrow> os \<Rightarrow> int outcome \<times> os" where
  "wait_for_fd fd os =
     (case os_polls os of
        [] \<Rightarrow> (Waiting, log_io [Io_poll fd] os)
      | poll # polls \<Rightarrow>
          (case poll_result poll of
             Some v \<Rightarrow> (Returned v, (log_io [Io_poll fd] os)\<lparr>os_polls := polls\<rparr>)
           | None \<Rightarrow>
               (case shutdown_requested ((log_io [Io_poll fd] os)\<lparr>os_polls := polls\<rparr>) of
                  (stop, os) \<Rightarrow> if stop then (Returned (-1), os) else wait_for_fd fd os)))"
  by pat_completeness auto
termination
  by (relation "measure (\<lambda>(fd, os). length (os_polls os))") (auto simp: shutdown_requested_def split: list.splits)

declare wait_for_fd.simps [simp del]

text \<open>The ticks of a reading of the monotonic clock, 0 when it fails.\<close>

definition monotonic_ticks :: "u32 \<Rightarrow> os \<Rightarrow> u32 \<times> os" where
  "monotonic_ticks ticks_per_second os =
     (case os_clock os of
        [] \<Rightarrow> (0, os)
      | None # clock \<Rightarrow> (0, os\<lparr>os_clock := clock\<rparr>)
      | Some (tv_sec, tv_nsec) # clock \<Rightarrow>
          (ucast (tv_sec * ucast ticks_per_second + tv_nsec * ucast ticks_per_second div 1000000000),
           os\<lparr>os_clock := clock\<rparr>))"

section \<open>Sending\<close>

text \<open>The \<open>for (;;)\<close> around \<open>send\<close>: \<open>Inl\<close> the reason to stop, \<open>Inr n\<close> the bytes taken.\<close>

fun send_loop :: "send_outcome list \<Rightarrow> nat \<Rightarrow> (mc_linux_client_reason + nat) outcome \<times> send_outcome list" where
  "send_loop [] out_len = (Waiting, [])"
| "send_loop (Send_takes n # sends) out_len =
     (let written = min n out_len in
      if written > 0 then (Returned (Inr written), sends)
      else (Returned (Inl MC_LINUX_CLIENT_TX_DRAIN_WRITE_FAILURE), sends))"
| "send_loop (Send_failed e # sends) out_len =
     (if e = EINTR then send_loop sends out_len
      else if e = EAGAIN \<or> e = EWOULDBLOCK then (Returned (Inr 0), sends)
      else (Returned (Inl MC_LINUX_CLIENT_SEND_ERROR), sends))"

lemma shutdown_polls [simp]: "os_polls (snd (shutdown_requested os)) = os_polls os"
  by (simp add: shutdown_requested_def split: list.split)

lemma wait_for_fd_polls: "wait_for_fd fd os = (r, os') \<Longrightarrow> length (os_polls os') \<le> length (os_polls os) \<and>
   (\<forall>v. r = Returned v \<longrightarrow> length (os_polls os') < length (os_polls os))"
proof (induction fd os arbitrary: r os' rule: wait_for_fd.induct)
  case (1 fd os)
  show ?case
  proof (cases "os_polls os")
    case (Cons p ps)
    obtain stop os1 where s: "shutdown_requested ((log_io [Io_poll fd] os)\<lparr>os_polls := ps\<rparr>) = (stop, os1)" by fastforce
    then have "os_polls os1 = ps" using shutdown_polls [of "(log_io [Io_poll fd] os)\<lparr>os_polls := ps\<rparr>"] by simp
    with 1(1) [OF Cons _ s [symmetric]] 1(2) Cons s show ?thesis
      by (subst (asm) (2) wait_for_fd.simps) (auto split: option.splits if_splits)
  qed (use 1(2) in \<open>auto simp: wait_for_fd.simps\<close>)
qed

text \<open>
  The client loop's variables. \<open>cl_sent\<close> is what the socket has taken so far, \<open>cl_fresh\<close> the part of it
  since the server last dropped its queued output.
\<close>

record client =
  cl_fd :: int
  cl_os :: os
  cl_server :: mc_server
  cl_tx :: mc_ringbuf
  cl_sent :: "byte list"
  cl_fresh :: "byte list"

text \<open>A chunk that the socket took.\<close>

definition client_took :: "nat \<Rightarrow> byte list \<Rightarrow> client \<Rightarrow> client" where
  "client_took n out st =
     (if n = 0 then st
      else st\<lparr>cl_tx := mc_ringbuf_drop (cl_tx st) n, cl_sent := cl_sent st @ take n out,
              cl_fresh := cl_fresh st @ take n out\<rparr>)"

text \<open>The part of the loop behind the wait: \<open>Inl r\<close> to return \<open>r\<close>, \<open>Inr ()\<close> to go round again.\<close>

definition drain_send :: "client \<Rightarrow> (mc_linux_client_reason option + unit) outcome \<times> client" where
  "drain_send st =
     (let tx_len = mc_ringbuf_len (cl_tx st);
          out_len = (if tx_len < MC_LINUX_IO_BUF then tx_len else MC_LINUX_IO_BUF)
      in if out_len = 0 then (Returned (Inl None), st)
         else case peek_ringbuf_from (cl_tx st) 0 out_len of
           None \<Rightarrow> (Returned (Inl (Some MC_LINUX_CLIENT_TX_DRAIN_WRITE_FAILURE)), st)
         | Some out \<Rightarrow>
             (case send_loop (os_sends (cl_os st)) out_len of
                (r, sends) \<Rightarrow>
                  let io = replicate (calls_made (os_sends (cl_os st)) r sends) (Io_send (cl_fd st));
                      st = st\<lparr>cl_os := log_io io ((cl_os st)\<lparr>os_sends := sends\<rparr>)\<rparr> in
                  (case r of
                     Waiting \<Rightarrow> (Waiting, st)
                   | Returned (Inl reason) \<Rightarrow> (Returned (Inl (Some reason)), st)
                   | Returned (Inr n) \<Rightarrow> (Returned (Inr ()), client_took n out st))))"

lemma drain_send_polls: "drain_send st = (r, st') \<Longrightarrow> os_polls (cl_os st') = os_polls (cl_os st)"
  by (auto simp: drain_send_def Let_def client_took_def split: if_splits option.splits prod.splits outcome.splits sum.splits)

lemma drain_round_polls:
  assumes "shutdown_requested (cl_os st) = (stop, os)" "wait_for_fd fd os = (Returned v, os1)"
    "drain_send (st\<lparr>cl_os := os1\<rparr>) = (r, st1)"
  shows "length (os_polls (cl_os st1)) < length (os_polls (cl_os st))"
  using drain_send_polls [OF assms(3)] wait_for_fd_polls [OF assms(2)] shutdown_polls [of "cl_os st"] assms(1) by simp

text \<open>The result is the reason of a failure, or \<open>None\<close> for success.\<close>

function drain_tx :: "client \<Rightarrow> mc_linux_client_reason option outcome \<times> client" where
  "drain_tx st =
     (if mc_ringbuf_len (cl_tx st) = 0 then (Returned None, st)
      else case shutdown_requested (cl_os st) of
        (stop, os) \<Rightarrow>
          if stop then (Returned None, st\<lparr>cl_os := os\<rparr>)
          else (case wait_for_fd (cl_fd st) os of
            (Waiting, os) \<Rightarrow> (Waiting, st\<lparr>cl_os := os\<rparr>)
          | (Returned ready, os) \<Rightarrow>
              if ready < 0 then
                (case shutdown_requested os of
                   (stop, os) \<Rightarrow>
                     (Returned (Some (if stop then MC_LINUX_CLIENT_SHUTDOWN else MC_LINUX_CLIENT_TX_DRAIN_WRITE_FAILURE)),
                      st\<lparr>cl_os := os\<rparr>))
              else if ready = 0 then (Returned None, st\<lparr>cl_os := os\<rparr>)
              else (case drain_send (st\<lparr>cl_os := os\<rparr>) of
                (Waiting, st) \<Rightarrow> (Waiting, st)
              | (Returned (Inl r), st) \<Rightarrow> (Returned r, st)
              | (Returned (Inr u), st) \<Rightarrow> drain_tx st)))"
  by pat_completeness auto
termination
  by (relation "measure (\<lambda>st. length (os_polls (cl_os st)))")
    (auto intro: drain_round_polls [OF sym sym sym])

declare drain_tx.simps [simp del]

section \<open>The client loop\<close>

text \<open>The inner \<open>for (;;)\<close> around \<open>recv\<close>.\<close>

fun recv_loop :: "recv_outcome list \<Rightarrow> recv_outcome outcome \<times> recv_outcome list" where
  "recv_loop [] = (Waiting, [])"
| "recv_loop (Recv_bytes bs # recvs) = (Returned (Recv_bytes (take MC_LINUX_IO_BUF bs)), recvs)"
| "recv_loop (Recv_failed e # recvs) = (if e = EINTR then recv_loop recvs else (Returned (Recv_failed e), recvs))"

text \<open>Handling what \<open>recv\<close> returned; the result is the reason to leave the loop, or \<open>None\<close>.\<close>

definition client_input :: "mc_config \<Rightarrow> recv_outcome \<Rightarrow> client \<Rightarrow> mc_linux_client_reason option outcome \<times> client" where
  "client_input cfg received st =
     (case received of
        Recv_failed e \<Rightarrow>
          if e = EAGAIN \<or> e = EWOULDBLOCK then (Returned None, st)
          else (Returned (Some MC_LINUX_CLIENT_RECV_ERROR), st)
      | Recv_bytes bytes \<Rightarrow>
          if bytes = [] then (Returned (Some MC_LINUX_CLIENT_PEER_CLOSE), st)
          else case mc_server_receive cfg bytes (cl_server st) (cl_tx st) of
            (ok, server, tx) \<Rightarrow>
              if \<not> ok then
                (Returned (Some MC_LINUX_CLIENT_PROTOCOL_RECEIVE_FAILURE), st\<lparr>cl_server := server, cl_tx := tx\<rparr>)
              else case mc_server_take_tx_reset server of
                (reset, server) \<Rightarrow>
                  drain_tx (st\<lparr>cl_server := server, cl_tx := tx, cl_fresh := (if reset then [] else cl_fresh st)\<rparr>))"

text \<open>The rest of a round, behind a successful tick.\<close>

definition client_receive :: "mc_config \<Rightarrow> client \<Rightarrow> mc_linux_client_reason option outcome \<times> client" where
  "client_receive cfg st =
     (case drain_tx st of
        (Returned None, st) \<Rightarrow>
          (case wait_for_fd (cl_fd st) (cl_os st) of
             (Waiting, os) \<Rightarrow> (Waiting, st\<lparr>cl_os := os\<rparr>)
           | (Returned ready, os) \<Rightarrow>
               if ready < 0 then
                 (case shutdown_requested os of
                    (stop, os) \<Rightarrow>
                      (Returned (Some (if stop then MC_LINUX_CLIENT_SHUTDOWN else MC_LINUX_CLIENT_RECV_ERROR)),
                       st\<lparr>cl_os := os\<rparr>))
               else if ready > 0 then
                 (case recv_loop (os_recvs os) of
                    (r, recvs) \<Rightarrow>
                      let io = replicate (calls_made (os_recvs os) r recvs) (Io_recv (cl_fd st));
                          st = st\<lparr>cl_os := log_io io (os\<lparr>os_recvs := recvs\<rparr>)\<rparr> in
                      (case r of Waiting \<Rightarrow> (Waiting, st) | Returned received \<Rightarrow> client_input cfg received st))
               else (Returned None, st\<lparr>cl_os := os\<rparr>))
      | r \<Rightarrow> r)"

definition client_round ::
    "mc_config \<Rightarrow> world_compressed \<Rightarrow> u32 \<Rightarrow> client \<Rightarrow> mc_linux_client_reason option outcome \<times> client" where
  "client_round cfg world ticks_per_second st =
     (case shutdown_requested (cl_os st) of
        (stop, os) \<Rightarrow>
          let st = st\<lparr>cl_os := os\<rparr> in
          if stop then (Returned (Some MC_LINUX_CLIENT_SHUTDOWN), st)
          else case drain_tx st of
            (Returned None, st) \<Rightarrow>
              (case monotonic_ticks ticks_per_second (cl_os st) of
                 (now, os) \<Rightarrow>
                   (case mc_server_tick_at cfg world now (cl_server st) (cl_tx st) of
                      (ok, server, tx) \<Rightarrow>
                        let st = st\<lparr>cl_os := os, cl_server := server, cl_tx := tx\<rparr>
                        in if \<not> ok then drain_tx st else client_receive cfg st))
          | r \<Rightarrow> r)"

text \<open>Up to \<open>n\<close> rounds of the \<open>while\<close> loop: stopped with a reason, still in the loop, or waiting in a call.\<close>

fun client_rounds ::
    "mc_config \<Rightarrow> world_compressed \<Rightarrow> u32 \<Rightarrow> nat \<Rightarrow> client \<Rightarrow> mc_linux_client_reason option outcome \<times> client" where
  "client_rounds cfg world ticks_per_second 0 st = (Returned None, st)"
| "client_rounds cfg world ticks_per_second (Suc n) st =
     (case client_round cfg world ticks_per_second st of
        (Returned None, st) \<Rightarrow> client_rounds cfg world ticks_per_second n st
      | r \<Rightarrow> r)"

text \<open>The function before its loop; \<open>arena\<close> is what \<open>malloc\<close> returned.\<close>

definition run_client_start ::
    "mc_config \<Rightarrow> mc_world_compressed_asset list \<Rightarrow> nat \<Rightarrow> byte list option \<Rightarrow> world_compressed \<Rightarrow> byte list \<Rightarrow>
     int \<Rightarrow> bool \<Rightarrow> os \<Rightarrow> (mc_linux_client_reason + client) \<times> world_compressed" where
  "run_client_start cfg assets total_bytes arena world tx_storage client_fd verbose os =
     (case arena of
        None \<Rightarrow> (Inl MC_LINUX_CLIENT_WORLD_INIT_FAILURE, world)
      | Some arena \<Rightarrow>
          (case mc_world_compressed_init cfg assets total_bytes total_bytes (world\<lparr>wc_arena := arena\<rparr>) of
             (ok, world) \<Rightarrow>
               if \<not> ok then (Inl MC_LINUX_CLIENT_WORLD_INIT_FAILURE, world)
               else let server = mc_server_init cfg;
                        server = (if verbose then mc_server_set_trace True server else server)
                    in (Inr \<lparr>cl_fd = client_fd, cl_os = os, cl_server = server, cl_tx = mc_ringbuf_init tx_storage 49152,
                             cl_sent = [], cl_fresh = []\<rparr>, world)))"

section \<open>The client loop as a driver of the server\<close>

text \<open>The bytes that a call of \<open>recv\<close> delivers into the buffer.\<close>

fun recv_data :: "recv_outcome \<Rightarrow> byte list" where
  "recv_data (Recv_bytes bs) = take MC_LINUX_IO_BUF bs"
| "recv_data (Recv_failed e) = []"

text \<open>
  From the start \<open>c\<close> with the script \<open>recvs\<close> the loop has driven the server to \<open>(s, q)\<close>: the socket took the
  bytes that the driver's actions take off the queue, and \<open>recv\<close> delivered the bytes that the server received
  and then those of \<open>pending\<close>.
\<close>

definition client_upto ::
    "mc_config \<Rightarrow> world_compressed \<Rightarrow> mc_server \<times> mc_ringbuf \<times> byte list \<Rightarrow> recv_outcome list \<Rightarrow>
     mc_server \<Rightarrow> mc_ringbuf \<Rightarrow> byte list \<Rightarrow> client \<Rightarrow> bool" where
  "client_upto cfg world c recvs s q pending st \<longleftrightarrow>
     (\<exists>es used. server_drives cfg world es c = Some (s, q, cl_fresh st) \<and> cl_sent st = server_outputs cfg world es c \<and>
        recvs = used @ os_recvs (cl_os st) \<and> driver_input es @ pending = concat (map recv_data used))"

definition client_ok ::
    "mc_config \<Rightarrow> world_compressed \<Rightarrow> mc_server \<times> mc_ringbuf \<times> byte list \<Rightarrow> recv_outcome list \<Rightarrow> client \<Rightarrow> bool" where
  "client_ok cfg world c recvs st \<longleftrightarrow> client_upto cfg world c recvs (cl_server st) (cl_tx st) [] st"

text \<open>A protocol error ends the client: the server refuses the last bytes received.\<close>

definition client_refused ::
    "mc_config \<Rightarrow> world_compressed \<Rightarrow> mc_server \<times> mc_ringbuf \<times> byte list \<Rightarrow> recv_outcome list \<Rightarrow> client \<Rightarrow> bool" where
  "client_refused cfg world c recvs st \<longleftrightarrow>
     (\<exists>s q bytes. client_upto cfg world c recvs s q bytes st \<and> \<not> fst (mc_server_receive cfg bytes s q))"

lemma client_upto_os:
  "os_recvs os = os_recvs (cl_os st) \<Longrightarrow>
     client_upto cfg world c recvs s q bs (st\<lparr>cl_os := os\<rparr>) = client_upto cfg world c recvs s q bs st"
  by (simp add: client_upto_def)

lemma client_ok_os [simp]:
  "os_recvs os = os_recvs (cl_os st) \<Longrightarrow> client_ok cfg world c recvs (st\<lparr>cl_os := os\<rparr>) = client_ok cfg world c recvs st"
  by (simp add: client_ok_def client_upto_os)

lemma shutdown_recvs: "shutdown_requested os = (stop, os') \<Longrightarrow> os_recvs os' = os_recvs os"
  by (auto simp: shutdown_requested_def split: list.splits)

lemma wait_recvs: "wait_for_fd fd os = (r, os') \<Longrightarrow> os_recvs os' = os_recvs os"
proof (induction fd os arbitrary: r os' rule: wait_for_fd.induct)
  case (1 fd os)
  show ?case
  proof (cases "os_polls os")
    case (Cons p ps)
    obtain stop os1 where s: "shutdown_requested ((log_io [Io_poll fd] os)\<lparr>os_polls := ps\<rparr>) = (stop, os1)" by fastforce
    from shutdown_recvs [OF this] have "os_recvs os1 = os_recvs os" by simp
    with 1(1) [OF Cons _ s [symmetric]] 1(2) Cons s show ?thesis
      by (subst (asm) (2) wait_for_fd.simps) (auto split: option.splits if_splits)
  qed (use 1(2) in \<open>auto simp: wait_for_fd.simps\<close>)
qed

lemma clock_recvs: "monotonic_ticks tps os = (now, os') \<Longrightarrow> os_recvs os' = os_recvs os"
  by (auto simp: monotonic_ticks_def split: list.splits option.splits)

lemma recv_loop_result:
  "recv_loop recvs = (Returned r, rest) \<Longrightarrow>
     \<exists>used. recvs = used @ rest \<and> concat (map recv_data used) = (case r of Recv_bytes bs \<Rightarrow> bs | _ \<Rightarrow> [])"
proof (induction recvs rule: recv_loop.induct)
  case (2 bs recvs)
  then show ?case by (auto intro: exI [of _ "[Recv_bytes bs]"])
next
  case (3 e recvs)
  show ?case
  proof (cases "e = EINTR")
    case True
    with 3 obtain used where "recvs = used @ rest" "concat (map recv_data used) = (case r of Recv_bytes bs \<Rightarrow> bs | _ \<Rightarrow> [])"
      by auto
    then show ?thesis by (intro exI [of _ "Recv_failed e # used"]) simp
  qed (use 3(2) in \<open>auto intro: exI [of _ "[Recv_failed e]"]\<close>)
qed simp

lemma recv_loop_waiting: "recv_loop recvs = (Waiting, rest) \<Longrightarrow> rest = [] \<and> concat (map recv_data recvs) = []"
  by (induction recvs rule: recv_loop.induct) (auto split: if_splits)

text \<open>An action of the loop is an action of the driver.\<close>

lemma client_upto_step:
  assumes "client_upto cfg world c recvs s q (driver_input [e] @ bs) st"
    and "srv.drive cfg world e (s, q, cl_fresh st) = Some (s', q', fresh)"
    and "cl_sent st' = cl_sent st @ (case e of Take n \<Rightarrow> take n (rb_contents q) | _ \<Rightarrow> [])" "cl_fresh st' = fresh"
    and "os_recvs (cl_os st') = os_recvs (cl_os st)"
  shows "client_upto cfg world c recvs s' q' bs st'"
proof -
  obtain es used where d: "server_drives cfg world es c = Some (s, q, cl_fresh st)"
    and es: "cl_sent st = server_outputs cfg world es c" "recvs = used @ os_recvs (cl_os st)"
      "driver_input es @ driver_input [e] @ bs = concat (map recv_data used)"
    using assms(1) by (auto simp: client_upto_def)
  have "server_drives cfg world (es @ [e]) c = Some (s', q', cl_fresh st')"
    using server_drives_snoc [OF d, of e] assms(2,4) by simp
  moreover have "cl_sent st' = server_outputs cfg world (es @ [e]) c"
    using server_outputs_snoc [OF d, of e] es(1) assms(3) by (cases e) simp_all
  ultimately show ?thesis unfolding client_upto_def using es(2,3) assms(5) by auto
qed

lemma client_took_ok:
  assumes "client_ok cfg world c recvs st" "out = take k (rb_contents (cl_tx st))" "n \<le> k"
    "k \<le> length (rb_contents (cl_tx st))"
  shows "client_ok cfg world c recvs (client_took n out st)"
proof (cases "n = 0")
  case False
  have out: "take n out = take n (rb_contents (cl_tx st))" using assms(2,3) by (simp add: min_def)
  have "client_upto cfg world c recvs (cl_server st) (mc_ringbuf_drop (cl_tx st) n) [] (client_took n out st)"
    by (rule client_upto_step [of _ _ _ _ "cl_server st" "cl_tx st" "Take n" _ st])
      (use assms False out in \<open>simp_all add: client_ok_def client_took_def\<close>)
  with False show ?thesis by (simp add: client_ok_def client_took_def)
qed (use assms(1) in \<open>simp add: client_took_def\<close>)

lemma send_loop_le: "send_loop sends k = (Returned (Inr n), sends') \<Longrightarrow> n \<le> k"
  by (induction sends k rule: send_loop.induct) (auto simp: Let_def split: if_splits)

lemma drain_send_recvs: "drain_send st = (r, st') \<Longrightarrow> os_recvs (cl_os st') = os_recvs (cl_os st)"
  by (auto simp: drain_send_def client_took_def Let_def
      split: if_splits option.splits prod.splits outcome.splits sum.splits)

lemma drain_send_ok:
  assumes ok: "client_ok cfg world c recvs st" and d: "drain_send st = (r, st')"
  shows "client_ok cfg world c recvs st'"
proof -
  let ?k = "if mc_ringbuf_len (cl_tx st) < MC_LINUX_IO_BUF then mc_ringbuf_len (cl_tx st) else MC_LINUX_IO_BUF"
  have k: "?k \<le> length (rb_contents (cl_tx st))" by (simp add: mc_ringbuf_len_def)
  then have p: "peek_ringbuf_from (cl_tx st) 0 ?k = Some (take ?k (rb_contents (cl_tx st)))"
    using peek_ringbuf_eq [of ?k "cl_tx st"] by (simp only: peek_ringbuf_def)
  obtain r1 sends where s: "send_loop (os_sends (cl_os st)) ?k = (r1, sends)" by fastforce
  let ?st = "st\<lparr>cl_os := log_io (replicate (calls_made (os_sends (cl_os st)) r1 sends) (Io_send (cl_fd st))) ((cl_os st)\<lparr>os_sends := sends\<rparr>)\<rparr>"
  have took: "client_ok cfg world c recvs (client_took n (take ?k (rb_contents (cl_tx st))) ?st)" if "r1 = Returned (Inr n)" for n
    using client_took_ok [of cfg world c recvs ?st _ ?k n] ok k send_loop_le [OF s [unfolded that]] by simp
  have keep: "client_ok cfg world c recvs ?st" using ok by simp
  have "client_ok cfg world c recvs (snd (drain_send st))"
    unfolding drain_send_def Let_def p s using ok keep took
    by (simp only: option.case prod.case) (auto split: outcome.split sum.split if_splits)
  with d show ?thesis by simp
qed

lemma drain_tx_ok:
  "client_ok cfg world c recvs st \<Longrightarrow> drain_tx st = (r, st') \<Longrightarrow> client_ok cfg world c recvs st'"
proof (induction st arbitrary: r st' rule: drain_tx.induct)
  case (1 st)
  obtain stop os where s: "shutdown_requested (cl_os st) = (stop, os)" by fastforce
  obtain w os1 where w: "wait_for_fd (cl_fd st) os = (w, os1)" by fastforce
  obtain d st1 where d: "drain_send (st\<lparr>cl_os := os1\<rparr>) = (d, st1)" by fastforce
  obtain stop2 os2 where s2: "shutdown_requested os1 = (stop2, os2)" by fastforce
  note recvs = shutdown_recvs [OF s] wait_recvs [OF w] shutdown_recvs [OF s2]
  have ok1: "client_ok cfg world c recvs st1" using drain_send_ok [OF _ d] 1(2) recvs by simp
  have IH: "drain_tx st1 = (r, st') \<Longrightarrow> client_ok cfg world c recvs st'"
    if "mc_ringbuf_len (cl_tx st) \<noteq> 0" "\<not> stop" "w = Returned v" "\<not> v < 0" "v \<noteq> 0" "d = Returned (Inr u)" for v u
    using 1(1) [OF that(1) s [symmetric] that(2) w [unfolded that(3), symmetric] HOL.refl that(4,5)
        d [unfolded that(6), symmetric] HOL.refl HOL.refl ok1] .
  from 1(3) show ?case
    by (subst (asm) drain_tx.simps)
      (use s w d s2 recvs ok1 1(2) IH in \<open>auto split: if_splits prod.splits outcome.splits sum.splits\<close>)
qed

lemma drain_tx_recvs: "drain_tx st = (r, st') \<Longrightarrow> os_recvs (cl_os st') = os_recvs (cl_os st)"
proof (induction st arbitrary: r st' rule: drain_tx.induct)
  case (1 st)
  obtain stop os where s: "shutdown_requested (cl_os st) = (stop, os)" by fastforce
  obtain w os1 where w: "wait_for_fd (cl_fd st) os = (w, os1)" by fastforce
  obtain d st1 where d: "drain_send (st\<lparr>cl_os := os1\<rparr>) = (d, st1)" by fastforce
  obtain stop2 os2 where s2: "shutdown_requested os1 = (stop2, os2)" by fastforce
  note recvs = shutdown_recvs [OF s] wait_recvs [OF w] shutdown_recvs [OF s2] drain_send_recvs [OF d]
  have IH: "drain_tx st1 = (r, st') \<Longrightarrow> os_recvs (cl_os st') = os_recvs (cl_os st1)"
    if "mc_ringbuf_len (cl_tx st) \<noteq> 0" "\<not> stop" "w = Returned v" "\<not> v < 0" "v \<noteq> 0" "d = Returned (Inr u)" for v u
    using 1(1) [OF that(1) s [symmetric] that(2) w [unfolded that(3), symmetric] HOL.refl that(4,5)
        d [unfolded that(6), symmetric] HOL.refl HOL.refl] .
  from 1(2) show ?case
    by (subst (asm) drain_tx.simps)
      (use s w d s2 recvs IH in \<open>auto split: if_splits prod.splits outcome.splits sum.splits\<close>)
qed

lemma client_input_recvs: "os_recvs (cl_os (snd (client_input cfg input st))) = os_recvs (cl_os st)"
  by (simp add: client_input_def drain_tx_recvs [OF prod.collapse [symmetric]] split: recv_outcome.split prod.split)

text \<open>What a part of the loop keeps.\<close>

definition client_kept ::
    "mc_config \<Rightarrow> world_compressed \<Rightarrow> mc_server \<times> mc_ringbuf \<times> byte list \<Rightarrow> recv_outcome list \<Rightarrow>
     mc_linux_client_reason option outcome \<times> client \<Rightarrow> bool" where
  "client_kept cfg world c recvs result \<longleftrightarrow>
     (case result of (r, st) \<Rightarrow>
        client_ok cfg world c recvs st \<or>
        r = Returned (Some MC_LINUX_CLIENT_PROTOCOL_RECEIVE_FAILURE) \<and> client_refused cfg world c recvs st)"

lemma client_kept_ok: "client_ok cfg world c recvs st \<Longrightarrow> client_kept cfg world c recvs (r, st)"
  by (simp add: client_kept_def)

lemma drain_tx_kept: "client_ok cfg world c recvs st \<Longrightarrow> client_kept cfg world c recvs (drain_tx st)"
  by (cases "drain_tx st") (auto intro: client_kept_ok drain_tx_ok)

lemma client_input_kept:
  assumes "client_upto cfg world c recvs (cl_server st) (cl_tx st) (case input of Recv_bytes bs \<Rightarrow> bs | _ \<Rightarrow> []) st"
  shows "client_kept cfg world c recvs (client_input cfg input st)"
proof -
  have got: "client_kept cfg world c recvs (client_input cfg (Recv_bytes bytes) st)"
    if "bytes \<noteq> []" "client_upto cfg world c recvs (cl_server st) (cl_tx st) bytes st" for bytes
  proof -
    obtain ok server tx where r: "mc_server_receive cfg bytes (cl_server st) (cl_tx st) = (ok, server, tx)" by (metis prod_cases3)
    obtain reset server' where t: "mc_server_take_tx_reset server = (reset, server')" by fastforce
    show ?thesis
    proof (cases ok)
      case True
      have d: "srv.drive cfg world (Receive bytes) (cl_server st, cl_tx st, cl_fresh st) =
          Some (server', tx, if reset then [] else cl_fresh st)" by (simp add: r t True)
      have "client_ok cfg world c recvs (st\<lparr>cl_server := server', cl_tx := tx,
          cl_fresh := if reset then [] else cl_fresh st\<rparr>)"
        using client_upto_step [OF _ d, of c recvs "[]"] that(2) by (simp add: client_ok_def)
      with drain_tx_kept that(1) r t True show ?thesis by (simp add: client_input_def)
    next
      case False
      have "client_refused cfg world c recvs (st\<lparr>cl_server := server, cl_tx := tx\<rparr>)"
        using that(2) r False unfolding client_refused_def client_upto_def
        by (intro exI [of _ "cl_server st"] exI [of _ "cl_tx st"] exI [of _ bytes]) simp
      with that(1) r False show ?thesis by (simp add: client_input_def client_kept_def)
    qed
  qed
  show ?thesis
  proof (cases input)
    case (Recv_bytes bytes)
    with got [of bytes] assms show ?thesis
      by (cases "bytes = []") (simp_all add: client_input_def client_kept_ok client_ok_def)
  qed (use assms in \<open>simp add: client_input_def client_kept_ok client_ok_def\<close>)
qed

lemma client_receive_kept:
  assumes "client_ok cfg world c recvs st"
  shows "client_kept cfg world c recvs (client_receive cfg st)"
proof -
  obtain r st1 where d: "drain_tx st = (r, st1)" by fastforce
  obtain w os where w: "wait_for_fd (cl_fd st1) (cl_os st1) = (w, os)" by fastforce
  obtain stop os1 where s: "shutdown_requested os = (stop, os1)" by fastforce
  obtain rr rest where rl: "recv_loop (os_recvs os) = (rr, rest)" by fastforce
  note os = wait_recvs [OF w] shutdown_recvs [OF s]
  have ok1: "client_ok cfg world c recvs st1" using drain_tx_ok [OF assms d] .
  let ?st = "st1\<lparr>cl_os := log_io (replicate (calls_made (os_recvs os) rr rest) (Io_recv (cl_fd st1))) (os\<lparr>os_recvs := rest\<rparr>)\<rparr>"
  have advance: "client_upto cfg world c recvs (cl_server st1) (cl_tx st1) bs ?st"
    if "os_recvs (cl_os st1) = used @ rest" "concat (map recv_data used) = bs" for used bs
    using ok1 that unfolding client_ok_def client_upto_def by simp (metis append.assoc concat_append map_append)
  have waiting: "client_ok cfg world c recvs ?st" if "rr = Waiting"
    using advance [of "os_recvs (cl_os st1)" "[]"] recv_loop_waiting [of "os_recvs os" rest] rl that os
    by (simp add: client_ok_def)
  have input: "client_kept cfg world c recvs (client_input cfg input ?st)" if "rr = Returned input" for input
    using advance recv_loop_result [of "os_recvs os" input rest] rl that os
    by (intro client_input_kept) auto
  show ?thesis unfolding client_receive_def d Let_def
    using ok1 w s rl os waiting input by (auto split: outcome.split option.split intro: client_kept_ok)
qed

lemma client_round_kept:
  assumes "client_ok cfg world c recvs st"
  shows "client_kept cfg world c recvs (client_round cfg world ticks_per_second st)"
proof -
  obtain stop os where s: "shutdown_requested (cl_os st) = (stop, os)" by fastforce
  obtain r st1 where d: "drain_tx (st\<lparr>cl_os := os\<rparr>) = (r, st1)" by fastforce
  obtain now os1 where m: "monotonic_ticks ticks_per_second (cl_os st1) = (now, os1)" by fastforce
  obtain ok server tx where t: "mc_server_tick_at cfg world now (cl_server st1) (cl_tx st1) = (ok, server, tx)"
    by (metis prod_cases3)
  have ok0: "client_ok cfg world c recvs (st\<lparr>cl_os := os\<rparr>)" using assms shutdown_recvs [OF s] by simp
  have ok1: "client_ok cfg world c recvs st1" by (rule drain_tx_ok [OF ok0 d])
  have "srv.drive cfg world (Tick now) (cl_server st1, cl_tx st1, cl_fresh st1) = Some (server, tx, cl_fresh st1)"
    by (simp add: t)
  note step = client_upto_step [OF _ this, of c recvs "[]"]
  have ok2: "client_ok cfg world c recvs (st1\<lparr>cl_os := os1, cl_server := server, cl_tx := tx\<rparr>)"
    using step ok1 clock_recvs [OF m] by (simp add: client_ok_def)
  from client_receive_kept [OF ok2] drain_tx_kept [OF ok2] ok0 ok1 s d m t show ?thesis
    by (auto simp: client_round_def Let_def split: outcome.split option.split intro: client_kept_ok)
qed

lemma client_rounds_kept:
  assumes "client_ok cfg world c recvs st"
  shows "client_kept cfg world c recvs (client_rounds cfg world ticks_per_second n st)"
  using assms
proof (induction n arbitrary: st)
  case (Suc n)
  obtain r st1 where c: "client_round cfg world ticks_per_second st = (r, st1)" by fastforce
  from client_round_kept [OF Suc(2), of ticks_per_second] c have k: "client_kept cfg world c recvs (r, st1)" by simp
  then have "r = Returned None \<Longrightarrow> client_ok cfg world c recvs st1" by (simp add: client_kept_def)
  with Suc(1) k c show ?case by (auto split: outcome.split option.split)
qed (simp add: client_kept_ok)

text \<open>The server and the ring a client starts with.\<close>

definition client_start :: "mc_config \<Rightarrow> byte list \<Rightarrow> bool \<Rightarrow> mc_server \<times> mc_ringbuf \<times> byte list" where
  "client_start cfg tx_storage verbose =
     ((if verbose then mc_server_set_trace True (mc_server_init cfg) else mc_server_init cfg),
      mc_ringbuf_init tx_storage 49152, [])"

lemma run_client_start_result:
  assumes "run_client_start cfg assets total_bytes arena world tx_storage client_fd verbose os = (Inr st, world')"
  shows "client_ok cfg world' (client_start cfg tx_storage verbose) (os_recvs os) st"
    "\<exists>block. arena = Some block \<and>
       mc_world_compressed_init cfg assets total_bytes total_bytes (world\<lparr>wc_arena := block\<rparr>) = (True, world')"
  using assms
  by (auto simp: run_client_start_def client_start_def client_ok_def client_upto_def server_drives_def server_outputs_def
      Let_def split: prod.splits if_splits option.splits intro!: exI [of _ "[]"])

lemma client_start_good:
  assumes "config_ok cfg" "length tx_storage = 49152" "world_loaded cfg world assets"
  shows "driven_ok cfg world assets (client_start cfg tx_storage verbose)"
  using assms init_run_ok [of 49152 tx_storage cfg]
  by (auto simp: driven_ok_def client_start_def run_ok_def mc_server_set_trace_def server_ok_trace)

lemma client_streams:
  assumes "driven_ok cfg world assets (client_start cfg tx_storage verbose)"
    and "server_drives cfg world es (client_start cfg tx_storage verbose) = Some (s, q, fresh)"
  shows "whole_frames (fresh @ rb_contents q)"
    "server_outputs cfg world es (client_start cfg tx_storage verbose) =
       concat (map fst (server_streams cfg world es (client_start cfg tx_storage verbose))) @ fresh"
    "\<forall>(taken, dropped) \<in> set (server_streams cfg world es (client_start cfg tx_storage verbose)). whole_frames (taken @ dropped)"
  using srv.good_whole [OF server_drives_good [OF assms]]
    server_outputs_streams [of cfg world assets _ _ "[]" es s q fresh] assms
  by (auto simp: client_start_def)

text \<open>So the bytes the socket has taken are a sequence of streams: every one but the last ended when the server dropped
  its queue, and was cut off there from whole packets of acceptable size by what was dropped. Unless a protocol error
  ends the client, what is missing of the last stream is exactly what the transmit ring still holds.\<close>

theorem linux_client_whole_packets:
  assumes "config_ok cfg" "list_all asset_ok assets" "total_bytes \<le> length arena"
    "length (wc_runtime_chunks world) = MC_WORLD_COMPRESSED_MAX_CHUNKS" "length tx_storage = 49152"
    "run_client_start cfg assets total_bytes (Some arena) world tx_storage client_fd verbose os = (Inr st, world')"
    "client_rounds cfg world' ticks_per_second n st = (r, st')"
  shows "\<exists>es s q bodies rest. server_drives cfg world' es (client_start cfg tx_storage verbose) = Some (s, q, cl_fresh st') \<and>
    cl_sent st' = concat (map fst (server_streams cfg world' es (client_start cfg tx_storage verbose))) @ cl_fresh st' \<and>
    (\<forall>(taken, dropped) \<in> set (server_streams cfg world' es (client_start cfg tx_storage verbose)). whole_frames (taken @ dropped)) \<and>
    list_all (\<lambda>body. length body \<le> MC_MAX_PACKET_BODY) bodies \<and> cl_fresh st' @ rest = concat (map packet_frame bodies) \<and>
    (r \<noteq> Returned (Some MC_LINUX_CLIENT_PROTOCOL_RECEIVE_FAILURE) \<longrightarrow> rest = rb_contents (cl_tx st'))"
proof -
  let ?c = "client_start cfg tx_storage verbose"
  have i: "mc_world_compressed_init cfg assets total_bytes total_bytes (world\<lparr>wc_arena := arena\<rparr>) = (True, world')"
    using run_client_start_result(2) [OF assms(6)] by simp
  from init_map_loaded(2) [OF this assms(2)] assms(3,4) have "world_loaded cfg world' assets" by (simp add: world_loaded_def)
  note good = client_start_good [OF assms(1,5) this]
  have "client_kept cfg world' ?c (os_recvs os) (r, st')"
    using client_rounds_kept [OF run_client_start_result(1) [OF assms(6)], of ticks_per_second n] assms(7) by simp
  then obtain es server tx where es: "server_drives cfg world' es ?c = Some (server, tx, cl_fresh st')"
    "cl_sent st' = server_outputs cfg world' es ?c"
    "tx = cl_tx st' \<or> r = Returned (Some MC_LINUX_CLIENT_PROTOCOL_RECEIVE_FAILURE)"
    unfolding client_kept_def client_ok_def client_refused_def client_upto_def by auto
  note streams = client_streams [OF good es(1)]
  obtain bodies where "list_all (\<lambda>body. length body \<le> MC_MAX_PACKET_BODY) bodies"
    "cl_fresh st' @ rb_contents tx = concat (map packet_frame bodies)"
    using streams(1) by (auto simp: whole_frames_def)
  with es streams(2,3) show ?thesis by metis
qed

text \<open>A failed tick does not end the client: no run of the loop gives the reason that stands for it, nor the one of a
  map that could not be loaded.\<close>

definition loop_reason :: "mc_linux_client_reason \<Rightarrow> bool" where
  "loop_reason reason \<longleftrightarrow>
     reason \<noteq> MC_LINUX_CLIENT_BACKPRESSURE_OR_TICK_FAILURE \<and> reason \<noteq> MC_LINUX_CLIENT_WORLD_INIT_FAILURE"

definition loop_result :: "mc_linux_client_reason option outcome \<times> client \<Rightarrow> bool" where
  "loop_result result \<longleftrightarrow> (\<forall>reason. fst result = Returned (Some reason) \<longrightarrow> loop_reason reason)"

lemma loop_result_simps [simp]:
  "loop_result (Waiting, st)" "loop_result (Returned None, st)"
  "loop_result (Returned (Some reason), st) \<longleftrightarrow>
     reason \<noteq> MC_LINUX_CLIENT_BACKPRESSURE_OR_TICK_FAILURE \<and> reason \<noteq> MC_LINUX_CLIENT_WORLD_INIT_FAILURE"
  by (simp_all add: loop_result_def loop_reason_def)

lemma loop_result_then:
  "loop_result x \<Longrightarrow> (\<And>st. loop_result (f st)) \<Longrightarrow>
   loop_result (case x of (Returned None, st) \<Rightarrow> f st | r \<Rightarrow> r)"
  by (auto split: prod.split outcome.split option.split)

lemma send_loop_reason:
  "send_loop sends k = (Returned (Inl reason), sends') \<Longrightarrow> loop_reason reason"
  by (induction sends k rule: send_loop.induct) (auto simp: Let_def loop_reason_def split: if_splits)

lemma drain_send_reason:
  "drain_send st = (Returned (Inl reason), st') \<Longrightarrow> loop_result (Returned reason, st'')"
  by (auto simp: drain_send_def Let_def split: if_splits option.splits prod.splits outcome.splits sum.splits
      dest: send_loop_reason [unfolded loop_reason_def])

lemma drain_tx_reason: "loop_result (drain_tx st)"
proof (induction st rule: drain_tx.induct)
  case (1 st)
  obtain stop os where s: "shutdown_requested (cl_os st) = (stop, os)" by fastforce
  obtain w os1 where w: "wait_for_fd (cl_fd st) os = (w, os1)" by fastforce
  obtain d st1 where d: "drain_send (st\<lparr>cl_os := os1\<rparr>) = (d, st1)" by fastforce
  have IH: "loop_result (drain_tx st1)"
    if "mc_ringbuf_len (cl_tx st) \<noteq> 0" "\<not> stop" "w = Returned v" "\<not> v < 0" "v \<noteq> 0" "d = Returned (Inr u)" for v u
    using 1 [OF that(1) s [symmetric] that(2) w [unfolded that(3), symmetric] HOL.refl that(4,5)
        d [unfolded that(6), symmetric] HOL.refl HOL.refl] .
  show ?case
    by (subst drain_tx.simps)
      (use s w d IH drain_send_reason in \<open>auto split: prod.split outcome.split sum.split\<close>)
qed

lemma client_input_reason: "loop_result (client_input cfg received st)"
  by (simp add: client_input_def drain_tx_reason split: recv_outcome.split prod.split)

lemma client_receive_reason: "loop_result (client_receive cfg st)"
  unfolding client_receive_def
  by (rule loop_result_then [OF drain_tx_reason]) (simp add: client_input_reason Let_def split: prod.split outcome.split)

lemma client_round_reason: "loop_result (client_round cfg world ticks_per_second st)"
proof -
  obtain stop os where s: "shutdown_requested (cl_os st) = (stop, os)" by fastforce
  show ?thesis
    unfolding client_round_def s prod.case Let_def
    by (cases stop) (simp_all only: if_True if_False loop_result_simps, simp,
      rule loop_result_then [OF drain_tx_reason], simp add: client_receive_reason drain_tx_reason split: prod.split)
qed

lemma client_rounds_reason: "loop_result (client_rounds cfg world ticks_per_second n st)"
proof (induction n arbitrary: st)
  case (Suc n)
  from loop_result_then [OF client_round_reason Suc] show ?case by simp
qed simp

theorem tick_failure_keeps_client:
  "fst (client_rounds cfg world ticks_per_second n st) \<noteq> Returned (Some MC_LINUX_CLIENT_BACKPRESSURE_OR_TICK_FAILURE)"
  using client_rounds_reason [of cfg world ticks_per_second n st] by (auto simp: loop_result_def loop_reason_def)

text \<open>All calls of a client's loop are on the client's descriptor.\<close>

definition client_on :: "int \<Rightarrow> client \<Rightarrow> bool" where
  "client_on fd st \<longleftrightarrow> cl_fd st = fd \<and> (\<forall>c \<in> set (os_io (cl_os st)). io_fd c = fd)"

lemma client_on_io:
  "client_on fd st \<Longrightarrow> \<forall>c \<in> set (os_io os). c \<in> set (os_io (cl_os st)) \<or> io_fd c = fd \<Longrightarrow> client_on fd (st\<lparr>cl_os := os\<rparr>)"
  by (auto simp: client_on_def)

lemma client_on_fields [simp]:
  "client_on fd (st\<lparr>cl_server := server\<rparr>) = client_on fd st" "client_on fd (st\<lparr>cl_tx := tx\<rparr>) = client_on fd st"
  "client_on fd (st\<lparr>cl_fresh := fresh\<rparr>) = client_on fd st" "client_on fd (client_took n out st) = client_on fd st"
  by (simp_all add: client_on_def client_took_def)

lemma shutdown_io: "shutdown_requested os = (stop, os') \<Longrightarrow> os_io os' = os_io os"
  by (auto simp: shutdown_requested_def split: list.splits)

lemma clock_io: "monotonic_ticks tps os = (now, os') \<Longrightarrow> os_io os' = os_io os"
  by (auto simp: monotonic_ticks_def split: list.splits option.splits)

lemma wait_io: "wait_for_fd fd os = (r, os') \<Longrightarrow> \<exists>k. os_io os' = os_io os @ replicate k (Io_poll fd)"
proof (induction fd os arbitrary: r os' rule: wait_for_fd.induct)
  case (1 fd os)
  let ?os = "log_io [Io_poll fd] os"
  have one: "\<exists>k. os_io os @ [Io_poll fd] = os_io os @ replicate k (Io_poll fd)" by (rule exI [of _ 1]) simp
  show ?case
  proof (cases "os_polls os")
    case (Cons p ps)
    obtain stop os1 where s: "shutdown_requested (?os\<lparr>os_polls := ps\<rparr>) = (stop, os1)" by fastforce
    from shutdown_io [OF this] have io: "os_io os1 = os_io os @ [Io_poll fd]" by simp
    have more: "\<exists>k. os_io os' = os_io os @ replicate k (Io_poll fd)" if "\<exists>k. os_io os' = os_io os1 @ replicate k (Io_poll fd)"
      using that io by (auto intro: exI [of _ "Suc k" for k])
    from 1(1) [OF Cons _ s [symmetric]] 1(2) Cons s one io more show ?thesis
      by (subst (asm) (2) wait_for_fd.simps) (auto split: option.splits if_splits)
  qed (use 1(2) one in \<open>auto simp: wait_for_fd.simps\<close>)
qed

lemma client_on_wait:
  assumes "client_on fd st" "wait_for_fd fd os = (r, os')" "os_io os = os_io (cl_os st)"
  shows "client_on fd (st\<lparr>cl_os := os'\<rparr>)"
  using wait_io [OF assms(2)] assms(1,3) by (auto intro!: client_on_io)

lemma drain_send_on:
  assumes "client_on fd st" shows "client_on fd (snd (drain_send st))"
proof -
  have fd: "cl_fd st = fd" using assms by (simp add: client_on_def)
  have "client_on fd (st\<lparr>cl_os := log_io (replicate k (Io_send fd)) ((cl_os st)\<lparr>os_sends := sends\<rparr>)\<rparr>)" for k sends
    using assms by (auto intro!: client_on_io)
  then show ?thesis
    using assms by (auto simp: drain_send_def fd Let_def split: option.split prod.split outcome.split sum.split)
qed

lemma drain_tx_on: "client_on fd st \<Longrightarrow> client_on fd (snd (drain_tx st))"
proof (induction st rule: drain_tx.induct)
  case (1 st)
  obtain stop os where s: "shutdown_requested (cl_os st) = (stop, os)" by fastforce
  obtain w os1 where w: "wait_for_fd (cl_fd st) os = (w, os1)" by fastforce
  obtain d st1 where d: "drain_send (st\<lparr>cl_os := os1\<rparr>) = (d, st1)" by fastforce
  obtain stop2 os2 where s2: "shutdown_requested os1 = (stop2, os2)" by fastforce
  have fd: "cl_fd st = fd" using 1(2) by (simp add: client_on_def)
  have on: "client_on fd (st\<lparr>cl_os := os\<rparr>)" "client_on fd (st\<lparr>cl_os := os1\<rparr>)" "client_on fd (st\<lparr>cl_os := os2\<rparr>)"
    using 1(2) shutdown_io [OF s] client_on_wait [OF 1(2) w [unfolded fd] shutdown_io [OF s]] shutdown_io [OF s2]
    by (auto simp: client_on_def)
  have on1: "client_on fd st1" using drain_send_on [OF on(2)] d by simp
  have IH: "client_on fd (snd (drain_tx st1))"
    if "mc_ringbuf_len (cl_tx st) \<noteq> 0" "\<not> stop" "w = Returned v" "\<not> v < 0" "v \<noteq> 0" "d = Returned (Inr u)" for v u
    using 1(1) [OF that(1) s [symmetric] that(2) w [unfolded that(3), symmetric] HOL.refl that(4,5)
        d [unfolded that(6), symmetric] HOL.refl HOL.refl on1] .
  show ?case
    by (subst drain_tx.simps)
      (use s w d s2 on on1 IH 1(2) in \<open>auto split: outcome.split sum.split\<close>)
qed

lemma client_input_on: "client_on fd st \<Longrightarrow> client_on fd (snd (client_input cfg received st))"
  by (auto simp: client_input_def intro!: drain_tx_on split: recv_outcome.split prod.split)

lemma client_receive_on: "client_on fd st \<Longrightarrow> client_on fd (snd (client_receive cfg st))"
proof -
  assume on: "client_on fd st"
  obtain r st1 where d: "drain_tx st = (r, st1)" by fastforce
  have on1: "client_on fd st1" using drain_tx_on [OF on] d by simp
  then have fd: "cl_fd st1 = fd" by (simp add: client_on_def)
  obtain w os where w: "wait_for_fd (cl_fd st1) (cl_os st1) = (w, os)" by fastforce
  obtain stop os1 where s: "shutdown_requested os = (stop, os1)" by fastforce
  obtain rr rest where rl: "recv_loop (os_recvs os) = (rr, rest)" by fastforce
  have on2: "client_on fd (st1\<lparr>cl_os := os\<rparr>)" using client_on_wait [OF on1 w [unfolded fd]] by simp
  then have "client_on fd (st1\<lparr>cl_os := os1\<rparr>)" "client_on fd (st1\<lparr>cl_os := log_io (replicate k (Io_recv fd)) (os\<lparr>os_recvs := rest\<rparr>)\<rparr>)" for k
    using shutdown_io [OF s] by (auto simp: client_on_def)
  with on1 on2 w s rl client_input_on fd show ?thesis
    unfolding client_receive_def d Let_def by (auto split: outcome.split option.split)
qed

lemma client_round_on: "client_on fd st \<Longrightarrow> client_on fd (snd (client_round cfg world ticks_per_second st))"
proof -
  assume on: "client_on fd st"
  obtain stop os where s: "shutdown_requested (cl_os st) = (stop, os)" by fastforce
  obtain r st1 where d: "drain_tx (st\<lparr>cl_os := os\<rparr>) = (r, st1)" by fastforce
  obtain now os1 where m: "monotonic_ticks ticks_per_second (cl_os st1) = (now, os1)" by fastforce
  have on0: "client_on fd (st\<lparr>cl_os := os\<rparr>)" using on shutdown_io [OF s] by (simp add: client_on_def)
  have on1: "client_on fd st1" using drain_tx_on [OF on0] d by simp
  have "client_on fd (st1\<lparr>cl_os := os1, cl_server := server, cl_tx := tx\<rparr>)" for server tx
    using on1 clock_io [OF m] by (simp add: client_on_def)
  with on0 on1 s d m drain_tx_on client_receive_on show ?thesis
    by (auto simp: client_round_def Let_def split: outcome.split option.split prod.split)
qed

lemma client_rounds_on: "client_on fd st \<Longrightarrow> client_on fd (snd (client_rounds cfg world ticks_per_second n st))"
proof (induction n arbitrary: st)
  case (Suc n)
  obtain r st1 where c: "client_round cfg world ticks_per_second st = (r, st1)" by fastforce
  have "client_on fd st1" using client_round_on [OF Suc(2), of cfg world ticks_per_second] c by simp
  with Suc(1) c show ?case by (auto split: outcome.split option.split)
qed simp

lemma run_client_start_on:
  "run_client_start cfg assets total_bytes arena world tx_storage client_fd verbose os = (Inr st, world') \<Longrightarrow>
     os_io os = [] \<Longrightarrow> client_on client_fd st"
  by (auto simp: run_client_start_def client_on_def Let_def split: option.splits prod.splits if_splits)

section \<open>Properties\<close>

text \<open>C10: the socket loop is a faithful driver of the server. Whatever \<open>poll\<close>, \<open>send\<close>, \<open>recv\<close>, the clock and the
  signals do, with short writes and interruptions at any point, a run of the loop is a sequence of calls of the
  server's functions, starting from a fresh server: the server is given exactly the bytes that \<open>recv\<close> delivered, in
  order, and the socket takes exactly the bytes that leave the transmit ring, in order. When the loop ends with a
  protocol error, all this holds up to the last bytes received, which the server refuses.\<close>

theorem linux_client_drives_server:
  assumes "run_client_start cfg assets total_bytes arena world tx_storage client_fd verbose os = (Inr st, world')"
    "client_rounds cfg world' ticks_per_second n st = (r, st')"
  shows "\<exists>es used server tx pending. os_recvs os = used @ os_recvs (cl_os st') \<and>
    driver_input es @ pending = concat (map recv_data used) \<and>
    server_drives cfg world' es (client_start cfg tx_storage verbose) = Some (server, tx, cl_fresh st') \<and>
    cl_sent st' = server_outputs cfg world' es (client_start cfg tx_storage verbose) \<and>
    (pending = [] \<and> server = cl_server st' \<and> tx = cl_tx st' \<or>
     r = Returned (Some MC_LINUX_CLIENT_PROTOCOL_RECEIVE_FAILURE) \<and> \<not> fst (mc_server_receive cfg pending server tx))"
proof -
  have "client_kept cfg world' (client_start cfg tx_storage verbose) (os_recvs os) (r, st')"
    using client_rounds_kept [OF run_client_start_result(1) [OF assms(1)], of ticks_per_second n] assms(2) by simp
  then obtain server tx pending where
    "client_upto cfg world' (client_start cfg tx_storage verbose) (os_recvs os) server tx pending st'"
    "pending = [] \<and> server = cl_server st' \<and> tx = cl_tx st' \<or>
     r = Returned (Some MC_LINUX_CLIENT_PROTOCOL_RECEIVE_FAILURE) \<and> \<not> fst (mc_server_receive cfg pending server tx)"
    unfolding client_kept_def client_ok_def client_refused_def by auto
  then show ?thesis unfolding client_upto_def by blast
qed

theorem linux_client_drives_server_witness:
  "let a = \<lparr>as_chunk_x = 0, as_chunk_z = 0, as_raw_body_len = 9, as_compressed_len = 2, as_compressed = Some [120, 156]\<rparr>;
       c = \<lparr>wc_chunk_x = 0, wc_chunk_z = 0, wc_raw_body_len = 0, wc_compressed_len = 0, wc_compressed = 0\<rparr>;
       cfg = \<lparr>cfg_compression = True, cfg_psram_map = True, cfg_threshold = 1, cfg_keepalive_interval = 1\<rparr>;
       world = \<lparr>wc_arena = [], wc_runtime_chunks = replicate 32 c, wc_runtime_chunk_count = 0, wc_runtime_ready = False\<rparr>;
       os = \<lparr>os_polls = [Poll_failed EINTR, Poll_ready False True False], os_sends = [],
         os_recvs = [Recv_failed EINTR, Recv_bytes [5, 0]], os_clock = [None], os_shutdown = [], os_io = []\<rparr>
   in \<exists>world' st st' r es pending.
        run_client_start cfg [a] 2 (Some [0, 0]) world (replicate 49152 0) 5 False os = (Inr st, world') \<and>
        client_rounds cfg world' 1000 1 st = (r, st') \<and> driver_input es @ pending = [5, 0] \<and>
        cl_sent st' = server_outputs cfg world' es (client_start cfg (replicate 49152 0) False)"
proof -
  let ?a = "\<lparr>as_chunk_x = 0, as_chunk_z = 0, as_raw_body_len = 9, as_compressed_len = 2, as_compressed = Some [120, 156]\<rparr>"
  let ?c = "\<lparr>wc_chunk_x = 0, wc_chunk_z = 0, wc_raw_body_len = 0, wc_compressed_len = 0, wc_compressed = 0\<rparr>"
  let ?cfg = "\<lparr>cfg_compression = True, cfg_psram_map = True, cfg_threshold = 1, cfg_keepalive_interval = 1\<rparr>"
  let ?world = "\<lparr>wc_arena = [], wc_runtime_chunks = replicate 32 ?c, wc_runtime_chunk_count = 0, wc_runtime_ready = False\<rparr>"
  let ?os = "\<lparr>os_polls = [Poll_failed EINTR, Poll_ready False True False], os_sends = [],
      os_recvs = [Recv_failed EINTR, Recv_bytes [5, 0]], os_clock = [None], os_shutdown = [], os_io = []\<rparr>"
  let ?st = "\<lparr>cl_fd = 5, cl_os = ?os, cl_server = mc_server_init ?cfg, cl_tx = mc_ringbuf_init (replicate 49152 0) 49152,
      cl_sent = [], cl_fresh = []\<rparr>"
  have "compressed_chunk_frame_valid 9 2"
    by (auto simp: compressed_chunk_frame_valid_def Let_def varint_bytes_def leb128.simps)
  then obtain world' where "mc_world_compressed_init ?cfg [?a] 2 2 (?world\<lparr>wc_arena := [0, 0]\<rparr>) = (True, world')"
    by (simp add: mc_world_compressed_init_def)
  then have s: "run_client_start ?cfg [?a] 2 (Some [0, 0]) ?world (replicate 49152 0) 5 False ?os = (Inr ?st, world')"
    by (simp add: run_client_start_def)
  obtain r st' where c: "client_rounds ?cfg world' 1000 1 ?st = (r, st')" by fastforce
  let ?st1 = "?st\<lparr>cl_os := (?os)\<lparr>os_clock := []\<rparr>, cl_server := (mc_server_init ?cfg)\<lparr>sv_ticks := 1\<rparr>\<rparr>"
  have e: "drain_tx st = (Returned None, st)" if "cl_tx st = cl_tx ?st" for st
    using that by (simp add: drain_tx.simps mc_ringbuf_len_def mc_ringbuf_init_def)
  have "mc_server_tick_at ?cfg world' 0 (cl_server ?st) (cl_tx ?st) =
      (True, (mc_server_init ?cfg)\<lparr>sv_ticks := 1\<rparr>, cl_tx ?st)"
    by (simp add: mc_server_tick_at_def mc_server_init_def reset_play_runtime_state_def tick_keepalive_def)
  then have "client_round ?cfg world' 1000 ?st = client_receive ?cfg ?st1"
    by (simp add: client_round_def e shutdown_requested_def monotonic_ticks_def Let_def)
  also have "\<dots> = client_input ?cfg (Recv_bytes [5, 0]) (?st1\<lparr>cl_os :=
      (?os)\<lparr>os_clock := [], os_polls := [], os_recvs := [], os_io := [Io_poll 5, Io_poll 5, Io_recv 5, Io_recv 5]\<rparr>\<rparr>)"
    by (simp add: client_receive_def e wait_for_fd.simps poll_result_def shutdown_requested_def Let_def log_io_def calls_made_def
        numeral_2_eq_2)
  finally have "os_recvs (cl_os (snd (client_round ?cfg world' 1000 ?st))) = []"
    by (simp add: client_input_recvs)
  with c have u: "os_recvs (cl_os st') = []"
    by (auto split: prod.splits outcome.splits option.splits)
  obtain es used server tx pending where es: "os_recvs ?os = used @ os_recvs (cl_os st')"
    "driver_input es @ pending = concat (map recv_data used)"
    "cl_sent st' = server_outputs ?cfg world' es (client_start ?cfg (replicate 49152 0) False)"
    using linux_client_drives_server [OF s c] by blast
  then have "driver_input es @ pending = [5, 0]" using u by auto
  with s c es(3) show ?thesis unfolding Let_def by blast
qed

end
