(* ===== verification/LinuxMain.thy ===== *)
theory LinuxMain
  imports LinuxServer "HOL-Library.State_Monad"
begin

text \<open>
  The rest of linux/mc_linux_server.c: the signal handlers, the listening socket, the loop that accepts one
  client after the other, and \<open>main\<close>. All calls that obtain, use or release descriptors and memory are logged in
  their order. Their results are given from outside, as are the contents of fresh memory; those of \<open>poll\<close>, \<open>send\<close> and
  \<open>recv\<close> are in the script of \<open>LinuxServer\<close>. The diagnostics of \<open>perror\<close>,
  the usage text and the trace lines on standard error are not modelled.
\<close>

section \<open>System calls\<close>

datatype syscall =
    Sys_sigemptyset
  | Sys_sigaction nat
  | Sys_signal nat
  | Sys_socket
  | Sys_setsockopt int
  | Sys_bind int sockaddr_in
  | Sys_listen int nat
  | Sys_getfl int
  | Sys_setfl int int
  | Sys_accept int
  | Sys_close int
  | Sys_malloc nat
  | Sys_free int
  | Sys_io io_call

text \<open>The \<open>k\<close>-th call returns \<open>sys_result k\<close> and leaves \<open>sys_errno k\<close>.\<close>

record sys =
  sys_result :: "nat \<Rightarrow> int"
  sys_errno :: "nat \<Rightarrow> errno"
  sys_calls :: "(syscall \<times> int) list"

definition sys_call :: "syscall \<Rightarrow> (sys, int) state" where
  "sys_call c = State (\<lambda>sys. let r = sys_result sys (length (sys_calls sys)) in (r, sys\<lparr>sys_calls := sys_calls sys @ [(c, r)]\<rparr>))"

text \<open>\<open>errno\<close> after the last call.\<close>

definition last_errno :: "sys \<Rightarrow> errno" where
  "last_errno sys = sys_errno sys (length (sys_calls sys) - 1)"

abbreviation SIGINT :: nat where "SIGINT \<equiv> 2"
abbreviation SIGPIPE :: nat where "SIGPIPE \<equiv> 13"
abbreviation SIGTERM :: nat where "SIGTERM \<equiv> 15"
abbreviation O_NONBLOCK :: int where "O_NONBLOCK \<equiv> 0x800"
abbreviation MC_LINUX_BACKLOG :: nat where "MC_LINUX_BACKLOG \<equiv> 1"

definition install_signal_handlers :: "(sys, bool) state" where
  "install_signal_handlers =
     do { r \<leftarrow> sys_call Sys_sigemptyset;
          if r \<noteq> 0 then State_Monad.return False
          else do { r \<leftarrow> sys_call (Sys_sigaction SIGINT);
                    if r \<noteq> 0 then State_Monad.return False
                    else do { r \<leftarrow> sys_call (Sys_sigaction SIGTERM);
                              if r \<noteq> 0 then State_Monad.return False
                              else do { r \<leftarrow> sys_call (Sys_signal SIGPIPE);
                                        State_Monad.return (r \<noteq> -1) } } } }"

definition create_listener :: "sockaddr_in \<Rightarrow> (sys, int) state" where
  "create_listener addr =
     do { fd \<leftarrow> sys_call Sys_socket;
          if fd < 0 then State_Monad.return (-1)
          else do { r \<leftarrow> sys_call (Sys_setsockopt fd);
                    if r \<noteq> 0 then do { _ \<leftarrow> sys_call (Sys_close fd); State_Monad.return (-1) }
                    else do { r \<leftarrow> sys_call (Sys_bind fd addr);
                              if r \<noteq> 0 then do { _ \<leftarrow> sys_call (Sys_close fd); State_Monad.return (-1) }
                              else do { r \<leftarrow> sys_call (Sys_listen fd MC_LINUX_BACKLOG);
                                        if r \<noteq> 0 then do { _ \<leftarrow> sys_call (Sys_close fd); State_Monad.return (-1) }
                                        else State_Monad.return fd } } } }"

definition set_nonblocking :: "int \<Rightarrow> (sys, bool) state" where
  "set_nonblocking fd =
     do { flags \<leftarrow> sys_call (Sys_getfl fd);
          if flags < 0 then State_Monad.return False
          else do { r \<leftarrow> sys_call (Sys_setfl fd (or flags O_NONBLOCK)); State_Monad.return (r = 0) } }"

section \<open>Serving clients\<close>

text \<open>The build and what the environment puts into fresh memory: heap blocks and the stack array of a client.\<close>

record linux_build =
  lb_core :: mc_config
  lb_assets :: "mc_world_compressed_asset list"
  lb_total_bytes :: nat
  lb_ticks_per_second :: u32
  lb_heap :: "int \<Rightarrow> byte list"
  lb_stack :: "nat \<Rightarrow> byte list"

text \<open>The process: system calls, the script of \<open>LinuxServer\<close>, the map's static variables, the clients so far with
  the bytes their sockets took, and the messages on standard error.\<close>

record host =
  h_sys :: sys
  h_os :: os
  h_world :: world_compressed
  h_served :: "(mc_linux_client_reason \<times> byte list) list"
  h_messages :: "string list"

definition host_call :: "(sys, 'a) state \<Rightarrow> host \<Rightarrow> 'a \<times> host" where
  "host_call f h = (case run_state f (h_sys h) of (r, sys) \<Rightarrow> (r, h\<lparr>h_sys := sys\<rparr>))"

text \<open>The calls that were made on the script so far go to the log of all calls.\<close>

definition host_io :: "os \<Rightarrow> host \<Rightarrow> host" where
  "host_io os h =
     h\<lparr>h_sys := (h_sys h)\<lparr>sys_calls := sys_calls (h_sys h) @ map (\<lambda>c. (Sys_io c, 0)) (os_io os)\<rparr>,
       h_os := os\<lparr>os_io := []\<rparr>\<rparr>"

definition message :: "string \<Rightarrow> host \<Rightarrow> host" where
  "message m h = h\<lparr>h_messages := h_messages h @ [m]\<rparr>"

text \<open>A client whose loop has not ended within \<open>rounds\<close> rounds is still being served.\<close>

definition run_client :: "linux_build \<Rightarrow> nat \<Rightarrow> int \<Rightarrow> bool \<Rightarrow> host \<Rightarrow> mc_linux_client_reason outcome \<times> host" where
  "run_client lb rounds client_fd verbose h =
     (case host_call (sys_call (Sys_malloc (lb_total_bytes lb))) h of
        (arena, h) \<Rightarrow>
          (case run_client_start (lb_core lb) (lb_assets lb) (lb_total_bytes lb)
                  (if arena = 0 then None else Some (lb_heap lb arena)) (h_world h)
                  (lb_stack lb (length (h_served h))) client_fd verbose (h_os h) of
             (Inl reason, world) \<Rightarrow>
               (case host_call (sys_call (Sys_free arena)) (h\<lparr>h_world := world\<rparr>) of
                  (_, h) \<Rightarrow> (Returned reason, h\<lparr>h_served := h_served h @ [(reason, [])]\<rparr>))
           | (Inr st, world) \<Rightarrow>
               (case client_rounds (lb_core lb) world (lb_ticks_per_second lb) rounds st of
                  (Returned (Some reason), st) \<Rightarrow>
                    (case host_call (sys_call (Sys_free arena)) (host_io (cl_os st) (h\<lparr>h_world := world\<rparr>)) of
                       (_, h) \<Rightarrow> (Returned reason, h\<lparr>h_served := h_served h @ [(reason, cl_sent st)]\<rparr>))
                | (r, st) \<Rightarrow> (Waiting, host_io (cl_os st) (h\<lparr>h_world := world\<rparr>)))))"

text \<open>The part of the accept loop behind the wait: whether the loop goes on.\<close>

definition accept_client :: "linux_build \<Rightarrow> nat \<Rightarrow> int \<Rightarrow> bool \<Rightarrow> host \<Rightarrow> bool outcome \<times> host" where
  "accept_client lb rounds listener_fd verbose h =
     (case host_call (sys_call (Sys_accept listener_fd)) h of
        (client_fd, h) \<Rightarrow>
          if client_fd < 0 then (Returned (last_errno (h_sys h) \<in> {EINTR, EAGAIN, EWOULDBLOCK, ECONNABORTED}), h)
          else case host_call (set_nonblocking client_fd) h of
            (ok, h) \<Rightarrow>
              if \<not> ok then (Returned True, snd (host_call (sys_call (Sys_close client_fd)) h))
              else (case run_client lb rounds client_fd verbose (message ''client connected'' h) of
                (Waiting, h) \<Rightarrow> (Waiting, h)
              | (Returned reason, h) \<Rightarrow>
                  (Returned True,
                   snd (host_call (sys_call (Sys_close client_fd))
                     (message (''client disconnected: '' @ client_reason_text reason) h)))))"

text \<open>Up to \<open>n\<close> rounds of the accept loop; \<open>Waiting\<close> when it has not ended by then.\<close>

fun accept_loop :: "linux_build \<Rightarrow> nat \<Rightarrow> nat \<Rightarrow> int \<Rightarrow> bool \<Rightarrow> host \<Rightarrow> unit outcome \<times> host" where
  "accept_loop lb rounds 0 listener_fd verbose h = (Waiting, h)"
| "accept_loop lb rounds (Suc n) listener_fd verbose h =
     (case shutdown_requested (h_os h) of
        (stop, os) \<Rightarrow>
          if stop then (Returned (), h\<lparr>h_os := os\<rparr>)
          else (case wait_for_fd listener_fd os of
            (Waiting, os) \<Rightarrow> (Waiting, host_io os h)
          | (Returned ready, os) \<Rightarrow>
              let h = host_io os h in
              if ready < 0 then (Returned (), h)
              else if ready = 0 then accept_loop lb rounds n listener_fd verbose h
              else (case accept_client lb rounds listener_fd verbose h of
                (Waiting, h) \<Rightarrow> (Waiting, h)
              | (Returned go_on, h) \<Rightarrow>
                  if go_on then accept_loop lb rounds n listener_fd verbose h else (Returned (), h))))"

text \<open>The value is the exit status.\<close>

definition linux_main ::
    "linux_build \<Rightarrow> (string \<Rightarrow> u32 option) \<Rightarrow> string list \<Rightarrow> nat \<Rightarrow> nat \<Rightarrow> host \<Rightarrow> int outcome \<times> host" where
  "linux_main lb inet_pton args rounds n h =
     (case parse_args inet_pton args of
        Args_failed \<Rightarrow> (Returned 2, h)
      | Args_help \<Rightarrow> (Returned 0, h)
      | Args_ok config \<Rightarrow>
          (case host_call install_signal_handlers h of
             (ok, h) \<Rightarrow>
               if \<not> ok then (Returned 1, h)
               else case host_call (create_listener (lc_addr config)) h of
                 (listener_fd, h) \<Rightarrow>
                   if listener_fd < 0 then (Returned 1, h)
                   else case host_call (set_nonblocking listener_fd) h of
                     (ok, h) \<Rightarrow>
                       if \<not> ok then (Returned 1, snd (host_call (sys_call (Sys_close listener_fd)) h))
                       else (case accept_loop lb rounds n listener_fd (lc_verbose config)
                               (message (''listening on '' @ lc_listen_text config) h) of
                         (Waiting, h) \<Rightarrow> (Waiting, h)
                       | (Returned u, h) \<Rightarrow>
                           (Returned 0, message ''stopped'' (snd (host_call (sys_call (Sys_close listener_fd)) h))))))"

section \<open>Descriptors and memory\<close>

text \<open>
  The descriptors and blocks held after a log of calls; \<open>None\<close> when any call names a descriptor that is not open or
  frees a block that is not allocated.
\<close>

type_synonym held = "int list \<times> int list"

fun resource_step :: "syscall \<times> int \<Rightarrow> held \<Rightarrow> held option" where
  "resource_step (Sys_socket, r) (fds, blocks) = Some (if r < 0 then fds else r # fds, blocks)"
| "resource_step (Sys_accept fd, r) (fds, blocks) =
     (if fd \<in> set fds then Some (if r < 0 then fds else r # fds, blocks) else None)"
| "resource_step (Sys_close fd, r) (fds, blocks) = (if fd \<in> set fds then Some (remove1 fd fds, blocks) else None)"
| "resource_step (Sys_malloc n, r) (fds, blocks) = Some (fds, if r = 0 then blocks else r # blocks)"
| "resource_step (Sys_free p, r) (fds, blocks) =
     (if p = 0 then Some (fds, blocks) else if p \<in> set blocks then Some (fds, remove1 p blocks) else None)"
| "resource_step (Sys_setsockopt fd, r) (fds, blocks) = (if fd \<in> set fds then Some (fds, blocks) else None)"
| "resource_step (Sys_bind fd addr, r) (fds, blocks) = (if fd \<in> set fds then Some (fds, blocks) else None)"
| "resource_step (Sys_listen fd n, r) (fds, blocks) = (if fd \<in> set fds then Some (fds, blocks) else None)"
| "resource_step (Sys_getfl fd, r) (fds, blocks) = (if fd \<in> set fds then Some (fds, blocks) else None)"
| "resource_step (Sys_setfl fd fl, r) (fds, blocks) = (if fd \<in> set fds then Some (fds, blocks) else None)"
| "resource_step (Sys_io c, r) (fds, blocks) = (if io_fd c \<in> set fds then Some (fds, blocks) else None)"
| "resource_step (Sys_sigemptyset, r) (fds, blocks) = Some (fds, blocks)"
| "resource_step (Sys_sigaction n, r) (fds, blocks) = Some (fds, blocks)"
| "resource_step (Sys_signal n, r) (fds, blocks) = Some (fds, blocks)"

fun resources :: "(syscall \<times> int) list \<Rightarrow> held \<Rightarrow> held option" where
  "resources [] held = Some held"
| "resources (call # calls) held = Option.bind (resource_step call held) (resources calls)"

lemma resources_append: "resources (xs @ ys) held = Option.bind (resources xs held) (resources ys)"
  by (induction xs arbitrary: held) (auto split: bind_split)

definition held :: "sys \<Rightarrow> held option" where
  "held sys = resources (sys_calls sys) ([], [])"

text \<open>What a call does to the resources held.\<close>

lemma sys_call_held:
  "held (snd (run_state (sys_call c) sys)) =
     Option.bind (held sys) (resource_step (c, fst (run_state (sys_call c) sys)))"
  by (simp add: sys_call_def held_def Let_def resources_append split: bind_split)

lemma host_call_simps:
  "h_sys (snd (host_call f h)) = snd (run_state f (h_sys h))" "fst (host_call f h) = fst (run_state f (h_sys h))"
  "h_sys (message m h) = h_sys h"
  by (simp_all add: host_call_def message_def case_prod_unfold)

lemma host_call_os [simp]: "h_os (snd (host_call f h)) = h_os h" "h_os (message m h) = h_os h"
  by (simp_all add: host_call_def message_def case_prod_unfold)

lemmas state_simps = case_prod_unfold if_distrib [of "\<lambda>f. run_state f s" for s]

lemma install_held: "held sys = Some r \<Longrightarrow> held (snd (run_state install_signal_handlers sys)) = Some r"
  by (cases r) (simp add: install_signal_handlers_def state_simps sys_call_held)

lemma set_nonblocking_held:
  "held sys = Some (fds, blocks) \<Longrightarrow> fd \<in> set fds \<Longrightarrow> held (snd (run_state (set_nonblocking fd) sys)) = Some (fds, blocks)"
  by (simp add: set_nonblocking_def state_simps sys_call_held)

lemma create_listener_held:
  assumes "held sys = Some (fds, blocks)" "run_state (create_listener addr) sys = (fd, sys')"
  shows "held sys' = Some (if fd < 0 then fds else fd # fds, blocks)"
proof -
  have "held (snd (run_state (create_listener addr) sys)) =
      Some (if fst (run_state (create_listener addr) sys) < 0 then fds else fst (run_state (create_listener addr) sys) # fds, blocks)"
    using assms(1) by (simp add: create_listener_def state_simps sys_call_held)
  with assms(2) show ?thesis by simp
qed

text \<open>A client leaves the descriptors alone and gives its memory back when it ends.\<close>

abbreviation host_held :: "host \<Rightarrow> held option" where "host_held h \<equiv> held (h_sys h)"

lemma host_io_fields [simp]:
  "h_os (host_io os h) = os\<lparr>os_io := []\<rparr>" "h_world (host_io os h) = h_world h" "h_served (host_io os h) = h_served h"
  by (simp_all add: host_io_def)

lemma resources_io:
  "\<forall>c \<in> set io. io_fd c \<in> set fds \<Longrightarrow> resources (map (\<lambda>c. (Sys_io c, 0)) io) (fds, blocks) = Some (fds, blocks)"
  by (induction io) simp_all

lemma host_io_held:
  assumes "host_held h = Some (fds, blocks)" "\<forall>c \<in> set (os_io os). io_fd c \<in> set fds"
  shows "host_held (host_io os h) = Some (fds, blocks)"
  using assms by (simp add: held_def host_io_def resources_append resources_io)

lemma host_call_held:
  "host_call (sys_call c) h = (r, h') \<Longrightarrow> host_held h' = Option.bind (host_held h) (resource_step (c, r))"
  using sys_call_held [of c "h_sys h"] host_call_simps(1,2) [of "sys_call c" h] by simp

lemma message_held [simp]: "host_held (message m h) = host_held h"
  by (simp add: host_call_simps)

lemma close_held:
  "host_held h = Some (fds, blocks) \<Longrightarrow> fd \<in> set fds \<Longrightarrow>
     host_held (snd (host_call (sys_call (Sys_close fd)) h)) = Some (remove1 fd fds, blocks)"
  by (cases "host_call (sys_call (Sys_close fd)) h") (simp add: host_call_held)

text \<open>While it waits, a part of the program may hold up to \<open>k\<close> client descriptors and a client's memory.\<close>

definition serving :: "nat \<Rightarrow> 'a outcome \<Rightarrow> int list \<Rightarrow> host \<Rightarrow> bool" where
  "serving k r fds h \<longleftrightarrow> os_io (h_os h) = [] \<and>
     (case r of
        Returned x \<Rightarrow> host_held h = Some (fds, [])
      | Waiting \<Rightarrow> \<exists>clients blocks. host_held h = Some (clients @ fds, blocks) \<and> length clients \<le> k \<and> length blocks \<le> 1)"

lemma serving_Returned [simp]: "serving k (Returned x) fds h \<longleftrightarrow> os_io (h_os h) = [] \<and> host_held h = Some (fds, [])"
  by (simp add: serving_def)

lemma serving_Waiting: "os_io (h_os h) = [] \<Longrightarrow> host_held h = Some (fds, blocks) \<Longrightarrow> length blocks \<le> 1 \<Longrightarrow> serving k Waiting fds h"
  by (auto simp: serving_def)

lemma serving_client:
  assumes "serving 0 (Waiting :: 'a outcome) (fd # fds) h" shows "serving 1 (Waiting :: 'b outcome) fds h"
proof -
  obtain blocks where "os_io (h_os h) = []" "host_held h = Some ([fd] @ fds, blocks)" "length blocks \<le> 1"
    using assms by (auto simp: serving_def)
  then show ?thesis unfolding serving_def by fastforce
qed

lemma run_client_held:
  assumes "host_held h = Some (fds, [])" "os_io (h_os h) = []" "fd \<in> set fds" "run_client lb rounds fd verbose h = (r, h')"
  shows "serving 0 r fds h'"
proof -
  obtain arena h1 where m: "host_call (sys_call (Sys_malloc (lb_total_bytes lb))) h = (arena, h1)" by fastforce
  let ?blocks = "if arena = 0 then [] else [arena]"
  have h1: "host_held h1 = Some (fds, ?blocks)" using host_call_held [OF m] assms(1) by simp
  have io1: "os_io (h_os h1) = []" using assms(2) m host_call_os(1) [of "sys_call (Sys_malloc (lb_total_bytes lb))" h] by simp
  have free: "host_held h2' = Some (fds, []) \<and> h_os h2' = h_os h2"
    if "host_call (sys_call (Sys_free arena)) h2 = (r, h2')" "host_held h2 = Some (fds, ?blocks)" for h2 h2' r
    using host_call_held [OF that(1)] that host_call_os(1) [of "sys_call (Sys_free arena)" h2] by simp
  obtain start world where s: "run_client_start (lb_core lb) (lb_assets lb) (lb_total_bytes lb)
      (if arena = 0 then None else Some (lb_heap lb arena)) (h_world h1) (lb_stack lb (length (h_served h1))) fd verbose (h_os h1)
      = (start, world)" by fastforce
  show ?thesis
  proof (cases start)
    case (Inl reason)
    with assms(4) m s free [of "h1\<lparr>h_world := world\<rparr>"] h1 io1 show ?thesis by (auto simp: run_client_def split: prod.splits)
  next
    case (Inr st)
    obtain r1 st1 where c: "client_rounds (lb_core lb) world (lb_ticks_per_second lb) rounds st = (r1, st1)" by fastforce
    have "client_on fd st1"
      using client_rounds_on [OF run_client_start_on [OF s [unfolded Inr] io1], of "lb_core lb" world "lb_ticks_per_second lb" rounds] c by simp
    with assms(3) have "\<forall>c \<in> set (os_io (cl_os st1)). io_fd c \<in> set fds" by (simp add: client_on_def)
    with h1 have io: "host_held (host_io (cl_os st1) (h1\<lparr>h_world := world\<rparr>)) = Some (fds, ?blocks)" by (simp add: host_io_held)
    with assms(4) m s Inr c free [OF _ io] show ?thesis
      by (auto simp: run_client_def intro!: serving_Waiting split: prod.splits outcome.splits option.splits)
  qed
qed

lemma accept_client_held:
  assumes "host_held h = Some (fds, [])" "os_io (h_os h) = []" "fd \<in> set fds" "accept_client lb rounds fd verbose h = (r, h')"
  shows "serving 1 r fds h'"
proof -
  obtain client h1 where a: "host_call (sys_call (Sys_accept fd)) h = (client, h1)" by fastforce
  have h1: "host_held h1 = Some (if client < 0 then fds else client # fds, [])" using host_call_held [OF a] assms(1,3) by simp
  obtain ok h2 where n: "host_call (set_nonblocking client) h1 = (ok, h2)" by fastforce
  have h2: "host_held h2 = Some (client # fds, [])" if "\<not> client < 0"
    using set_nonblocking_held [of "h_sys h1" "client # fds" "[]" client] h1 that n host_call_simps(1) [of "set_nonblocking client" h1]
    by simp
  have io: "os_io (h_os h1) = []" "os_io (h_os h2) = []"
    using assms(2) a n host_call_os(1) [of "sys_call (Sys_accept fd)" h] host_call_os(1) [of "set_nonblocking client" h1]
    by simp_all
  obtain r3 h3 where c: "run_client lb rounds client verbose (message ''client connected'' h2) = (r3, h3)" by fastforce
  have h3: "serving 0 r3 (client # fds) h3" if "\<not> client < 0"
    using run_client_held [OF _ _ _ c] h2 [OF that] io by (simp add: host_call_simps)
  show ?thesis
    using assms(4) a n c h1 h2 h3 io serving_client
    by (auto simp: accept_client_def close_held split: if_splits outcome.splits)
qed

lemma accept_loop_held:
  assumes "host_held h = Some (fds, [])" "os_io (h_os h) = []" "fd \<in> set fds" "accept_loop lb rounds n fd verbose h = (r, h')"
  shows "serving 1 r fds h'"
  using assms(1,2,4)
proof (induction n arbitrary: h)
  case (Suc n)
  obtain stop os where s: "shutdown_requested (h_os h) = (stop, os)" by fastforce
  obtain w os1 where w: "wait_for_fd fd os = (w, os1)" by fastforce
  have "\<forall>c \<in> set (os_io os1). io_fd c \<in> set fds"
    using wait_io [OF w] shutdown_io [OF s] Suc(3) assms(3) by auto
  then have io: "host_held (host_io os1 h) = Some (fds, [])" using Suc(2) by (simp add: host_io_held)
  obtain r1 h1 where a: "accept_client lb rounds fd verbose (host_io os1 h) = (r1, h1)" by fastforce
  have a1: "serving 1 r1 fds h1" using accept_client_held [OF io _ assms(3) a] by simp
  from Suc(4) s w a io a1 Suc(1) [of "host_io os1 h"] Suc(1) [of h1] Suc(2,3) shutdown_io [OF s] show ?case
    by (auto simp: Let_def serving_def split: if_splits outcome.splits)
qed (auto intro: serving_Waiting)

section \<open>What the clients are sent\<close>

text \<open>
  The \<open>i\<close>-th client: it was sent nothing when its map could not be loaded, and else what a fresh server on its own
  fresh ring sends under some sequence of calls: streams that were cut off from whole packets where the server dropped
  its queue, and last the part of a stream of whole packets that had left the queue.
\<close>

definition client_served :: "linux_build \<Rightarrow> nat \<Rightarrow> mc_linux_client_reason \<Rightarrow> byte list \<Rightarrow> bool" where
  "client_served lb i reason bytes \<longleftrightarrow>
     (if reason = MC_LINUX_CLIENT_WORLD_INIT_FAILURE then bytes = []
      else \<exists>world verbose es server tx fresh.
        let start = client_start (lb_core lb) (lb_stack lb i) verbose; streams = server_streams (lb_core lb) world es start
        in map_loaded world (lb_assets lb) \<and> server_drives (lb_core lb) world es start = Some (server, tx, fresh) \<and>
           bytes = server_outputs (lb_core lb) world es start \<and> bytes = concat (map fst streams) @ fresh \<and>
           (\<forall>(taken, dropped) \<in> set streams. whole_frames (taken @ dropped)) \<and> whole_frames (fresh @ rb_contents tx))"

definition linux_build_ok :: "linux_build \<Rightarrow> bool" where
  "linux_build_ok lb \<longleftrightarrow> config_ok (lb_core lb) \<and> list_all asset_ok (lb_assets lb) \<and>
     (\<forall>p. lb_total_bytes lb \<le> length (lb_heap lb p)) \<and> (\<forall>i. length (lb_stack lb i) = 49152)"

definition clients_ok :: "linux_build \<Rightarrow> world_compressed \<Rightarrow> (mc_linux_client_reason \<times> byte list) list \<Rightarrow> bool" where
  "clients_ok lb world served \<longleftrightarrow> length (wc_runtime_chunks world) = MC_WORLD_COMPRESSED_MAX_CHUNKS \<and>
     (\<forall>i < length served. client_served lb i (fst (served ! i)) (snd (served ! i)))"

abbreviation host_ok :: "linux_build \<Rightarrow> host \<Rightarrow> bool" where "host_ok lb h \<equiv> clients_ok lb (h_world h) (h_served h)"

lemma host_call_served: "host_call f h = (r, h') \<Longrightarrow> h_world h' = h_world h \<and> h_served h' = h_served h \<and> h_os h' = h_os h"
  by (auto simp: host_call_def split: prod.splits)

lemma host_call_snd [simp]:
  "h_world (snd (host_call f h)) = h_world h" "h_served (snd (host_call f h)) = h_served h"
  "h_world (message m h) = h_world h" "h_served (message m h) = h_served h"
  by (simp_all add: host_call_def message_def case_prod_unfold)

lemma clients_ok_snoc:
  "clients_ok lb world served \<Longrightarrow> length (wc_runtime_chunks world') = MC_WORLD_COMPRESSED_MAX_CHUNKS \<Longrightarrow>
     client_served lb (length served) reason bytes \<Longrightarrow> clients_ok lb world' (served @ [(reason, bytes)])"
  by (auto simp: clients_ok_def nth_append less_Suc_eq)

lemma clients_ok_world:
  "clients_ok lb world served \<Longrightarrow> length (wc_runtime_chunks world') = MC_WORLD_COMPRESSED_MAX_CHUNKS \<Longrightarrow>
     clients_ok lb world' served"
  by (simp add: clients_ok_def)

lemma run_client_start_chunks:
  "run_client_start cfg assets total_bytes arena world tx_storage fd verbose os = (r, world') \<Longrightarrow>
     length (wc_runtime_chunks world') = length (wc_runtime_chunks world) \<and>
     (\<forall>reason. r = Inl reason \<longrightarrow> reason = MC_LINUX_CLIENT_WORLD_INIT_FAILURE)"
  by (auto simp: run_client_start_def Let_def dest: init_chunks_length split: option.splits prod.splits if_splits)

lemma client_served_loop:
  assumes "linux_build_ok lb" "length (wc_runtime_chunks world) = MC_WORLD_COMPRESSED_MAX_CHUNKS"
    "arena = None \<or> arena = Some (lb_heap lb p)"
    "run_client_start (lb_core lb) (lb_assets lb) (lb_total_bytes lb) arena world (lb_stack lb i) fd verbose os = (Inr st, world')"
    "client_rounds (lb_core lb) world' ticks_per_second n st = (Returned (Some reason), st')"
  shows "client_served lb i reason (cl_sent st')"
proof -
  let ?c = "client_start (lb_core lb) (lb_stack lb i) verbose"
  obtain block where block: "arena = Some block"
    "mc_world_compressed_init (lb_core lb) (lb_assets lb) (lb_total_bytes lb) (lb_total_bytes lb)
       (world\<lparr>wc_arena := block\<rparr>) = (True, world')"
    using run_client_start_result(2) [OF assms(4)] by blast
  have lb: "config_ok (lb_core lb)" "list_all asset_ok (lb_assets lb)" "lb_total_bytes lb \<le> length block"
    "length (lb_stack lb i) = 49152"
    using assms(1,3) block(1) by (auto simp: linux_build_ok_def)
  have m: "map_loaded world' (lb_assets lb)"
    using init_map_loaded(2) [OF block(2) lb(2)] lb(3) assms(2) by simp
  have good: "driven_ok (lb_core lb) world' (lb_assets lb) ?c"
    by (rule client_start_good [OF lb(1,4)]) (simp add: world_loaded_def m)
  have "client_kept (lb_core lb) world' ?c (os_recvs os) (Returned (Some reason), st')"
    using client_rounds_kept [OF run_client_start_result(1) [OF assms(4)], of ticks_per_second n] assms(5) by simp
  then obtain es server tx where es: "server_drives (lb_core lb) world' es ?c = Some (server, tx, cl_fresh st')"
    "cl_sent st' = server_outputs (lb_core lb) world' es ?c"
    unfolding client_kept_def client_ok_def client_refused_def client_upto_def by auto
  have "loop_reason reason"
    using client_rounds_reason [of "lb_core lb" world' ticks_per_second n st] assms(5) by (simp add: loop_result_def)
  then have "reason \<noteq> MC_LINUX_CLIENT_WORLD_INIT_FAILURE" by (simp add: loop_reason_def)
  with m es client_streams [OF good es(1)] show ?thesis
    unfolding client_served_def Let_def by (simp only: if_False) metis
qed

lemma run_client_ok:
  assumes "linux_build_ok lb" "host_ok lb h" "run_client lb rounds fd verbose h = (r, h')"
  shows "host_ok lb h'"
proof -
  obtain p h1 where m: "host_call (sys_call (Sys_malloc (lb_total_bytes lb))) h = (p, h1)" by fastforce
  note h1 = host_call_served [OF m]
  let ?arena = "if p = 0 then None else Some (lb_heap lb p)"
  obtain start world where s: "run_client_start (lb_core lb) (lb_assets lb) (lb_total_bytes lb) ?arena (h_world h1)
      (lb_stack lb (length (h_served h1))) fd verbose (h_os h1) = (start, world)" by fastforce
  have chunks: "length (wc_runtime_chunks (h_world h1)) = MC_WORLD_COMPRESSED_MAX_CHUNKS" "host_ok lb h1"
    using assms(2) h1 by (simp_all add: clients_ok_def)
  then have w: "length (wc_runtime_chunks world) = MC_WORLD_COMPRESSED_MAX_CHUNKS"
    using run_client_start_chunks [OF s] by simp
  note add = clients_ok_snoc [OF chunks(2) w] and keep = clients_ok_world [OF chunks(2) w]
  show ?thesis
  proof (cases start)
    case (Inl reason)
    then have "client_served lb i reason []" for i using run_client_start_chunks [OF s] by (simp add: client_served_def)
    with assms(3) m s Inl add show ?thesis
      by (auto simp: run_client_def dest: host_call_served split: prod.splits)
  next
    case (Inr st)
    obtain r1 st1 where c: "client_rounds (lb_core lb) world (lb_ticks_per_second lb) rounds st = (r1, st1)" by fastforce
    have "client_served lb (length (h_served h1)) reason (cl_sent st1)" if "r1 = Returned (Some reason)" for reason
      by (rule client_served_loop [where p = p, OF assms(1) chunks(1) _ s [unfolded Inr] c [unfolded that]]) simp
    with assms(3) m s Inr c add keep show ?thesis
      by (auto simp: run_client_def dest: host_call_served split: prod.splits outcome.splits option.splits)
  qed
qed

lemma accept_client_ok:
  assumes "linux_build_ok lb" "host_ok lb h" "accept_client lb rounds fd verbose h = (r, h')"
  shows "host_ok lb h'"
proof -
  obtain client h1 where a: "host_call (sys_call (Sys_accept fd)) h = (client, h1)" by fastforce
  obtain ok h2 where n: "host_call (set_nonblocking client) h1 = (ok, h2)" by fastforce
  obtain r3 h3 where c: "run_client lb rounds client verbose (message ''client connected'' h2) = (r3, h3)" by fastforce
  have ok2: "host_ok lb h1" "host_ok lb h2" using assms(2) host_call_served [OF a] host_call_served [OF n] by simp_all
  have "host_ok lb h3" using run_client_ok [OF assms(1) _ c] ok2 by simp
  with ok2 assms(3) a n c show ?thesis by (auto simp: accept_client_def split: if_splits outcome.splits)
qed

lemma accept_loop_ok:
  assumes "linux_build_ok lb" "host_ok lb h" "accept_loop lb rounds n fd verbose h = (r, h')"
  shows "host_ok lb h'"
  using assms(2,3)
proof (induction n arbitrary: h)
  case (Suc n)
  obtain stop os where s: "shutdown_requested (h_os h) = (stop, os)" by fastforce
  obtain w os1 where w: "wait_for_fd fd os = (w, os1)" by fastforce
  obtain r1 h1 where a: "accept_client lb rounds fd verbose (host_io os1 h) = (r1, h1)" by fastforce
  have "host_ok lb h1" using accept_client_ok [OF assms(1) _ a] Suc(2) by simp
  with Suc(3) s w a Suc(2) Suc(1) [of "host_io os1 h"] Suc(1) [of h1] show ?case
    by (auto simp: Let_def split: if_splits outcome.splits)
qed simp

section \<open>Properties\<close>

text \<open>C12: the hosted server leaks nothing and misuses nothing: however the system calls fail and whatever the clients
  do, when \<open>main\<close> returns every descriptor it obtained has been closed exactly once and every block freed, on the
  error paths too, and the exit status is 0, 1 or 2. No call, those of \<open>poll\<close>, \<open>send\<close>, \<open>recv\<close> and \<open>close\<close> included, ever
  names a descriptor that is not open at that moment. While it runs it holds the listener, at most one client and at
  most one client's memory.\<close>

theorem linux_main_releases_resources:
  assumes "sys_calls (h_sys h) = []" "os_io (h_os h) = []" "linux_main lb inet_pton args rounds n h = (r, h')"
  shows "case r of
      Returned status \<Rightarrow> resources (sys_calls (h_sys h')) ([], []) = Some ([], []) \<and> (status = 0 \<or> status = 1 \<or> status = 2)
    | Waiting \<Rightarrow> \<exists>listener clients blocks. resources (sys_calls (h_sys h')) ([], []) = Some (clients @ [listener], blocks) \<and>
        length clients \<le> 1 \<and> length blocks \<le> 1"
proof (cases "parse_args inet_pton args")
  case (Args_ok config)
  obtain ok1 h1 where 1: "host_call install_signal_handlers h = (ok1, h1)" by fastforce
  have h1: "host_held h1 = Some ([], [])"
    using install_held [of "h_sys h" "([], [])"] assms(1) host_call_simps(1) [of install_signal_handlers h] 1 by (simp add: held_def)
  obtain fd h2 where 2: "host_call (create_listener (lc_addr config)) h1 = (fd, h2)" by fastforce
  have h2: "host_held h2 = Some (if fd < 0 then [] else [fd], [])"
    using create_listener_held [OF h1, of "lc_addr config"] 2 by (auto simp: host_call_def split: prod.splits)
  obtain ok3 h3 where 3: "host_call (set_nonblocking fd) h2 = (ok3, h3)" by fastforce
  have h3: "host_held h3 = Some ([fd], [])" if "\<not> fd < 0"
    using set_nonblocking_held [of "h_sys h2" "[fd]" "[]" fd] h2 that host_call_simps(1) [of "set_nonblocking fd" h2] 3 by simp
  obtain r4 h4 where 4: "accept_loop lb rounds n fd (lc_verbose config) (message (''listening on '' @ lc_listen_text config) h3) = (r4, h4)"
    by fastforce
  have "h_os h3 = h_os h"
    using host_call_os(1) [of install_signal_handlers h] host_call_os(1) [of "create_listener (lc_addr config)" h1]
      host_call_os(1) [of "set_nonblocking fd" h2] 1 2 3 by simp
  then have h4: "serving 1 r4 [fd] h4" if "\<not> fd < 0"
    using accept_loop_held [OF _ _ _ 4, of "[fd]"] h3 [OF that] assms(2) by (simp add: host_call_simps)
  show ?thesis
  proof (cases r4)
    case (Returned u)
    with assms(3) 1 2 3 4 h1 h2 h3 h4 Args_ok show ?thesis
      by (auto simp: linux_main_def close_held held_def [symmetric] split: if_splits)
  next
    case Waiting
    with assms(3) 1 2 3 4 h1 h2 h3 h4 Args_ok show ?thesis
      by (auto simp: linux_main_def serving_def close_held held_def [symmetric] split: if_splits)
  qed
qed (use assms in \<open>auto simp: linux_main_def held_def\<close>)

theorem linux_main_releases_resources_witness:
  "let sys = \<lparr>sys_result = (\<lambda>k. if k = 4 then 3 else if k = 5 then -1 else 0), sys_errno = (\<lambda>k. E_other), sys_calls = []\<rparr>;
       os = \<lparr>os_polls = [], os_sends = [], os_recvs = [], os_clock = [], os_shutdown = [], os_io = []\<rparr>;
       world = \<lparr>wc_arena = [], wc_runtime_chunks = [], wc_runtime_chunk_count = 0, wc_runtime_ready = False\<rparr>;
       lb = \<lparr>lb_core = \<lparr>cfg_compression = True, cfg_psram_map = True, cfg_threshold = 1, cfg_keepalive_interval = 1\<rparr>,
         lb_assets = [], lb_total_bytes = 0, lb_ticks_per_second = 1000, lb_heap = (\<lambda>p. []), lb_stack = (\<lambda>k. [])\<rparr>
   in \<exists>h'. linux_main lb (\<lambda>host. Some 0) [] 1 1 \<lparr>h_sys = sys, h_os = os, h_world = world, h_served = [], h_messages = []\<rparr> =
        (Returned 1, h') \<and> resources (sys_calls (h_sys h')) ([], []) = Some ([], [])"
proof -
  let ?sys = "\<lparr>sys_result = (\<lambda>k. if k = 4 then 3 else if k = 5 then -1 else 0), sys_errno = (\<lambda>k. E_other), sys_calls = []\<rparr>"
  let ?os = "\<lparr>os_polls = [], os_sends = [], os_recvs = [], os_clock = [], os_shutdown = [], os_io = []\<rparr>"
  let ?world = "\<lparr>wc_arena = [], wc_runtime_chunks = [], wc_runtime_chunk_count = 0, wc_runtime_ready = False\<rparr>"
  let ?lb = "\<lparr>lb_core = \<lparr>cfg_compression = True, cfg_psram_map = True, cfg_threshold = 1, cfg_keepalive_interval = 1\<rparr>,
      lb_assets = [], lb_total_bytes = 0, lb_ticks_per_second = 1000, lb_heap = (\<lambda>p. []), lb_stack = (\<lambda>k. [])\<rparr>"
  let ?h = "\<lparr>h_sys = ?sys, h_os = ?os, h_world = ?world, h_served = [], h_messages = []\<rparr>"
  obtain r h' where m: "linux_main ?lb (\<lambda>host. Some 0) [] 1 1 ?h = (r, h')" by fastforce
  obtain config where "parse_args (\<lambda>host. Some 0) [] = Args_ok config"
    using parse_listen_default [of "\<lambda>host. Some 0" 0] by (simp add: parse_args_def)
  with m have "r = Returned 1"
    by (auto simp: linux_main_def host_call_def install_signal_handlers_def create_listener_def sys_call_def Let_def
        state_simps split: if_splits)
  with linux_main_releases_resources [OF _ _ m] m show ?thesis unfolding Let_def by auto
qed

text \<open>C11: every client is served on its own: whatever the clients do and however the system calls fail, a client whose map
  could not be loaded is sent nothing, and the bytes that the socket of any other client took are what a freshly
  initialised server on a freshly initialised ring sends under some sequence of calls, so that nothing of one
  connection reaches the next. They are one stream behind the other: what was taken of a stream that ended inside the
  connection is whole packets with what was dropped of it at its end, and what was taken of the last one is whole packets
  with what was still queued when the connection ended.\<close>

theorem linux_main_isolates_clients:
  assumes "linux_build_ok lb" "length (wc_runtime_chunks (h_world h)) = MC_WORLD_COMPRESSED_MAX_CHUNKS" "h_served h = []"
    "linux_main lb inet_pton args rounds n h = (r, h')" "i < length (h_served h')" "h_served h' ! i = (reason, bytes)"
  shows "if reason = MC_LINUX_CLIENT_WORLD_INIT_FAILURE then bytes = []
    else \<exists>world verbose es server tx fresh.
      let start = client_start (lb_core lb) (lb_stack lb i) verbose; streams = server_streams (lb_core lb) world es start
      in map_loaded world (lb_assets lb) \<and> server_drives (lb_core lb) world es start = Some (server, tx, fresh) \<and>
         bytes = server_outputs (lb_core lb) world es start \<and> bytes = concat (map fst streams) @ fresh \<and>
         (\<forall>(taken, dropped) \<in> set streams. whole_frames (taken @ dropped)) \<and> whole_frames (fresh @ rb_contents tx)"
proof -
  have ok: "host_ok lb h" using assms(2,3) by (simp add: clients_ok_def)
  have "host_ok lb h'"
  proof (cases "parse_args inet_pton args")
    case (Args_ok config)
    obtain ok1 h1 where 1: "host_call install_signal_handlers h = (ok1, h1)" by fastforce
    obtain fd h2 where 2: "host_call (create_listener (lc_addr config)) h1 = (fd, h2)" by fastforce
    obtain ok3 h3 where 3: "host_call (set_nonblocking fd) h2 = (ok3, h3)" by fastforce
    obtain r4 h4 where 4: "accept_loop lb rounds n fd (lc_verbose config) (message (''listening on '' @ lc_listen_text config) h3) = (r4, h4)"
      by fastforce
    have ok3: "host_ok lb h1" "host_ok lb h2" "host_ok lb h3"
      using ok host_call_served [OF 1] host_call_served [OF 2] host_call_served [OF 3] by simp_all
    have "host_ok lb h4" using accept_loop_ok [OF assms(1) _ 4] ok3 by simp
    with ok3 assms(4) 1 2 3 4 Args_ok show ?thesis by (auto simp: linux_main_def split: if_splits outcome.splits)
  qed (use assms(4) ok in \<open>auto simp: linux_main_def\<close>)
  with assms(5,6) show ?thesis unfolding clients_ok_def client_served_def [symmetric] by fastforce
qed

theorem linux_main_isolates_clients_witness:
  "let a = \<lparr>as_chunk_x = 0, as_chunk_z = 0, as_raw_body_len = 9, as_compressed_len = 2, as_compressed = Some [120, 156]\<rparr>;
       c = \<lparr>wc_chunk_x = 0, wc_chunk_z = 0, wc_raw_body_len = 0, wc_compressed_len = 0, wc_compressed = 0\<rparr>;
       sys = \<lparr>sys_result = (\<lambda>k. if k = 4 then 3 else if k = 11 then 5 else if k = 14 then 100 else 0), sys_errno = (\<lambda>k. E_other),
         sys_calls = []\<rparr>;
       os = \<lparr>os_polls = [Poll_ready False True False, Poll_ready False True False], os_sends = [], os_recvs = [Recv_bytes []],
         os_clock = [None], os_shutdown = [], os_io = []\<rparr>;
       world = \<lparr>wc_arena = [], wc_runtime_chunks = replicate 32 c, wc_runtime_chunk_count = 0, wc_runtime_ready = False\<rparr>;
       lb = \<lparr>lb_core = \<lparr>cfg_compression = True, cfg_psram_map = True, cfg_threshold = 1, cfg_keepalive_interval = 1\<rparr>,
         lb_assets = [a], lb_total_bytes = 2, lb_ticks_per_second = 1000, lb_heap = (\<lambda>p. [0, 0]),
         lb_stack = (\<lambda>k. replicate 49152 0)\<rparr>
   in \<exists>h'. linux_main lb (\<lambda>host. Some 0) [] 1 2 \<lparr>h_sys = sys, h_os = os, h_world = world, h_served = [], h_messages = []\<rparr> =
        (Waiting, h') \<and> h_served h' = [(MC_LINUX_CLIENT_PEER_CLOSE, [])] \<and>
        (\<exists>world verbose es. map_loaded world [a] \<and>
           [] = server_outputs (lb_core lb) world es (client_start (lb_core lb) (lb_stack lb 0) verbose))"
proof -
  let ?cfg = "\<lparr>cfg_compression = True, cfg_psram_map = True, cfg_threshold = 1, cfg_keepalive_interval = 1\<rparr>"
  let ?a = "\<lparr>as_chunk_x = 0, as_chunk_z = 0, as_raw_body_len = 9, as_compressed_len = 2, as_compressed = Some [120, 156]\<rparr>"
  let ?c = "\<lparr>wc_chunk_x = 0, wc_chunk_z = 0, wc_raw_body_len = 0, wc_compressed_len = 0, wc_compressed = 0\<rparr>"
  let ?sys = "\<lparr>sys_result = (\<lambda>k. if k = 4 then 3 else if k = 11 then 5 else if k = 14 then 100 else 0), sys_errno = (\<lambda>k. E_other),
      sys_calls = []\<rparr>"
  let ?os = "\<lparr>os_polls = [Poll_ready False True False, Poll_ready False True False], os_sends = [], os_recvs = [Recv_bytes []],
      os_clock = [None], os_shutdown = [], os_io = []\<rparr>"
  let ?os1 = "?os\<lparr>os_polls := [Poll_ready False True False]\<rparr>"
  let ?os2 = "?os\<lparr>os_clock := [], os_polls := [], os_recvs := []\<rparr>"
  let ?world = "\<lparr>wc_arena = [], wc_runtime_chunks = replicate 32 ?c, wc_runtime_chunk_count = 0, wc_runtime_ready = False\<rparr>"
  let ?lb = "\<lparr>lb_core = ?cfg, lb_assets = [?a], lb_total_bytes = 2, lb_ticks_per_second = 1000, lb_heap = (\<lambda>p. [0, 0]),
      lb_stack = (\<lambda>k. replicate 49152 0)\<rparr>"
  let ?h = "\<lparr>h_sys = ?sys, h_os = ?os, h_world = ?world, h_served = [], h_messages = []\<rparr>"
  let ?st = "\<lparr>cl_fd = 5, cl_os = ?os1, cl_server = mc_server_init ?cfg, cl_tx = mc_ringbuf_init (replicate 49152 0) 49152,
      cl_sent = [], cl_fresh = []\<rparr>"
  have "compressed_chunk_frame_valid 9 2"
    by (auto simp: compressed_chunk_frame_valid_def Let_def varint_bytes_def leb128.simps)
  then obtain world' where "mc_world_compressed_init ?cfg [?a] 2 2 (?world\<lparr>wc_arena := [0, 0]\<rparr>) = (True, world')"
    by (simp add: mc_world_compressed_init_def)
  then have s: "run_client_start ?cfg [?a] 2 (Some [0, 0]) ?world (replicate 49152 0) 5 False ?os1 = (Inr ?st, world')"
    by (simp add: run_client_start_def)
  have e: "drain_tx st = (Returned None, st)" if "cl_tx st = cl_tx ?st" for st
    using that by (simp add: drain_tx.simps mc_ringbuf_len_def mc_ringbuf_init_def)
  have "mc_server_tick_at ?cfg world' 0 (cl_server ?st) (cl_tx ?st) =
      (True, (mc_server_init ?cfg)\<lparr>sv_ticks := 1\<rparr>, cl_tx ?st)"
    by (simp add: mc_server_tick_at_def mc_server_init_def reset_play_runtime_state_def tick_keepalive_def)
  then have c: "client_round ?cfg world' 1000 ?st = (Returned (Some MC_LINUX_CLIENT_PEER_CLOSE),
      ?st\<lparr>cl_os := ?os2\<lparr>os_io := [Io_poll 5, Io_recv 5]\<rparr>, cl_server := (mc_server_init ?cfg)\<lparr>sv_ticks := 1\<rparr>\<rparr>)"
    by (simp add: client_round_def e shutdown_requested_def monotonic_ticks_def Let_def client_receive_def
        wait_for_fd.simps poll_result_def client_input_def log_io_def calls_made_def)
  obtain config where p: "parse_args (\<lambda>host. Some 0) [] = Args_ok config" "lc_verbose config = False"
    using parse_listen_default [of "\<lambda>host. Some 0" 0] by (simp add: parse_args_def)
  obtain r h' where m: "linux_main ?lb (\<lambda>host. Some 0) [] 1 2 ?h = (r, h')" by fastforce
  let ?calls = "[(Sys_sigemptyset, 0), (Sys_sigaction SIGINT, 0), (Sys_sigaction SIGTERM, 0), (Sys_signal SIGPIPE, 0),
      (Sys_socket, 3), (Sys_setsockopt 3, 0), (Sys_bind 3 (lc_addr config), 0), (Sys_listen 3 1, 0), (Sys_getfl 3, 0),
      (Sys_setfl 3 O_NONBLOCK, 0)]"
  let ?h1 = "?h\<lparr>h_sys := ?sys\<lparr>sys_calls := ?calls\<rparr>, h_messages := [''listening on '' @ lc_listen_text config]\<rparr>"
  obtain r2 h2 where a: "accept_client ?lb 1 3 False (host_io (?os1\<lparr>os_io := [Io_poll 3]\<rparr>) ?h1) = (r2, h2)" by fastforce
  then have h2: "r2 = Returned True \<and> h_served h2 = [(MC_LINUX_CLIENT_PEER_CLOSE, [])] \<and> h_os h2 = ?os2"
    using s c by (auto simp: accept_client_def run_client_def host_call_def set_nonblocking_def sys_call_def message_def
        host_io_def Let_def state_simps)
  let ?h3 = "host_io (?os2\<lparr>os_io := [Io_poll 3]\<rparr>) h2"
  have "accept_loop ?lb 1 (Suc 0) 3 False h2 = (Waiting, ?h3)"
    using h2 by (simp add: shutdown_requested_def wait_for_fd.simps log_io_def)
  then have acc: "accept_loop ?lb 1 2 3 False ?h1 = (Waiting, ?h3)"
    using a h2 by (simp add: numeral_2_eq_2 shutdown_requested_def wait_for_fd.simps poll_result_def log_io_def Let_def)
  have "linux_main ?lb (\<lambda>host. Some 0) [] 1 2 ?h = (Waiting, ?h3)"
    using p acc by (simp add: linux_main_def host_call_def install_signal_handlers_def create_listener_def
        set_nonblocking_def sys_call_def message_def Let_def state_simps)
  with m h2 have r: "r = Waiting" "h_served h' = [(MC_LINUX_CLIENT_PEER_CLOSE, [])]" by auto
  have "linux_build_ok ?lb" by (simp add: linux_build_ok_def config_ok_def asset_ok_def)
  from linux_main_isolates_clients [OF this _ _ m, of 0 MC_LINUX_CLIENT_PEER_CLOSE "[]"] r
  obtain world verbose es where "map_loaded world [?a]" "[] = server_outputs ?cfg world es (client_start ?cfg (replicate 49152 0) verbose)"
    by (auto simp: Let_def)
  with m r show ?thesis unfolding Let_def linux_build.simps by blast
qed

end
